(* ===== verification/Nanami_Prelude.thy ===== *)
theory Nanami_Prelude
  imports Main "HOL-Library.Word"
begin

unbundle bit_operations_syntax

text \<open>
  Shared vocabulary of the development: the machine word of both supported targets (x86_64 and
  AArch64, so \<open>usize\<close> and \<open>nun::Word\<close> have 64 bits), the error values of capability operations,
  results as sums, the checked and wrapping arithmetic of \<open>usize\<close>, and generic facts on lists
  that several components use. The repository is built with Cargo's release profile, whose
  unchecked \<open>+\<close>, \<open>-\<close> and \<open>*\<close> wrap around.
\<close>

section \<open>Machine words and results\<close>

type_synonym machine_word = "64 word"

text \<open>
  \<open>nun::CapabilityError\<close> belongs to the Nun submodule. The sources only compare it with the
  variants named here; every other variant is passed through unchanged and is represented by
  \<open>OtherCapabilityError\<close>.
\<close>

datatype capability_error =
    InvalidArgument
  | PermissionDenied
  | IllegalOperation
  | Fatal
  | OtherCapabilityError nat

type_synonym 'a cap_result = "capability_error + 'a"

section \<open>Collections of facts\<close>

named_theorems frame_simps \<open>what an operation leaves unchanged\<close>
named_theorems bound_intros \<open>bounds kept by an operation\<close>

section \<open>Unsigned arithmetic of usize\<close>

text \<open>
  Where a component computes with sizes and page numbers, \<open>usize\<close> values are natural numbers below
  \<open>usize_limit\<close>, with the checks and the wrap-around of the source written out.
\<close>

definition usize_limit :: nat where
  "usize_limit = 2 ^ 64"

definition checked_add :: "nat \<Rightarrow> nat \<Rightarrow> nat option" where
  "checked_add a b = (if a + b < usize_limit then Some (a + b) else None)"

definition checked_mul :: "nat \<Rightarrow> nat \<Rightarrow> nat option" where
  "checked_mul a b = (if a * b < usize_limit then Some (a * b) else None)"

definition checked_sub :: "nat \<Rightarrow> nat \<Rightarrow> nat option" where
  "checked_sub a b = (if b \<le> a then Some (a - b) else None)"

definition wrapping_add :: "nat \<Rightarrow> nat \<Rightarrow> nat" where
  "wrapping_add a b = (a + b) mod usize_limit"

definition wrapping_mul :: "nat \<Rightarrow> nat \<Rightarrow> nat" where
  "wrapping_mul a b = (a * b) mod usize_limit"

definition saturating_add :: "nat \<Rightarrow> nat \<Rightarrow> nat" where
  "saturating_add a b = min (a + b) (usize_limit - 1)"

definition saturating_mul :: "nat \<Rightarrow> nat \<Rightarrow> nat" where
  "saturating_mul a b = min (a * b) (usize_limit - 1)"

lemma usize_limit_pos [simp]: "0 < usize_limit"
  by (simp add: usize_limit_def)

lemma checked_add_Some_iff [simp]:
  "checked_add a b = Some c \<longleftrightarrow> c = a + b \<and> a + b < usize_limit"
  by (auto simp: checked_add_def)

lemma checked_add_None_iff [simp]: "checked_add a b = None \<longleftrightarrow> usize_limit \<le> a + b"
  by (auto simp: checked_add_def)

lemma checked_mul_Some_iff [simp]:
  "checked_mul a b = Some c \<longleftrightarrow> c = a * b \<and> a * b < usize_limit"
  by (auto simp: checked_mul_def)

lemma checked_mul_None_iff [simp]: "checked_mul a b = None \<longleftrightarrow> usize_limit \<le> a * b"
  by (auto simp: checked_mul_def)

lemma checked_sub_Some_iff [simp]: "checked_sub a b = Some c \<longleftrightarrow> b \<le> a \<and> c = a - b"
  by (auto simp: checked_sub_def)

lemma checked_sub_None_iff [simp]: "checked_sub a b = None \<longleftrightarrow> a < b"
  by (auto simp: checked_sub_def)

lemma wrapping_add_small [simp]: "a + b < usize_limit \<Longrightarrow> wrapping_add a b = a + b"
  by (simp add: wrapping_add_def)

lemma wrapping_mul_small [simp]: "a * b < usize_limit \<Longrightarrow> wrapping_mul a b = a * b"
  by (simp add: wrapping_mul_def)

lemma saturating_add_small [simp]: "a + b < usize_limit \<Longrightarrow> saturating_add a b = a + b"
  by (simp add: saturating_add_def)

lemma saturating_mul_small [simp]: "a * b < usize_limit \<Longrightarrow> saturating_mul a b = a * b"
  by (simp add: saturating_mul_def)

section \<open>Bits of words\<close>

lemma word_less_exp_bit:
  fixes w :: "'a::len word"
  assumes "w < 2 ^ m" and "bit w n"
  shows "n < m"
proof -
  have "w AND mask m = w" using assms(1) by (rule less_mask_eq)
  with assms(2) have "bit (w AND mask m) n" by simp
  then show ?thesis by (simp add: bit_simps)
qed

section \<open>Fixed arrays of optional entries\<close>

text \<open>
  \<open>array_get\<close> is \<open>.get(i).copied().flatten()\<close>. \<open>array_set\<close> and \<open>array_modify\<close> are the indexed
  assignment \<open>xs[i] = v\<close> and \<open>xs[i].as_mut().unwrap()\<close>; their \<open>None\<close> is the panic of an index out
  of bounds or of an absent entry. \<open>flat_any\<close> is \<open>.iter().flatten().any(..)\<close> and \<open>first_index\<close> is
  \<open>.iter().position(..)\<close>.
\<close>

definition array_get :: "'a option list \<Rightarrow> nat \<Rightarrow> 'a option" where
  "array_get xs i = (if i < length xs then xs ! i else None)"

definition array_set :: "'a list \<Rightarrow> nat \<Rightarrow> 'a \<Rightarrow> 'a list option" where
  "array_set xs i v = (if i < length xs then Some (xs[i := v]) else None)"

definition array_modify :: "'a option list \<Rightarrow> nat \<Rightarrow> ('a \<Rightarrow> 'a) \<Rightarrow> 'a option list option" where
  "array_modify xs i f =
     (case array_get xs i of None \<Rightarrow> None | Some x \<Rightarrow> Some (xs[i := Some (f x)]))"

definition flat_any :: "('a \<Rightarrow> bool) \<Rightarrow> 'a option list \<Rightarrow> bool" where
  "flat_any P xs \<longleftrightarrow> list_ex (\<lambda>e. case e of None \<Rightarrow> False | Some x \<Rightarrow> P x) xs"

fun first_index :: "('a \<Rightarrow> bool) \<Rightarrow> 'a list \<Rightarrow> nat option" where
  "first_index P [] = None"
| "first_index P (x # xs) = (if P x then Some 0 else map_option Suc (first_index P xs))"

lemma array_get_Some: "array_get xs i = Some x \<longleftrightarrow> i < length xs \<and> xs ! i = Some x"
  by (simp add: array_get_def)

lemma array_get_update [simp]:
  "array_get (xs[i := e]) j = (if i = j \<and> i < length xs then e else array_get xs j)"
  by (auto simp: array_get_def nth_list_update)

lemma array_modify_Some:
  "array_modify xs i f = Some ys \<longleftrightarrow> (\<exists>x. array_get xs i = Some x \<and> ys = xs[i := Some (f x)])"
  by (auto simp: array_modify_def split: option.splits)

lemma array_get_modify:
  "array_modify xs i f = Some ys \<Longrightarrow>
   array_get ys j = (if j = i then map_option f (array_get xs i) else array_get xs j)"
  by (auto simp: array_modify_Some array_get_def)

lemma array_set_Some: "array_set xs i v = Some ys \<longleftrightarrow> i < length xs \<and> ys = xs[i := v]"
  by (auto simp: array_set_def)

lemma flat_any_iff: "flat_any P xs \<longleftrightarrow> (\<exists>i x. array_get xs i = Some x \<and> P x)"
proof -
  have "flat_any P xs \<longleftrightarrow> (\<exists>x. Some x \<in> set xs \<and> P x)"
    by (auto simp: flat_any_def list_ex_iff split: option.splits)
  then show ?thesis by (auto simp: array_get_Some in_set_conv_nth)
qed

lemma first_index_Some:
  "first_index P xs = Some i \<Longrightarrow> i < length xs \<and> P (xs ! i) \<and> (\<forall>j < i. \<not> P (xs ! j))"
proof (induction xs arbitrary: i)
  case (Cons x xs)
  then show ?case by (auto split: if_splits simp: nth_Cons split: nat.splits)
qed simp

lemma first_index_None: "first_index P xs = None \<longleftrightarrow> (\<forall>x \<in> set xs. \<not> P x)"
  by (induction xs) auto

section \<open>One-based identifiers\<close>

text \<open>
  Identifiers are table positions counted from one; the table index of an identifier is
  \<open>id.wrapping_sub(1)\<close>, so that the identifier 0 points past every table.
\<close>

definition id_index :: "machine_word \<Rightarrow> nat" where
  "id_index w = unat (w - 1)"

definition index_id :: "nat \<Rightarrow> machine_word" where
  "index_id i = of_nat (i + 1)"

lemma id_index_0 [simp]: "id_index 0 = 2 ^ 64 - 1"
proof -
  have "unat (- 1 :: machine_word) = nat (uint (- 1 :: machine_word))" by (simp only: unat_eq_nat_uint)
  also have "uint (- 1 :: machine_word) = 2 ^ 64 - 1" by (simp add: uint_word_ariths)
  finally show ?thesis by (simp add: id_index_def)
qed

lemma id_index_index_id [simp]: "i < 2 ^ 64 \<Longrightarrow> id_index (index_id i) = i"
  by (simp add: id_index_def index_id_def unat_of_nat take_bit_nat_eq_self)

lemma index_id_id_index [simp]: "index_id (id_index w) = w"
  by (simp add: id_index_def index_id_def)

lemma id_index_inject [simp]: "id_index v = id_index w \<longleftrightarrow> v = w"
  by (metis index_id_id_index)

lemma index_id_nonzero [simp]: "i < 2 ^ 64 - 1 \<Longrightarrow> index_id i \<noteq> 0"
  using id_index_index_id [of i] by (metis id_index_0 less_irrefl less_trans diff_less zero_less_one zero_less_numeral zero_less_power)

section \<open>Rounding with masks\<close>

lemma and_high_bits:
  fixes n :: nat
  assumes "n < 2 ^ 64" and "k \<le> 64"
  shows "n AND (2 ^ 64 - 2 ^ k) = n div 2 ^ k * 2 ^ k"
proof -
  have "(2 :: nat) ^ 64 = 2 ^ k * 2 ^ (64 - k)" using assms(2) by (simp flip: power_add)
  then have m: "(2 :: nat) ^ 64 - 2 ^ k = push_bit k (mask (64 - k))"
    by (simp add: push_bit_eq_mult mask_eq_exp_minus_1 algebra_simps)
  have lt: "j < 64" if "bit n j" for j
    using that bit_take_bit_iff [of 64 n j] take_bit_nat_eq_self [OF assms(1)] by simp
  have "n AND push_bit k (mask (64 - k)) = push_bit k (drop_bit k n)"
  proof (rule bit_eqI)
    fix j :: nat
    show "bit (n AND push_bit k (mask (64 - k))) j = bit (push_bit k (drop_bit k n)) j"
      using lt [of j] by (auto simp: bit_and_iff bit_push_bit_iff bit_mask_iff bit_drop_bit_eq)
  qed
  also have "\<dots> = n div 2 ^ k * 2 ^ k" by (simp add: push_bit_eq_mult drop_bit_eq_div)
  finally show ?thesis by (simp only: m)
qed

end
