(* ===== verification/Avl_Tree.thy ===== *)
theory Avl_Tree
  imports Nanami_Prelude "HOL-Library.Monad_Syntax"
begin

text \<open>
  The heap-allocated ordered map of \<open>nanami_utils/avl.rs\<close>, from word keys to word values. An
  \<open>Option<Box<AvlNode>>\<close> is a tree whose \<open>None\<close> is \<open>AvlNil\<close>; the height stored in a node is an
  integer, and \<open>avl_height_fits_i16\<close> shows that the operations with the \<open>i16\<close> of the source do not overflow.
  The lemmas show that the operations keep the tree ordered and balanced and that they implement
  a finite map; \<open>word_map\<close> is that contract as a locale.
\<close>

section \<open>The tree and its operations\<close>

datatype avl_tree =
    AvlNil
  | AvlNode (node_key: machine_word) (node_value: machine_word)
      (node_left: avl_tree) (node_right: avl_tree) (node_height: int)

definition avl_new :: avl_tree where
  "avl_new = AvlNil"

fun avl_height :: "avl_tree \<Rightarrow> int" where
  "avl_height AvlNil = 0"
| "avl_height (AvlNode k v l r h) = h"

definition taller :: "int \<Rightarrow> int \<Rightarrow> int" where
  "taller left_h right_h = (if left_h > right_h then left_h + 1 else right_h + 1)"

fun recompute_height :: "avl_tree \<Rightarrow> avl_tree" where
  "recompute_height AvlNil = AvlNil"
| "recompute_height (AvlNode k v l r h) =
     AvlNode k v l r (taller (avl_height l) (avl_height r))"

fun balance_factor :: "avl_tree \<Rightarrow> int" where
  "balance_factor AvlNil = 0"
| "balance_factor (AvlNode k v l r h) = avl_height l - avl_height r"

fun rotate_left :: "avl_tree \<Rightarrow> avl_tree" where
  "rotate_left (AvlNode kx vx lx (AvlNode ky vy t2 ry hy) hx) =
     recompute_height (AvlNode ky vy (recompute_height (AvlNode kx vx lx t2 hx)) ry hy)"
| "rotate_left x = x"

fun rotate_right :: "avl_tree \<Rightarrow> avl_tree" where
  "rotate_right (AvlNode ky vy (AvlNode kx vx lx t2 hx) ry hy) =
     recompute_height (AvlNode kx vx lx (recompute_height (AvlNode ky vy t2 ry hy)) hx)"
| "rotate_right y = y"

fun rebalance :: "avl_tree \<Rightarrow> avl_tree" where
  "rebalance AvlNil = AvlNil"
| "rebalance (AvlNode k v l r h) =
     (let bf = balance_factor (AvlNode k v l r h) in
      if bf > 1 then
        rotate_right (AvlNode k v (if balance_factor l < 0 then rotate_left l else l) r h)
      else if bf < -1 then
        rotate_left (AvlNode k v l (if balance_factor r > 0 then rotate_right r else r) h)
      else AvlNode k v l r h)"

fun insert_node :: "avl_tree \<Rightarrow> machine_word \<Rightarrow> machine_word \<Rightarrow> avl_tree" where
  "insert_node AvlNil key val = AvlNode key val AvlNil AvlNil 1"
| "insert_node (AvlNode k v l r h) key val =
     (if key < k then
        rebalance (recompute_height (AvlNode k v (insert_node l key val) r h))
      else if key > k then
        rebalance (recompute_height (AvlNode k v l (insert_node r key val) h))
      else AvlNode k val l r h)"

text \<open>
  \<open>take_min_node\<close> returns the remaining tree and the detached minimum, whose right link has been
  taken; an absent minimum is \<open>AvlNil\<close>.
\<close>

fun take_min_node :: "avl_tree \<Rightarrow> avl_tree \<times> avl_tree" where
  "take_min_node AvlNil = (AvlNil, AvlNil)"
| "take_min_node (AvlNode k v l r h) =
     (if l = AvlNil then (r, AvlNode k v l AvlNil h)
      else let (l', min) = take_min_node l in
        (rebalance (recompute_height (AvlNode k v l' r h)), min))"

fun remove_node :: "avl_tree \<Rightarrow> machine_word \<Rightarrow> avl_tree \<times> machine_word option" where
  "remove_node AvlNil key = (AvlNil, None)"
| "remove_node (AvlNode k v l r h) key =
     (if key < k then
        (let (l', removed) = remove_node l key; node = AvlNode k v l' r h in
         if removed = None then (node, None)
         else (rebalance (recompute_height node), removed))
      else if key > k then
        (let (r', removed) = remove_node r key; node = AvlNode k v l r' h in
         if removed = None then (node, None)
         else (rebalance (recompute_height node), removed))
      else if l = AvlNil then (r, Some v)
      else if r = AvlNil then (l, Some v)
      else
        (let (r', successor) = take_min_node r in
         case successor of
           AvlNil \<Rightarrow> (l, Some v)
         | AvlNode ks vs _ _ hs \<Rightarrow>
             (rebalance (recompute_height (AvlNode ks vs l r' hs)), Some v)))"

fun avl_find :: "avl_tree \<Rightarrow> machine_word \<Rightarrow> machine_word option" where
  "avl_find AvlNil key = None"
| "avl_find (AvlNode k v l r h) key =
     (if key < k then avl_find l key
      else if key > k then avl_find r key
      else Some v)"

definition avl_insert :: "avl_tree \<Rightarrow> machine_word \<Rightarrow> machine_word \<Rightarrow> (unit + avl_tree)" where
  "avl_insert t key val = Inr (insert_node t key val)"

definition avl_remove :: "avl_tree \<Rightarrow> machine_word \<Rightarrow> avl_tree \<times> machine_word option" where
  "avl_remove t key = remove_node t key"

text \<open>The closure passed to \<open>visit_range\<close> sees the pairs of the resulting list in this order.\<close>

fun visit_range :: "avl_tree \<Rightarrow> machine_word \<Rightarrow> machine_word \<Rightarrow> (machine_word \<times> machine_word) list"
where
  "visit_range AvlNil lo hi = []"
| "visit_range (AvlNode k v l r h) lo hi =
     (if k > lo then visit_range l lo hi else [])
     @ (if lo \<le> k \<and> k < hi then [(k, v)] else [])
     @ (if k < hi then visit_range r lo hi else [])"

text \<open>
  The heights are \<open>i16\<close> in the source. The same operations with that type, where \<open>None\<close> is an overflow
  of an addition or a subtraction of heights.
\<close>

definition i16 :: "int \<Rightarrow> int option" where
  "i16 x = (if - (2 ^ 15) \<le> x \<and> x < 2 ^ 15 then Some x else None)"

fun recompute_height_i16 :: "avl_tree \<Rightarrow> avl_tree option" where
  "recompute_height_i16 AvlNil = Some AvlNil"
| "recompute_height_i16 (AvlNode k v l r h) = do {
     h' \<leftarrow> i16 (taller (avl_height l) (avl_height r));
     Some (AvlNode k v l r h')}"

fun balance_factor_i16 :: "avl_tree \<Rightarrow> int option" where
  "balance_factor_i16 AvlNil = Some 0"
| "balance_factor_i16 (AvlNode k v l r h) = i16 (avl_height l - avl_height r)"

fun rotate_left_i16 :: "avl_tree \<Rightarrow> avl_tree option" where
  "rotate_left_i16 (AvlNode kx vx lx (AvlNode ky vy t2 ry hy) hx) = do {
     x \<leftarrow> recompute_height_i16 (AvlNode kx vx lx t2 hx);
     recompute_height_i16 (AvlNode ky vy x ry hy)}"
| "rotate_left_i16 x = Some x"

fun rotate_right_i16 :: "avl_tree \<Rightarrow> avl_tree option" where
  "rotate_right_i16 (AvlNode ky vy (AvlNode kx vx lx t2 hx) ry hy) = do {
     y \<leftarrow> recompute_height_i16 (AvlNode ky vy t2 ry hy);
     recompute_height_i16 (AvlNode kx vx lx y hx)}"
| "rotate_right_i16 y = Some y"

fun rebalance_i16 :: "avl_tree \<Rightarrow> avl_tree option" where
  "rebalance_i16 AvlNil = Some AvlNil"
| "rebalance_i16 (AvlNode k v l r h) = do {
     bf \<leftarrow> balance_factor_i16 (AvlNode k v l r h);
     if bf > 1 then do {
       bl \<leftarrow> balance_factor_i16 l;
       l' \<leftarrow> if bl < 0 then rotate_left_i16 l else Some l;
       rotate_right_i16 (AvlNode k v l' r h)}
     else if bf < -1 then do {
       br \<leftarrow> balance_factor_i16 r;
       r' \<leftarrow> if br > 0 then rotate_right_i16 r else Some r;
       rotate_left_i16 (AvlNode k v l r' h)}
     else Some (AvlNode k v l r h)}"

definition repair_i16 :: "avl_tree \<Rightarrow> avl_tree option" where
  "repair_i16 t = do {t' \<leftarrow> recompute_height_i16 t; rebalance_i16 t'}"

fun insert_node_i16 :: "avl_tree \<Rightarrow> machine_word \<Rightarrow> machine_word \<Rightarrow> avl_tree option" where
  "insert_node_i16 AvlNil key val = Some (AvlNode key val AvlNil AvlNil 1)"
| "insert_node_i16 (AvlNode k v l r h) key val =
     (if key < k then do {l' \<leftarrow> insert_node_i16 l key val; repair_i16 (AvlNode k v l' r h)}
      else if key > k then do {r' \<leftarrow> insert_node_i16 r key val; repair_i16 (AvlNode k v l r' h)}
      else Some (AvlNode k val l r h))"

fun take_min_node_i16 :: "avl_tree \<Rightarrow> (avl_tree \<times> avl_tree) option" where
  "take_min_node_i16 AvlNil = Some (AvlNil, AvlNil)"
| "take_min_node_i16 (AvlNode k v l r h) =
     (if l = AvlNil then Some (r, AvlNode k v l AvlNil h)
      else do {
        (l', min) \<leftarrow> take_min_node_i16 l;
        t \<leftarrow> repair_i16 (AvlNode k v l' r h);
        Some (t, min)})"

fun remove_node_i16 :: "avl_tree \<Rightarrow> machine_word \<Rightarrow> (avl_tree \<times> machine_word option) option" where
  "remove_node_i16 AvlNil key = Some (AvlNil, None)"
| "remove_node_i16 (AvlNode k v l r h) key =
     (if key < k then do {
        (l', removed) \<leftarrow> remove_node_i16 l key;
        if removed = None then Some (AvlNode k v l' r h, None)
        else do {t \<leftarrow> repair_i16 (AvlNode k v l' r h); Some (t, removed)}}
      else if key > k then do {
        (r', removed) \<leftarrow> remove_node_i16 r key;
        if removed = None then Some (AvlNode k v l r' h, None)
        else do {t \<leftarrow> repair_i16 (AvlNode k v l r' h); Some (t, removed)}}
      else if l = AvlNil then Some (r, Some v)
      else if r = AvlNil then Some (l, Some v)
      else do {
        (r', successor) \<leftarrow> take_min_node_i16 r;
        case successor of
          AvlNil \<Rightarrow> Some (l, Some v)
        | AvlNode ks vs _ _ hs \<Rightarrow> do {t \<leftarrow> repair_i16 (AvlNode ks vs l r' hs); Some (t, Some v)}})"

section \<open>Order and balance\<close>

fun inorder :: "avl_tree \<Rightarrow> (machine_word \<times> machine_word) list" where
  "inorder AvlNil = []"
| "inorder (AvlNode k v l r h) = inorder l @ (k, v) # inorder r"

definition ordered :: "avl_tree \<Rightarrow> bool" where
  "ordered t \<longleftrightarrow> sorted_wrt (\<lambda>p q. fst p < fst q) (inorder t)"

fun balanced :: "avl_tree \<Rightarrow> bool" where
  "balanced AvlNil \<longleftrightarrow> True"
| "balanced (AvlNode k v l r h) \<longleftrightarrow>
     balanced l \<and> balanced r \<and> h = taller (avl_height l) (avl_height r) \<and>
     \<bar>avl_height l - avl_height r\<bar> \<le> 1"

definition avl_wf :: "avl_tree \<Rightarrow> bool" where
  "avl_wf t \<longleftrightarrow> ordered t \<and> balanced t"

subsection \<open>Rotations only restructure\<close>

lemma inorder_recompute [simp]: "inorder (recompute_height t) = inorder t"
  by (cases t) auto

lemma inorder_rotate_left [simp]: "inorder (rotate_left t) = inorder t"
  by (cases t rule: rotate_left.cases) auto

lemma inorder_rotate_right [simp]: "inorder (rotate_right t) = inorder t"
  by (cases t rule: rotate_right.cases) auto

lemma inorder_rebalance [simp]: "inorder (rebalance t) = inorder t"
  by (cases t) (auto simp: Let_def simp del: rotate_left.simps rotate_right.simps)

lemma inorder_eq_Nil [simp]: "inorder t = [] \<longleftrightarrow> t = AvlNil"
  by (cases t) auto

subsection \<open>Heights\<close>

lemma avl_height_nonneg: "balanced t \<Longrightarrow> 0 \<le> avl_height t"
  by (induction t) (auto simp: taller_def)

lemma avl_height_pos: "balanced t \<Longrightarrow> t \<noteq> AvlNil \<Longrightarrow> 0 < avl_height t"
  by (cases t) (auto simp: taller_def dest: avl_height_nonneg)

text \<open>
  A node whose subtrees are balanced and differ by at most two levels is repaired by one
  \<open>rebalance\<close>; the result is as high as the node would have been, or one level lower.
\<close>

lemma rebalance_left_heavy:
  assumes "balanced l" and "balanced r" and "avl_height l = avl_height r + 2"
  shows "balanced (rebalance (AvlNode k v l r h))"
    and "avl_height (rebalance (AvlNode k v l r h)) \<in> {avl_height l, avl_height l + 1}"
proof -
  from assms(2,3) have "avl_height l \<noteq> 0" using avl_height_nonneg [of r] by simp
  then obtain kl vl ll rl hl where l: "l = AvlNode kl vl ll rl hl" by (cases l) auto
  have nn: "0 \<le> avl_height ll" "0 \<le> avl_height rl" "0 \<le> avl_height r"
    using assms l by (auto intro: avl_height_nonneg)
  have "balanced (rebalance (AvlNode k v l r h)) \<and>
        avl_height (rebalance (AvlNode k v l r h)) \<in> {avl_height l, avl_height l + 1}"
  proof (cases rl)
    case AvlNil
    then show ?thesis using assms l nn by (auto simp: taller_def split: if_splits)
  next
    case (AvlNode krl vrl lrl rrl hrl)
    have "0 \<le> avl_height lrl" "0 \<le> avl_height rrl"
      using assms l AvlNode by (auto intro: avl_height_nonneg)
    then show ?thesis using assms l nn AvlNode by (auto simp: taller_def split: if_splits)
  qed
  then show "balanced (rebalance (AvlNode k v l r h))"
    and "avl_height (rebalance (AvlNode k v l r h)) \<in> {avl_height l, avl_height l + 1}"
    by blast+
qed

lemma rebalance_right_heavy:
  assumes "balanced l" and "balanced r" and "avl_height r = avl_height l + 2"
  shows "balanced (rebalance (AvlNode k v l r h))"
    and "avl_height (rebalance (AvlNode k v l r h)) \<in> {avl_height r, avl_height r + 1}"
proof -
  from assms(1,3) have "avl_height r \<noteq> 0" using avl_height_nonneg [of l] by simp
  then obtain kr vr lr rr hr where r: "r = AvlNode kr vr lr rr hr" by (cases r) auto
  have nn: "0 \<le> avl_height lr" "0 \<le> avl_height rr" "0 \<le> avl_height l"
    using assms r by (auto intro: avl_height_nonneg)
  have "balanced (rebalance (AvlNode k v l r h)) \<and>
        avl_height (rebalance (AvlNode k v l r h)) \<in> {avl_height r, avl_height r + 1}"
  proof (cases lr)
    case AvlNil
    then show ?thesis using assms r nn by (auto simp: taller_def split: if_splits)
  next
    case (AvlNode klr vlr llr rlr hlr)
    have "0 \<le> avl_height llr" "0 \<le> avl_height rlr"
      using assms r AvlNode by (auto intro: avl_height_nonneg)
    then show ?thesis using assms r nn AvlNode by (auto simp: taller_def split: if_splits)
  qed
  then show "balanced (rebalance (AvlNode k v l r h))"
    and "avl_height (rebalance (AvlNode k v l r h)) \<in> {avl_height r, avl_height r + 1}"
    by blast+
qed

lemma rebalance_level:
  assumes "\<bar>avl_height l - avl_height r\<bar> \<le> 1"
  shows "rebalance (AvlNode k v l r h) = AvlNode k v l r h"
proof -
  from assms have "\<not> 1 < avl_height l - avl_height r" "\<not> avl_height l - avl_height r < -1"
    by linarith+
  then show ?thesis by (simp add: Let_def)
qed

text \<open>One \<open>rebalance\<close> after one subtree has moved by one level, with the height it gives.\<close>

lemma rebalance_step:
  fixes k v h
  assumes "balanced l" and "balanced r" and "\<bar>avl_height l - avl_height r\<bar> \<le> 2"
  defines "t \<equiv> rebalance (recompute_height (AvlNode k v l r h))"
  shows "balanced t"
    and "avl_height t = max (avl_height l) (avl_height r) + 1 \<or>
         avl_height t = max (avl_height l) (avl_height r) \<and>
         \<bar>avl_height l - avl_height r\<bar> = 2"
proof -
  consider (left) "avl_height l = avl_height r + 2" | (right) "avl_height r = avl_height l + 2"
    | (level) "\<bar>avl_height l - avl_height r\<bar> \<le> 1"
    using assms(3) by linarith
  then have "balanced t \<and> (avl_height t = max (avl_height l) (avl_height r) + 1 \<or>
       avl_height t = max (avl_height l) (avl_height r) \<and> \<bar>avl_height l - avl_height r\<bar> = 2)"
  proof cases
    case left
    then show ?thesis
      using rebalance_left_heavy [OF assms(1,2) left, of k v] unfolding t_def
      by (auto simp del: rebalance.simps)
  next
    case right
    then show ?thesis
      using rebalance_right_heavy [OF assms(1,2) right, of k v] unfolding t_def
      by (auto simp del: rebalance.simps)
  next
    case level
    then show ?thesis
      using assms(1,2) unfolding t_def
      by (auto simp del: rebalance.simps simp: rebalance_level taller_def)
  qed
  then show "balanced t"
    and "avl_height t = max (avl_height l) (avl_height r) + 1 \<or>
         avl_height t = max (avl_height l) (avl_height r) \<and> \<bar>avl_height l - avl_height r\<bar> = 2"
    by blast+
qed

lemma balanced_insert_node:
  assumes "balanced t"
  shows "balanced (insert_node t key val) \<and>
         avl_height (insert_node t key val) \<in> {avl_height t, avl_height t + 1}"
  using assms
proof (induction t)
  case AvlNil
  then show ?case by (simp add: taller_def)
next
  case (AvlNode k v l r h)
  then have h: "h = taller (avl_height l) (avl_height r)" by simp
  consider "key < k" | "k < key" | "key = k" by fastforce
  then show ?case
  proof cases
    case 1
    with AvlNode have "\<bar>avl_height (insert_node l key val) - avl_height r\<bar> \<le> 2" by auto
    then show ?thesis
      using 1 AvlNode rebalance_step [of "insert_node l key val" r k v h]
      by (auto simp: taller_def simp del: rebalance.simps recompute_height.simps)
  next
    case 2
    with AvlNode have "\<bar>avl_height l - avl_height (insert_node r key val)\<bar> \<le> 2" by auto
    then show ?thesis
      using 2 AvlNode rebalance_step [of l "insert_node r key val" k v h]
      by (auto simp: taller_def simp del: rebalance.simps recompute_height.simps)
  next
    case 3
    then show ?thesis using AvlNode by simp
  qed
qed

lemma balanced_take_min:
  assumes "balanced t" and "take_min_node t = (t', m)"
  shows "balanced t' \<and> avl_height t' \<in> {avl_height t, avl_height t - 1} \<and> (t = AvlNil \<longleftrightarrow> m = AvlNil)"
  using assms
proof (induction t arbitrary: t' m)
  case AvlNil
  then show ?case by simp
next
  case (AvlNode k v l r h)
  show ?case
  proof (cases "l = AvlNil")
    case True
    then show ?thesis
      using AvlNode.prems avl_height_nonneg [of r] by (auto simp: taller_def)
  next
    case False
    obtain l' m' where tm: "take_min_node l = (l', m')" by fastforce
    have IH: "balanced l' \<and> avl_height l' \<in> {avl_height l, avl_height l - 1} \<and> m' \<noteq> AvlNil"
      using AvlNode.IH(1) [OF _ tm] AvlNode.prems False by auto
    then have "\<bar>avl_height l' - avl_height r\<bar> \<le> 2" using AvlNode.prems by auto
    then show ?thesis
      using False AvlNode.prems IH tm rebalance_step [of l' r k v h]
      by (auto simp: taller_def simp del: rebalance.simps recompute_height.simps split: if_splits)
  qed
qed

lemma remove_node_absent: "remove_node t key = (t', None) \<Longrightarrow> t' = t"
  by (induction t arbitrary: t')
    (auto simp: Let_def split: if_splits prod.splits avl_tree.splits)

lemma balanced_remove_node:
  assumes "balanced t" and "remove_node t key = (t', removed)"
  shows "balanced t' \<and> avl_height t' \<in> {avl_height t, avl_height t - 1}"
  using assms
proof (induction t arbitrary: t' removed)
  case AvlNil
  then show ?case by simp
next
  case (AvlNode k v l r h)
  note [simp del] = rebalance.simps recompute_height.simps
  have hh: "h = taller (avl_height l) (avl_height r)" "\<bar>avl_height l - avl_height r\<bar> \<le> 1"
    and bal: "balanced l" "balanced r" using AvlNode.prems by auto
  consider "key < k" | "k < key" | "key = k" by fastforce
  then show ?case
  proof cases
    case 1
    obtain l' x where rm: "remove_node l key = (l', x)" by fastforce
    have IH: "balanced l' \<and> avl_height l' \<in> {avl_height l, avl_height l - 1}"
      using AvlNode.IH(1) [OF bal(1) rm] .
    then have "\<bar>avl_height l' - avl_height r\<bar> \<le> 2" using hh by auto
    then show ?thesis
      using 1 AvlNode.prems IH rm hh rebalance_step [of l' r k v h] remove_node_absent [of l key l']
      by (auto simp: taller_def Let_def split: if_splits)
  next
    case 2
    obtain r' x where rm: "remove_node r key = (r', x)" by fastforce
    have IH: "balanced r' \<and> avl_height r' \<in> {avl_height r, avl_height r - 1}"
      using AvlNode.IH(2) [OF bal(2) rm] .
    then have "\<bar>avl_height l - avl_height r'\<bar> \<le> 2" using hh by auto
    then show ?thesis
      using 2 AvlNode.prems IH rm hh rebalance_step [of l r' k v h] remove_node_absent [of r key r']
      by (auto simp: taller_def Let_def split: if_splits)
  next
    case 3
    obtain r' m where tm: "take_min_node r = (r', m)" by fastforce
    have tmr: "balanced r' \<and> avl_height r' \<in> {avl_height r, avl_height r - 1} \<and> (r = AvlNil \<longleftrightarrow> m = AvlNil)"
      using balanced_take_min [OF bal(2) tm] .
    then have d: "\<bar>avl_height l - avl_height r'\<bar> \<le> 2" using hh by auto
    show ?thesis
    proof (cases "l = AvlNil \<or> r = AvlNil")
      case True
      then show ?thesis
        using 3 AvlNode.prems hh avl_height_nonneg [OF bal(1)] avl_height_nonneg [OF bal(2)]
        by (auto simp: taller_def split: if_splits)
    next
      case False
      with tmr obtain ks vs ls rs hs where m: "m = AvlNode ks vs ls rs hs" by (cases m) auto
      with 3 AvlNode.prems tm False have "t' = rebalance (recompute_height (AvlNode ks vs l r' hs))"
        by simp
      with rebalance_step [of l r' ks vs hs] d tmr bal hh show ?thesis
        by (auto simp: taller_def)
    qed
  qed
qed

section \<open>The operations as a finite map\<close>

definition assoc_insert ::
  "machine_word \<Rightarrow> machine_word \<Rightarrow> (machine_word \<times> machine_word) list \<Rightarrow> (machine_word \<times> machine_word) list"
where
  "assoc_insert key val xs =
     filter (\<lambda>p. fst p < key) xs @ (key, val) # filter (\<lambda>p. key < fst p) xs"

lemma ordered_simps [simp]:
  "ordered AvlNil"
  "ordered (AvlNode k v l r h) \<longleftrightarrow> ordered l \<and> ordered r \<and>
     (\<forall>p \<in> set (inorder l). fst p < k) \<and> (\<forall>p \<in> set (inorder r). k < fst p)"
  by (auto simp: ordered_def sorted_wrt_append intro: less_trans)

lemma ordered_rebalance [simp]: "ordered (rebalance (recompute_height t)) = ordered t"
  by (simp add: ordered_def)

lemma filter_all_below: "\<forall>p \<in> set xs. fst p < (k::machine_word) \<Longrightarrow> k \<le> key \<Longrightarrow>
    filter (\<lambda>p. fst p < key) xs = xs \<and> filter (\<lambda>p. key < fst p) xs = []"
  by (auto simp: filter_empty_conv filter_id_conv)

lemma filter_all_above: "\<forall>p \<in> set xs. (k::machine_word) < fst p \<Longrightarrow> key \<le> k \<Longrightarrow>
    filter (\<lambda>p. fst p < key) xs = [] \<and> filter (\<lambda>p. key < fst p) xs = xs"
  by (auto simp: filter_empty_conv filter_id_conv)

lemma inorder_insert_node:
  "ordered t \<Longrightarrow> inorder (insert_node t key val) = assoc_insert key val (inorder t)"
proof (induction t)
  case AvlNil
  then show ?case by (simp add: assoc_insert_def)
next
  case (AvlNode k v l r h)
  consider "key < k" | "k < key" | "key = k" by fastforce
  then show ?case
    using AvlNode filter_all_below [of "inorder l" k key] filter_all_above [of "inorder r" k key]
    by cases (simp_all add: assoc_insert_def del: rebalance.simps recompute_height.simps)
qed

lemma ordered_insert_node: "ordered t \<Longrightarrow> ordered (insert_node t key val)"
  unfolding ordered_def [of "insert_node t key val"]
  by (auto simp: inorder_insert_node assoc_insert_def ordered_def sorted_wrt_append sorted_wrt_filter)

lemma avl_find_inorder: "ordered t \<Longrightarrow> avl_find t key = map_of (inorder t) key"
proof (induction t)
  case (AvlNode k v l r h)
  then have "key < k \<Longrightarrow> map_of (inorder r) key = None" "\<not> key < k \<Longrightarrow> map_of (inorder l) key = None"
    by (force simp: map_of_eq_None_iff)+
  with AvlNode show ?case by (auto simp: map_add_def split: option.splits)
qed simp

lemma inorder_take_min:
  "take_min_node t = (t', m) \<Longrightarrow> t \<noteq> AvlNil \<Longrightarrow>
   \<exists>ks vs hs. m = AvlNode ks vs AvlNil AvlNil hs \<and> inorder t = (ks, vs) # inorder t'"
proof (induction t arbitrary: t' m)
  case (AvlNode k v l r h)
  show ?case
  proof (cases "l = AvlNil")
    case False
    obtain l' m' where tm: "take_min_node l = (l', m')" by fastforce
    from AvlNode.IH(1) [OF tm False] False AvlNode.prems tm show ?thesis
      by (auto simp del: rebalance.simps recompute_height.simps)
  qed (use AvlNode.prems in auto)
qed simp

lemma inorder_remove_node:
  "ordered t \<Longrightarrow> remove_node t key = (t', removed) \<Longrightarrow>
   inorder t' = filter (\<lambda>p. fst p \<noteq> key) (inorder t) \<and> removed = avl_find t key"
proof (induction t arbitrary: t' removed)
  case (AvlNode k v l r h)
  note [simp del] = rebalance.simps recompute_height.simps
  have out: "key < k \<Longrightarrow> filter (\<lambda>p. fst p \<noteq> key) (inorder r) = inorder r"
    "k < key \<Longrightarrow> filter (\<lambda>p. fst p \<noteq> key) (inorder l) = inorder l"
    "key = k \<Longrightarrow> filter (\<lambda>p. fst p \<noteq> key) (inorder l) = inorder l"
    "key = k \<Longrightarrow> filter (\<lambda>p. fst p \<noteq> key) (inorder r) = inorder r"
    using AvlNode.prems(1) by (force simp: filter_id_conv)+
  consider "key < k" | "k < key" | "key = k" by fastforce
  then show ?case
  proof cases
    case 1
    obtain l' x where rm: "remove_node l key = (l', x)" by fastforce
    from AvlNode.IH(1) [OF _ rm] AvlNode.prems(1)
    have "inorder l' = filter (\<lambda>p. fst p \<noteq> key) (inorder l)" "x = avl_find l key" by simp_all
    with 1 AvlNode.prems(2) rm out(1) show ?thesis by (auto simp: Let_def split: if_splits)
  next
    case 2
    obtain r' x where rm: "remove_node r key = (r', x)" by fastforce
    from AvlNode.IH(2) [OF _ rm] AvlNode.prems(1)
    have "inorder r' = filter (\<lambda>p. fst p \<noteq> key) (inorder r)" "x = avl_find r key" by simp_all
    moreover from 2 have "\<not> key < k" by simp
    ultimately show ?thesis using 2 AvlNode.prems(2) rm out(2) by (auto simp: Let_def split: if_splits)
  next
    case 3
    show ?thesis
    proof (cases "l = AvlNil \<or> r = AvlNil")
      case True
      then show ?thesis using 3 AvlNode.prems out(3,4) by (auto split: if_splits)
    next
      case False
      obtain r' m where tm: "take_min_node r = (r', m)" by fastforce
      from inorder_take_min [OF tm] False obtain ks vs hs where
        m: "m = AvlNode ks vs AvlNil AvlNil hs" "inorder r = (ks, vs) # inorder r'" by blast
      with 3 False AvlNode.prems(2) tm have
        "t' = rebalance (recompute_height (AvlNode ks vs l r' hs))" "removed = Some v" by simp_all
      with m 3 out(3,4) show ?thesis by simp
    qed
  qed
qed simp

lemma map_of_filter_key: "map_of (filter (\<lambda>p. P (fst p)) xs) x = (if P x then map_of xs x else None)"
  by (induction xs) auto

lemma map_of_assoc_insert: "map_of (assoc_insert key val xs) = (map_of xs)(key \<mapsto> val)"
proof
  fix x
  show "map_of (assoc_insert key val xs) x = ((map_of xs)(key \<mapsto> val)) x"
    using neq_iff [of x key]
    by (auto simp: assoc_insert_def map_add_def map_of_filter_key [of "\<lambda>k. k < key"]
        map_of_filter_key [of "\<lambda>k. key < k"] split: option.splits)
qed

lemma map_of_filter_ne: "map_of (filter (\<lambda>p. fst p \<noteq> key) xs) = (map_of xs)(key := None)"
  by (rule ext) (simp add: map_of_filter_key [of "\<lambda>k. k \<noteq> key"])

lemma ordered_remove_node: "ordered t \<Longrightarrow> remove_node t key = (t', removed) \<Longrightarrow> ordered t'"
  using inorder_remove_node [of t key t' removed] by (simp add: ordered_def sorted_wrt_filter)

lemma balanced_size:
  "balanced t \<Longrightarrow> 2 ^ (nat (avl_height t) div 2) \<le> length (inorder t) + 1"
proof (induction t)
  case (AvlNode k v l r h)
  let ?h = "nat h"
  have low: "?h - 2 \<le> nat (avl_height l)" "?h - 2 \<le> nat (avl_height r)"
    using AvlNode.prems by (auto simp: taller_def split: if_splits)
  have IH: "2 ^ (nat (avl_height l) div 2) \<le> length (inorder l) + 1"
    "2 ^ (nat (avl_height r) div 2) \<le> length (inorder r) + 1"
    using AvlNode by auto
  show ?case
  proof (cases "?h < 2")
    case True
    then show ?thesis by simp
  next
    case False
    then have "(2::nat) ^ (?h div 2) = 2 * 2 ^ ((?h - 2) div 2)"
      using le_div_geq [of 2 ?h] by simp
    moreover have "(2::nat) ^ ((?h - 2) div 2) \<le> 2 ^ (nat (avl_height l) div 2)"
      "(2::nat) ^ ((?h - 2) div 2) \<le> 2 ^ (nat (avl_height r) div 2)"
      using low by (simp_all add: div_le_mono)
    ultimately have "2 ^ (?h div 2) \<le> (length (inorder l) + 1) + (length (inorder r) + 1)"
      using IH by linarith
    then show ?thesis by simp
  qed
qed simp

lemma ordered_length: "ordered t \<Longrightarrow> length (inorder t) \<le> 2 ^ 64"
proof -
  assume "ordered t"
  then have "sorted_wrt (<) (map fst (inorder t))" by (simp add: ordered_def sorted_wrt_map)
  then have "distinct (map fst (inorder t))" using strict_sorted_iff by blast
  then have "length (inorder t) = card (set (map fst (inorder t)))"
    by (metis distinct_card length_map)
  also have "\<dots> \<le> card (UNIV :: machine_word set)" by (intro card_mono) auto
  finally show ?thesis by (simp add: card_word)
qed

lemma visit_range_inorder:
  "ordered t \<Longrightarrow> visit_range t lo hi = filter (\<lambda>p. lo \<le> fst p \<and> fst p < hi) (inorder t)"
proof (induction t)
  case (AvlNode k v l r h)
  have "\<not> lo < k \<Longrightarrow> filter (\<lambda>p. lo \<le> fst p \<and> fst p < hi) (inorder l) = []"
    "\<not> k < hi \<Longrightarrow> filter (\<lambda>p. lo \<le> fst p \<and> fst p < hi) (inorder r) = []"
    using AvlNode.prems by (force simp: filter_empty_conv)+
  with AvlNode show ?case by auto
qed simp

section \<open>The map contract\<close>

text \<open>
  What the rest of Alpha relies on: a fallible insertion, a lookup and a removal that returns the
  removed value. A failed insertion changes nothing, since the caller keeps the old map.
\<close>

locale word_map =
  fixes new :: 't
    and insert :: "'t \<Rightarrow> machine_word \<Rightarrow> machine_word \<Rightarrow> unit + 't"
    and find :: "'t \<Rightarrow> machine_word \<Rightarrow> machine_word option"
    and remove :: "'t \<Rightarrow> machine_word \<Rightarrow> 't \<times> machine_word option"
    and invar :: "'t \<Rightarrow> bool"
  assumes invar_new: "invar new"
    and find_new: "find new k = None"
    and invar_insert: "invar m \<Longrightarrow> insert m k v = Inr m' \<Longrightarrow> invar m'"
    and find_insert: "invar m \<Longrightarrow> insert m k v = Inr m' \<Longrightarrow> find m' = (find m)(k \<mapsto> v)"
    and invar_remove: "invar m \<Longrightarrow> remove m k = (m', r) \<Longrightarrow> invar m'"
    and find_remove: "invar m \<Longrightarrow> remove m k = (m', r) \<Longrightarrow> find m' = (find m)(k := None)"
    and remove_result: "invar m \<Longrightarrow> remove m k = (m', r) \<Longrightarrow> r = find m k"
begin

lemma remove_twice:
  "invar m \<Longrightarrow> remove m k = (m', r) \<Longrightarrow> remove m' k = (m'', r') \<Longrightarrow> r' = None"
  using remove_result [of m' k m'' r'] find_remove [of m k m' r] invar_remove [of m k m' r] by simp

lemma insert_remove:
  assumes "invar m" and "insert m k v = Inr m'" and "remove m' k = (m'', r)"
  shows "r = Some v" and "find m'' = (find m)(k := None)"
proof -
  have i: "invar m'" using assms invar_insert by blast
  show "r = Some v" using remove_result [OF i assms(3)] find_insert [OF assms(1,2)] by simp
  show "find m'' = (find m)(k := None)"
    using find_remove [OF i assms(3)] find_insert [OF assms(1,2)] by simp
qed

lemmas map_laws = invar_new find_new invar_insert find_insert invar_remove find_remove remove_result

end

lemma avl_wf_insert: "avl_wf t \<Longrightarrow> avl_wf (insert_node t k v)"
  by (simp add: avl_wf_def ordered_insert_node balanced_insert_node)

lemma avl_wf_remove: "avl_wf t \<Longrightarrow> remove_node t k = (t', r) \<Longrightarrow> avl_wf t'"
  using balanced_remove_node [of t k t' r] ordered_remove_node [of t k t' r]
  by (simp add: avl_wf_def)

lemma avl_find_insert_node: "avl_wf t \<Longrightarrow> avl_find (insert_node t k v) = (avl_find t)(k \<mapsto> v)"
  by (rule ext) (simp add: avl_wf_def avl_find_inorder ordered_insert_node inorder_insert_node
      map_of_assoc_insert)

lemma avl_find_remove_node:
  assumes "avl_wf t" and "remove_node t k = (t', r)"
  shows "avl_find t' = (avl_find t)(k := None)" and "r = avl_find t k"
proof -
  have o: "ordered t" "ordered t'"
    using assms(1) avl_wf_remove [OF assms] by (simp_all add: avl_wf_def)
  have "avl_find t' = map_of (inorder t')" using avl_find_inorder [OF o(2)] by blast
  also have "\<dots> = (map_of (inorder t))(k := None)"
    using inorder_remove_node [OF o(1) assms(2)] map_of_filter_ne by metis
  also have "map_of (inorder t) = avl_find t" using avl_find_inorder [OF o(1)] by (intro ext) simp
  finally show "avl_find t' = (avl_find t)(k := None)" .
  show "r = avl_find t k" using inorder_remove_node [OF o(1) assms(2)] by simp
qed

interpretation avl: word_map avl_new avl_insert avl_find avl_remove avl_wf
proof unfold_locales
  show "avl_wf avl_new" by (simp add: avl_wf_def avl_new_def)
  show "\<And>k. avl_find avl_new k = None" by (simp add: avl_new_def)
  show "\<And>m k v m'. avl_wf m \<Longrightarrow> avl_insert m k v = Inr m' \<Longrightarrow> avl_wf m'"
    by (auto simp: avl_insert_def avl_wf_insert)
  show "\<And>m k v m'. avl_wf m \<Longrightarrow> avl_insert m k v = Inr m' \<Longrightarrow>
      avl_find m' = (avl_find m)(k \<mapsto> v)"
    by (auto simp: avl_insert_def avl_find_insert_node)
qed (simp_all add: avl_remove_def avl_wf_remove avl_find_remove_node)

section \<open>Properties\<close>

datatype map_op = MapInsert machine_word machine_word | MapRemove machine_word

datatype map_answer = Inserted bool | Removed "machine_word option"

text \<open>A sequence of calls on the tree and on a finite map, with the answers of the calls.\<close>

fun avl_run :: "avl_tree \<Rightarrow> map_op list \<Rightarrow> map_answer list \<times> avl_tree" where
  "avl_run t [] = ([], t)"
| "avl_run t (MapInsert k v # ops) =
     (case avl_insert t k v of
        Inr t' \<Rightarrow> map_prod ((#) (Inserted True)) id (avl_run t' ops)
      | Inl _ \<Rightarrow> map_prod ((#) (Inserted False)) id (avl_run t ops))"
| "avl_run t (MapRemove k # ops) =
     (case avl_remove t k of (t', removed) \<Rightarrow> map_prod ((#) (Removed removed)) id (avl_run t' ops))"

fun map_run :: "(machine_word \<rightharpoonup> machine_word) \<Rightarrow> map_op list \<Rightarrow> map_answer list \<times> (machine_word \<rightharpoonup> machine_word)" where
  "map_run m [] = ([], m)"
| "map_run m (MapInsert k v # ops) = map_prod ((#) (Inserted True)) id (map_run (m(k \<mapsto> v)) ops)"
| "map_run m (MapRemove k # ops) = map_prod ((#) (Removed (m k))) id (map_run (m(k := None)) ops)"

lemma avl_run_simulates:
  "avl_wf t \<Longrightarrow> avl_wf (snd (avl_run t ops)) \<and> map_run (avl_find t) ops = map_prod id avl_find (avl_run t ops)"
proof (induction ops arbitrary: t)
  case (Cons op ops)
  show ?case
  proof (cases op)
    case (MapInsert k v)
    then show ?thesis
      using Cons.IH [OF avl_wf_insert [OF Cons.prems, of k v]] avl_find_insert_node [OF Cons.prems, of k v]
      by (simp add: avl_insert_def fun_upd_def prod.map_comp comp_def id_def)
  next
    case (MapRemove k)
    obtain t' r where rm: "remove_node t k = (t', r)" by fastforce
    then show ?thesis
      using MapRemove Cons.IH [OF avl_wf_remove [OF Cons.prems rm]] avl_find_remove_node [OF Cons.prems rm]
      by (simp add: avl_remove_def fun_upd_def prod.map_comp comp_def id_def)
  qed
qed simp

lemma avl_wf_new: "avl_wf avl_new"
  by (simp add: avl_new_def avl_wf_def ordered_def)

lemma avl_wf_run: "avl_wf (snd (avl_run avl_new ops))"
  using avl_run_simulates [OF avl_wf_new] by blast

text \<open>
  C21: every tree reachable through \<open>new\<close>, \<open>insert\<close> and \<open>remove\<close> is ordered and height-balanced, and the
  calls answer exactly like a finite map: every insertion succeeds and binds its key, a removal unbinds its
  key and returns the value it had, and looking a key up afterwards gives its binding.
\<close>

theorem avl_tree_refines_map:
  "case avl_run avl_new ops of
     (answers, t) \<Rightarrow> avl_wf t \<and> map_run Map.empty ops = (answers, avl_find t)"
proof -
  have "avl_find avl_new = Map.empty" by (rule ext) (simp add: avl_new_def)
  then show ?thesis using avl_run_simulates [OF avl_wf_new, of ops] by (cases "avl_run avl_new ops") simp
qed

subsection \<open>Heights fit their type\<close>

fun heights_in :: "int \<Rightarrow> avl_tree \<Rightarrow> bool" where
  "heights_in n AvlNil \<longleftrightarrow> True"
| "heights_in n (AvlNode k v l r h) \<longleftrightarrow> 1 \<le> h \<and> h \<le> n \<and> heights_in n l \<and> heights_in n r"

lemma avl_wf_height: "avl_wf t \<Longrightarrow> avl_height t \<le> 129"
proof -
  assume "avl_wf t"
  then have wf: "ordered t" "balanced t" by (simp_all add: avl_wf_def)
  define n where "n = nat (avl_height t)"
  have "(2::nat) ^ (n div 2) \<le> length (inorder t) + 1"
    unfolding n_def using wf(2) by (rule balanced_size)
  also have "\<dots> \<le> 2 ^ 64 + 1" using ordered_length [OF wf(1)] by (rule add_right_mono)
  also have "\<dots> < 2 ^ 65" by simp
  finally have "n div 2 < 65" by (rule power_less_imp_less_exp [rotated]) simp
  then have "n \<le> 129" by linarith
  then show ?thesis unfolding n_def by linarith
qed

lemma avl_wf_children: "avl_wf (AvlNode k v l r h) \<Longrightarrow> avl_wf l \<and> avl_wf r"
  by (auto simp: avl_wf_def ordered_def sorted_wrt_append)

lemma avl_wf_heights: "avl_wf t \<Longrightarrow> heights_in 129 t"
proof (induction t)
  case (AvlNode k v l r h)
  have "0 < h" using AvlNode.prems avl_height_pos [of "AvlNode k v l r h"] by (simp add: avl_wf_def)
  then show ?case using AvlNode avl_wf_children [OF AvlNode.prems] avl_wf_height [OF AvlNode.prems] by simp
qed simp

lemma heights_in_root: "heights_in n t \<Longrightarrow> 0 \<le> n \<Longrightarrow> 0 \<le> avl_height t \<and> avl_height t \<le> n"
  by (cases t) auto

lemma recompute_i16:
  assumes "heights_in n l" "heights_in n r" "0 \<le> n" "n < 32767"
  shows "recompute_height_i16 (AvlNode k v l r h) = Some (recompute_height (AvlNode k v l r h))"
    and "heights_in (n + 1) (recompute_height (AvlNode k v l r h))"
proof -
  have mono: "heights_in n t \<Longrightarrow> heights_in (n + 1) t" for t by (induction t) auto
  show "recompute_height_i16 (AvlNode k v l r h) = Some (recompute_height (AvlNode k v l r h))"
    "heights_in (n + 1) (recompute_height (AvlNode k v l r h))"
    using heights_in_root [OF assms(1,3)] heights_in_root [OF assms(2,3)] assms mono by (auto simp: i16_def taller_def)
qed

lemma heights_in_mono: "heights_in n t \<Longrightarrow> n \<le> m \<Longrightarrow> heights_in m t"
  by (induction t) auto

lemma rotate_left_i16:
  assumes "heights_in n l" "heights_in n r" "0 \<le> n" "n < 32766"
  shows "rotate_left_i16 (AvlNode k v l r h) = Some (rotate_left (AvlNode k v l r h))"
    and "r \<noteq> AvlNil \<Longrightarrow> heights_in (n + 2) (rotate_left (AvlNode k v l r h))"
proof -
  have lim: "n < 32767" "0 \<le> n + 1" "n + 1 < 32767" using assms(3,4) by simp_all
  have "rotate_left_i16 (AvlNode k v l r h) = Some (rotate_left (AvlNode k v l r h)) \<and>
      (r \<noteq> AvlNil \<longrightarrow> heights_in (n + 2) (rotate_left (AvlNode k v l r h)))"
  proof (cases r)
    case (AvlNode ky vy t2 ry hy)
    have "heights_in n t2" "heights_in (n + 1) ry" using assms(2) AvlNode heights_in_mono [of n ry "n + 1"] by auto
    note x = recompute_i16 [OF assms(1) this(1) assms(3) lim(1), of k v h]
    note y = recompute_i16 [OF x(2) \<open>heights_in (n + 1) ry\<close> lim(2,3), of ky vy hy]
    show ?thesis using x y AvlNode by (simp add: add.assoc del: recompute_height.simps recompute_height_i16.simps)
  qed simp
  then show "rotate_left_i16 (AvlNode k v l r h) = Some (rotate_left (AvlNode k v l r h))"
    "r \<noteq> AvlNil \<Longrightarrow> heights_in (n + 2) (rotate_left (AvlNode k v l r h))" by auto
qed

lemma rotate_right_i16:
  assumes "heights_in n l" "heights_in n r" "0 \<le> n" "n < 32766"
  shows "rotate_right_i16 (AvlNode k v l r h) = Some (rotate_right (AvlNode k v l r h))"
    and "l \<noteq> AvlNil \<Longrightarrow> heights_in (n + 2) (rotate_right (AvlNode k v l r h))"
proof -
  have lim: "n < 32767" "0 \<le> n + 1" "n + 1 < 32767" using assms(3,4) by simp_all
  have "rotate_right_i16 (AvlNode k v l r h) = Some (rotate_right (AvlNode k v l r h)) \<and>
      (l \<noteq> AvlNil \<longrightarrow> heights_in (n + 2) (rotate_right (AvlNode k v l r h)))"
  proof (cases l)
    case (AvlNode kx vx lx t2 hx)
    have "heights_in n t2" "heights_in (n + 1) lx" using assms(1) AvlNode heights_in_mono [of n lx "n + 1"] by auto
    note y = recompute_i16 [OF this(1) assms(2,3) lim(1), of k v h]
    note x = recompute_i16 [OF \<open>heights_in (n + 1) lx\<close> y(2) lim(2,3), of kx vx hx]
    show ?thesis using x y AvlNode by (simp add: add.assoc del: recompute_height.simps recompute_height_i16.simps)
  qed simp
  then show "rotate_right_i16 (AvlNode k v l r h) = Some (rotate_right (AvlNode k v l r h))"
    "l \<noteq> AvlNil \<Longrightarrow> heights_in (n + 2) (rotate_right (AvlNode k v l r h))" by auto
qed

lemma balance_factor_i16: "heights_in n t \<Longrightarrow> 0 \<le> n \<Longrightarrow> n < 32767 \<Longrightarrow> balance_factor_i16 t = Some (balance_factor t)"
proof (cases t)
  case (AvlNode k v l r h)
  assume "heights_in n t" "0 \<le> n" "n < 32767"
  then show ?thesis using AvlNode heights_in_root [of n l] heights_in_root [of n r] by (simp add: i16_def)
qed simp

lemma inner_rotation_i16:
  assumes "heights_in n t" "0 \<le> n" "n < 32766"
  shows "\<exists>t'. (if balance_factor t < 0 then rotate_left_i16 t else Some t) = Some t' \<and>
      t' = (if balance_factor t < 0 then rotate_left t else t) \<and> heights_in (n + 2) t'"
    and "\<exists>t'. (if balance_factor t > 0 then rotate_right_i16 t else Some t) = Some t' \<and>
      t' = (if balance_factor t > 0 then rotate_right t else t) \<and> heights_in (n + 2) t'"
proof -
  have m: "heights_in (n + 2) t" by (rule heights_in_mono [OF assms(1)]) simp
  have left: "rotate_left_i16 t = Some (rotate_left t) \<and> heights_in (n + 2) (rotate_left t)" if "balance_factor t < 0"
  proof (cases t)
    case (AvlNode k v l r h)
    then have "heights_in n l" "heights_in n r" "r \<noteq> AvlNil" using assms that heights_in_root [of n l] by auto
    then show ?thesis unfolding AvlNode using rotate_left_i16 [OF _ _ assms(2,3)] by blast
  qed simp
  have right: "rotate_right_i16 t = Some (rotate_right t) \<and> heights_in (n + 2) (rotate_right t)" if "balance_factor t > 0"
  proof (cases t)
    case (AvlNode k v l r h)
    then have "heights_in n l" "heights_in n r" "l \<noteq> AvlNil" using assms that heights_in_root [of n r] by auto
    then show ?thesis unfolding AvlNode using rotate_right_i16 [OF _ _ assms(2,3)] by blast
  qed simp
  show "\<exists>t'. (if balance_factor t < 0 then rotate_left_i16 t else Some t) = Some t' \<and>
      t' = (if balance_factor t < 0 then rotate_left t else t) \<and> heights_in (n + 2) t'"
    "\<exists>t'. (if balance_factor t > 0 then rotate_right_i16 t else Some t) = Some t' \<and>
      t' = (if balance_factor t > 0 then rotate_right t else t) \<and> heights_in (n + 2) t'"
    using m left right by simp_all
qed

lemma repair_i16:
  assumes "avl_wf l" "avl_wf r"
  shows "repair_i16 (AvlNode k v l r h) = Some (rebalance (recompute_height (AvlNode k v l r h)))"
proof -
  note h = avl_wf_heights [OF assms(1)] avl_wf_heights [OF assms(2)]
  let ?h = "taller (avl_height l) (avl_height r)" and ?t = "AvlNode k v l r (taller (avl_height l) (avl_height r))"
  have "heights_in 130 ?t" and rc: "recompute_height_i16 (AvlNode k v l r h) = Some ?t" using recompute_i16 [OF h, of k v h] by simp_all
  then have bf: "balance_factor_i16 ?t = Some (balance_factor ?t)" "balance_factor_i16 l = Some (balance_factor l)" "balance_factor_i16 r = Some (balance_factor r)"
    using balance_factor_i16 [of 130] balance_factor_i16 [of 129] h by (simp_all del: balance_factor.simps balance_factor_i16.simps)
  obtain l' r' where l': "(if balance_factor l < 0 then rotate_left_i16 l else Some l) = Some l'"
      "l' = (if balance_factor l < 0 then rotate_left l else l)" "heights_in 131 l'"
    and r': "(if balance_factor r > 0 then rotate_right_i16 r else Some r) = Some r'"
      "r' = (if balance_factor r > 0 then rotate_right r else r)" "heights_in 131 r'"
    using inner_rotation_i16 [OF h(1)] inner_rotation_i16 [OF h(2)] by auto
  have "heights_in 131 l" "heights_in 131 r" using h heights_in_mono by auto
  then have rot: "rotate_right_i16 (AvlNode k v l' r ?h) = Some (rotate_right (AvlNode k v l' r ?h))"
    "rotate_left_i16 (AvlNode k v l r' ?h) = Some (rotate_left (AvlNode k v l r' ?h))"
    using rotate_right_i16(1) [OF l'(3)] rotate_left_i16(1) [OF _ r'(3)] by simp_all
  show ?thesis unfolding repair_i16_def rc recompute_height.simps Option.bind.bind_lunit rebalance_i16.simps rebalance.simps bf Let_def
    using rot l'(1) r'(1) by (simp only: l'(2) [symmetric] r'(2) [symmetric] Option.bind.bind_lunit split: if_split) simp
qed

lemma insert_node_i16: "avl_wf t \<Longrightarrow> insert_node_i16 t k v = Some (insert_node t k v)"
proof (induction t)
  case (AvlNode k' v' l r h)
  note wf = avl_wf_children [OF AvlNode.prems]
  show ?case using AvlNode.IH wf repair_i16 avl_wf_insert by (simp del: recompute_height.simps rebalance.simps)
qed simp

lemma take_min_node_i16:
  "avl_wf t \<Longrightarrow> take_min_node_i16 t = Some (take_min_node t) \<and> avl_wf (fst (take_min_node t))"
proof (induction t)
  case (AvlNode k v l r h)
  note wf = avl_wf_children [OF AvlNode.prems]
  obtain l' m where tm: "take_min_node l = (l', m)" by fastforce
  obtain t' m' where t': "take_min_node (AvlNode k v l r h) = (t', m')" by fastforce
  have "avl_wf t'" using inorder_take_min [OF t'] balanced_take_min [OF _ t'] AvlNode.prems by (auto simp: avl_wf_def ordered_def)
  moreover have "take_min_node_i16 (AvlNode k v l r h) = Some (take_min_node (AvlNode k v l r h))"
    using AvlNode.IH(1) wf repair_i16 tm by (simp del: recompute_height.simps rebalance.simps)
  ultimately show ?case using t' by simp
qed (simp add: avl_wf_def)

lemma remove_node_i16: "avl_wf t \<Longrightarrow> remove_node_i16 t k = Some (remove_node t k)"
proof (induction t)
  case (AvlNode k' v' l r h)
  note wf = avl_wf_children [OF AvlNode.prems]
  obtain l' rl r' rr q m where e: "remove_node l k = (l', rl)" "remove_node r k = (r', rr)" "take_min_node r = (q, m)" by (metis surj_pair)
  have "avl_wf l'" "avl_wf r'" "avl_wf q" "take_min_node_i16 r = Some (q, m)"
    using avl_wf_remove [OF _ e(1)] avl_wf_remove [OF _ e(2)] take_min_node_i16 [of r] wf e(3) by simp_all
  then show ?case using AvlNode.IH wf e repair_i16 avl_wf_new [unfolded avl_new_def]
    by (cases m) (simp_all add: Let_def del: recompute_height.simps rebalance.simps)
qed simp

text \<open>The calls with \<open>i16\<close> heights.\<close>

fun avl_run_i16 :: "avl_tree \<Rightarrow> map_op list \<Rightarrow> (map_answer list \<times> avl_tree) option" where
  "avl_run_i16 t [] = Some ([], t)"
| "avl_run_i16 t (MapInsert k v # ops) = do {
     t' \<leftarrow> insert_node_i16 t k v;
     (answers, t'') \<leftarrow> avl_run_i16 t' ops;
     Some (Inserted True # answers, t'')}"
| "avl_run_i16 t (MapRemove k # ops) = do {
     (t', removed) \<leftarrow> remove_node_i16 t k;
     (answers, t'') \<leftarrow> avl_run_i16 t' ops;
     Some (Removed removed # answers, t'')}"

lemma avl_run_i16_eq: "avl_wf t \<Longrightarrow> avl_run_i16 t ops = Some (avl_run t ops)"
proof (induction t ops rule: avl_run.induct)
  case (2 t k v ops)
  then show ?case using avl_wf_insert [OF 2(3), of k v] by (simp add: insert_node_i16 avl_insert_def split: prod.split)
next
  case (3 t k ops)
  obtain t' r where rm: "remove_node t k = (t', r)" by fastforce
  then show ?case using 3 avl_wf_remove [OF 3(2) rm] by (simp add: remove_node_i16 avl_remove_def split: prod.split)
qed simp

text \<open>
  C22: no sequence of calls overflows an \<open>i16\<close>. With heights of that type, where an overflow of an addition in
  \<open>recompute_height\<close> or of the subtraction in \<open>balance_factor\<close> gives no result, every insertion and removal returns, with
  the same answers and the same tree as with unbounded heights, the trees in between the rotations included; and
  the height stored in each node of the tree lies between 1 and 129, since the keys are distinct 64-bit words and
  the height of a balanced tree is logarithmic in their number.
\<close>

theorem avl_height_fits_i16:
  "\<exists>answers t. avl_run_i16 avl_new ops = Some (answers, t) \<and> avl_run avl_new ops = (answers, t) \<and> heights_in 129 t"
  using avl_run_i16_eq [OF avl_wf_new, of ops] avl_wf_heights [OF avl_wf_run, of ops] by (cases "avl_run avl_new ops") simp

lemma visit_range_bindings:
  assumes "avl_wf t"
  shows "sorted_wrt (\<lambda>p q. fst p < fst q) (visit_range t lo hi) \<and>
         set (visit_range t lo hi) = {(k, v). lo \<le> k \<and> k < hi \<and> avl_find t k = Some v}"
proof -
  have o: "ordered t" using assms by (simp add: avl_wf_def)
  then have s: "sorted_wrt (\<lambda>p q. fst p < fst q) (inorder t)" by (simp add: ordered_def)
  then have "distinct (map fst (inorder t))"
    by (metis sorted_wrt_map strict_sorted_iff)
  then have "\<And>k v. map_of (inorder t) k = Some v \<longleftrightarrow> (k, v) \<in> set (inorder t)" by simp
  with o s show ?thesis
    by (auto simp: visit_range_inorder avl_find_inorder sorted_wrt_filter)
qed

text \<open>
  C23: \<open>visit_range\<close> calls its visitor with exactly the bindings whose key lies in the half-open
  range, each once and in increasing order of the keys.
\<close>

theorem visit_range_sorted_bindings:
  assumes "avl_wf t"
  shows "sorted_wrt (\<lambda>p q. fst p < fst q) (visit_range t lo hi) \<and>
         set (visit_range t lo hi) = {(k, v). lo \<le> k \<and> k < hi \<and> avl_find t k = Some v}"
  using assms by (rule visit_range_bindings)

theorem visit_range_sorted_bindings_witness:
  "visit_range (snd (avl_run avl_new [MapInsert 4096 7, MapInsert 8192 9])) 4096 8192 = [(4096, 7)] \<and>
   set (visit_range (snd (avl_run avl_new [MapInsert 4096 7, MapInsert 8192 9])) 4096 8192) =
     {(k, v). 4096 \<le> k \<and> k < 8192 \<and>
        avl_find (snd (avl_run avl_new [MapInsert 4096 7, MapInsert 8192 9])) k = Some v}"
proof
  show "visit_range (snd (avl_run avl_new [MapInsert 4096 7, MapInsert 8192 9])) 4096 8192 = [(4096, 7)]"
    by (simp add: avl_new_def avl_insert_def taller_def)
qed (rule visit_range_sorted_bindings [OF avl_wf_run, THEN conjunct2])

end
