(* ===== verification/Service_Protocol.thy ===== *)
theory Service_Protocol
  imports Nanami_Prelude
begin

unbundle bit_operations_syntax

text \<open>
  The managed-service vocabulary of \<open>uapi/src/service.rs\<close>: identities, binding phases, the
  one-word encoding of a binding state that a manager receives, the packing of root slots in a
  provider registration, and the tagged identifiers of sessions.
\<close>

section \<open>Identities and phases\<close>

datatype provider_id = ProviderId (provider_word: machine_word)
datatype service_id = ServiceId (service_word: machine_word)
datatype session_id = SessionId (session_word: machine_word)

datatype binding_phase = Active | Prepared | Quiescing | Quiesced | Faulted

record binding_state =
  bs_service :: service_id
  bs_generation :: machine_word
  bs_phase :: binding_phase

record session_buffer =
  sb_address :: machine_word
  sb_bytes :: machine_word

definition STATELESS_CONTROL_PROFILE :: machine_word where
  "STATELESS_CONTROL_PROFILE = 1"

definition MANAGED_BUFFER_PROFILE :: machine_word where
  "MANAGED_BUFFER_PROFILE = 2"

definition MANAGED_EVENT_PROFILE :: machine_word where
  "MANAGED_EVENT_PROFILE = 3"

definition SESSION_IDENTIFIER_BIT :: machine_word where
  "SESSION_IDENTIFIER_BIT = push_bit 63 1"

lemmas profile_defs =
  STATELESS_CONTROL_PROFILE_def MANAGED_BUFFER_PROFILE_def MANAGED_EVENT_PROFILE_def

fun permits_buffer_view :: "binding_phase \<Rightarrow> bool" where
  "permits_buffer_view Active = True"
| "permits_buffer_view Prepared = True"
| "permits_buffer_view Quiescing = True"
| "permits_buffer_view _ = False"

section \<open>Root slots of a provider\<close>

definition caller_slot :: "machine_word \<Rightarrow> bool" where
  "caller_slot s \<longleftrightarrow> 23 \<le> s \<and> s < 224"

definition provider_slots ::
  "machine_word \<Rightarrow> machine_word \<Rightarrow> machine_word \<Rightarrow> (machine_word \<times> machine_word) option" where
  "provider_slots profile raw notification =
     (let slots =
        (if profile = MANAGED_EVENT_PROFILE then Some (raw AND 255, drop_bit 8 raw)
         else if profile = STATELESS_CONTROL_PROFILE \<or> profile = MANAGED_BUFFER_PROFILE
         then Some (raw, 0)
         else None)
      in case slots of
        None \<Rightarrow> None
      | Some (receiver, event) \<Rightarrow>
          if \<not> caller_slot receiver \<or> \<not> caller_slot notification \<or> receiver = notification then None
          else if profile = MANAGED_EVENT_PROFILE \<and>
            (\<not> caller_slot event \<or> event = receiver \<or> event = notification) then None
          else Some (receiver, event))"

section \<open>Encoded binding states\<close>

fun phase_word :: "binding_phase \<Rightarrow> machine_word" where
  "phase_word Active = 0"
| "phase_word Prepared = 1"
| "phase_word Quiescing = 2"
| "phase_word Quiesced = 3"
| "phase_word Faulted = 4"

definition encode_state :: "binding_state \<Rightarrow> machine_word" where
  "encode_state s = push_bit 3 (bs_generation s) OR phase_word (bs_phase s)"

definition decode_state :: "service_id \<Rightarrow> machine_word \<Rightarrow> binding_state" where
  "decode_state service raw =
     (let low = raw AND 7;
          phase = (if low = 0 then Active else if low = 1 then Prepared
                   else if low = 2 then Quiescing else if low = 3 then Quiesced else Faulted)
      in \<lparr>bs_service = service, bs_generation = drop_bit 3 raw, bs_phase = phase\<rparr>)"

text \<open>The largest generation that survives the shift of \<open>encode\<close>: \<open>Word::MAX >> 3\<close>.\<close>

definition generation_max :: machine_word where
  "generation_max = drop_bit 3 (- 1)"

lemma generation_max_eq: "generation_max = 2 ^ 61 - 1"
  by (simp add: generation_max_def mask_eq_exp_minus_1)

lemma generation_step:
  assumes "g < generation_max"
  shows "g < g + 1" and "1 \<le> g + 1" and "g + 1 \<le> generation_max"
proof -
  have "unat g < 2305843009213693951"
    using assms by (simp add: generation_max_eq word_less_nat_alt)
  then have u: "unat (g + 1) = unat g + 1" by (simp add: unat_word_ariths)
  then show "g < g + 1" "1 \<le> g + 1" by (simp_all add: word_less_nat_alt word_le_nat_alt)
  show "g + 1 \<le> generation_max" using assms by (rule inc_le)
qed

lemma shifted_generation_low: "push_bit 3 g AND 7 = (0::machine_word)"
proof -
  have "push_bit 3 g AND mask 3 = (0::machine_word)" by (rule bit_word_eqI) (simp add: bit_simps)
  then show ?thesis by (simp add: mask_eq_exp_minus_1)
qed

lemma shifted_generation_back:
  assumes "g \<le> generation_max"
  shows "drop_bit 3 (push_bit 3 g) = g"
proof (rule bit_word_eqI)
  fix n assume "n < LENGTH(64)"
  have "g < 2 ^ 61" using assms by (simp add: generation_max_eq word_le_sub1 unat_arith_simps)
  then have "bit g n \<Longrightarrow> n < 61" by (rule word_less_exp_bit)
  then show "bit (drop_bit 3 (push_bit 3 g)) n = bit g n" by (auto simp: bit_simps)
qed

lemma decode_encode:
  assumes "bs_generation s \<le> generation_max"
  shows "decode_state (bs_service s) (encode_state s) = s"
  using shifted_generation_back [OF assms] shifted_generation_low [of "bs_generation s"]
  by (cases s; cases "bs_phase s")
    (simp_all add: decode_state_def encode_state_def bit.conj_disj_distrib2 drop_bit_or Let_def)

section \<open>Tagged session identifiers\<close>

definition session_tagged :: "session_id \<Rightarrow> bool" where
  "session_tagged s \<longleftrightarrow> session_word s AND SESSION_IDENTIFIER_BIT \<noteq> 0"

definition session_position :: "session_id \<Rightarrow> machine_word" where
  "session_position s = session_word s AND NOT SESSION_IDENTIFIER_BIT"

definition tagged_session :: "nat \<Rightarrow> session_id" where
  "tagged_session i = SessionId (SESSION_IDENTIFIER_BIT OR index_id i)"

lemma bit_session_identifier: "bit SESSION_IDENTIFIER_BIT n \<longleftrightarrow> n = 63"
  unfolding SESSION_IDENTIFIER_BIT_def bit_push_bit_iff bit_1_iff by auto

lemma index_id_low:
  assumes "i < 2 ^ 62"
  shows "\<not> bit (index_id i) 63"
proof
  assume "bit (index_id i) 63"
  moreover have "index_id i < 2 ^ 63"
    using assms unat_of_nat [of "i + 1", where 'a = 64]
    by (simp add: index_id_def word_less_nat_alt take_bit_nat_eq_self)
  ultimately show False using word_less_exp_bit [of "index_id i" 63 63] by simp
qed

lemma tagged_session_tagged [simp]: "session_tagged (tagged_session i)"
proof -
  have "bit ((SESSION_IDENTIFIER_BIT OR index_id i) AND SESSION_IDENTIFIER_BIT) 63"
    by (simp add: bit_session_identifier bit_or_iff bit_and_iff)
  then show ?thesis by (auto simp: session_tagged_def tagged_session_def)
qed

lemma tagged_session_position [simp]:
  "i < 2 ^ 62 \<Longrightarrow> session_position (tagged_session i) = index_id i"
  using index_id_low [of i]
  by (auto simp: session_position_def tagged_session_def bit_session_identifier bit_or_iff
      bit_and_iff bit_not_iff intro!: bit_word_eqI)

lemma tagged_session_index [simp]:
  "i < 2 ^ 62 \<Longrightarrow> id_index (session_position (tagged_session i)) = i"
  by simp

end
