(* ===== verification/Bindings.thy ===== *)
theory Bindings
  imports Service_Protocol
begin

text \<open>
  The binding ledger of \<open>nanami_core/communication/bindings.rs\<close>: which provider serves which
  managed service, the cooperative handover from one provider to the next, and the sessions of
  clients. The capability effects of an operation are closures in the source; here they are
  functions on an arbitrary world \<open>'w\<close> that return a result and the changed world, so a definition
  shows when an effect runs and what its failure does. An operation returns \<open>None\<close> exactly where
  the source would panic (an index out of bounds or an \<open>unwrap\<close> of an empty entry).
\<close>

section \<open>State\<close>

definition PROVIDERS :: nat where "PROVIDERS = 32"
definition SERVICES :: nat where "SERVICES = 32"
definition SESSIONS :: nat where "SESSIONS = 64"

lemmas table_sizes = PROVIDERS_def SERVICES_def SESSIONS_def

record provider_entry =
  p_owner :: machine_word
  p_interface :: machine_word
  p_profile :: machine_word
  p_receiver_slot :: machine_word
  p_notification_slot :: machine_word
  p_event_slot :: machine_word
  p_service :: "service_id option"
  p_last_service :: "service_id option"
  p_retired :: bool

record service_entry =
  s_manager :: machine_word
  s_provider :: provider_id
  s_pending :: "provider_id option"
  s_state :: binding_state
  s_session_limit :: nat
  s_profile :: machine_word

datatype session_owner = OwnerProcess machine_word | OwnerDomain machine_word

record session_entry =
  c_owner :: session_owner
  c_slot :: machine_word
  c_service :: service_id
  c_closed :: bool

record bindings =
  providers :: "provider_entry option list"
  services :: "service_entry option list"
  sessions :: "session_entry option list"
  provider_count :: nat
  service_count :: nat
  session_count :: nat

type_synonym 'w effect = "'w \<Rightarrow> unit cap_result \<times> 'w"
type_synonym ('a, 'w) binding_op = "('a cap_result \<times> bindings \<times> 'w) option"

definition bindings_new :: bindings where
  "bindings_new =
     \<lparr>providers = replicate PROVIDERS None, services = replicate SERVICES None,
      sessions = replicate SESSIONS None, provider_count = 0, service_count = 0, session_count = 0\<rparr>"

section \<open>Lookups\<close>

definition provider :: "bindings \<Rightarrow> provider_id \<Rightarrow> provider_entry cap_result" where
  "provider b pid =
     (case array_get (providers b) (id_index (provider_word pid)) of
        None \<Rightarrow> Inl InvalidArgument
      | Some p \<Rightarrow> if p_retired p then Inl InvalidArgument else Inr p)"

definition service :: "bindings \<Rightarrow> service_id \<Rightarrow> service_entry cap_result" where
  "service b sid =
     (case array_get (services b) (id_index (service_word sid)) of
        None \<Rightarrow> Inl InvalidArgument
      | Some s \<Rightarrow> Inr s)"

definition session :: "bindings \<Rightarrow> session_id \<Rightarrow> session_entry cap_result" where
  "session b cid =
     (if \<not> session_tagged cid then Inl InvalidArgument
      else case array_get (sessions b) (id_index (session_position cid)) of
             None \<Rightarrow> Inl InvalidArgument
           | Some c \<Rightarrow> Inr c)"

definition has_live_sessions :: "bindings \<Rightarrow> machine_word \<Rightarrow> bool" where
  "has_live_sessions b pid \<longleftrightarrow>
     flat_any (\<lambda>c. c_owner c = OwnerProcess pid \<and> \<not> c_closed c) (take (session_count b) (sessions b))"

definition owns_process_slot :: "bindings \<Rightarrow> machine_word \<Rightarrow> machine_word \<Rightarrow> bool" where
  "owns_process_slot b pid slot \<longleftrightarrow>
     flat_any (\<lambda>p. p_owner p = pid \<and>
       (p_receiver_slot p = slot \<or> p_notification_slot p = slot \<or>
        (p_event_slot p \<noteq> 0 \<and> p_event_slot p = slot))) (providers b) \<or>
     flat_any (\<lambda>c. \<not> c_closed c \<and> c_owner c = OwnerProcess pid \<and> c_slot c = slot) (sessions b)"

definition live_provider_of :: "machine_word \<Rightarrow> provider_entry option \<Rightarrow> bool" where
  "live_provider_of owner e \<longleftrightarrow>
     (case e of None \<Rightarrow> False | Some p \<Rightarrow> \<not> p_retired p \<and> p_owner p = owner)"

definition provider_for_owner :: "bindings \<Rightarrow> machine_word \<Rightarrow> (provider_id \<times> provider_entry) option" where
  "provider_for_owner b owner =
     (case first_index (live_provider_of owner) (providers b) of
        None \<Rightarrow> None
      | Some i \<Rightarrow> map_option (\<lambda>p. (ProviderId (index_id i), p)) (providers b ! i))"

definition has_provider_authority :: "bindings \<Rightarrow> machine_word \<Rightarrow> bool" where
  "has_provider_authority b pid \<longleftrightarrow> flat_any (\<lambda>p. p_owner p = pid) (providers b)"

definition retired_service_for_owner :: "bindings \<Rightarrow> machine_word \<Rightarrow> service_id option" where
  "retired_service_for_owner b owner =
     (case first_index (\<lambda>e. case e of None \<Rightarrow> False | Some p \<Rightarrow> p_owner p = owner \<and> p_retired p)
             (providers b) of
        None \<Rightarrow> None
      | Some i \<Rightarrow> Option.bind (providers b ! i) p_last_service)"

section \<open>Entry updates\<close>

definition with_provider :: "bindings \<Rightarrow> provider_id \<Rightarrow> (provider_entry \<Rightarrow> provider_entry) \<Rightarrow> bindings option" where
  "with_provider b pid f =
     map_option (\<lambda>ps. b\<lparr>providers := ps\<rparr>)
       (array_modify (providers b) (id_index (provider_word pid)) f)"

definition with_service :: "bindings \<Rightarrow> service_id \<Rightarrow> (service_entry \<Rightarrow> service_entry) \<Rightarrow> bindings option" where
  "with_service b sid f =
     map_option (\<lambda>ss. b\<lparr>services := ss\<rparr>)
       (array_modify (services b) (id_index (service_word sid)) f)"

definition with_session :: "bindings \<Rightarrow> session_id \<Rightarrow> (session_entry \<Rightarrow> session_entry) \<Rightarrow> bindings option" where
  "with_session b cid f =
     map_option (\<lambda>cs. b\<lparr>sessions := cs\<rparr>)
       (array_modify (sessions b) (id_index (session_position cid)) f)"

definition set_phase :: "binding_phase \<Rightarrow> service_entry \<Rightarrow> service_entry" where
  "set_phase ph s = s\<lparr>s_state := (s_state s)\<lparr>bs_phase := ph\<rparr>\<rparr>"

definition push_provider :: "bindings \<Rightarrow> provider_entry \<Rightarrow> bindings option" where
  "push_provider b p =
     map_option (\<lambda>ps. b\<lparr>providers := ps, provider_count := provider_count b + 1\<rparr>)
       (array_set (providers b) (provider_count b) (Some p))"

definition push_service :: "bindings \<Rightarrow> service_entry \<Rightarrow> bindings option" where
  "push_service b s =
     map_option (\<lambda>ss. b\<lparr>services := ss, service_count := service_count b + 1\<rparr>)
       (array_set (services b) (service_count b) (Some s))"

definition push_session :: "bindings \<Rightarrow> session_entry \<Rightarrow> bindings option" where
  "push_session b c =
     map_option (\<lambda>cs. b\<lparr>sessions := cs, session_count := session_count b + 1\<rparr>)
       (array_set (sessions b) (session_count b) (Some c))"

section \<open>Providers and publication\<close>

definition register_provider_profile ::
  "bindings \<Rightarrow> machine_word \<Rightarrow> machine_word \<Rightarrow> machine_word \<Rightarrow> machine_word \<Rightarrow> machine_word \<Rightarrow>
   (provider_id \<Rightarrow> 'w effect) \<Rightarrow> 'w \<Rightarrow> (provider_id, 'w) binding_op" where
  "register_provider_profile b owner interface raw_slot notification_slot profile prepare w =
     (case provider_slots profile raw_slot notification_slot of
        None \<Rightarrow> Some (Inl InvalidArgument, b, w)
      | Some (receiver_slot, event_slot) \<Rightarrow>
          if owner = 0 \<or> interface = 0 then Some (Inl InvalidArgument, b, w)
          else case provider_for_owner b owner of
            Some (pid, existing) \<Rightarrow>
              if p_interface existing = interface \<and> p_receiver_slot existing = receiver_slot \<and>
                 p_notification_slot existing = notification_slot \<and> p_profile existing = profile \<and>
                 p_event_slot existing = event_slot
              then Some (Inr pid, b, w)
              else Some (Inl PermissionDenied, b, w)
          | None \<Rightarrow>
              if provider_count b = PROVIDERS then Some (Inl InvalidArgument, b, w)
              else
                let pid = ProviderId (index_id (provider_count b)) in
                case prepare pid w of
                  (Inl e, w') \<Rightarrow> Some (Inl e, b, w')
                | (Inr _, w') \<Rightarrow>
                    map_option (\<lambda>b'. (Inr pid, b', w'))
                      (push_provider b
                        \<lparr>p_owner = owner, p_interface = interface, p_profile = profile,
                         p_receiver_slot = receiver_slot, p_notification_slot = notification_slot,
                         p_event_slot = event_slot, p_service = None, p_last_service = None,
                         p_retired = False\<rparr>))"

definition register_provider ::
  "bindings \<Rightarrow> machine_word \<Rightarrow> machine_word \<Rightarrow> machine_word \<Rightarrow> machine_word \<Rightarrow>
   (provider_id \<Rightarrow> 'w effect) \<Rightarrow> 'w \<Rightarrow> (provider_id, 'w) binding_op" where
  "register_provider b owner interface receiver_slot notification_slot prepare w =
     register_provider_profile b owner interface receiver_slot notification_slot
       STATELESS_CONTROL_PROFILE prepare w"

definition initial_service ::
  "machine_word \<Rightarrow> provider_id \<Rightarrow> service_id \<Rightarrow> nat \<Rightarrow> machine_word \<Rightarrow> service_entry" where
  "initial_service manager pid sid limit profile =
     \<lparr>s_manager = manager, s_provider = pid, s_pending = None,
      s_state = \<lparr>bs_service = sid, bs_generation = 1, bs_phase = Active\<rparr>,
      s_session_limit = limit, s_profile = profile\<rparr>"

definition publish ::
  "bindings \<Rightarrow> machine_word \<Rightarrow> provider_id \<Rightarrow> (service_id \<Rightarrow> provider_entry \<Rightarrow> 'w effect) \<Rightarrow> 'w \<Rightarrow>
   (service_id, 'w) binding_op" where
  "publish b manager pid install w =
     (case provider b pid of
        Inl e \<Rightarrow> Some (Inl e, b, w)
      | Inr inst \<Rightarrow>
          if manager = 0 \<or> p_service inst \<noteq> None \<or> service_count b = SERVICES
          then Some (Inl InvalidArgument, b, w)
          else
            let sid = ServiceId (index_id (service_count b)) in
            case install sid inst w of
              (Inl e, w') \<Rightarrow> Some (Inl e, b, w')
            | (Inr _, w') \<Rightarrow>
                map_option (\<lambda>b'. (Inr sid, b', w'))
                  (Option.bind (with_provider b pid (\<lambda>p. p\<lparr>p_service := Some sid\<rparr>))
                    (\<lambda>b1. push_service b1 (initial_service manager pid sid SESSIONS (p_profile inst)))))"

definition import_service :: "bindings \<Rightarrow> nat \<Rightarrow> (service_id cap_result \<times> bindings) option" where
  "import_service b limit =
     (if \<not> (1 \<le> limit \<and> limit \<le> SESSIONS) \<or> service_count b = SERVICES
      then Some (Inl InvalidArgument, b)
      else
        let sid = ServiceId (index_id (service_count b)) in
        map_option (\<lambda>b'. (Inr sid, b'))
          (push_service b (initial_service 0 (ProviderId 0) sid limit STATELESS_CONTROL_PROFILE)))"

section \<open>Cooperative handover\<close>

definition owned ::
  "bindings \<Rightarrow> machine_word \<Rightarrow> service_id \<Rightarrow> machine_word \<Rightarrow> service_entry cap_result" where
  "owned b caller sid generation =
     (case service b sid of
        Inl e \<Rightarrow> Inl e
      | Inr s \<Rightarrow>
          if caller = 0 \<or> s_manager s \<noteq> caller then Inl PermissionDenied
          else if bs_generation (s_state s) \<noteq> generation then Inl InvalidArgument
          else Inr s)"

definition prepare ::
  "bindings \<Rightarrow> machine_word \<Rightarrow> service_id \<Rightarrow> machine_word \<Rightarrow> provider_id \<Rightarrow>
   (unit cap_result \<times> bindings) option" where
  "prepare b caller sid generation nxt =
     (case owned b caller sid generation of
        Inl e \<Rightarrow> Some (Inl e, b)
      | Inr s \<Rightarrow>
        (case provider b nxt of
           Inl e \<Rightarrow> Some (Inl e, b)
         | Inr target \<Rightarrow>
             if bs_phase (s_state s) \<noteq> Active \<or> nxt = s_provider s \<or> p_service target \<noteq> None
             then Some (Inl InvalidArgument, b)
             else case provider b (s_provider s) of
               Inl e \<Rightarrow> Some (Inl e, b)
             | Inr current \<Rightarrow>
                 if p_interface target \<noteq> p_interface current \<or> p_profile target \<noteq> s_profile s \<or>
                    generation \<ge> generation_max
                 then Some (Inl InvalidArgument, b)
                 else map_option (\<lambda>b'. (Inr (), b'))
                   (Option.bind (with_provider b nxt (\<lambda>p. p\<lparr>p_service := Some sid\<rparr>))
                     (\<lambda>b1. with_service b1 sid (\<lambda>s. set_phase Prepared (s\<lparr>s_pending := Some nxt\<rparr>))))))"

definition quiesce ::
  "bindings \<Rightarrow> machine_word \<Rightarrow> service_id \<Rightarrow> machine_word \<Rightarrow> (provider_id \<Rightarrow> 'w effect) \<Rightarrow> 'w \<Rightarrow>
   (unit, 'w) binding_op" where
  "quiesce b caller sid generation signal w =
     (case owned b caller sid generation of
        Inl e \<Rightarrow> Some (Inl e, b, w)
      | Inr s \<Rightarrow>
          if bs_phase (s_state s) \<noteq> Prepared then Some (Inl InvalidArgument, b, w)
          else case signal (s_provider s) w of
            (Inl e, w') \<Rightarrow> Some (Inl e, b, w')
          | (Inr _, w') \<Rightarrow>
              map_option (\<lambda>b'. (Inr (), b', w')) (with_service b sid (set_phase Quiescing)))"

definition provider_binding ::
  "bindings \<Rightarrow> machine_word \<Rightarrow> provider_id \<Rightarrow> binding_state cap_result" where
  "provider_binding b caller pid =
     (case provider b pid of
        Inl e \<Rightarrow> Inl e
      | Inr p \<Rightarrow>
          if caller \<noteq> p_owner p then Inl PermissionDenied
          else case p_service p of
            None \<Rightarrow> Inl InvalidArgument
          | Some sid \<Rightarrow>
              (case service b sid of
                 Inl e \<Rightarrow> Inl e
               | Inr s \<Rightarrow> if s_provider s \<noteq> pid then Inl InvalidArgument else Inr (s_state s)))"

definition fault :: "bindings \<Rightarrow> service_id \<Rightarrow> bindings" where
  "fault b sid = (case with_service b sid (set_phase Faulted) of None \<Rightarrow> b | Some b' \<Rightarrow> b')"

definition acknowledge ::
  "bindings \<Rightarrow> machine_word \<Rightarrow> provider_id \<Rightarrow> machine_word \<Rightarrow>
   (service_id \<Rightarrow> provider_entry \<Rightarrow> 'w effect) \<Rightarrow> 'w \<Rightarrow> (service_id, 'w) binding_op" where
  "acknowledge b caller pid generation withdraw w =
     (case provider b pid of
        Inl e \<Rightarrow> Some (Inl e, b, w)
      | Inr p \<Rightarrow>
        (case provider_binding b caller pid of
           Inl e \<Rightarrow> Some (Inl e, b, w)
         | Inr state \<Rightarrow>
             if bs_generation state \<noteq> generation \<or> bs_phase state \<noteq> Quiescing
             then Some (Inl InvalidArgument, b, w)
             else case withdraw (bs_service state) p w of
               (Inl e, w') \<Rightarrow>
                 Some (Inl e, if e = Fatal then fault b (bs_service state) else b, w')
             | (Inr _, w') \<Rightarrow>
                 map_option (\<lambda>b'. (Inr (bs_service state), b', w'))
                   (with_service b (bs_service state) (set_phase Quiesced))))"

definition commit ::
  "bindings \<Rightarrow> machine_word \<Rightarrow> service_id \<Rightarrow> machine_word \<Rightarrow>
   (service_id \<Rightarrow> provider_entry \<Rightarrow> 'w effect) \<Rightarrow> 'w \<Rightarrow> (provider_id, 'w) binding_op" where
  "commit b caller sid generation install w =
     (case owned b caller sid generation of
        Inl e \<Rightarrow> Some (Inl e, b, w)
      | Inr s \<Rightarrow>
          if bs_phase (s_state s) \<noteq> Quiesced then Some (Inl InvalidArgument, b, w)
          else case s_pending s of
            None \<Rightarrow> Some (Inl InvalidArgument, b, w)
          | Some nxt \<Rightarrow>
            (case provider b nxt of
               Inl e \<Rightarrow> Some (Inl e, b, w)
             | Inr p \<Rightarrow>
                 case install sid p w of
                   (Inl e, w') \<Rightarrow>
                     if e = Fatal
                     then map_option (\<lambda>b'. (Inl e, b', w')) (with_service b sid (set_phase Faulted))
                     else Some (Inl e, b, w')
                 | (Inr _, w') \<Rightarrow>
                     map_option (\<lambda>b'. (Inr nxt, b', w'))
                       (Option.bind
                         (with_provider b (s_provider s)
                            (\<lambda>p. p\<lparr>p_service := None, p_last_service := Some sid\<rparr>))
                         (\<lambda>b1. with_service b1 sid
                            (\<lambda>s. set_phase Active
                              (s\<lparr>s_provider := nxt, s_pending := None,
                                 s_state := (s_state s)\<lparr>bs_generation := bs_generation (s_state s) + 1\<rparr>\<rparr>))))))"

definition abort_finish :: "bindings \<Rightarrow> service_id \<Rightarrow> service_entry \<Rightarrow> bindings option" where
  "abort_finish b sid s =
     Option.bind
       (case s_pending s of None \<Rightarrow> Some b | Some q \<Rightarrow> with_provider b q (\<lambda>p. p\<lparr>p_service := None\<rparr>))
       (\<lambda>b1. with_service b1 sid (\<lambda>s. set_phase Active (s\<lparr>s_pending := None\<rparr>)))"

definition abort ::
  "bindings \<Rightarrow> machine_word \<Rightarrow> service_id \<Rightarrow> machine_word \<Rightarrow>
   (service_id \<Rightarrow> provider_entry \<Rightarrow> 'w effect) \<Rightarrow> 'w \<Rightarrow> (unit, 'w) binding_op" where
  "abort b caller sid generation restore w =
     (case owned b caller sid generation of
        Inl e \<Rightarrow> Some (Inl e, b, w)
      | Inr s \<Rightarrow>
          if bs_phase (s_state s) = Prepared
          then map_option (\<lambda>b'. (Inr (), b', w)) (abort_finish b sid s)
          else if bs_phase (s_state s) = Quiesced then
            (case provider b (s_provider s) of
               Inl e \<Rightarrow> Some (Inl e, b, w)
             | Inr p \<Rightarrow>
                 case restore sid p w of
                   (Inl e, w') \<Rightarrow>
                     if e = Fatal
                     then map_option (\<lambda>b'. (Inl e, b', w')) (with_service b sid (set_phase Faulted))
                     else Some (Inl e, b, w')
                 | (Inr _, w') \<Rightarrow> map_option (\<lambda>b'. (Inr (), b', w')) (abort_finish b sid s))
          else Some (Inl InvalidArgument, b, w))"

section \<open>Sessions and retirement\<close>

definition charged :: "bindings \<Rightarrow> service_id \<Rightarrow> nat" where
  "charged b sid =
     length (filter (\<lambda>e. case e of None \<Rightarrow> False | Some c \<Rightarrow> c_service c = sid)
       (take (session_count b) (sessions b)))"

definition connect_owned ::
  "bindings \<Rightarrow> session_owner \<Rightarrow> service_id \<Rightarrow> machine_word \<Rightarrow> (session_id \<Rightarrow> 'w effect) \<Rightarrow> 'w \<Rightarrow>
   (session_id, 'w) binding_op" where
  "connect_owned b owner sid slot install w =
     (case service b sid of
        Inl e \<Rightarrow> Some (Inl e, b, w)
      | Inr s \<Rightarrow>
          if bs_phase (s_state s) = Faulted then Some (Inl Fatal, b, w)
          else if session_count b = SESSIONS \<or> charged b sid \<ge> s_session_limit s
          then Some (Inl InvalidArgument, b, w)
          else
            let cid = tagged_session (session_count b) in
            case install cid w of
              (Inl e, w') \<Rightarrow>
                if e = Fatal
                then map_option (\<lambda>b'. (Inl e, b', w'))
                  (Option.bind
                    (push_session b \<lparr>c_owner = owner, c_slot = slot, c_service = sid, c_closed = True\<rparr>)
                    (\<lambda>b1. with_service b1 sid (set_phase Faulted)))
                else Some (Inl e, b, w')
            | (Inr _, w') \<Rightarrow>
                map_option (\<lambda>b'. (Inr cid, b', w'))
                  (push_session b \<lparr>c_owner = owner, c_slot = slot, c_service = sid, c_closed = False\<rparr>))"

definition connect ::
  "bindings \<Rightarrow> machine_word \<Rightarrow> service_id \<Rightarrow> machine_word \<Rightarrow> (session_id \<Rightarrow> 'w effect) \<Rightarrow> 'w \<Rightarrow>
   (session_id, 'w) binding_op" where
  "connect b client sid slot install w =
     (if client = 0 then Some (Inl InvalidArgument, b, w)
      else connect_owned b (OwnerProcess client) sid slot install w)"

definition connect_domain ::
  "bindings \<Rightarrow> machine_word \<Rightarrow> service_id \<Rightarrow> machine_word \<Rightarrow> (session_id \<Rightarrow> 'w effect) \<Rightarrow> 'w \<Rightarrow>
   (session_id, 'w) binding_op" where
  "connect_domain b domain sid slot install w =
     (if domain = 0 then Some (Inl InvalidArgument, b, w)
      else connect_owned b (OwnerDomain domain) sid slot install w)"

definition close_session ::
  "bindings \<Rightarrow> machine_word \<Rightarrow> session_id \<Rightarrow> (session_entry \<Rightarrow> 'w effect) \<Rightarrow> 'w \<Rightarrow> (unit, 'w) binding_op"
where
  "close_session b caller cid withdraw w =
     (case session b cid of
        Inl e \<Rightarrow> Some (Inl e, b, w)
      | Inr c \<Rightarrow>
          if c_owner c \<noteq> OwnerProcess caller then Some (Inl PermissionDenied, b, w)
          else if c_closed c then Some (Inr (), b, w)
          else case withdraw c w of
            (Inl e, w') \<Rightarrow> Some (Inl e, b, w')
          | (Inr _, w') \<Rightarrow>
              map_option (\<lambda>b'. (Inr (), b', w')) (with_session b cid (\<lambda>c. c\<lparr>c_closed := True\<rparr>)))"

definition retire_provider ::
  "bindings \<Rightarrow> machine_word \<Rightarrow> provider_id \<Rightarrow> (provider_id \<Rightarrow> 'w effect) \<Rightarrow> 'w \<Rightarrow> (unit, 'w) binding_op"
where
  "retire_provider b caller pid release w =
     (case provider b pid of
        Inl e \<Rightarrow> Some (Inl e, b, w)
      | Inr p \<Rightarrow>
          if caller \<noteq> p_owner p then Some (Inl PermissionDenied, b, w)
          else if p_service p \<noteq> None then Some (Inl InvalidArgument, b, w)
          else case release pid w of
            (Inl e, w') \<Rightarrow> Some (Inl e, b, w')
          | (Inr _, w') \<Rightarrow>
              map_option (\<lambda>b'. (Inr (), b', w')) (with_provider b pid (\<lambda>p. p\<lparr>p_retired := True\<rparr>)))"

end
