(* ===== verification/Bindings_Invariant.thy ===== *)
theory Bindings_Invariant
  imports Bindings
begin

text \<open>
  The invariant of the binding ledger and its preservation. The invariant is stated on the tables
  seen as maps from identifiers: every local service has a live, attached provider; a pending
  provider is attached too, is different from the current one and exists exactly while a handover
  is in progress; every attached provider is the current or the pending one of its service; no
  session belongs to an unknown service; no service is charged more sessions than its limit; a
  process owns at most one live provider. Each operation keeps it and never panics. The last
  sections define the steps of the ledger and how one step may change a service.
\<close>

section \<open>Invariant\<close>

text \<open>
  The two tables seen as finite maps from identifiers, which is what the invariant is about.
\<close>

definition provider_at :: "bindings \<Rightarrow> provider_id \<Rightarrow> provider_entry option" where
  "provider_at b pid = array_get (providers b) (id_index (provider_word pid))"

definition service_at :: "bindings \<Rightarrow> service_id \<Rightarrow> service_entry option" where
  "service_at b sid = array_get (services b) (id_index (service_word sid))"

definition attached :: "(provider_id \<Rightarrow> provider_entry option) \<Rightarrow> service_id \<Rightarrow> machine_word \<Rightarrow> provider_id \<Rightarrow> bool" where
  "attached P sid profile pid \<longleftrightarrow>
     (\<exists>p. P pid = Some p \<and> \<not> p_retired p \<and> p_service p = Some sid \<and> p_profile p = profile)"

definition service_ok :: "(provider_id \<Rightarrow> provider_entry option) \<Rightarrow> service_id \<Rightarrow> service_entry \<Rightarrow> bool" where
  "service_ok P sid s \<longleftrightarrow>
     bs_service (s_state s) = sid \<and>
     1 \<le> bs_generation (s_state s) \<and> bs_generation (s_state s) \<le> generation_max \<and>
     (s_pending s \<noteq> None \<longrightarrow> bs_generation (s_state s) < generation_max) \<and>
     (s_pending s = None \<longrightarrow> bs_phase (s_state s) \<in> {Active, Faulted}) \<and>
     (s_pending s \<noteq> None \<longrightarrow> bs_phase (s_state s) \<noteq> Active) \<and>
     (if s_manager s = 0 then s_provider s = ProviderId 0 \<and> s_pending s = None
      else attached P sid (s_profile s) (s_provider s) \<and>
        (\<forall>q. s_pending s = Some q \<longrightarrow> q \<noteq> s_provider s \<and> attached P sid (s_profile s) q))"

definition provider_ok :: "(service_id \<Rightarrow> service_entry option) \<Rightarrow> provider_id \<Rightarrow> provider_entry \<Rightarrow> bool" where
  "provider_ok S pid p \<longleftrightarrow>
     p_owner p \<noteq> 0 \<and>
     (\<forall>sid. p_service p = Some sid \<longrightarrow>
        (\<exists>s. S sid = Some s \<and> s_manager s \<noteq> 0 \<and> (s_provider s = pid \<or> s_pending s = Some pid)))"

definition ledger_ok :: "(provider_id \<Rightarrow> provider_entry option) \<Rightarrow> (service_id \<Rightarrow> service_entry option) \<Rightarrow> bool" where
  "ledger_ok P S \<longleftrightarrow>
     (\<forall>sid s. S sid = Some s \<longrightarrow> service_ok P sid s) \<and>
     (\<forall>pid p. P pid = Some p \<longrightarrow> provider_ok S pid p)"

definition table_ok :: "nat \<Rightarrow> nat \<Rightarrow> 'a option list \<Rightarrow> bool" where
  "table_ok n count xs \<longleftrightarrow>
     length xs = n \<and> count \<le> n \<and> (\<forall>i. array_get xs i \<noteq> None \<longleftrightarrow> i < count)"

definition sessions_ok :: "bindings \<Rightarrow> bool" where
  "sessions_ok b \<longleftrightarrow>
     (\<forall>i c. array_get (sessions b) i = Some c \<longrightarrow> service_at b (c_service c) \<noteq> None) \<and>
     (\<forall>sid s. service_at b sid = Some s \<longrightarrow>
        s_session_limit s \<le> SESSIONS \<and> charged b sid \<le> s_session_limit s)"

definition owners_unique :: "bindings \<Rightarrow> bool" where
  "owners_unique b \<longleftrightarrow>
     (\<forall>pid qid p q. provider_at b pid = Some p \<longrightarrow> provider_at b qid = Some q \<longrightarrow>
        \<not> p_retired p \<longrightarrow> \<not> p_retired q \<longrightarrow> p_owner p = p_owner q \<longrightarrow> pid = qid)"

definition bindings_wf :: "bindings \<Rightarrow> bool" where
  "bindings_wf b \<longleftrightarrow>
     table_ok PROVIDERS (provider_count b) (providers b) \<and>
     table_ok SERVICES (service_count b) (services b) \<and>
     table_ok SESSIONS (session_count b) (sessions b) \<and>
     ledger_ok (provider_at b) (service_at b) \<and> sessions_ok b \<and> owners_unique b"

subsection \<open>Table updates as map updates\<close>

lemma provider_eq: "provider b pid = Inr p \<longleftrightarrow> provider_at b pid = Some p \<and> \<not> p_retired p"
  by (auto simp: provider_def provider_at_def split: option.splits)

lemma service_eq: "service b sid = Inr s \<longleftrightarrow> service_at b sid = Some s"
  by (auto simp: service_def service_at_def split: option.splits)

lemma owned_eq: "owned b caller sid g = Inr s \<longleftrightarrow>
    service_at b sid = Some s \<and> caller \<noteq> 0 \<and> s_manager s = caller \<and> bs_generation (s_state s) = g"
  by (auto simp: owned_def service_def service_at_def split: option.splits)

lemma with_provider_Some:
  "with_provider b pid f = Some b' \<longleftrightarrow>
     (\<exists>p. provider_at b pid = Some p \<and>
        b' = b\<lparr>providers := (providers b)[id_index (provider_word pid) := Some (f p)]\<rparr>)"
  by (auto simp: with_provider_def array_modify_Some provider_at_def)

lemma with_service_Some:
  "with_service b sid f = Some b' \<longleftrightarrow>
     (\<exists>s. service_at b sid = Some s \<and>
        b' = b\<lparr>services := (services b)[id_index (service_word sid) := Some (f s)]\<rparr>)"
  by (auto simp: with_service_def array_modify_Some service_at_def)

lemma provider_word_inject [simp]: "provider_word p = provider_word q \<longleftrightarrow> p = q"
  by (cases p; cases q) simp

lemma service_word_inject [simp]: "service_word p = service_word q \<longleftrightarrow> p = q"
  by (cases p; cases q) simp

lemma with_provider_maps:
  assumes "with_provider b pid f = Some b'"
  shows "provider_at b' = (provider_at b)(pid := map_option f (provider_at b pid))"
    and "service_at b' = service_at b" and "sessions b' = sessions b"
    and "services b' = services b" and "provider_count b' = provider_count b"
    and "service_count b' = service_count b" and "session_count b' = session_count b"
    and "table_ok n c (providers b') = table_ok n c (providers b)"
proof -
  from assms obtain p where p: "provider_at b pid = Some p"
    and b': "b' = b\<lparr>providers := (providers b)[id_index (provider_word pid) := Some (f p)]\<rparr>"
    by (auto simp: with_provider_Some)
  show "provider_at b' = (provider_at b)(pid := map_option f (provider_at b pid))"
  proof
    fix q
    show "provider_at b' q = ((provider_at b)(pid := map_option f (provider_at b pid))) q"
      using p b' by (auto simp: provider_at_def array_get_def split: if_splits)
  qed
  show "table_ok n c (providers b') = table_ok n c (providers b)"
    using p b' by (auto simp: table_ok_def provider_at_def)
qed (use assms in \<open>auto simp: with_provider_Some service_at_def fun_eq_iff\<close>)

lemma with_service_maps:
  assumes "with_service b sid f = Some b'"
  shows "service_at b' = (service_at b)(sid := map_option f (service_at b sid))"
    and "provider_at b' = provider_at b" and "sessions b' = sessions b"
    and "providers b' = providers b" and "provider_count b' = provider_count b"
    and "service_count b' = service_count b" and "session_count b' = session_count b"
    and "table_ok n c (services b') = table_ok n c (services b)"
proof -
  from assms obtain s where s: "service_at b sid = Some s"
    and b': "b' = b\<lparr>services := (services b)[id_index (service_word sid) := Some (f s)]\<rparr>"
    by (auto simp: with_service_Some)
  show "service_at b' = (service_at b)(sid := map_option f (service_at b sid))"
  proof
    fix q
    show "service_at b' q = ((service_at b)(sid := map_option f (service_at b sid))) q"
      using s b' by (auto simp: service_at_def array_get_def split: if_splits)
  qed
  show "table_ok n c (services b') = table_ok n c (services b)"
    using s b' by (auto simp: table_ok_def service_at_def)
qed (use assms in \<open>auto simp: with_service_Some provider_at_def fun_eq_iff\<close>)

lemma table_ok_push:
  assumes "table_ok n c xs" and "c < n"
  shows "array_set xs c (Some x) = Some (xs[c := Some x])"
    and "table_ok n (c + 1) (xs[c := Some x])" and "array_get xs c = None"
  using assms by (auto simp: table_ok_def array_set_def)


subsection \<open>The ledger invariant under map updates\<close>

lemma ledger_okD:
  assumes "ledger_ok P S"
  shows "S sid = Some s \<Longrightarrow> service_ok P sid s" and "P pid = Some p \<Longrightarrow> provider_ok S pid p"
  using assms by (auto simp: ledger_ok_def)

lemma attached_upd_other:
  "q \<noteq> pid \<Longrightarrow> attached (P(pid := x)) sid profile q = attached P sid profile q"
  by (simp add: attached_def)

text \<open>A provider that no service refers to can be replaced by any unattached one.\<close>

lemma service_ok_unattached:
  assumes "service_ok P sid s" and "\<And>p. P pid = Some p \<Longrightarrow> p_service p = None"
  shows "service_ok (P(pid := x)) sid s"
proof -
  have "attached P sid pr q \<Longrightarrow> q \<noteq> pid" for pr q
    using assms(2) by (auto simp: attached_def)
  then show ?thesis
    using assms(1) by (auto simp: service_ok_def attached_upd_other split: if_splits)
qed

lemma ledger_ok_unattached:
  assumes "ledger_ok P S" and "\<And>p. P pid = Some p \<Longrightarrow> p_service p = None"
    and "p_service x = None" and "p_owner x \<noteq> 0"
  shows "ledger_ok (P(pid \<mapsto> x)) S"
  using assms service_ok_unattached [OF _ assms(2)]
  by (auto simp: ledger_ok_def provider_ok_def split: if_splits)

lemma ledger_ok_publish:
  assumes "ledger_ok P S" and "P pid = Some p" and "\<not> p_retired p" and "p_service p = None"
    and "S sid = None" and "manager \<noteq> 0"
  shows "ledger_ok (P(pid \<mapsto> p\<lparr>p_service := Some sid\<rparr>))
           (S(sid \<mapsto> initial_service manager pid sid n (p_profile p)))"
proof -
  have "service_ok (P(pid \<mapsto> p\<lparr>p_service := Some sid\<rparr>)) t s" if "S t = Some s" for t s
    using service_ok_unattached [of P t s pid] ledger_okD(1) [OF assms(1) that] assms(2,4) by simp
  moreover have "service_ok (P(pid \<mapsto> p\<lparr>p_service := Some sid\<rparr>)) sid
      (initial_service manager pid sid n (p_profile p))"
    using assms by (simp add: service_ok_def initial_service_def attached_def generation_max_eq)
  moreover have "provider_ok (S(sid \<mapsto> initial_service manager pid sid n (p_profile p))) q r"
    if "P q = Some r" for q r
    using ledger_okD(2) [OF assms(1) that] assms(5) by (auto simp: provider_ok_def)
  moreover have "p_owner p \<noteq> 0" using ledger_okD(2) [OF assms(1,2)] by (simp add: provider_ok_def)
  ultimately show ?thesis
    using assms(6) by (auto simp: ledger_ok_def provider_ok_def initial_service_def)
qed

lemma ledger_ok_import:
  assumes "ledger_ok P S" and "S sid = None"
  shows "ledger_ok P (S(sid \<mapsto> initial_service 0 (ProviderId 0) sid n pr))"
  using assms
  by (auto simp: ledger_ok_def service_ok_def provider_ok_def initial_service_def generation_max_eq)
    (metis option.distinct(1))

lemma ledger_ok_prepare:
  assumes "ledger_ok P S" and "S sid = Some s" and "P nxt = Some p" and "\<not> p_retired p"
    and "s_manager s \<noteq> 0" and "nxt \<noteq> s_provider s" and "p_service p = None"
    and "p_profile p = s_profile s" and "bs_generation (s_state s) < generation_max"
    and "bs_phase (s_state s) = Active"
  shows "ledger_ok (P(nxt \<mapsto> p\<lparr>p_service := Some sid\<rparr>))
           (S(sid \<mapsto> set_phase Prepared (s\<lparr>s_pending := Some nxt\<rparr>)))"
proof -
  let ?P = "P(nxt \<mapsto> p\<lparr>p_service := Some sid\<rparr>)"
  have old: "service_ok ?P t u" if "S t = Some u" for t u
    using service_ok_unattached [of P t u nxt] ledger_okD(1) [OF assms(1) that] assms(3,7) by simp
  have "service_ok ?P sid (set_phase Prepared (s\<lparr>s_pending := Some nxt\<rparr>))"
    using old [OF assms(2)] assms by (simp add: service_ok_def set_phase_def attached_def)
  moreover have "p_owner p \<noteq> 0" using ledger_okD(2) [OF assms(1,3)] by (simp add: provider_ok_def)
  moreover have "s_pending s = None"
    using ledger_okD(1) [OF assms(1,2)] assms(10) by (auto simp: service_ok_def)
  ultimately show ?thesis
    using old assms(1,2,5) ledger_okD(2) [OF assms(1)]
    by (fastforce simp: ledger_ok_def provider_ok_def set_phase_def)
qed

lemma ledger_ok_phase:
  assumes "ledger_ok P S" and "S sid = Some s"
    and "ph = Faulted \<or> (s_pending s \<noteq> None \<and> ph \<noteq> Active)"
  shows "ledger_ok P (S(sid \<mapsto> set_phase ph s))"
proof -
  have "service_ok P sid (set_phase ph s)"
    using ledger_okD(1) [OF assms(1,2)] assms(3) by (auto simp: service_ok_def set_phase_def)
  then show ?thesis
    using assms(1,2) by (fastforce simp: ledger_ok_def provider_ok_def set_phase_def)
qed

lemma ledger_ok_detach:
  assumes "ledger_ok P S" and "S sid = Some s" and "s_manager s \<noteq> 0" and "s_pending s = Some q"
    and "P q = Some p" 
  shows "ledger_ok (P(q \<mapsto> p\<lparr>p_service := None\<rparr>)) (S(sid \<mapsto> set_phase Active (s\<lparr>s_pending := None\<rparr>)))"
proof -
  have sok: "service_ok P sid s" using ledger_okD(1) [OF assms(1,2)] .
  then have q: "q \<noteq> s_provider s" "p_service p = Some sid"
    using assms(3,4,5) by (auto simp: service_ok_def attached_def)
  have other: "service_ok (P(q \<mapsto> p\<lparr>p_service := None\<rparr>)) t u" if "S t = Some u" "t \<noteq> sid" for t u
  proof -
    have "attached P t pr r \<Longrightarrow> r \<noteq> q" for pr r using q(2) assms(5) that(2) by (auto simp: attached_def)
    then show ?thesis using ledger_okD(1) [OF assms(1) that(1)]
      by (auto simp: service_ok_def attached_upd_other split: if_splits)
  qed
  have "service_ok (P(q \<mapsto> p\<lparr>p_service := None\<rparr>)) sid (set_phase Active (s\<lparr>s_pending := None\<rparr>))"
    using sok q assms(3,4) by (auto simp: service_ok_def set_phase_def attached_upd_other)
  moreover have "provider_ok (S(sid \<mapsto> set_phase Active (s\<lparr>s_pending := None\<rparr>))) r x"
    if "P r = Some x" "r \<noteq> q" for r x
    using ledger_okD(2) [OF assms(1) that(1)] that(2) assms(2,3,4)
    by (auto simp: provider_ok_def set_phase_def)
  moreover have "p_owner p \<noteq> 0" using ledger_okD(2) [OF assms(1,5)] by (simp add: provider_ok_def)
  ultimately show ?thesis using other by (auto simp: ledger_ok_def provider_ok_def)
qed

lemma ledger_ok_commit:
  assumes "ledger_ok P S" and "S sid = Some s" and "s_manager s \<noteq> 0" and "s_pending s = Some nxt"
    and "P (s_provider s) = Some p"
  shows "ledger_ok (P(s_provider s \<mapsto> p\<lparr>p_service := None, p_last_service := Some sid\<rparr>))
    (S(sid \<mapsto> set_phase Active (s\<lparr>s_provider := nxt, s_pending := None,
        s_state := (s_state s)\<lparr>bs_generation := bs_generation (s_state s) + 1\<rparr>\<rparr>)))"
    (is "ledger_ok (P(?old \<mapsto> ?p)) (S(sid \<mapsto> ?s))")
proof -
  have sok: "service_ok P sid s" using ledger_okD(1) [OF assms(1,2)] .
  then have q: "nxt \<noteq> ?old" "p_service p = Some sid" "attached P sid (s_profile s) nxt"
    and g: "bs_generation (s_state s) < generation_max" "1 \<le> bs_generation (s_state s)"
    using assms(3,4,5) by (auto simp: service_ok_def attached_def)
  have g': "1 \<le> bs_generation (s_state s) + 1 \<and> bs_generation (s_state s) + 1 \<le> generation_max"
    using generation_step [OF g(1)] by simp
  have other: "service_ok (P(?old \<mapsto> ?p)) t u" if "S t = Some u" "t \<noteq> sid" for t u
  proof -
    have "attached P t pr r \<Longrightarrow> r \<noteq> ?old" for pr r using q(2) assms(5) that(2) by (auto simp: attached_def)
    then show ?thesis using ledger_okD(1) [OF assms(1) that(1)]
      by (auto simp: service_ok_def attached_upd_other split: if_splits)
  qed
  have "service_ok (P(?old \<mapsto> ?p)) sid ?s"
    using sok q g' assms(3,4) by (auto simp: service_ok_def set_phase_def attached_upd_other)
  moreover have "provider_ok (S(sid \<mapsto> ?s)) r x" if "P r = Some x" "r \<noteq> ?old" for r x
    using ledger_okD(2) [OF assms(1) that(1)] that(2) assms(2,3,4)
    by (auto simp: provider_ok_def set_phase_def)
  moreover have "p_owner p \<noteq> 0" using ledger_okD(2) [OF assms(1,5)] by (simp add: provider_ok_def)
  ultimately show ?thesis using other by (auto simp: ledger_ok_def provider_ok_def)
qed

subsection \<open>Every operation keeps the invariant and never panics\<close>

lemma push_service_maps:
  assumes "table_ok SERVICES (service_count b) (services b)" and "service_count b \<noteq> SERVICES"
  obtains b' where "push_service b s = Some b'"
    and "service_at b' = (service_at b)(ServiceId (index_id (service_count b)) \<mapsto> s)"
    and "service_at b (ServiceId (index_id (service_count b))) = None"
    and "provider_at b' = provider_at b" and "providers b' = providers b"
    and "provider_count b' = provider_count b" and "sessions b' = sessions b"
    and "session_count b' = session_count b"
    and "table_ok SERVICES (service_count b') (services b')"
proof -
  let ?c = "service_count b"
  let ?b = "b\<lparr>services := (services b)[?c := Some s], service_count := ?c + 1\<rparr>"
  have c: "?c < SERVICES" using assms by (simp add: table_ok_def)
  then have i: "id_index (index_id ?c) = ?c" by (simp add: table_sizes)
  note push = table_ok_push [OF assms(1) c]
  have eq: "id_index (service_word t) = ?c \<longleftrightarrow> t = ServiceId (index_id ?c)" for t
    using i id_index_inject [of "service_word t" "index_id ?c"] by (cases t) auto
  show ?thesis
  proof (rule that [of ?b])
    show "push_service b s = Some ?b" by (simp add: push_service_def push(1))
    show "service_at ?b = (service_at b)(ServiceId (index_id ?c) \<mapsto> s)"
    proof
      fix t
      have len: "?c < length (services b)" using assms(1) c by (simp add: table_ok_def)
      show "service_at ?b t = ((service_at b)(ServiceId (index_id ?c) \<mapsto> s)) t"
        using eq [of t] len by (simp add: service_at_def) (metis i)
    qed
    show "service_at b (ServiceId (index_id ?c)) = None" using push(3) i by (simp add: service_at_def)
    show "table_ok SERVICES (service_count ?b) (services ?b)" using push(2) by simp
  qed (simp_all add: provider_at_def fun_eq_iff)
qed

lemma push_provider_maps:
  assumes "table_ok PROVIDERS (provider_count b) (providers b)" and "provider_count b \<noteq> PROVIDERS"
  obtains b' where "push_provider b p = Some b'"
    and "provider_at b' = (provider_at b)(ProviderId (index_id (provider_count b)) \<mapsto> p)"
    and "provider_at b (ProviderId (index_id (provider_count b))) = None"
    and "service_at b' = service_at b" and "services b' = services b"
    and "service_count b' = service_count b" and "sessions b' = sessions b"
    and "session_count b' = session_count b"
    and "table_ok PROVIDERS (provider_count b') (providers b')"
proof -
  let ?c = "provider_count b"
  let ?b = "b\<lparr>providers := (providers b)[?c := Some p], provider_count := ?c + 1\<rparr>"
  have c: "?c < PROVIDERS" using assms by (simp add: table_ok_def)
  then have i: "id_index (index_id ?c) = ?c" by (simp add: table_sizes)
  note push = table_ok_push [OF assms(1) c]
  have eq: "id_index (provider_word t) = ?c \<longleftrightarrow> t = ProviderId (index_id ?c)" for t
    using i id_index_inject [of "provider_word t" "index_id ?c"] by (cases t) auto
  show ?thesis
  proof (rule that [of ?b])
    show "push_provider b p = Some ?b" by (simp add: push_provider_def push(1))
    show "provider_at ?b = (provider_at b)(ProviderId (index_id ?c) \<mapsto> p)"
    proof
      fix t
      have len: "?c < length (providers b)" using assms(1) c by (simp add: table_ok_def)
      show "provider_at ?b t = ((provider_at b)(ProviderId (index_id ?c) \<mapsto> p)) t"
        using eq [of t] len by (simp add: provider_at_def) (metis i)
    qed
    show "provider_at b (ProviderId (index_id ?c)) = None" using push(3) i by (simp add: provider_at_def)
    show "table_ok PROVIDERS (provider_count ?b) (providers ?b)" using push(2) by simp
  qed (simp_all add: service_at_def fun_eq_iff)
qed

lemma charged_cong:
  "sessions b' = sessions b \<Longrightarrow> session_count b' = session_count b \<Longrightarrow> charged b' sid = charged b sid"
  by (simp add: charged_def)

lemma charged_fresh:
  assumes "sessions_ok b" and "service_at b sid = None"
  shows "charged b sid = 0"
proof -
  have "\<not> (case e of None \<Rightarrow> False | Some c \<Rightarrow> c_service c = sid)"
    if e: "e \<in> set (take (session_count b) (sessions b))" for e
  proof (cases e)
    case (Some c)
    with e have "Some c \<in> set (sessions b)" by (metis in_set_takeD)
    then obtain i where "array_get (sessions b) i = Some c" by (auto simp: in_set_conv_nth array_get_Some)
    with assms(1) have "service_at b (c_service c) \<noteq> None" unfolding sessions_ok_def by blast
    with Some assms(2) show ?thesis by auto
  qed simp
  then show ?thesis by (simp add: charged_def filter_empty_conv)
qed

text \<open>
  Operations that leave the session table alone: the services keep their limits, and a new
  service starts with no session charged.
\<close>

lemma sessions_ok_step:
  assumes "sessions_ok b" and "sessions b' = sessions b" and "session_count b' = session_count b"
    and "\<And>sid s. service_at b sid = Some s \<Longrightarrow>
           \<exists>s'. service_at b' sid = Some s' \<and> s_session_limit s' = s_session_limit s"
    and "\<And>sid s. service_at b' sid = Some s \<Longrightarrow> service_at b sid = None \<Longrightarrow> s_session_limit s \<le> SESSIONS"
  shows "sessions_ok b'"
  unfolding sessions_ok_def
proof (intro conjI allI impI)
  fix i c assume "array_get (sessions b') i = Some c"
  then show "service_at b' (c_service c) \<noteq> None"
    using assms(1,2,4) by (fastforce simp: sessions_ok_def)
next
  fix sid s assume s: "service_at b' sid = Some s"
  show "s_session_limit s \<le> SESSIONS"
    using assms(1,4,5) s by (cases "service_at b sid") (fastforce simp: sessions_ok_def)+
  show "charged b' sid \<le> s_session_limit s"
  proof (cases "service_at b sid")
    case None
    then show ?thesis using charged_fresh [OF assms(1)] charged_cong [OF assms(2,3)] by simp
  next
    case (Some t)
    then show ?thesis
      using assms(1) assms(4) [OF Some] s charged_cong [OF assms(2,3)] by (auto simp: sessions_ok_def)
  qed
qed

lemma bindings_wf_service_update:
  assumes "bindings_wf b" and "service_at b sid = Some s"
    and "ledger_ok (provider_at b) ((service_at b)(sid \<mapsto> f s))"
    and "s_session_limit (f s) = s_session_limit s"
  obtains b' where "with_service b sid f = Some b'" and "bindings_wf b'"
proof -
  obtain b' where w: "with_service b sid f = Some b'" using assms(2) by (auto simp: with_service_Some)
  note m = with_service_maps [OF w]
  have "sessions_ok b'"
  proof (rule sessions_ok_step)
    show "sessions_ok b" using assms(1) by (simp add: bindings_wf_def)
  qed (use m assms(2,4) in \<open>auto split: if_splits\<close>)
  then have "bindings_wf b'"
    using assms(1,2,3) m by (auto simp: bindings_wf_def owners_unique_def)
  then show ?thesis using that w by blast
qed

lemma bindings_wf_pair_update:
  assumes "bindings_wf b" and "provider_at b pid = Some p" and "service_at b sid = Some s"
    and "ledger_ok ((provider_at b)(pid \<mapsto> f p)) ((service_at b)(sid \<mapsto> g s))"
    and "s_session_limit (g s) = s_session_limit s"
    and "p_owner (f p) = p_owner p" and "p_retired (f p) = p_retired p"
  obtains b' where "Option.bind (with_provider b pid f) (\<lambda>b1. with_service b1 sid g) = Some b'"
    and "bindings_wf b'"
proof -
  obtain b1 where w1: "with_provider b pid f = Some b1" using assms(2) by (auto simp: with_provider_Some)
  note m1 = with_provider_maps [OF w1]
  obtain b' where w: "with_service b1 sid g = Some b'" using assms(3) m1(2) by (auto simp: with_service_Some)
  note m = with_service_maps [OF w]
  have "sessions_ok b'"
  proof (rule sessions_ok_step)
    show "sessions_ok b" using assms(1) by (simp add: bindings_wf_def)
  qed (use m m1 assms(3,5) in \<open>auto split: if_splits\<close>)
  moreover have "owners_unique b'"
    using assms(1,2,6,7) unfolding bindings_wf_def owners_unique_def m(2) m1(1)
    by (auto split: if_splits)
  ultimately have "bindings_wf b'"
    using assms(1-4) m m1 by (auto simp: bindings_wf_def)
  then show ?thesis using that w w1 by simp
qed

lemma bindings_wf_provider_update:
  assumes "bindings_wf b" and "provider_at b pid = Some p"
    and "ledger_ok ((provider_at b)(pid \<mapsto> f p)) (service_at b)"
    and "p_owner (f p) = p_owner p" and "p_retired p \<Longrightarrow> p_retired (f p)"
  obtains b' where "with_provider b pid f = Some b'" and "bindings_wf b'"
proof -
  obtain b' where w: "with_provider b pid f = Some b'" using assms(2) by (auto simp: with_provider_Some)
  note m = with_provider_maps [OF w]
  have "sessions_ok b'"
  proof (rule sessions_ok_step)
    show "sessions_ok b" using assms(1) by (simp add: bindings_wf_def)
  qed (use m in auto)
  moreover have "owners_unique b'"
    using assms(1,2,4,5) unfolding bindings_wf_def owners_unique_def m(1)
    by (auto split: if_splits)
  ultimately have "bindings_wf b'"
    using assms(1-3) m by (auto simp: bindings_wf_def)
  then show ?thesis using that w by simp
qed


text \<open>The outcome of an operation is acceptable when it did not panic and keeps the invariant.\<close>

definition safe :: "('a cap_result \<times> bindings \<times> 'w) option \<Rightarrow> bool" where
  "safe out \<longleftrightarrow> (case out of None \<Rightarrow> False | Some (r, b', w') \<Rightarrow> bindings_wf b')"

definition safe_pure :: "('a cap_result \<times> bindings) option \<Rightarrow> bool" where
  "safe_pure out \<longleftrightarrow> (case out of None \<Rightarrow> False | Some (r, b') \<Rightarrow> bindings_wf b')"

lemma safe_Some [simp]: "safe (Some (r, b', w')) = bindings_wf b'"
  and safe_map [simp]: "safe (map_option (\<lambda>b'. (r, b', w')) x) = (\<exists>b'. x = Some b' \<and> bindings_wf b')"
  and safe_pure_Some [simp]: "safe_pure (Some (r, b')) = bindings_wf b'"
  and safe_pure_map [simp]: "safe_pure (map_option (\<lambda>b'. (r, b')) x) = (\<exists>b'. x = Some b' \<and> bindings_wf b')"
  by (auto simp: safe_def safe_pure_def split: option.splits)

lemma bindings_wf_new: "bindings_wf bindings_new"
  by (auto simp: bindings_wf_def bindings_new_def table_ok_def table_sizes array_get_def ledger_ok_def
      provider_at_def service_at_def sessions_ok_def owners_unique_def)

lemma bindings_wfD:
  assumes "bindings_wf b"
  shows "ledger_ok (provider_at b) (service_at b)"
    and "table_ok PROVIDERS (provider_count b) (providers b)"
    and "table_ok SERVICES (service_count b) (services b)"
    and "table_ok SESSIONS (session_count b) (sessions b)"
    and "sessions_ok b" and "owners_unique b"
  using assms by (auto simp: bindings_wf_def)

lemma wf_current_provider:
  assumes "bindings_wf b" and "service_at b sid = Some s" and "s_manager s \<noteq> 0"
  obtains p where "provider_at b (s_provider s) = Some p" and "\<not> p_retired p"
    and "p_service p = Some sid"
  using ledger_okD(1) [OF bindings_wfD(1) [OF assms(1)] assms(2)] assms(3)
  by (auto simp: service_ok_def attached_def)

lemma wf_pending_provider:
  assumes "bindings_wf b" and "service_at b sid = Some s" and "s_pending s = Some q"
  obtains p where "provider_at b q = Some p" and "\<not> p_retired p" and "p_service p = Some sid"
    and "s_manager s \<noteq> 0"
  using ledger_okD(1) [OF bindings_wfD(1) [OF assms(1)] assms(2)] assms(3)
  by (auto simp: service_ok_def attached_def split: if_splits)

lemma wf_pending_iff:
  assumes "bindings_wf b" and "service_at b sid = Some s"
    and "bs_phase (s_state s) \<in> {Prepared, Quiescing, Quiesced}"
  obtains q where "s_pending s = Some q"
  using ledger_okD(1) [OF bindings_wfD(1) [OF assms(1)] assms(2)] assms(3)
  by (auto simp: service_ok_def)

lemma set_phase_safe:
  assumes "bindings_wf b" and "service_at b sid = Some s"
    and "ph = Faulted \<or> (s_pending s \<noteq> None \<and> ph \<noteq> Active)"
  shows "\<exists>b'. with_service b sid (set_phase ph) = Some b' \<and> bindings_wf b'"
proof -
  have "ledger_ok (provider_at b) ((service_at b)(sid \<mapsto> set_phase ph s))"
    using ledger_ok_phase [OF bindings_wfD(1) [OF assms(1)] assms(2,3)] .
  from bindings_wf_service_update [where f = "set_phase ph", OF assms(1,2) this] show ?thesis
    by (auto simp: set_phase_def)
qed

lemma fault_safe:
  assumes wf: "bindings_wf b"
  shows "bindings_wf (fault b sid)"
proof (cases "service_at b sid")
  case None
  then have "with_service b sid (set_phase Faulted) = None"
    by (simp add: with_service_def array_modify_def service_at_def)
  then show ?thesis using wf by (simp add: fault_def)
next
  case (Some s)
  then obtain b' where "with_service b sid (set_phase Faulted) = Some b'" "bindings_wf b'"
    using set_phase_safe [OF wf Some, of Faulted] by auto
  then show ?thesis by (simp add: fault_def)
qed

lemma provider_for_owner_None:
  "provider_for_owner b owner = None \<Longrightarrow> provider_at b pid = Some p \<Longrightarrow> \<not> p_retired p \<Longrightarrow>
   p_owner p \<noteq> owner"
proof
  assume none: "provider_for_owner b owner = None" and p: "provider_at b pid = Some p"
    and live: "\<not> p_retired p" "p_owner p = owner"
  show False
  proof (cases "first_index (live_provider_of owner) (providers b)")
    case None
    moreover have "Some p \<in> set (providers b)"
      using p nth_mem [of "id_index (provider_word pid)" "providers b"]
      by (auto simp: provider_at_def array_get_Some)
    ultimately show False using live by (auto simp: first_index_None live_provider_of_def)
  next
    case (Some i)
    then have "live_provider_of owner (providers b ! i)" using first_index_Some by blast
    then show False using none Some
      by (auto simp: provider_for_owner_def live_provider_of_def split: option.splits)
  qed
qed

lemma register_provider_profile_safe:
  assumes wf: "bindings_wf b"
  shows "safe (register_provider_profile b owner interface raw notification profile effect w)"
proof -
  have fresh: "\<exists>b'. push_provider b x = Some b' \<and> bindings_wf b'"
    if new: "provider_for_owner b owner = None" "provider_count b \<noteq> PROVIDERS" "owner \<noteq> 0"
      "p_owner x = owner" "p_service x = None" for x
  proof -
    obtain b' where b': "push_provider b x = Some b'"
      "provider_at b' = (provider_at b)(ProviderId (index_id (provider_count b)) \<mapsto> x)"
      "provider_at b (ProviderId (index_id (provider_count b))) = None"
      "service_at b' = service_at b" "services b' = services b" "service_count b' = service_count b"
      "sessions b' = sessions b" "session_count b' = session_count b"
      "table_ok PROVIDERS (provider_count b') (providers b')"
      using push_provider_maps [OF bindings_wfD(2) [OF wf] new(2)] by blast
    have "ledger_ok (provider_at b') (service_at b')"
      unfolding b'(2,4) by (rule ledger_ok_unattached [OF bindings_wfD(1) [OF wf]]) (use b'(3) new in auto)
    moreover have "sessions_ok b'"
      by (rule sessions_ok_step [OF bindings_wfD(5) [OF wf]]) (use b' in auto)
    moreover have "owners_unique b'"
      using bindings_wfD(6) [OF wf] new(4) unfolding owners_unique_def b'(2)
      by (auto split: if_splits dest: provider_for_owner_None [OF new(1)])
    ultimately show ?thesis using b' bindings_wfD(3,4) [OF wf] by (simp add: bindings_wf_def)
  qed
  show ?thesis
    using wf fresh
    by (auto simp: register_provider_profile_def Let_def split: option.splits prod.splits sum.splits)
qed


lemma publish_safe:
  assumes wf: "bindings_wf b"
  shows "safe (publish b manager pid install w)"
proof -
  let ?sid = "ServiceId (index_id (service_count b))"
  have fresh: "\<exists>b'. Option.bind (with_provider b pid (\<lambda>p. p\<lparr>p_service := Some ?sid\<rparr>))
      (\<lambda>b1. push_service b1 (initial_service manager pid ?sid SESSIONS (p_profile p))) = Some b' \<and>
      bindings_wf b'"
    if new: "provider b pid = Inr p" "manager \<noteq> 0" "p_service p = None" "service_count b \<noteq> SERVICES" for p
  proof -
    have p: "provider_at b pid = Some p" "\<not> p_retired p" using new by (auto simp: provider_eq)
    then obtain b1 where w1: "with_provider b pid (\<lambda>p. p\<lparr>p_service := Some ?sid\<rparr>) = Some b1"
      by (auto simp: with_provider_Some)
    note m1 = with_provider_maps [OF w1]
    obtain b' where b': "push_service b1 (initial_service manager pid ?sid SESSIONS (p_profile p)) = Some b'"
      "service_at b' = (service_at b1)(?sid \<mapsto> initial_service manager pid ?sid SESSIONS (p_profile p))"
      "service_at b1 ?sid = None" "provider_at b' = provider_at b1" "providers b' = providers b1"
      "provider_count b' = provider_count b1" "sessions b' = sessions b1"
      "session_count b' = session_count b1" "table_ok SERVICES (service_count b') (services b')"
      using push_service_maps [of b1 "initial_service manager pid ?sid SESSIONS (p_profile p)"]
        m1 bindings_wfD(3) [OF wf] new(4) by metis
    have "ledger_ok (provider_at b') (service_at b')"
      unfolding b'(2,4) m1(1,2)
      using ledger_ok_publish [OF bindings_wfD(1) [OF wf] p new(3) _ new(2), of ?sid SESSIONS] b'(3) m1(2) p(1)
      by simp
    moreover have "sessions_ok b'"
      by (rule sessions_ok_step [OF bindings_wfD(5) [OF wf]])
        (use b' m1 in \<open>auto simp: initial_service_def split: if_splits\<close>)
    moreover have "owners_unique b'"
      using bindings_wfD(6) [OF wf] p unfolding owners_unique_def b'(4) m1(1) by (auto split: if_splits)
    ultimately show ?thesis
      using b' w1 m1 bindings_wfD(2,4) [OF wf] by (simp add: bindings_wf_def)
  qed
  show ?thesis
    using wf fresh by (auto simp: publish_def Let_def split: option.splits prod.splits sum.splits)
qed

lemma import_service_safe:
  assumes wf: "bindings_wf b"
  shows "safe_pure (import_service b limit)"
proof -
  let ?sid = "ServiceId (index_id (service_count b))"
  let ?s = "initial_service 0 (ProviderId 0) ?sid limit STATELESS_CONTROL_PROFILE"
  have "\<exists>b'. push_service b ?s = Some b' \<and> bindings_wf b'"
    if new: "limit \<le> SESSIONS" "service_count b \<noteq> SERVICES"
  proof -
    obtain b' where b': "push_service b ?s = Some b'"
      "service_at b' = (service_at b)(?sid \<mapsto> ?s)"
      "service_at b ?sid = None" "provider_at b' = provider_at b" "providers b' = providers b"
      "provider_count b' = provider_count b" "sessions b' = sessions b"
      "session_count b' = session_count b" "table_ok SERVICES (service_count b') (services b')"
      using push_service_maps [OF bindings_wfD(3) [OF wf] new(2)] by metis
    have "ledger_ok (provider_at b') (service_at b')"
      unfolding b'(2,4) by (rule ledger_ok_import [OF bindings_wfD(1) [OF wf] b'(3)])
    moreover have "sessions_ok b'"
      by (rule sessions_ok_step [OF bindings_wfD(5) [OF wf]])
        (use b' new in \<open>auto simp: initial_service_def split: if_splits\<close>)
    moreover have "owners_unique b'"
      using bindings_wfD(6) [OF wf] unfolding owners_unique_def b'(4) .
    ultimately show ?thesis
      using b' bindings_wfD(2,4) [OF wf] by (simp add: bindings_wf_def)
  qed
  then show ?thesis using wf by (auto simp: import_service_def Let_def)
qed

lemma prepare_safe:
  assumes wf: "bindings_wf b"
  shows "safe_pure (prepare b caller sid g nxt)"
proof -
  have step: "\<exists>b'. Option.bind (with_provider b nxt (\<lambda>p. p\<lparr>p_service := Some sid\<rparr>))
       (\<lambda>b1. with_service b1 sid (\<lambda>s. set_phase Prepared (s\<lparr>s_pending := Some nxt\<rparr>))) = Some b' \<and>
      bindings_wf b'"
    if ok: "owned b caller sid g = Inr s" "provider b nxt = Inr p" "bs_phase (s_state s) = Active"
      "nxt \<noteq> s_provider s" "p_service p = None" "p_profile p = s_profile s" "\<not> g \<ge> generation_max" for s p
  proof -
    have s: "service_at b sid = Some s" "s_manager s \<noteq> 0" "bs_generation (s_state s) = g"
      and p: "provider_at b nxt = Some p" "\<not> p_retired p"
      using ok(1,2) by (auto simp: owned_eq provider_eq)
    have "ledger_ok ((provider_at b)(nxt \<mapsto> p\<lparr>p_service := Some sid\<rparr>))
        ((service_at b)(sid \<mapsto> set_phase Prepared (s\<lparr>s_pending := Some nxt\<rparr>)))"
      using ledger_ok_prepare [OF bindings_wfD(1) [OF wf] s(1) p s(2)] ok s(3) by simp
    from bindings_wf_pair_update [where f = "\<lambda>p. p\<lparr>p_service := Some sid\<rparr>" and
        g = "\<lambda>s. set_phase Prepared (s\<lparr>s_pending := Some nxt\<rparr>)", OF wf p(1) s(1) this]
    show ?thesis by (auto simp: set_phase_def)
  qed
  show ?thesis
    using wf step by (auto simp: prepare_def split: sum.splits)
qed

lemma quiesce_safe:
  assumes wf: "bindings_wf b"
  shows "safe (quiesce b caller sid g signal w)"
proof -
  have "\<exists>b'. with_service b sid (set_phase Quiescing) = Some b' \<and> bindings_wf b'"
    if ok: "owned b caller sid g = Inr s" "bs_phase (s_state s) = Prepared" for s
  proof -
    have s: "service_at b sid = Some s" using ok(1) by (simp add: owned_eq)
    obtain q where "s_pending s = Some q" using wf_pending_iff [OF wf s] ok(2) by auto
    then show ?thesis by (intro set_phase_safe [OF wf s]) simp
  qed
  then show ?thesis using wf by (auto simp: quiesce_def split: sum.splits prod.splits)
qed

lemma provider_binding_state:
  assumes "bindings_wf b" and "provider_binding b caller pid = Inr st"
  obtains s where "service_at b (bs_service st) = Some s" and "s_state s = st" and "s_provider s = pid"
proof -
  from assms(2) obtain p sid s where ps: "provider b pid = Inr p" "p_service p = Some sid"
    "service b sid = Inr s" "s_provider s = pid" "s_state s = st"
    by (auto simp: provider_binding_def split: sum.splits option.splits if_splits)
  then have "bs_service st = sid"
    using ledger_okD(1) [OF bindings_wfD(1) [OF assms(1)], of sid s] by (auto simp: service_ok_def service_eq)
  then show ?thesis using that ps by (simp add: service_eq)
qed

lemma acknowledge_safe:
  assumes wf: "bindings_wf b"
  shows "safe (acknowledge b caller pid g withdraw w)"
proof -
  have "\<exists>b'. with_service b (bs_service st) (set_phase Quiesced) = Some b' \<and> bindings_wf b'"
    if ok: "provider_binding b caller pid = Inr st" "bs_phase st = Quiescing" for st
  proof -
    obtain s where s: "service_at b (bs_service st) = Some s" "s_state s = st"
      using provider_binding_state [OF wf ok(1)] by metis
    obtain q where "s_pending s = Some q" using wf_pending_iff [OF wf s(1)] s(2) ok(2) by auto
    then show ?thesis by (intro set_phase_safe [OF wf s(1)]) simp
  qed
  then show ?thesis
    using wf fault_safe [OF wf] by (auto simp: acknowledge_def split: sum.splits prod.splits)
qed


lemma commit_safe:
  assumes wf: "bindings_wf b"
  shows "safe (commit b caller sid g install w)"
proof -
  let ?f = "\<lambda>p. p\<lparr>p_service := None, p_last_service := Some sid\<rparr>"
  let ?g = "\<lambda>nxt s. set_phase Active (s\<lparr>s_provider := nxt, s_pending := None,
      s_state := (s_state s)\<lparr>bs_generation := bs_generation (s_state s) + 1\<rparr>\<rparr>)"
  have step: "\<exists>b'. Option.bind (with_provider b (s_provider s) ?f)
      (\<lambda>b1. with_service b1 sid (?g nxt)) = Some b' \<and> bindings_wf b'"
    if ok: "owned b caller sid g = Inr s" "s_pending s = Some nxt" for s nxt
  proof -
    have s: "service_at b sid = Some s" "s_manager s \<noteq> 0" using ok(1) by (auto simp: owned_eq)
    obtain p where p: "provider_at b (s_provider s) = Some p" using wf_current_provider [OF wf s] by metis
    from bindings_wf_pair_update [where f = ?f and g = "?g nxt", OF wf p s(1)
        ledger_ok_commit [OF bindings_wfD(1) [OF wf] s ok(2) p]]
    show ?thesis by (auto simp: set_phase_def)
  qed
  moreover have "\<exists>b'. with_service b sid (set_phase Faulted) = Some b' \<and> bindings_wf b'"
    if "owned b caller sid g = Inr s" for s
    using set_phase_safe [OF wf, of sid s Faulted] that by (auto simp: owned_eq)
  ultimately show ?thesis
    using wf by (auto simp: commit_def split: sum.splits option.splits prod.splits)
qed

lemma abort_finish_safe:
  assumes wf: "bindings_wf b" and "owned b caller sid g = Inr s" and "s_pending s \<noteq> None"
  shows "\<exists>b'. abort_finish b sid s = Some b' \<and> bindings_wf b'"
proof -
  obtain q where q: "s_pending s = Some q" using assms(3) by auto
  have s: "service_at b sid = Some s" "s_manager s \<noteq> 0" using assms(2) by (auto simp: owned_eq)
  obtain p where p: "provider_at b q = Some p" using wf_pending_provider [OF wf s(1) q] by metis
  from bindings_wf_pair_update [where f = "\<lambda>p. p\<lparr>p_service := None\<rparr>"
      and g = "\<lambda>s. set_phase Active (s\<lparr>s_pending := None\<rparr>)", OF wf p s(1)
      ledger_ok_detach [OF bindings_wfD(1) [OF wf] s q p]]
  show ?thesis using q by (auto simp: abort_finish_def set_phase_def)
qed

lemma abort_safe:
  assumes wf: "bindings_wf b"
  shows "safe (abort b caller sid g restore w)"
proof -
  have fin: "\<exists>b'. abort_finish b sid s = Some b' \<and> bindings_wf b'"
    if ok: "owned b caller sid g = Inr s" "bs_phase (s_state s) \<in> {Prepared, Quiesced}" for s
  proof -
    have s: "service_at b sid = Some s" using ok(1) by (simp add: owned_eq)
    obtain q where "s_pending s = Some q" using wf_pending_iff [OF wf s] ok(2) by auto
    then show ?thesis using abort_finish_safe [OF wf ok(1)] by simp
  qed
  moreover have "\<exists>b'. with_service b sid (set_phase Faulted) = Some b' \<and> bindings_wf b'"
    if "owned b caller sid g = Inr s" for s
    using set_phase_safe [OF wf, of sid s Faulted] that by (auto simp: owned_eq)
  ultimately show ?thesis
    using wf by (auto simp: abort_def split: sum.splits prod.splits)
qed

lemma retire_provider_safe:
  assumes wf: "bindings_wf b"
  shows "safe (retire_provider b caller pid release w)"
proof -
  have "\<exists>b'. with_provider b pid (\<lambda>p. p\<lparr>p_retired := True\<rparr>) = Some b' \<and> bindings_wf b'"
    if ok: "provider b pid = Inr p" "p_service p = None" for p
  proof -
    have p: "provider_at b pid = Some p" using ok(1) by (simp add: provider_eq)
    have "p_owner p \<noteq> 0" using ledger_okD(2) [OF bindings_wfD(1) [OF wf] p] by (simp add: provider_ok_def)
    then have "ledger_ok ((provider_at b)(pid \<mapsto> p\<lparr>p_retired := True\<rparr>)) (service_at b)"
      by (intro ledger_ok_unattached [OF bindings_wfD(1) [OF wf]]) (use p ok(2) in auto)
    from bindings_wf_provider_update [where f = "\<lambda>p. p\<lparr>p_retired := True\<rparr>", OF wf p this]
    show ?thesis by auto
  qed
  then show ?thesis using wf by (auto simp: retire_provider_def split: sum.splits prod.splits)
qed

subsection \<open>Sessions\<close>

lemma session_frame [simp, frame_simps]:
  "service_at (b\<lparr>sessions := cs\<rparr>) = service_at b"
  "provider_at (b\<lparr>sessions := cs\<rparr>) = provider_at b"
  "service_at (b\<lparr>session_count := n\<rparr>) = service_at b"
  "provider_at (b\<lparr>session_count := n\<rparr>) = provider_at b"
  by (simp_all add: service_at_def provider_at_def fun_eq_iff)

lemma charged_push:
  assumes "table_ok SESSIONS (session_count b) (sessions b)" and "push_session b c = Some b'"
  shows "charged b' sid = charged b sid + (if c_service c = sid then 1 else 0)"
proof -
  let ?n = "session_count b"
  have len: "?n < length (sessions b)" and b': "sessions b' = (sessions b)[?n := Some c]" "session_count b' = ?n + 1"
    using assms by (auto simp: push_session_def array_set_def split: if_splits)
  have "take (?n + 1) ((sessions b)[?n := Some c]) = take ?n (sessions b) @ [Some c]"
    using len by (simp add: take_Suc_conv_app_nth)
  then show ?thesis using b' by (simp add: charged_def)
qed

lemma push_session_wf:
  assumes wf: "bindings_wf b" and "session_count b \<noteq> SESSIONS" and "service_at b (c_service c) = Some s"
    and "charged b (c_service c) < s_session_limit s"
  obtains b' where "push_session b c = Some b'" and "bindings_wf b'"
    and "service_at b' = service_at b" and "provider_at b' = provider_at b"
proof -
  let ?n = "session_count b"
  let ?b = "b\<lparr>sessions := (sessions b)[?n := Some c], session_count := ?n + 1\<rparr>"
  have n: "?n < SESSIONS" using bindings_wfD(4) [OF wf] assms(2) by (simp add: table_ok_def)
  note push = table_ok_push [OF bindings_wfD(4) [OF wf] n]
  have p: "push_session b c = Some ?b" by (simp add: push_session_def push(1))
  have "sessions_ok ?b"
    using bindings_wfD(5) [OF wf] assms(3,4) charged_push [OF bindings_wfD(4) [OF wf] p]
    by (auto simp: sessions_ok_def split: if_splits)
  then have "bindings_wf ?b"
    using wf push(2) by (simp add: bindings_wf_def owners_unique_def)
  then show ?thesis using that p by simp
qed

lemma connect_owned_safe:
  assumes wf: "bindings_wf b"
  shows "safe (connect_owned b owner sid slot install w)"
proof -
  have "\<exists>b'. push_session b \<lparr>c_owner = owner, c_slot = slot, c_service = sid, c_closed = False\<rparr> = Some b' \<and>
      bindings_wf b'"
    and "\<exists>b'. Option.bind (push_session b \<lparr>c_owner = owner, c_slot = slot, c_service = sid, c_closed = True\<rparr>)
      (\<lambda>b1. with_service b1 sid (set_phase Faulted)) = Some b' \<and> bindings_wf b'"
    if ok: "service b sid = Inr s" "session_count b \<noteq> SESSIONS" "\<not> charged b sid \<ge> s_session_limit s" for s
  proof -
    have s: "service_at b sid = Some s" using ok(1) by (simp add: service_eq)
    have push: "\<exists>b1. push_session b \<lparr>c_owner = owner, c_slot = slot, c_service = sid, c_closed = cl\<rparr> = Some b1 \<and>
        bindings_wf b1 \<and> service_at b1 sid = Some s" for cl
      using push_session_wf [OF wf ok(2), of "\<lparr>c_owner = owner, c_slot = slot, c_service = sid, c_closed = cl\<rparr>"]
        s ok(3) by fastforce
    show "\<exists>b'. push_session b \<lparr>c_owner = owner, c_slot = slot, c_service = sid, c_closed = False\<rparr> = Some b' \<and>
      bindings_wf b'" using push by blast
    obtain b1 where b1: "push_session b \<lparr>c_owner = owner, c_slot = slot, c_service = sid, c_closed = True\<rparr> = Some b1"
        "bindings_wf b1" "service_at b1 sid = Some s" using push by blast
    then show "\<exists>b'. Option.bind (push_session b \<lparr>c_owner = owner, c_slot = slot, c_service = sid, c_closed = True\<rparr>)
      (\<lambda>b1. with_service b1 sid (set_phase Faulted)) = Some b' \<and> bindings_wf b'"
      using set_phase_safe [OF b1(2,3), of Faulted] by auto
  qed
  then show ?thesis
    using wf by (auto simp: connect_owned_def Let_def not_le split: sum.splits prod.splits)
qed

lemma connect_safe: "bindings_wf b \<Longrightarrow> safe (connect b client sid slot install w)"
  by (simp add: connect_def connect_owned_safe)

lemma connect_domain_safe: "bindings_wf b \<Longrightarrow> safe (connect_domain b domain sid slot install w)"
  by (simp add: connect_domain_def connect_owned_safe)

lemma charged_closed:
  assumes "with_session b cid (\<lambda>c. c\<lparr>c_closed := True\<rparr>) = Some b'"
  shows "charged b' sid = charged b sid"
proof -
  let ?i = "id_index (session_position cid)"
  let ?Q = "\<lambda>e. case e of None \<Rightarrow> False | Some c \<Rightarrow> c_service c = sid"
  obtain c where c: "array_get (sessions b) ?i = Some c"
    and b': "sessions b' = (sessions b)[?i := Some (c\<lparr>c_closed := True\<rparr>)]" "session_count b' = session_count b"
    using assms by (auto simp: with_session_def array_modify_Some)
  have "map ?Q (sessions b') = map ?Q (sessions b)"
    using c b' by (auto simp: map_update array_get_Some intro!: list_update_same_conv [THEN iffD2])
  then have "map ?Q (take (session_count b) (sessions b')) = map ?Q (take (session_count b) (sessions b))"
    by (simp add: take_map [symmetric])
  then have "length (filter id (map ?Q (take (session_count b) (sessions b')))) =
      length (filter id (map ?Q (take (session_count b) (sessions b))))" by simp
  then show ?thesis using b'(2) by (simp add: charged_def filter_map comp_def)
qed

lemma close_session_safe:
  assumes wf: "bindings_wf b"
  shows "safe (close_session b caller cid withdraw w)"
proof -
  have "\<exists>b'. with_session b cid (\<lambda>c. c\<lparr>c_closed := True\<rparr>) = Some b' \<and> bindings_wf b'"
    if "session b cid = Inr c" for c
  proof -
    let ?i = "id_index (session_position cid)"
    let ?b = "b\<lparr>sessions := (sessions b)[?i := Some (c\<lparr>c_closed := True\<rparr>)]\<rparr>"
    have c: "array_get (sessions b) ?i = Some c"
      using that by (auto simp: session_def split: if_splits option.splits)
    then have w: "with_session b cid (\<lambda>c. c\<lparr>c_closed := True\<rparr>) = Some ?b"
      by (simp add: with_session_def array_modify_def)
    have "sessions_ok ?b"
      using bindings_wfD(5) [OF wf] c charged_closed [OF w]
      by (auto simp: sessions_ok_def split: if_splits)
    moreover have "table_ok SESSIONS (session_count b) (sessions ?b)"
      using bindings_wfD(4) [OF wf] c by (auto simp: table_ok_def)
    ultimately have "bindings_wf ?b"
      using wf by (simp add: bindings_wf_def owners_unique_def)
    then show ?thesis using w by blast
  qed
  then show ?thesis using wf by (auto simp: close_session_def split: sum.splits prod.splits)
qed

section \<open>Steps of the ledger and reachable ledgers\<close>

text \<open>
  One step is one call of an operation with arbitrary arguments and arbitrary effects, labelled
  with the error it returns, or a change of the world outside the ledger.
\<close>

fun error_of :: "'a cap_result \<Rightarrow> capability_error option" where
  "error_of (Inl e) = Some e"
| "error_of (Inr x) = None"

inductive ledger_step :: "bindings \<times> 'w \<Rightarrow> capability_error option \<Rightarrow> bindings \<times> 'w \<Rightarrow> bool" where
  register: "register_provider_profile b owner interface raw notification profile effect w = Some (r, b', w')
    \<Longrightarrow> ledger_step (b, w) (error_of r) (b', w')"
| publish: "publish b manager pid install w = Some (r, b', w') \<Longrightarrow> ledger_step (b, w) (error_of r) (b', w')"
| import_service: "import_service b limit = Some (r, b') \<Longrightarrow> ledger_step (b, w) (error_of r) (b', w)"
| prepare: "prepare b caller sid g nxt = Some (r, b') \<Longrightarrow> ledger_step (b, w) (error_of r) (b', w)"
| quiesce: "quiesce b caller sid g signal w = Some (r, b', w') \<Longrightarrow> ledger_step (b, w) (error_of r) (b', w')"
| acknowledge: "acknowledge b caller pid g withdraw w = Some (r, b', w') \<Longrightarrow> ledger_step (b, w) (error_of r) (b', w')"
| fault: "ledger_step (b, w) None (fault b sid, w)"
| commit: "commit b caller sid g install w = Some (r, b', w') \<Longrightarrow> ledger_step (b, w) (error_of r) (b', w')"
| abort: "abort b caller sid g restore w = Some (r, b', w') \<Longrightarrow> ledger_step (b, w) (error_of r) (b', w')"
| connect: "connect b client sid slot cinstall w = Some (r, b', w') \<Longrightarrow> ledger_step (b, w) (error_of r) (b', w')"
| connect_domain: "connect_domain b domain sid slot cinstall w = Some (r, b', w') \<Longrightarrow>
    ledger_step (b, w) (error_of r) (b', w')"
| close: "close_session b caller cid cwithdraw w = Some (r, b', w') \<Longrightarrow> ledger_step (b, w) (error_of r) (b', w')"
| retire: "retire_provider b caller pid release w = Some (r, b', w') \<Longrightarrow> ledger_step (b, w) (error_of r) (b', w')"
| environment: "ledger_step (b, w) None (b, w')"

inductive ledger_reachable :: "bindings \<times> 'w \<Rightarrow> bool" where
  start: "ledger_reachable (bindings_new, w)"
| step: "ledger_reachable s \<Longrightarrow> ledger_step s e t \<Longrightarrow> ledger_reachable t"

lemmas operations_safe =
  register_provider_profile_safe publish_safe import_service_safe prepare_safe quiesce_safe
  acknowledge_safe commit_safe abort_safe connect_safe connect_domain_safe close_session_safe
  retire_provider_safe

lemma safeD: "safe (Some (r, b', w')) \<Longrightarrow> bindings_wf b'" "safe_pure (Some (r, b')) \<Longrightarrow> bindings_wf b'"
  by simp_all

lemma ledger_step_wf:
  assumes "ledger_step s e t" and "bindings_wf (fst s)"
  shows "bindings_wf (fst t)"
  using assms
proof (cases rule: ledger_step.cases)
  case (fault b w sid)
  then show ?thesis using assms(2) fault_safe by simp
qed (use assms(2) operations_safe in \<open>metis safeD fst_conv\<close>)+

lemma ledger_reachable_inv: "ledger_reachable s \<Longrightarrow> bindings_wf (fst s)"
  by (induction rule: ledger_reachable.induct) (auto simp: bindings_wf_new dest: ledger_step_wf)

section \<open>How one step changes the services\<close>

definition service_evolves :: "service_entry \<Rightarrow> service_entry \<Rightarrow> bool" where
  "service_evolves s s' \<longleftrightarrow>
     s_manager s' = s_manager s \<and> s_session_limit s' = s_session_limit s \<and>
     bs_service (s_state s') = bs_service (s_state s) \<and>
     (if bs_generation (s_state s') = bs_generation (s_state s)
      then s_provider s' = s_provider s \<and>
        (bs_phase (s_state s) = Faulted \<longrightarrow> bs_phase (s_state s') = Faulted)
      else bs_generation (s_state s') = bs_generation (s_state s) + 1 \<and>
        bs_phase (s_state s) = Quiesced \<and> bs_phase (s_state s') = Active \<and>
        s_pending s = Some (s_provider s') \<and> s_pending s' = None)"

definition services_evolve :: "bindings \<Rightarrow> bindings \<Rightarrow> bool" where
  "services_evolve b b' \<longleftrightarrow>
     (\<forall>sid s. service_at b sid = Some s \<longrightarrow>
        (\<exists>s'. service_at b' sid = Some s' \<and> service_evolves s s'))"

lemma service_evolves_refl [simp]: "service_evolves s s"
  by (simp add: service_evolves_def)

lemma services_evolve_refl [simp]: "services_evolve b b"
  by (simp add: services_evolve_def)

lemma services_evolve_same: "service_at b' = service_at b \<Longrightarrow> services_evolve b b'"
  by (simp add: services_evolve_def)

lemma services_evolve_with_service:
  assumes "with_service b1 sid f = Some b'" and "service_at b1 = service_at b"
    and "\<And>s. service_at b sid = Some s \<Longrightarrow> service_evolves s (f s)"
  shows "services_evolve b b'"
  using with_service_maps(1) [OF assms(1)] assms(2,3) by (auto simp: services_evolve_def)

lemma services_evolve_with_provider: "with_provider b pid f = Some b' \<Longrightarrow> services_evolve b b'"
  using with_provider_maps(2) by (intro services_evolve_same)

lemma services_evolve_push:
  assumes "bindings_wf b" and "push_service b1 s = Some b'" and "services b1 = services b"
    and "service_count b1 = service_count b"
  shows "services_evolve b b'"
proof -
  have "array_get (services b) (service_count b) = None"
    using bindings_wfD(3) [OF assms(1)] by (auto simp: table_ok_def)
  then show ?thesis
    using assms(2-4)
    by (auto simp: services_evolve_def push_service_def array_set_Some service_at_def)
qed

lemma push_session_services: "push_session b c = Some b' \<Longrightarrow> service_at b' = service_at b"
  by (auto simp: push_session_def)

lemma push_provider_services: "push_provider b p = Some b' \<Longrightarrow> service_at b' = service_at b"
  by (auto simp: push_provider_def service_at_def fun_eq_iff)

lemma with_session_services: "with_session b cid f = Some b' \<Longrightarrow> service_at b' = service_at b"
  by (auto simp: with_session_def)

lemma set_phase_evolves:
  "bs_phase (s_state s) \<noteq> Faulted \<or> ph = Faulted \<Longrightarrow> service_evolves s (set_phase ph s)"
  by (simp add: service_evolves_def set_phase_def)

end
