(* ===== verification/Bindings_Properties.thy ===== *)
theory Bindings_Properties
  imports Bindings_Invariant
begin

text \<open>
  The promises of the binding ledger: what a reachable ledger looks like, that no operation panics,
  how a handover changes a service, and what a failed operation leaves behind.
\<close>

section \<open>Every operation lets services evolve only along the protocol\<close>

lemma service_of_owned: "owned b caller sid g = Inr s \<Longrightarrow> service_at b sid = Some s"
  by (simp add: owned_eq)

lemma register_evolves:
  assumes "register_provider_profile b owner interface raw notification profile effect w = Some (r, b', w')"
  shows "services_evolve b b'"
  using assms
  by (auto simp: register_provider_profile_def Let_def split: option.splits prod.splits sum.splits if_splits
      intro: services_evolve_same push_provider_services)

lemma publish_evolves:
  assumes "bindings_wf b" and "publish b manager pid install w = Some (r, b', w')"
  shows "services_evolve b b'"
proof -
  have "with_provider b pid f = Some b1 \<Longrightarrow> push_service b1 s = Some b' \<Longrightarrow> services_evolve b b'" for f b1 s
    using services_evolve_push [OF assms(1)] with_provider_maps(4,6) by metis
  then show ?thesis using assms(2)
    by (auto simp: publish_def Let_def bind_eq_Some_conv split: option.splits prod.splits sum.splits if_splits)
qed

lemma import_evolves:
  assumes "bindings_wf b" and "import_service b limit = Some (r, b')"
  shows "services_evolve b b'"
  using assms services_evolve_push [OF assms(1)]
  by (auto simp: import_service_def Let_def split: if_splits)

lemma prepare_evolves:
  assumes "prepare b caller sid g nxt = Some (r, b')"
  shows "services_evolve b b'"
proof -
  have "services_evolve b b'"
    if "with_provider b nxt f = Some b1"
      "with_service b1 sid (\<lambda>s. set_phase Prepared (s\<lparr>s_pending := Some nxt\<rparr>)) = Some b'"
      "owned b caller sid g = Inr s" "bs_phase (s_state s) = Active" for f b1 s
    using that with_provider_maps(2) [OF that(1)] service_of_owned [OF that(3)]
    by (intro services_evolve_with_service [OF that(2)])
      (auto simp: service_evolves_def set_phase_def)
  then show ?thesis using assms
    by (auto simp: prepare_def bind_eq_Some_conv split: sum.splits if_splits)
qed

lemma phase_step_evolves:
  assumes "with_service b sid (set_phase ph) = Some b'" and "service_at b sid = Some s"
    and "bs_phase (s_state s) \<noteq> Faulted \<or> ph = Faulted"
  shows "services_evolve b b'"
  using assms by (intro services_evolve_with_service [OF assms(1)]) (auto intro: set_phase_evolves)

lemma quiesce_evolves:
  assumes "quiesce b caller sid g signal w = Some (r, b', w')"
  shows "services_evolve b b'"
  using assms
  by (auto simp: quiesce_def owned_eq split: sum.splits prod.splits if_splits
      intro: phase_step_evolves dest!: service_of_owned)

lemma fault_evolves: "services_evolve b (fault b sid)"
proof (cases "with_service b sid (set_phase Faulted)")
  case (Some b')
  then obtain s where "service_at b sid = Some s" by (auto simp: with_service_Some)
  with Some show ?thesis by (auto simp: fault_def intro: phase_step_evolves)
qed (simp add: fault_def)

lemma acknowledge_evolves:
  assumes "bindings_wf b" and "acknowledge b caller pid g withdraw w = Some (r, b', w')"
  shows "services_evolve b b'"
proof -
  have "services_evolve b b'"
    if "provider_binding b caller pid = Inr st" "bs_phase st = Quiescing"
      "with_service b (bs_service st) (set_phase Quiesced) = Some b'" for st
    using provider_binding_state [OF assms(1) that(1)] phase_step_evolves [OF that(3)] that(2)
    by (metis binding_phase.distinct(17))
  then show ?thesis using assms(2) fault_evolves
    by (auto simp: acknowledge_def split: sum.splits prod.splits if_splits)
qed

lemma commit_evolves:
  assumes "bindings_wf b" and "commit b caller sid g install w = Some (r, b', w')"
  shows "services_evolve b b'"
proof -
  have ok: "services_evolve b b'"
    if w: "with_provider b (s_provider s) f = Some b1"
      "with_service b1 sid (\<lambda>s. set_phase Active (s\<lparr>s_provider := nxt, s_pending := None,
         s_state := (s_state s)\<lparr>bs_generation := bs_generation (s_state s) + 1\<rparr>\<rparr>)) = Some b'"
      and s: "owned b caller sid g = Inr s" "bs_phase (s_state s) = Quiesced" "s_pending s = Some nxt"
    for f b1 s nxt
    using w s with_provider_maps(2) [OF w(1)] service_of_owned [OF s(1)]
    by (intro services_evolve_with_service [OF w(2)])
      (auto simp: service_evolves_def set_phase_def)
  show ?thesis using assms(2) ok phase_step_evolves service_of_owned
    by (fastforce simp: commit_def bind_eq_Some_conv split: sum.splits option.splits prod.splits if_splits)
qed

lemma abort_evolves:
  assumes "abort b caller sid g restore w = Some (r, b', w')"
  shows "services_evolve b b'"
proof -
  have fin: "services_evolve b b'"
    if ok: "abort_finish b sid s = Some b'" "owned b caller sid g = Inr s" "bs_phase (s_state s) \<noteq> Faulted" for s
  proof -
    obtain b1 where b1: "service_at b1 = service_at b"
      "with_service b1 sid (\<lambda>s. set_phase Active (s\<lparr>s_pending := None\<rparr>)) = Some b'"
    proof (cases "s_pending s")
      case None
      then show ?thesis using that(1) ok by (simp add: abort_finish_def)
    next
      case (Some q)
      then obtain b1 where "with_provider b q (\<lambda>p. p\<lparr>p_service := None\<rparr>) = Some b1"
        "with_service b1 sid (\<lambda>s. set_phase Active (s\<lparr>s_pending := None\<rparr>)) = Some b'"
        using ok by (auto simp: abort_finish_def bind_eq_Some_conv)
      then show ?thesis using that(1) with_provider_maps(2) by metis
    qed
    show ?thesis
      using services_evolve_with_service [OF b1(2,1)] service_of_owned [OF ok(2)] ok(3)
      by (auto simp: service_evolves_def set_phase_def)
  qed
  have fatal: "services_evolve b b'"
    if "with_service b sid (set_phase Faulted) = Some b'" "owned b caller sid g = Inr s" for s
    using phase_step_evolves [OF that(1) service_of_owned [OF that(2)]] by simp
  show ?thesis using assms
    by (auto simp: abort_def intro: fin fatal split: sum.splits prod.splits if_splits)
qed

lemma connect_owned_evolves:
  assumes "connect_owned b owner sid slot install w = Some (r, b', w')"
  shows "services_evolve b b'"
proof -
  have "services_evolve b b'"
    if "push_session b c = Some b1" "with_service b1 sid (set_phase Faulted) = Some b'" for c b1
    using services_evolve_with_service [OF that(2) push_session_services [OF that(1)]]
    by (auto intro: set_phase_evolves)
  then show ?thesis using assms
    by (auto simp: connect_owned_def Let_def bind_eq_Some_conv split: sum.splits prod.splits if_splits
        intro: services_evolve_same push_session_services)
qed

lemma close_evolves: "close_session b caller cid withdraw w = Some (r, b', w') \<Longrightarrow> services_evolve b b'"
  by (auto simp: close_session_def split: sum.splits prod.splits if_splits
      intro: services_evolve_same with_session_services)

lemma retire_evolves: "retire_provider b caller pid release w = Some (r, b', w') \<Longrightarrow> services_evolve b b'"
  by (auto simp: retire_provider_def split: sum.splits prod.splits if_splits
      intro: services_evolve_with_provider)

lemma ledger_step_evolves:
  assumes "ledger_step s e t" and wf: "bindings_wf (fst s)"
  shows "services_evolve (fst s) (fst t)"
  using assms(1)
proof (cases rule: ledger_step.cases)
  case (connect b client sid slot cinstall w r b' w')
  then show ?thesis using connect_owned_evolves by (auto simp: connect_def split: if_splits)
next
  case (connect_domain b domain sid slot cinstall w r b' w')
  then show ?thesis using connect_owned_evolves by (auto simp: connect_domain_def split: if_splits)
qed (use wf in \<open>auto intro: register_evolves publish_evolves import_evolves prepare_evolves quiesce_evolves
      acknowledge_evolves fault_evolves commit_evolves abort_evolves close_evolves retire_evolves\<close>)

section \<open>Sessions are append-only\<close>

definition sessions_evolve :: "bindings \<Rightarrow> bindings \<Rightarrow> bool" where
  "sessions_evolve b b' \<longleftrightarrow>
     (\<forall>i c. array_get (sessions b) i = Some c \<longrightarrow>
        (\<exists>closed. array_get (sessions b') i = Some (c\<lparr>c_closed := closed\<rparr>) \<and> (c_closed c \<longrightarrow> closed)))"

lemma session_eta: "c\<lparr>c_closed := c_closed c\<rparr> = (c :: session_entry)"
  by simp

lemma sessions_evolve_same: "sessions b' = sessions b \<Longrightarrow> sessions_evolve b b'"
  unfolding sessions_evolve_def by (metis session_eta)

lemma push_service_sessions: "push_service b s = Some b' \<Longrightarrow> sessions b' = sessions b"
  by (auto simp: push_service_def)

lemma push_provider_sessions: "push_provider b p = Some b' \<Longrightarrow> sessions b' = sessions b"
  by (auto simp: push_provider_def)

lemmas table_frames = with_provider_maps(3) with_service_maps(3) push_service_sessions push_provider_sessions

lemma push_session_evolves:
  assumes "bindings_wf b" and "push_session b c = Some b1" and "sessions b' = sessions b1"
  shows "sessions_evolve b b'"
proof -
  have "array_get (sessions b) (session_count b) = None"
    using bindings_wfD(4) [OF assms(1)] by (auto simp: table_ok_def)
  then have "array_get (sessions b') i = Some d" if "array_get (sessions b) i = Some d" for i d
    using assms(2,3) that by (auto simp: push_session_def array_set_Some)
  then show ?thesis
    unfolding sessions_evolve_def by (metis session_eta)
qed

lemma connect_owned_sessions:
  assumes "bindings_wf b" and "connect_owned b owner sid slot install w = Some (r, b', w')"
  shows "sessions_evolve b b'"
  using assms(2)
  by (auto simp: connect_owned_def Let_def bind_eq_Some_conv split: sum.splits prod.splits if_splits
      intro: sessions_evolve_same push_session_evolves [OF assms(1)] dest: table_frames)

lemma close_sessions:
  assumes "close_session b caller cid withdraw w = Some (r, b', w')"
  shows "sessions_evolve b b'"
proof -
  have "sessions_evolve b b'" if w: "with_session b cid (\<lambda>c. c\<lparr>c_closed := True\<rparr>) = Some b'"
    unfolding sessions_evolve_def
  proof (intro allI impI)
    fix i c assume c: "array_get (sessions b) i = Some c"
    let ?j = "id_index (session_position cid)"
    have m: "array_get (sessions b') i = (if i = ?j then map_option (\<lambda>c. c\<lparr>c_closed := True\<rparr>)
        (array_get (sessions b) ?j) else array_get (sessions b) i)"
      using w array_get_modify by (fastforce simp: with_session_def)
    show "\<exists>closed. array_get (sessions b') i = Some (c\<lparr>c_closed := closed\<rparr>) \<and> (c_closed c \<longrightarrow> closed)"
    proof (cases "i = ?j")
      case True
      then show ?thesis using m c by auto
    next
      case False
      then show ?thesis using m c by (metis session_eta)
    qed
  qed
  then show ?thesis using assms
    by (auto simp: close_session_def split: sum.splits prod.splits if_splits intro: sessions_evolve_same)
qed

lemma handover_sessions:
  "register_provider_profile b owner interface raw notification profile effect w = Some (r1, b1, w1) \<Longrightarrow> sessions b1 = sessions b"
  "publish b manager pid install w = Some (r2, b2, w2) \<Longrightarrow> sessions b2 = sessions b"
  "import_service b limit = Some (r3, b3) \<Longrightarrow> sessions b3 = sessions b"
  "prepare b caller sid g nxt = Some (r4, b4) \<Longrightarrow> sessions b4 = sessions b"
  "quiesce b caller sid g signal w = Some (r5, b5, w5) \<Longrightarrow> sessions b5 = sessions b"
  "retire_provider b caller pid release w = Some (r6, b6, w6) \<Longrightarrow> sessions b6 = sessions b"
  "sessions (fault b sid) = sessions b"
  by (auto simp: register_provider_profile_def publish_def import_service_def prepare_def quiesce_def
      retire_provider_def fault_def Let_def bind_eq_Some_conv
      split: option.splits prod.splits sum.splits if_splits dest!: table_frames)

lemma acknowledge_sessions:
  "acknowledge b caller pid g withdraw w = Some (r, b', w') \<Longrightarrow> sessions b' = sessions b"
  by (auto simp: acknowledge_def handover_sessions(7) split: prod.splits sum.splits if_splits
      dest!: table_frames)

lemma commit_sessions:
  "commit b caller sid g install w = Some (r, b', w') \<Longrightarrow> sessions b' = sessions b"
  by (auto simp: commit_def bind_eq_Some_conv split: option.splits prod.splits sum.splits if_splits
      dest!: table_frames)

lemma abort_sessions:
  "abort b caller sid g restore w = Some (r, b', w') \<Longrightarrow> sessions b' = sessions b"
  by (auto simp: abort_def abort_finish_def bind_eq_Some_conv
      split: option.splits prod.splits sum.splits if_splits dest!: table_frames)

lemma ledger_step_sessions:
  assumes "ledger_step s e t" and wf: "bindings_wf (fst s)"
  shows "sessions_evolve (fst s) (fst t)"
  using assms(1)
proof (cases rule: ledger_step.cases)
  case (connect b client sid slot cinstall w r b' w')
  then show ?thesis
    using wf connect_owned_sessions by (auto simp: connect_def sessions_evolve_same split: if_splits)
next
  case (connect_domain b domain sid slot cinstall w r b' w')
  then show ?thesis
    using wf connect_owned_sessions by (auto simp: connect_domain_def sessions_evolve_same split: if_splits)
qed (auto intro: sessions_evolve_same close_sessions
      dest: handover_sessions(1-6) acknowledge_sessions commit_sessions abort_sessions
      simp: handover_sessions(7))

section \<open>A small ledger\<close>

text \<open>
  Two providers (owned by the processes 7 and 8) and one service managed by process 9, built with
  effects that always succeed. The properties below are instantiated at this ledger.
\<close>

definition serves :: "service_entry \<Rightarrow> provider_id \<Rightarrow> bool" where
  "serves s pid \<longleftrightarrow> s_provider s = pid \<or> s_pending s = Some pid"

definition ok_effect :: "'a \<Rightarrow> unit effect" where
  "ok_effect x w = (Inr (), w)"

definition ok_effect2 :: "'a \<Rightarrow> 'b \<Rightarrow> unit effect" where
  "ok_effect2 x y w = (Inr (), w)"

definition ledger_of :: "('a cap_result \<times> bindings \<times> unit) option \<Rightarrow> bindings" where
  "ledger_of out = (case out of None \<Rightarrow> bindings_new | Some (r, b, w) \<Rightarrow> b)"

definition demo1 :: bindings where
  "demo1 = ledger_of (register_provider bindings_new 7 1 30 31 ok_effect ())"

definition demo2 :: bindings where
  "demo2 = ledger_of (register_provider demo1 8 1 30 31 ok_effect ())"

definition demo3 :: bindings where
  "demo3 = ledger_of (publish demo2 9 (ProviderId 1) ok_effect2 ())"

definition demo4 :: bindings where
  "demo4 = ledger_of (connect demo3 5 (ServiceId 1) 40 ok_effect ())"

lemma demo_service: "service demo4 (ServiceId 1) = Inr (initial_service 9 (ProviderId 1) (ServiceId 1) 64 1)"
  by code_simp

lemma ledger_step_ledger_of:
  assumes "ledger_reachable (b, ())" and "safe out"
    and "\<And>r b' w'. out = Some (r, b', w') \<Longrightarrow> ledger_step (b, ()) (error_of r) (b', w')"
  shows "ledger_reachable (ledger_of out, ())"
proof -
  obtain r b' where "out = Some (r, b', ())" using assms(2) by (auto simp: safe_def split: option.splits)
  then show ?thesis using ledger_reachable.step [OF assms(1)] assms(3) by (simp add: ledger_of_def)
qed

lemma demo_reachable: "ledger_reachable (demo3, ())" "ledger_reachable (demo4, ())"
proof -
  have d1: "ledger_reachable (demo1, ())" unfolding demo1_def register_provider_def
    by (rule ledger_step_ledger_of [OF ledger_reachable.start])
      (auto intro: register_provider_profile_safe bindings_wf_new ledger_step.register)
  have d2: "ledger_reachable (demo2, ())" unfolding demo2_def register_provider_def
    using ledger_reachable_inv [OF d1]
    by (intro ledger_step_ledger_of [OF d1])
      (auto intro: register_provider_profile_safe ledger_step.register)
  show d3: "ledger_reachable (demo3, ())" unfolding demo3_def
    using ledger_reachable_inv [OF d2]
    by (intro ledger_step_ledger_of [OF d2]) (auto intro: publish_safe ledger_step.publish)
  show "ledger_reachable (demo4, ())" unfolding demo4_def
    using ledger_reachable_inv [OF d3]
    by (intro ledger_step_ledger_of [OF d3]) (auto intro: connect_safe ledger_step.connect)
qed

section \<open>Properties of the ledger\<close>

lemma safe_total: "safe out \<Longrightarrow> out \<noteq> None"
  by (cases out) (simp_all add: safe_def)

lemma safe_pure_total: "safe_pure out \<Longrightarrow> out \<noteq> None"
  by (cases out) (simp_all add: safe_pure_def)

text \<open>
  C4: no operation of the ledger panics in a reachable ledger: every index and every \<open>unwrap\<close> of
  the operations is covered by the checks before it, whatever the arguments and the effects do.
\<close>

theorem ledger_never_panics:
  assumes "ledger_reachable (b, w)"
  shows "register_provider_profile b owner interface raw notification profile effect w \<noteq> None \<and>
    publish b manager pid install w \<noteq> None \<and> import_service b limit \<noteq> None \<and>
    prepare b caller sid g nxt \<noteq> None \<and> quiesce b caller sid g signal w \<noteq> None \<and>
    acknowledge b caller pid g withdraw w \<noteq> None \<and> commit b caller sid g install w \<noteq> None \<and>
    abort b caller sid g restore w \<noteq> None \<and> connect b client sid slot cinstall w \<noteq> None \<and>
    connect_domain b domain sid slot cinstall w \<noteq> None \<and>
    close_session b caller cid cwithdraw w \<noteq> None \<and> retire_provider b caller pid release w \<noteq> None"
proof -
  have wf: "bindings_wf b" using ledger_reachable_inv [OF assms] by simp
  show ?thesis by (intro conjI safe_total safe_pure_total operations_safe wf)
qed

theorem ledger_never_panics_witness:
  "commit demo4 9 (ServiceId 1) 1 ok_effect2 () \<noteq> None \<and> fst (the (commit demo4 9 (ServiceId 1) 1 ok_effect2 ())) = Inl InvalidArgument"
proof
  show "commit demo4 9 (ServiceId 1) 1 ok_effect2 () \<noteq> None"
    by (rule ledger_never_panics [OF demo_reachable(2), THEN conjunct2, THEN conjunct2, THEN conjunct2,
          THEN conjunct2, THEN conjunct2, THEN conjunct2, THEN conjunct1])
  show "fst (the (commit demo4 9 (ServiceId 1) 1 ok_effect2 ())) = Inl InvalidArgument" by code_simp
qed

text \<open>
  C3: in a reachable ledger a provider is bound to at most one service. If it is the current or the
  pending provider of two locally managed services, these are the same service, and the provider
  is live and records that service.
\<close>

theorem provider_bound_once:
  assumes "ledger_reachable (b, w)" and "service b sid = Inr s" and "service b tid = Inr t"
    and "s_manager s \<noteq> 0" and "s_manager t \<noteq> 0" and "serves s pid" and "serves t pid"
  shows "sid = tid \<and> (\<exists>p. provider b pid = Inr p \<and> p_service p = Some sid)"
proof -
  have led: "ledger_ok (provider_at b) (service_at b)"
    using bindings_wfD(1) ledger_reachable_inv [OF assms(1)] by simp
  have att: "attached (provider_at b) u (s_profile x) pid"
    if "service b u = Inr x" "s_manager x \<noteq> 0" "serves x pid" for u x
    using ledger_okD(1) [OF led, of u x] that by (auto simp: service_ok_def service_eq serves_def)
  from att [OF assms(2,4,6)] att [OF assms(3,5,7)] show ?thesis
    by (auto simp: attached_def provider_eq)
qed

theorem provider_bound_once_witness:
  "\<exists>p. provider demo4 (ProviderId 1) = Inr p \<and> p_service p = Some (ServiceId 1)"
proof -
  have "serves (initial_service 9 (ProviderId 1) (ServiceId 1) 64 1) (ProviderId 1)"
    "s_manager (initial_service 9 (ProviderId 1) (ServiceId 1) 64 1) \<noteq> 0"
    by (simp_all add: serves_def initial_service_def)
  from provider_bound_once [OF demo_reachable(2) demo_service demo_service this(2,2,1,1)]
  show ?thesis by blast
qed

text \<open>
  C8: a manager can decode every binding state it is sent. The generation of a service never
  exceeds \<open>Word::MAX >> 3\<close>, because \<open>prepare\<close> refuses to start a handover at that generation, so
  the word that \<open>encode\<close> produces decodes to the same generation and phase.
\<close>

theorem binding_state_decodes:
  assumes "ledger_reachable (b, w)" and "service b sid = Inr s"
  shows "decode_state sid (encode_state (s_state s)) = s_state s"
proof -
  have "service_ok (provider_at b) sid s"
    using bindings_wfD(1) ledger_reachable_inv [OF assms(1)] assms(2) ledger_okD(1) service_eq by fastforce
  then show ?thesis using decode_encode [of "s_state s"] by (auto simp: service_ok_def)
qed

theorem binding_state_decodes_witness:
  "decode_state (ServiceId 1) (encode_state (s_state (initial_service 9 (ProviderId 1) (ServiceId 1) 64 1))) =
     s_state (initial_service 9 (ProviderId 1) (ServiceId 1) 64 1)"
  by (rule binding_state_decodes [OF demo_reachable(2) demo_service])

text \<open>
  C7: a service never exceeds its session limit, and no limit exceeds the 64 entries of the session
  table; closed sessions stay charged.
\<close>

theorem session_charge_bounded:
  assumes "ledger_reachable (b, w)" and "service b sid = Inr s"
  shows "charged b sid \<le> s_session_limit s \<and> s_session_limit s \<le> 64"
  using bindings_wfD(5) ledger_reachable_inv [OF assms(1)] assms(2)
  by (fastforce simp: sessions_ok_def service_eq SESSIONS_def)

theorem session_charge_bounded_witness:
  "charged demo4 (ServiceId 1) = 1 \<and>
   charged demo4 (ServiceId 1) \<le> s_session_limit (initial_service 9 (ProviderId 1) (ServiceId 1) 64 1)"
proof
  show "charged demo4 (ServiceId 1) = 1" by code_simp
qed (rule session_charge_bounded [OF demo_reachable(2) demo_service, THEN conjunct1])

text \<open>
  C2: the handover protocol is the only way to change the provider of a service. Whatever operation
  runs, a service keeps its manager and its limit; it keeps its provider unless its generation
  advances by exactly one, and then it was \<open>Quiesced\<close>, becomes \<open>Active\<close>, and its new provider is the
  one that was pending. A \<open>Faulted\<close> service stays faulted.
\<close>

theorem provider_changes_only_by_commit:
  assumes "ledger_reachable s" and "ledger_step s e t" and "service (fst s) sid = Inr x"
  shows "\<exists>y. service (fst t) sid = Inr y \<and> s_manager y = s_manager x \<and>
    s_session_limit y = s_session_limit x \<and>
    (if bs_generation (s_state y) = bs_generation (s_state x)
     then s_provider y = s_provider x \<and>
       (bs_phase (s_state x) = Faulted \<longrightarrow> bs_phase (s_state y) = Faulted)
     else bs_generation (s_state y) = bs_generation (s_state x) + 1 \<and>
       bs_phase (s_state x) = Quiesced \<and> bs_phase (s_state y) = Active \<and>
       s_pending x = Some (s_provider y) \<and> s_pending y = None)"
proof -
  from ledger_step_evolves [OF assms(2) ledger_reachable_inv [OF assms(1)]] assms(3)
  obtain y where "service_at (fst t) sid = Some y" "service_evolves x y"
    by (auto simp: services_evolve_def service_eq)
  then show ?thesis by (intro exI [of _ y]) (simp add: service_evolves_def service_eq)
qed

theorem provider_changes_only_by_commit_witness:
  "\<exists>y. service (fault demo4 (ServiceId 1)) (ServiceId 1) = Inr y \<and> s_provider y = ProviderId 1"
proof -
  have 1: "ledger_step (demo4, ()) None (fault demo4 (ServiceId 1), ())" by (rule ledger_step.fault)
  have 2: "service (fst (demo4, ())) (ServiceId 1) = Inr (initial_service 9 (ProviderId 1) (ServiceId 1) 64 1)"
    using demo_service by simp
  from provider_changes_only_by_commit [OF demo_reachable(2) 1 2]
  show ?thesis by (auto simp: initial_service_def split: if_splits)
qed

text \<open>
  C6: the session table is append-only. After any step every session is still there with the same
  owner, slot and service, and a closed session is never reopened.
\<close>

theorem sessions_never_reused:
  assumes "ledger_reachable s" and "ledger_step s e t" and "session (fst s) cid = Inr c"
  shows "\<exists>c'. session (fst t) cid = Inr c' \<and> c_owner c' = c_owner c \<and> c_slot c' = c_slot c \<and>
    c_service c' = c_service c \<and> (c_closed c \<longrightarrow> c_closed c')"
proof -
  have tag: "session_tagged cid" and c: "array_get (sessions (fst s)) (id_index (session_position cid)) = Some c"
    using assms(3) by (auto simp: session_def split: if_splits option.splits)
  from ledger_step_sessions [OF assms(2) ledger_reachable_inv [OF assms(1)]] c tag show ?thesis
    by (fastforce simp: sessions_evolve_def session_def)
qed

theorem sessions_never_reused_witness:
  "session demo4 (SessionId (push_bit 63 1 + 1)) =
     Inr \<lparr>c_owner = OwnerProcess 5, c_slot = 40, c_service = ServiceId 1, c_closed = False\<rparr> \<and>
   (\<exists>c'. session (fault demo4 (ServiceId 1)) (SessionId (push_bit 63 1 + 1)) = Inr c' \<and> c_slot c' = 40)"
proof
  show c: "session demo4 (SessionId (push_bit 63 1 + 1)) =
     Inr \<lparr>c_owner = OwnerProcess 5, c_slot = 40, c_service = ServiceId 1, c_closed = False\<rparr>"
    by code_simp
  have 1: "ledger_step (demo4, ()) None (fault demo4 (ServiceId 1), ())" by (rule ledger_step.fault)
  from sessions_never_reused [OF demo_reachable(2) 1, of "SessionId (push_bit 63 1 + 1)"] c
  show "\<exists>c'. session (fault demo4 (ServiceId 1)) (SessionId (push_bit 63 1 + 1)) = Inr c' \<and> c_slot c' = 40"
    by fastforce
qed

text \<open>
  C5: an operation that reports an error other than \<open>Fatal\<close> leaves the ledger exactly as it was, so
  a manager can retry or abort after any recoverable failure of a capability effect.
\<close>

theorem recoverable_error_changes_nothing:
  assumes "ledger_step (b, w) (Some e) (b', w')" and "e \<noteq> Fatal"
  shows "b' = b"
  using assms
proof (cases rule: ledger_step.cases)
  case (register owner interface raw notification profile effect r)
  then show ?thesis using assms(2)
    by (auto simp: register_provider_profile_def Let_def split: option.splits prod.splits sum.splits if_splits)
next
  case (publish manager pid install r)
  then show ?thesis using assms(2)
    by (auto simp: publish_def Let_def split: option.splits prod.splits sum.splits if_splits)
next
  case (import_service limit r)
  then show ?thesis using assms(2) by (auto simp: import_service_def Let_def split: if_splits)
next
  case (prepare caller sid g nxt r)
  then show ?thesis using assms(2) by (auto simp: prepare_def split: sum.splits if_splits)
next
  case (quiesce caller sid g signal r)
  then show ?thesis using assms(2) by (auto simp: quiesce_def split: sum.splits prod.splits if_splits)
next
  case (acknowledge caller pid g withdraw r)
  then show ?thesis using assms(2) by (auto simp: acknowledge_def split: sum.splits prod.splits if_splits)
next
  case (commit caller sid g install r)
  then show ?thesis using assms(2)
    by (auto simp: commit_def split: option.splits sum.splits prod.splits if_splits)
next
  case (abort caller sid g restore r)
  then show ?thesis using assms(2) by (auto simp: abort_def split: sum.splits prod.splits if_splits)
next
  case (connect client sid slot cinstall r)
  then show ?thesis using assms(2)
    by (auto simp: connect_def connect_owned_def Let_def split: sum.splits prod.splits if_splits)
next
  case (connect_domain domain sid slot cinstall r)
  then show ?thesis using assms(2)
    by (auto simp: connect_domain_def connect_owned_def Let_def split: sum.splits prod.splits if_splits)
next
  case (close caller cid cwithdraw r)
  then show ?thesis using assms(2) by (auto simp: close_session_def split: sum.splits prod.splits if_splits)
next
  case (retire caller pid release r)
  then show ?thesis using assms(2) by (auto simp: retire_provider_def split: sum.splits prod.splits if_splits)
qed

theorem recoverable_error_changes_nothing_witness:
  "\<exists>b'. prepare demo4 8 (ServiceId 1) 1 (ProviderId 2) = Some (Inl PermissionDenied, b') \<and> b' = demo4"
proof -
  have "map_option fst (prepare demo4 8 (ServiceId 1) 1 (ProviderId 2)) = Some (Inl PermissionDenied)" by code_simp
  then obtain b' where p: "prepare demo4 8 (ServiceId 1) 1 (ProviderId 2) = Some (Inl PermissionDenied, b')" by auto
  have "ledger_step (demo4, ()) (Some PermissionDenied) (b', ())"
    using ledger_step.prepare [OF p, of "()"] by simp
  then have "b' = demo4" by (rule recoverable_error_changes_nothing) simp
  then show ?thesis using p by blast
qed

section \<open>A complete handover\<close>

lemma with_provider_known:
  assumes "provider_at b pid = Some p"
  obtains b' where "with_provider b pid f = Some b'" and "provider_at b' = (provider_at b)(pid \<mapsto> f p)"
    and "service_at b' = service_at b" and "sessions b' = sessions b"
proof -
  obtain b' where w: "with_provider b pid f = Some b'" using assms by (auto simp: with_provider_Some)
  then show ?thesis using with_provider_maps [OF w] assms that by simp
qed

lemma with_service_known:
  assumes "service_at b sid = Some s"
  obtains b' where "with_service b sid f = Some b'" and "service_at b' = (service_at b)(sid \<mapsto> f s)"
    and "provider_at b' = provider_at b" and "sessions b' = sessions b"
proof -
  obtain b' where w: "with_service b sid f = Some b'" using assms by (auto simp: with_service_Some)
  then show ?thesis using with_service_maps [OF w] assms that by simp
qed

lemma set_phase_select [simp]:
  "s_provider (set_phase ph s) = s_provider s" "s_pending (set_phase ph s) = s_pending s"
  "s_manager (set_phase ph s) = s_manager s" "bs_phase (s_state (set_phase ph s)) = ph"
  "bs_generation (s_state (set_phase ph s)) = bs_generation (s_state s)"
  "bs_service (s_state (set_phase ph s)) = bs_service (s_state s)"
  "set_phase ph (set_phase ph' s) = set_phase ph s"
  by (simp_all add: set_phase_def)

lemma prepare_ok:
  assumes "owned b m sid g = Inr s" and "provider b nxt = Inr p" and "provider b (s_provider s) = Inr cur"
    and "bs_phase (s_state s) = Active" and "nxt \<noteq> s_provider s" and "p_service p = None"
    and "p_interface p = p_interface cur" and "p_profile p = s_profile s" and "g < generation_max"
  obtains b' where "prepare b m sid g nxt = Some (Inr (), b')"
    and "service_at b' = (service_at b)(sid \<mapsto> set_phase Prepared (s\<lparr>s_pending := Some nxt\<rparr>))"
    and "provider_at b' = (provider_at b)(nxt \<mapsto> p\<lparr>p_service := Some sid\<rparr>)"
    and "sessions b' = sessions b"
proof -
  have s: "service_at b sid = Some s" using assms(1) by (rule service_of_owned)
  have p: "provider_at b nxt = Some p" using assms(2) by (simp add: provider_eq)
  obtain b1 where b1: "with_provider b nxt (\<lambda>p. p\<lparr>p_service := Some sid\<rparr>) = Some b1"
    "provider_at b1 = (provider_at b)(nxt \<mapsto> p\<lparr>p_service := Some sid\<rparr>)" "service_at b1 = service_at b"
    "sessions b1 = sessions b" using with_provider_known [OF p] by metis
  have s1: "service_at b1 sid = Some s" using s b1 by simp
  obtain b2 where b2: "with_service b1 sid (\<lambda>s. set_phase Prepared (s\<lparr>s_pending := Some nxt\<rparr>)) = Some b2"
    "service_at b2 = (service_at b1)(sid \<mapsto> set_phase Prepared (s\<lparr>s_pending := Some nxt\<rparr>))"
    "provider_at b2 = provider_at b1" "sessions b2 = sessions b1"
    using with_service_known [OF s1, of "\<lambda>s. set_phase Prepared (s\<lparr>s_pending := Some nxt\<rparr>)"] by metis
  have "prepare b m sid g nxt = Some (Inr (), b2)"
    using assms b1(1) b2(1) by (simp add: prepare_def not_le)
  then show ?thesis using that b1 b2 by simp
qed

lemma quiesce_ok:
  assumes "owned b m sid g = Inr s" and "bs_phase (s_state s) = Prepared" and "fst (signal (s_provider s) w) = Inr ()"
  obtains b' w' where "quiesce b m sid g signal w = Some (Inr (), b', w')"
    and "service_at b' = (service_at b)(sid \<mapsto> set_phase Quiescing s)"
    and "provider_at b' = provider_at b" and "sessions b' = sessions b"
proof -
  obtain b' where b': "with_service b sid (set_phase Quiescing) = Some b'"
    "service_at b' = (service_at b)(sid \<mapsto> set_phase Quiescing s)" "provider_at b' = provider_at b"
    "sessions b' = sessions b" using with_service_known [OF service_of_owned [OF assms(1)]] by metis
  obtain w' where "signal (s_provider s) w = (Inr (), w')" using assms(3) by (cases "signal (s_provider s) w") auto
  then have "quiesce b m sid g signal w = Some (Inr (), b', w')" using assms b' by (simp add: quiesce_def)
  then show ?thesis using that b' by simp
qed

lemma acknowledge_ok:
  assumes "service_at b sid = Some s" and "bs_service (s_state s) = sid" and "bs_phase (s_state s) = Quiescing"
    and "bs_generation (s_state s) = g" and "provider b (s_provider s) = Inr cur"
    and "p_service cur = Some sid" and "fst (withdraw sid cur w) = Inr ()"
  obtains b' w' where "acknowledge b (p_owner cur) (s_provider s) g withdraw w = Some (Inr sid, b', w')"
    and "service_at b' = (service_at b)(sid \<mapsto> set_phase Quiesced s)"
    and "provider_at b' = provider_at b" and "sessions b' = sessions b"
proof -
  obtain b' where b': "with_service b sid (set_phase Quiesced) = Some b'"
    "service_at b' = (service_at b)(sid \<mapsto> set_phase Quiesced s)" "provider_at b' = provider_at b"
    "sessions b' = sessions b" using with_service_known [OF assms(1)] by metis
  obtain w' where w: "withdraw sid cur w = (Inr (), w')" using assms(7) by (cases "withdraw sid cur w") auto
  have "service b sid = Inr s" using assms(1) by (simp add: service_eq)
  then have "provider_binding b (p_owner cur) (s_provider s) = Inr (s_state s)"
    using assms(5,6) by (simp add: provider_binding_def)
  then have "acknowledge b (p_owner cur) (s_provider s) g withdraw w = Some (Inr sid, b', w')"
    using assms w b' by (simp add: acknowledge_def)
  then show ?thesis using that b' by simp
qed

lemma commit_ok:
  assumes "owned b m sid g = Inr s" and "bs_phase (s_state s) = Quiesced" and "s_pending s = Some nxt"
    and "provider b nxt = Inr p" and "provider_at b (s_provider s) = Some cur"
    and "fst (install sid p w) = Inr ()"
  obtains b' w' where "commit b m sid g install w = Some (Inr nxt, b', w')"
    and "service_at b' = (service_at b)(sid \<mapsto> set_phase Active (s\<lparr>s_provider := nxt, s_pending := None,
           s_state := (s_state s)\<lparr>bs_generation := bs_generation (s_state s) + 1\<rparr>\<rparr>))"
    and "provider_at b' = (provider_at b)(s_provider s \<mapsto> cur\<lparr>p_service := None, p_last_service := Some sid\<rparr>)"
    and "sessions b' = sessions b"
proof -
  let ?f = "\<lambda>p. p\<lparr>p_service := None, p_last_service := Some sid\<rparr>"
  let ?g = "\<lambda>s. set_phase Active (s\<lparr>s_provider := nxt, s_pending := None,
      s_state := (s_state s)\<lparr>bs_generation := bs_generation (s_state s) + 1\<rparr>\<rparr>)"
  have s: "service_at b sid = Some s" using assms(1) by (rule service_of_owned)
  obtain b1 where b1: "with_provider b (s_provider s) ?f = Some b1"
    "provider_at b1 = (provider_at b)(s_provider s \<mapsto> ?f cur)" "service_at b1 = service_at b"
    "sessions b1 = sessions b" by (rule with_provider_known [OF assms(5), of ?f])
  have s1: "service_at b1 sid = Some s" using s b1 by simp
  obtain b2 where b2: "with_service b1 sid ?g = Some b2" "service_at b2 = (service_at b1)(sid \<mapsto> ?g s)"
    "provider_at b2 = provider_at b1" "sessions b2 = sessions b1"
    by (rule with_service_known [OF s1, of ?g])
  obtain w' where w: "install sid p w = (Inr (), w')" using assms(6) by (cases "install sid p w") auto
  have "commit b m sid g install w = Some (Inr nxt, b2, w')"
    using assms(1-4) w b1(1) b2(1) by (simp add: commit_def)
  then show ?thesis using that b1 b2 by simp
qed

text \<open>
  C1: a handover whose effects succeed goes through. Starting from an active service of a reachable
  ledger and a live, unbound provider with the same interface and profile, \<open>prepare\<close>, \<open>quiesce\<close>,
  the acknowledgement of the old provider and \<open>commit\<close> all succeed. Afterwards the service is served
  by the new provider at the next generation and nothing else of it has changed, the old provider is
  released and remembers the service, and every other service, provider and session is untouched.
\<close>

theorem handover_completes:
  assumes "ledger_reachable (b, w)" and "owned b m sid g = Inr s" and "bs_phase (s_state s) = Active"
    and "provider b nxt = Inr p" and "provider b (s_provider s) = Inr cur" and "nxt \<noteq> s_provider s"
    and "p_service p = None" and "p_interface p = p_interface cur" and "p_profile p = s_profile s"
    and "g < generation_max"
    and "\<And>x v. fst (signal x v) = Inr ()" and "\<And>x y v. fst (withdraw x y v) = Inr ()"
    and "\<And>x y v. fst (install x y v) = Inr ()"
  shows "\<exists>b1 b2 b3 b4 w2 w3 w4.
    prepare b m sid g nxt = Some (Inr (), b1) \<and>
    quiesce b1 m sid g signal w = Some (Inr (), b2, w2) \<and>
    acknowledge b2 (p_owner cur) (s_provider s) g withdraw w2 = Some (Inr sid, b3, w3) \<and>
    commit b3 m sid g install w3 = Some (Inr nxt, b4, w4) \<and>
    service_at b4 = (service_at b)(sid \<mapsto>
      s\<lparr>s_provider := nxt, s_state := (s_state s)\<lparr>bs_generation := g + 1\<rparr>\<rparr>) \<and>
    provider_at b4 = (provider_at b)(nxt \<mapsto> p\<lparr>p_service := Some sid\<rparr>,
      s_provider s \<mapsto> cur\<lparr>p_service := None, p_last_service := Some sid\<rparr>) \<and>
    sessions b4 = sessions b"
proof -
  have wf: "bindings_wf b" using ledger_reachable_inv [OF assms(1)] by simp
  have s: "service_at b sid = Some s" "m \<noteq> 0" "s_manager s = m" "bs_generation (s_state s) = g"
    using assms(2) by (auto simp: owned_eq)
  have ok: "service_ok (provider_at b) sid s" using ledger_okD(1) [OF bindings_wfD(1) [OF wf] s(1)] .
  then have sv: "bs_service (s_state s) = sid" "s_pending s = None"
    and att: "p_service cur = Some sid"
    using assms(3,5) s by (auto simp: service_ok_def attached_def provider_eq)
  obtain b1 where b1: "prepare b m sid g nxt = Some (Inr (), b1)"
    "service_at b1 = (service_at b)(sid \<mapsto> set_phase Prepared (s\<lparr>s_pending := Some nxt\<rparr>))"
    "provider_at b1 = (provider_at b)(nxt \<mapsto> p\<lparr>p_service := Some sid\<rparr>)" "sessions b1 = sessions b"
    by (rule prepare_ok [OF assms(2,4,5,3,6-10)])
  let ?s1 = "set_phase Prepared (s\<lparr>s_pending := Some nxt\<rparr>)"
  have o1: "owned b1 m sid g = Inr ?s1" using s b1(2) by (simp add: owned_eq)
  have ph1: "bs_phase (s_state ?s1) = Prepared" by simp
  obtain b2 w2 where b2: "quiesce b1 m sid g signal w = Some (Inr (), b2, w2)"
    "service_at b2 = (service_at b1)(sid \<mapsto> set_phase Quiescing ?s1)"
    "provider_at b2 = provider_at b1" "sessions b2 = sessions b1"
    by (rule quiesce_ok [OF o1 ph1 assms(11)])
  let ?s2 = "set_phase Quiescing ?s1"
  have cur2: "provider b2 (s_provider ?s2) = Inr cur"
    using assms(5,6) b1(3) b2(3) by (simp add: provider_eq)
  have s2: "service_at b2 sid = Some ?s2" "bs_service (s_state ?s2) = sid" "bs_phase (s_state ?s2) = Quiescing"
    "bs_generation (s_state ?s2) = g" using b2(2) sv(1) s(4) by simp_all
  obtain b3 w3 where b3: "acknowledge b2 (p_owner cur) (s_provider ?s2) g withdraw w2 = Some (Inr sid, b3, w3)"
    "service_at b3 = (service_at b2)(sid \<mapsto> set_phase Quiesced ?s2)"
    "provider_at b3 = provider_at b2" "sessions b3 = sessions b2"
    by (rule acknowledge_ok [OF s2 cur2 att assms(12)])
  let ?s3 = "set_phase Quiesced ?s2"
  have o3: "owned b3 m sid g = Inr ?s3" "bs_phase (s_state ?s3) = Quiesced" "s_pending ?s3 = Some nxt"
    using s b3(2) by (simp_all add: owned_eq)
  have n3: "provider b3 nxt = Inr (p\<lparr>p_service := Some sid\<rparr>)"
    using assms(4) b1(3) b2(3) b3(3) by (simp add: provider_eq)
  have c3: "provider_at b3 (s_provider ?s3) = Some cur"
    using assms(5,6) b1(3) b2(3) b3(3) by (simp add: provider_eq)
  obtain b4 w4 where b4: "commit b3 m sid g install w3 = Some (Inr nxt, b4, w4)"
    "service_at b4 = (service_at b3)(sid \<mapsto> set_phase Active (?s3\<lparr>s_provider := nxt, s_pending := None,
       s_state := (s_state ?s3)\<lparr>bs_generation := bs_generation (s_state ?s3) + 1\<rparr>\<rparr>))"
    "provider_at b4 = (provider_at b3)(s_provider ?s3 \<mapsto> cur\<lparr>p_service := None, p_last_service := Some sid\<rparr>)"
    "sessions b4 = sessions b3"
    by (rule commit_ok [OF o3 n3 c3 assms(13)])
  have "set_phase Active (?s3\<lparr>s_provider := nxt, s_pending := None,
       s_state := (s_state ?s3)\<lparr>bs_generation := bs_generation (s_state ?s3) + 1\<rparr>\<rparr>)
      = s\<lparr>s_provider := nxt, s_state := (s_state s)\<lparr>bs_generation := g + 1\<rparr>\<rparr>"
    using s(4) sv(2) assms(3) by (simp add: set_phase_def)
  then have "service_at b4 = (service_at b)(sid \<mapsto>
      s\<lparr>s_provider := nxt, s_state := (s_state s)\<lparr>bs_generation := g + 1\<rparr>\<rparr>)"
    using b1(2) b2(2) b3(2) b4(2) by simp
  moreover have "provider_at b4 = (provider_at b)(nxt \<mapsto> p\<lparr>p_service := Some sid\<rparr>,
      s_provider s \<mapsto> cur\<lparr>p_service := None, p_last_service := Some sid\<rparr>)"
    using b1(3) b2(3) b3(3) b4(3) by simp
  moreover have "acknowledge b2 (p_owner cur) (s_provider s) g withdraw w2 = Some (Inr sid, b3, w3)"
    using b3(1) by simp
  ultimately show ?thesis using b1(1,4) b2(1,4) b3(4) b4(1,4) by metis
qed

theorem handover_completes_witness:
  "\<exists>b1 b2 b3 b4.
    prepare demo4 9 (ServiceId 1) 1 (ProviderId 2) = Some (Inr (), b1) \<and>
    quiesce b1 9 (ServiceId 1) 1 ok_effect () = Some (Inr (), b2, ()) \<and>
    acknowledge b2 7 (ProviderId 1) 1 ok_effect2 () = Some (Inr (ServiceId 1), b3, ()) \<and>
    commit b3 9 (ServiceId 1) 1 ok_effect2 () = Some (Inr (ProviderId 2), b4, ()) \<and>
    map_option s_provider (service_at b4 (ServiceId 1)) = Some (ProviderId 2)"
proof -
  let ?s = "initial_service 9 (ProviderId 1) (ServiceId 1) 64 1"
  obtain p cur where p: "provider demo4 (ProviderId 2) = Inr p" "p_service p = None" "p_profile p = 1"
    "p_interface p = 1"
    and cur: "provider demo4 (ProviderId 1) = Inr cur" "p_owner cur = 7" "p_interface cur = 1"
  proof -
    have "\<not> isl (provider demo4 (ProviderId 2))" "p_service (projr (provider demo4 (ProviderId 2))) = None"
      "p_profile (projr (provider demo4 (ProviderId 2))) = 1" "p_interface (projr (provider demo4 (ProviderId 2))) = 1"
      "\<not> isl (provider demo4 (ProviderId 1))" "p_owner (projr (provider demo4 (ProviderId 1))) = 7"
      "p_interface (projr (provider demo4 (ProviderId 1))) = 1" by code_simp+
    then show ?thesis
      using that [of "projr (provider demo4 (ProviderId 2))" "projr (provider demo4 (ProviderId 1))"] by simp
  qed
  have o: "owned demo4 9 (ServiceId 1) 1 = Inr ?s" by code_simp
  have h: "bs_phase (s_state ?s) = Active" "provider demo4 (s_provider ?s) = Inr cur" "ProviderId 2 \<noteq> s_provider ?s"
    "p_interface p = p_interface cur" "p_profile p = s_profile ?s"
    using p cur by (simp_all add: initial_service_def)
  have g: "(1 :: machine_word) < generation_max" by code_simp
  have e: "fst (ok_effect x v) = Inr ()" "fst (ok_effect2 y z v) = Inr ()" for x :: 'a and y :: 'b and z :: 'c and v
    by (simp_all add: ok_effect_def ok_effect2_def)
  obtain b1 b2 b3 b4 where "prepare demo4 9 (ServiceId 1) 1 (ProviderId 2) = Some (Inr (), b1)"
    "quiesce b1 9 (ServiceId 1) 1 ok_effect () = Some (Inr (), b2, ())"
    "acknowledge b2 (p_owner cur) (s_provider ?s) 1 ok_effect2 () = Some (Inr (ServiceId 1), b3, ())"
    "commit b3 9 (ServiceId 1) 1 ok_effect2 () = Some (Inr (ProviderId 2), b4, ())"
    "service_at b4 = (service_at demo4)(ServiceId 1 \<mapsto>
      ?s\<lparr>s_provider := ProviderId 2, s_state := (s_state ?s)\<lparr>bs_generation := 1 + 1\<rparr>\<rparr>)"
    using handover_completes [where signal = ok_effect and withdraw = ok_effect2 and install = ok_effect2,
        OF demo_reachable(2) o h(1) p(1) h(2,3) p(2) h(4,5) g e(1) e(2) e(2)] by auto
  moreover have "p_owner cur = 7" "s_provider ?s = ProviderId 1" using cur by (simp_all add: initial_service_def)
  ultimately show ?thesis by force
qed

end
