(* ===== verification/Buddy_Pages.thy ===== *)
theory Buddy_Pages imports Buddy_Pool "HOL-Library.Multiset" begin

text \<open>
  The pages of a buddy pool. A pool is well formed when its blocks are aligned, below the page limit,
  pairwise disjoint and coalesced; it then stands for the set \<open>pool_pages\<close> of its free pages. Every
  pool operation keeps well-formedness and acts on that set as the operation it is named after.
\<close>

section \<open>Aligned blocks\<close>

definition block :: "nat \<Rightarrow> nat \<Rightarrow> nat set" where
  "block order base = {base..<base + 2 ^ order}"

definition buddy :: "nat \<Rightarrow> nat \<Rightarrow> nat" where
  "buddy order base = base XOR 2 ^ order"

text \<open>
  Physical addresses lie below \<open>2 ^ 63\<close> (the hardware has at most 52 address bits), so page numbers lie
  below \<open>2 ^ 51\<close> and orders below 52.
\<close>

definition page_limit :: nat where
  "page_limit = 2 ^ 51"

lemma in_block_iff:
  assumes "2 ^ n dvd b"
  shows "x \<in> block n b \<longleftrightarrow> x div 2 ^ n = b div 2 ^ n"
proof -
  obtain k where k: "b = 2 ^ n * k" using assms by (elim dvdE)
  have "x \<in> block n b \<longleftrightarrow> 2 ^ n * k \<le> x \<and> x < 2 ^ n * Suc k" by (simp add: block_def k add.commute)
  also have "\<dots> \<longleftrightarrow> x div 2 ^ n = k"
    using div_nat_eqI [of "2 ^ n" k x] dividend_less_times_div [of "2 ^ n" x] times_div_less_eq_dividend [of "2 ^ n" x]
    by auto
  finally show ?thesis using k by simp
qed

lemma block_nested:
  assumes "2 ^ n dvd b" and "2 ^ m dvd c" and "n \<le> m" and "x \<in> block n b" and "x \<in> block m c"
  shows "block n b \<subseteq> block m c"
proof
  fix y assume "y \<in> block n b"
  then have "y div 2 ^ n = x div 2 ^ n" using assms(1,4) by (simp add: in_block_iff)
  moreover have "z div 2 ^ m = z div 2 ^ n div 2 ^ (m - n)" for z :: nat
    using assms(3) by (simp flip: div_mult2_eq power_add)
  ultimately show "y \<in> block m c" using assms(2,5) by (simp add: in_block_iff)
qed

lemma block_same:
  assumes "2 ^ n dvd b" and "2 ^ n dvd c" and "x \<in> block n b" and "x \<in> block n c"
  shows "b = c"
proof -
  have "b div 2 ^ n = c div 2 ^ n" using assms by (simp add: in_block_iff)
  then show ?thesis using assms(1,2) by (metis dvd_div_mult_self)
qed

lemma buddy_eq:
  assumes "2 ^ n dvd b"
  shows "buddy n b = (if even (b div 2 ^ n) then b + 2 ^ n else b - 2 ^ n)"
proof -
  obtain k where k: "b = 2 ^ n * k" using assms by (elim dvdE)
  have "buddy n b = push_bit n k XOR push_bit n 1" by (simp add: buddy_def k push_bit_eq_mult mult.commute)
  also have "\<dots> = push_bit n (k XOR 1)" by (simp only: push_bit_xor)
  also have "k XOR 1 = (if even k then k + 1 else k - 1)" by (simp add: xor_Suc_0_eq)
  finally show ?thesis by (simp add: k push_bit_eq_mult algebra_simps)
qed

lemma buddy_props:
  assumes "2 ^ n dvd b"
  shows "2 ^ n dvd buddy n b" and "buddy n b \<noteq> b" and "buddy n (buddy n b) = b"
    and "2 ^ Suc n dvd min b (buddy n b)"
    and "block (Suc n) (min b (buddy n b)) = block n b \<union> block n (buddy n b)"
    and "block n b \<inter> block n (buddy n b) = {}"
proof -
  obtain k where k: "b = 2 ^ n * k" using assms by (elim dvdE)
  have be: "buddy n b = (if even k then b + 2 ^ n else b - 2 ^ n)" using buddy_eq [OF assms] by (simp add: k)
  have ge: "2 ^ n \<le> b" if "odd k" using that by (auto simp: k elim!: oddE)
  show "buddy n (buddy n b) = b" by (simp add: buddy_def xor.assoc)
  show "2 ^ n dvd buddy n b" using assms by (auto simp: be intro!: dvd_diff_nat)
  show "buddy n b \<noteq> b"
  proof (cases "even k")
    case False
    then have "b - 2 ^ n < b" using ge by (intro diff_less) (auto intro: less_le_trans [rotated])
    then show ?thesis using False by (simp add: be)
  qed (simp add: be)
  have m: "min b (buddy n b) = (if even k then b else b - 2 ^ n)" by (simp add: be)
  show "2 ^ Suc n dvd min b (buddy n b)"
    unfolding m using k by (auto elim!: evenE oddE simp: algebra_simps)
  show "block (Suc n) (min b (buddy n b)) = block n b \<union> block n (buddy n b)"
    unfolding m using ge by (auto simp: be block_def)
  show "block n b \<inter> block n (buddy n b) = {}"
    using ge by (auto simp: be block_def)
qed

section \<open>Well-formed pools\<close>

definition pool_blocks :: "pool \<Rightarrow> (nat \<times> nat) set" where
  "pool_blocks fl = {(n, b). n < length fl \<and> b \<in> set (fl ! n)}"

definition pages_of :: "(nat \<times> nat) set \<Rightarrow> nat set" where
  "pages_of B = {x. \<exists>n b. (n, b) \<in> B \<and> x \<in> block n b}"

definition pool_pages :: "pool \<Rightarrow> nat set" where
  "pool_pages fl = pages_of (pool_blocks fl)"

definition blocks_ok :: "(nat \<times> nat) set \<Rightarrow> bool" where
  "blocks_ok B \<longleftrightarrow>
     (\<forall>n b. (n, b) \<in> B \<longrightarrow> 2 ^ n dvd b \<and> b + 2 ^ n \<le> page_limit \<and> (n, buddy n b) \<notin> B) \<and>
     (\<forall>n b m c. (n, b) \<in> B \<longrightarrow> (m, c) \<in> B \<longrightarrow> block n b \<inter> block m c \<noteq> {} \<longrightarrow> n = m \<and> b = c)"

definition pool_wf :: "pool \<Rightarrow> bool" where
  "pool_wf fl \<longleftrightarrow> length fl \<le> 52 \<and> (\<forall>xs \<in> set fl. distinct xs) \<and> blocks_ok (pool_blocks fl)"

lemma block_nonempty [simp]: "b \<in> block n b"
  by (simp add: block_def)

lemma blocks_okD:
  assumes "blocks_ok B" and "(n, b) \<in> B"
  shows "2 ^ n dvd b" and "b + 2 ^ n \<le> page_limit" and "(n, buddy n b) \<notin> B" and "n < 52"
proof -
  show 1: "2 ^ n dvd b" and 2: "b + 2 ^ n \<le> page_limit" and "(n, buddy n b) \<notin> B"
    using assms by (auto simp: blocks_ok_def)
  have "(2 :: nat) ^ n \<le> 2 ^ 51" using 2 by (simp add: page_limit_def)
  then have "n \<le> 51" by (rule power_le_imp_le_exp [rotated]) simp
  then show "n < 52" by simp
qed

lemma blocks_ok_disjoint:
  assumes "blocks_ok B" and "(n, b) \<in> B" and "(m, c) \<in> B" and "x \<in> block n b" and "x \<in> block m c"
  shows "n = m" and "b = c"
  using assms unfolding blocks_ok_def by blast+

lemma blocks_ok_remove: "blocks_ok B \<Longrightarrow> blocks_ok (B - C)"
  unfolding blocks_ok_def by blast

lemma pages_of_remove:
  assumes "blocks_ok B" and "(n, b) \<in> B"
  shows "pages_of (B - {(n, b)}) = pages_of B - block n b"
  using blocks_ok_disjoint [OF assms] assms(2) unfolding pages_of_def by blast

lemma blocks_ok_insert:
  assumes "blocks_ok B" and "2 ^ n dvd b" and "b + 2 ^ n \<le> page_limit" and "(n, buddy n b) \<notin> B"
    and "block n b \<inter> pages_of B = {}"
  shows "blocks_ok (insert (n, b) B)"
proof -
  have dis: "block n b \<inter> block m c = {}" if "(m, c) \<in> B" for m c
    using assms(5) that by (auto simp: pages_of_def)
  have bud: "buddy n c \<noteq> b" if "(n, c) \<in> B" for c
    using that assms(4) buddy_props(3) [OF blocks_okD(1) [OF assms(1) that]] by auto
  have "2 ^ m dvd c \<and> c + 2 ^ m \<le> page_limit \<and> (m, buddy m c) \<notin> insert (n, b) B"
    if "(m, c) \<in> insert (n, b) B" for m c
    using that assms(2-4) bud buddy_props(2) [OF assms(2)] blocks_okD [OF assms(1)] by auto
  moreover have "m = k \<and> c = d"
    if "(m, c) \<in> insert (n, b) B" "(k, d) \<in> insert (n, b) B" "block m c \<inter> block k d \<noteq> {}" for m c k d
    using that dis blocks_ok_disjoint [OF assms(1)] by blast
  ultimately show ?thesis unfolding blocks_ok_def by blast
qed

text \<open>A coalesced pool holds every aligned free block inside one of its blocks.\<close>

lemma aligned_block_contained:
  assumes "blocks_ok B" and "2 ^ n dvd b" and "block n b \<subseteq> pages_of B"
  shows "\<exists>m c. (m, c) \<in> B \<and> n \<le> m \<and> block n b \<subseteq> block m c"
  using assms(2,3)
proof (induction n arbitrary: b)
  case 0
  then have "b \<in> pages_of B" by auto
  moreover have "block 0 b = {b}" by (auto simp: block_def)
  ultimately show ?case by (auto simp: pages_of_def)
next
  case (Suc n)
  have d: "2 ^ n dvd b" using Suc.prems(1) by (rule dvd_trans [rotated]) simp
  have "even (b div 2 ^ n)" using Suc.prems(1) by (auto elim!: dvdE simp: mult.assoc)
  then have bud: "buddy n b = b + 2 ^ n" using buddy_eq [OF d] by simp
  then have min: "min b (buddy n b) = b" by simp
  have u: "block (Suc n) b = block n b \<union> block n (buddy n b)" using buddy_props(5) [OF d] unfolding min .
  obtain m c where m: "(m, c) \<in> B" "n \<le> m" "block n b \<subseteq> block m c"
    using Suc.IH [OF d] Suc.prems(2) u by auto
  obtain m' c' where m': "(m', c') \<in> B" "n \<le> m'" "block n (buddy n b) \<subseteq> block m' c'"
    using Suc.IH [OF buddy_props(1) [OF d]] Suc.prems(2) u by auto
  have "Suc n \<le> m \<or> Suc n \<le> m'"
  proof (rule ccontr)
    assume "\<not> ?thesis"
    then have e: "m = n" "m' = n" using m m' by auto
    have "c = b"
      using block_same [OF blocks_okD(1) [OF assms(1) m(1), unfolded e] d] m(3) block_nonempty [of b n]
      unfolding e by blast
    moreover have "c' = buddy n b"
      using block_same [OF blocks_okD(1) [OF assms(1) m'(1), unfolded e] buddy_props(1) [OF d]] m'(3)
        block_nonempty [of "buddy n b" n] unfolding e by blast
    ultimately show False using blocks_okD(3) [OF assms(1) m(1)] m'(1) e by simp
  qed
  then show ?case
  proof
    assume le: "Suc n \<le> m"
    have "b \<in> block m c" using m(3) by auto
    then show ?thesis using block_nested [OF Suc.prems(1) blocks_okD(1) [OF assms(1) m(1)] le] m(1) le
      by (meson block_nonempty)
  next
    assume le: "Suc n \<le> m'"
    have "buddy n b \<in> block m' c'" "buddy n b \<in> block (Suc n) b" using m'(3) u by auto
    then show ?thesis using block_nested [OF Suc.prems(1) blocks_okD(1) [OF assms(1) m'(1)] le] m'(1) le
      by meson
  qed
qed

section \<open>The free lists as sets of blocks\<close>

lemma mset_swap_remove: "i < length xs \<Longrightarrow> mset (swap_remove xs i) = mset xs - {#xs ! i#}"
proof -
  assume i: "i < length xs"
  then obtain ys y where xs: "xs = ys @ [y]" by (cases xs rule: rev_cases) auto
  show ?thesis
  proof (cases "i < length ys")
    case True
    then have "mset (ys[i := y]) = add_mset y (mset ys - {#ys ! i#})" by (rule mset_update)
    then show ?thesis using True by (simp add: swap_remove_def xs nth_append)
  qed (use i in \<open>simp add: swap_remove_def xs nth_append\<close>)
qed

lemma swap_remove_distinct:
  assumes "distinct xs" and "i < length xs"
  shows "distinct (swap_remove xs i)" and "set (swap_remove xs i) = set xs - {xs ! i}"
proof -
  have eq: "mset (swap_remove xs i) = mset (remove1 (xs ! i) xs)" using mset_swap_remove [OF assms(2)] by simp
  show "distinct (swap_remove xs i)" using mset_eq_imp_distinct_iff [OF eq] assms(1) by simp
  show "set (swap_remove xs i) = set xs - {xs ! i}" using mset_eq_setD [OF eq] assms(1) by simp
qed

lemma pool_blocks_drop:
  assumes "\<forall>xs \<in> set fl. distinct xs" and "n < length fl" and "i < length (fl ! n)"
  shows "pool_blocks (drop_block fl n i) = pool_blocks fl - {(n, fl ! n ! i)}"
  using assms swap_remove_distinct(2) [of "fl ! n" i]
  by (auto simp: pool_blocks_def drop_block_def nth_list_update split: if_splits)

lemma drop_block_wf:
  assumes "pool_wf fl" and "n < length fl" and "i < length (fl ! n)"
  shows "pool_wf (drop_block fl n i)" and "pool_pages (drop_block fl n i) = pool_pages fl - block n (fl ! n ! i)"
proof -
  have d: "\<forall>xs \<in> set fl. distinct xs" and ok: "blocks_ok (pool_blocks fl)" and len: "length fl \<le> 52"
    using assms(1) by (auto simp: pool_wf_def)
  have "distinct (swap_remove (fl ! n) i)" using swap_remove_distinct(1) [OF _ assms(3)] d assms(2) by simp
  then have "\<forall>xs \<in> set (drop_block fl n i). distinct xs"
    using d by (auto simp: drop_block_def dest!: set_update_subset_insert [THEN subsetD])
  then show "pool_wf (drop_block fl n i)"
    using pool_blocks_drop [OF d assms(2,3)] blocks_ok_remove [OF ok] len
    by (simp add: pool_wf_def drop_block_def)
  have "(n, fl ! n ! i) \<in> pool_blocks fl" using assms(2,3) by (simp add: pool_blocks_def)
  then show "pool_pages (drop_block fl n i) = pool_pages fl - block n (fl ! n ! i)"
    using pages_of_remove [OF ok] pool_blocks_drop [OF d assms(2,3)] by (simp add: pool_pages_def)
qed

lemma pool_blocks_ensure [simp]: "pool_blocks (ensure_order fl n) = pool_blocks fl"
  by (auto simp: pool_blocks_def ensure_order_def nth_append split: if_splits)

lemma length_ensure [simp]: "length (ensure_order fl n) = max (length fl) (Suc n)"
  by (simp add: ensure_order_def)

lemma ensure_wf [simp]:
  assumes "n < 52"
  shows "pool_wf (ensure_order fl n) \<longleftrightarrow> pool_wf fl"
proof -
  have "(\<forall>xs \<in> set (ensure_order fl n). distinct xs) \<longleftrightarrow> (\<forall>xs \<in> set fl. distinct xs)"
    by (auto simp: ensure_order_def)
  then show ?thesis using assms by (simp add: pool_wf_def)
qed

lemma pool_pages_ensure [simp]: "pool_pages (ensure_order fl n) = pool_pages fl"
  by (simp add: pool_pages_def)

lemma block_pages_small [simp]: "n < 64 \<Longrightarrow> block_pages n = Inr (2 ^ n)"
  by (simp add: block_pages_def)

lemma find_block_index_iff:
  "(\<exists>i. find_block_index fl n b = Some i) \<longleftrightarrow> (n, b) \<in> pool_blocks fl"
  "find_block_index fl n b = None \<longleftrightarrow> (n, b) \<notin> pool_blocks fl"
proof -
  show "find_block_index fl n b = None \<longleftrightarrow> (n, b) \<notin> pool_blocks fl"
    by (auto simp: find_block_index_def pool_blocks_def first_index_None)
  then show "(\<exists>i. find_block_index fl n b = Some i) \<longleftrightarrow> (n, b) \<in> pool_blocks fl" by auto
qed

lemma push_block_wf:
  assumes "pool_wf fl" and "n < length fl" and "2 ^ n dvd b" and "b + 2 ^ n \<le> page_limit"
    and "(n, buddy n b) \<notin> pool_blocks fl" and "block n b \<inter> pool_pages fl = {}"
  shows "pool_wf (fl[n := fl ! n @ [b]])" and "pool_pages (fl[n := fl ! n @ [b]]) = pool_pages fl \<union> block n b"
proof -
  have B: "pool_blocks (fl[n := fl ! n @ [b]]) = insert (n, b) (pool_blocks fl)"
    using assms(2) by (auto simp: pool_blocks_def nth_list_update split: if_splits)
  have "(n, b) \<notin> pool_blocks fl" using assms(6) block_nonempty unfolding pool_pages_def pages_of_def by blast
  then have "distinct (fl ! n @ [b])" using assms(1,2) by (auto simp: pool_blocks_def pool_wf_def)
  then have "\<forall>xs \<in> set (fl[n := fl ! n @ [b]]). distinct xs"
    using assms(1) unfolding pool_wf_def by (auto dest!: set_update_subset_insert [THEN subsetD])
  then show "pool_wf (fl[n := fl ! n @ [b]])"
    using blocks_ok_insert [of "pool_blocks fl" n b] assms B by (simp add: pool_wf_def pool_pages_def)
  show "pool_pages (fl[n := fl ! n @ [b]]) = pool_pages fl \<union> block n b"
    unfolding pool_pages_def B pages_of_def by blast
qed

section \<open>Adding blocks and ranges\<close>

lemma add_block_correct:
  assumes "pool_wf fl" and "2 ^ n dvd b" and "b + 2 ^ n \<le> page_limit" and "block n b \<inter> pool_pages fl = {}"
  shows "\<exists>fl'. add_block fl b n = (Inr (), fl') \<and> pool_wf fl' \<and> pool_pages fl' = pool_pages fl \<union> block n b"
  using assms
proof (induction fl b n rule: add_block.induct)
  case (1 fl b n)
  have "(2 :: nat) ^ n \<le> 2 ^ 51" using "1.prems"(3) by (simp add: page_limit_def)
  then have "n \<le> 51" by (rule power_le_imp_le_exp [rotated]) simp
  then have n: "n < 52" by simp
  let ?fl = "ensure_order fl n"
  have wf: "pool_wf ?fl" and ln: "n < length ?fl" using "1.prems"(1) n by auto
  have mod: "b mod 2 ^ n = 0" using "1.prems"(2) by auto
  show ?case
  proof (cases "find_block_index ?fl n (buddy n b)")
    case (Some i)
    note at = find_block_index_Some [OF Some]
    let ?fl' = "drop_block ?fl n i"
    let ?b = "if buddy n b < b then buddy n b else b"
    have min: "?b = min b (buddy n b)" by auto
    have wf': "pool_wf ?fl'" and pp: "pool_pages ?fl' = pool_pages fl - block n (buddy n b)"
      using drop_block_wf [OF wf at(1,2)] at(3) by simp_all
    have bb: "(n, buddy n b) \<in> pool_blocks fl" using Some find_block_index_iff(1) [of ?fl n "buddy n b"] by simp
    then have sub: "block n (buddy n b) \<subseteq> pool_pages fl" by (auto simp: pool_pages_def pages_of_def)
    have lim: "buddy n b + 2 ^ n \<le> page_limit"
      using blocks_okD(2) [OF _ bb] "1.prems"(1) by (simp add: pool_wf_def)
    note bp = buddy_props [OF "1.prems"(2)]
    have u: "block (Suc n) ?b = block n b \<union> block n (buddy n b)" using bp(5) min by simp
    have "0 < (2 :: nat) ^ Suc n" by simp
    then have "?b + 2 ^ Suc n - 1 \<in> block (Suc n) ?b" unfolding block_def atLeastLessThan_iff by linarith
    then have "?b + 2 ^ Suc n - 1 < page_limit"
      using lim "1.prems"(3) unfolding u by (auto simp: block_def)
    then have lim': "?b + 2 ^ Suc n \<le> page_limit" by simp
    have bx: "b XOR 2 ^ n = buddy n b" by (simp add: buddy_def)
    have dvd': "2 ^ Suc n dvd ?b" using bp(4) min by simp
    have dis: "block (Suc n) ?b \<inter> pool_pages ?fl' = {}" using u pp "1.prems"(4) by auto
    have "n + 1 < usize_limit" using n by (simp add: usize_limit_def)
    then have rec: "add_block fl b n = add_block ?fl' ?b (Suc n)"
      using Some n mod by (subst add_block.simps) (simp add: Let_def buddy_def checked_add_def)
    have "\<exists>fl'. add_block ?fl' ?b (Suc n) = (Inr (), fl') \<and> pool_wf fl' \<and>
        pool_pages fl' = pool_pages ?fl' \<union> block (Suc n) ?b"
      using "1.IH" [OF refl _ _ refl _ refl, of "2 ^ n" i "Suc n"] Some n mod wf' dvd' lim' dis
        \<open>n + 1 < usize_limit\<close> bx by (simp split del: if_split cong: if_cong)
    then show ?thesis using rec u pp sub by auto
  next
    case None
    have nb: "(n, buddy n b) \<notin> pool_blocks ?fl" using None find_block_index_iff(2) by blast
    have "(n, b) \<notin> pool_blocks fl" using "1.prems"(4) block_nonempty unfolding pool_pages_def pages_of_def by blast
    then have "find_block_index ?fl n b = None" by (simp add: find_block_index_iff)
    then have "add_block fl b n = (Inr (), ?fl[n := ?fl ! n @ [b]])"
      using None n mod by (subst add_block.simps) (simp add: Let_def buddy_def)
    then show ?thesis using push_block_wf [OF wf ln "1.prems"(2,3) nb] "1.prems"(4) by simp
  qed
qed

lemma bit_length_bounds: "v \<noteq> 0 \<Longrightarrow> 2 ^ (bit_length v - 1) \<le> v \<and> v < 2 ^ bit_length v \<and> 0 < bit_length v"
proof (induction v rule: bit_length.induct)
  case (1 v)
  show ?case
  proof (cases "v = 1")
    case True
    then show ?thesis by (simp add: bit_length.simps)
  next
    case False
    then have "v div 2 \<noteq> 0" using "1.prems" by auto
    with 1 have IH: "2 ^ (bit_length (v div 2) - 1) \<le> v div 2" "v div 2 < 2 ^ bit_length (v div 2)"
      "0 < bit_length (v div 2)" by auto
    then obtain m where m: "bit_length (v div 2) = Suc m" by (cases "bit_length (v div 2)") auto
    then have "2 * 2 ^ m \<le> v" "v < 4 * 2 ^ m" using IH by auto
    then show ?thesis using m "1.prems" bit_length.simps [of v] by simp
  qed
qed

lemma floor_log2_Some:
  assumes "0 < v" and "v < usize_limit"
  obtains n where "floor_log2 v = Some n" and "2 ^ n \<le> v" and "v < 2 ^ Suc n" and "n < 64"
proof -
  have b: "2 ^ (bit_length v - 1) \<le> v" "v < 2 ^ bit_length v" "0 < bit_length v"
    using bit_length_bounds [of v] assms(1) by auto
  have "(2 :: nat) ^ (bit_length v - 1) < 2 ^ 64" using b(1) assms(2) by (simp add: usize_limit_def)
  then have lt: "bit_length v - 1 < 64" by (rule power_less_imp_less_exp [rotated]) simp
  then have "floor_log2 v = Some (bit_length v - 1)" using assms(1) b(3) by (simp add: floor_log2_def leading_zeros_def)
  moreover have "v < 2 ^ Suc (bit_length v - 1)" using b(2,3) by simp
  ultimately show ?thesis using that b(1) lt by blast
qed

lemma aligned_order_from_correct:
  assumes "n < 64"
  shows "\<exists>m \<le> n. aligned_order_from b n = Inr m \<and> 2 ^ m dvd b"
  using assms
proof (induction n)
  case 0
  then show ?case by (subst aligned_order_from.simps) simp
next
  case (Suc n)
  show ?case
  proof (cases "b mod 2 ^ Suc n = 0")
    case True
    then show ?thesis using Suc.prems by (subst aligned_order_from.simps) (auto intro: mod_0_imp_dvd)
  next
    case False
    then have "aligned_order_from b (Suc n) = aligned_order_from b n"
      using Suc.prems by (subst aligned_order_from.simps) simp
    then show ?thesis using Suc by (auto intro: le_SucI)
  qed
qed

lemma largest_aligned_order_correct:
  assumes "0 < cnt" and "cnt < usize_limit"
  obtains n where "largest_aligned_order b cnt = Inr n" and "2 ^ n dvd b" and "2 ^ n \<le> cnt" and "n < 64"
proof -
  obtain f where f: "floor_log2 cnt = Some f" "2 ^ f \<le> cnt" "f < 64" using floor_log2_Some [OF assms] by blast
  obtain n where n: "n \<le> f" "aligned_order_from b f = Inr n" "2 ^ n dvd b"
    using aligned_order_from_correct [OF f(3), of b] by blast
  have "(2 :: nat) ^ n \<le> 2 ^ f" using n(1) by simp
  then have "2 ^ n \<le> cnt" using f(2) by (rule le_trans)
  then show ?thesis using that f n by (simp add: largest_aligned_order_def)
qed

lemma page_limit_less: "page_limit < usize_limit"
  by (simp add: page_limit_def usize_limit_def)

lemma add_range_correct:
  assumes "pool_wf fl" and "b + cnt \<le> page_limit" and "{b..<b + cnt} \<inter> pool_pages fl = {}"
  shows "\<exists>fl'. add_range fl b cnt = (Inr (), fl') \<and> pool_wf fl' \<and>
    pool_pages fl' = pool_pages fl \<union> {b..<b + cnt}"
  using assms
proof (induction cnt arbitrary: fl b rule: less_induct)
  case (less cnt)
  show ?case
  proof (cases "cnt = 0")
    case True
    then show ?thesis using less.prems by (simp add: add_range.simps)
  next
    case False
    have lim: "cnt < usize_limit" "b + cnt < usize_limit" using less.prems(2) page_limit_less by auto
    obtain n where n: "largest_aligned_order b cnt = Inr n" "2 ^ n dvd b" "2 ^ n \<le> cnt" "n < 64"
      using largest_aligned_order_correct [OF _ lim(1)] False by auto
    have "block n b \<subseteq> {b..<b + cnt}" using n(3) by (auto simp: block_def)
    then obtain fl' where fl': "add_block fl b n = (Inr (), fl')" "pool_wf fl'"
      "pool_pages fl' = pool_pages fl \<union> block n b"
      using add_block_correct [OF less.prems(1) n(2), of] less.prems(2,3) n(3) by fastforce
    have rec: "add_range fl b cnt = add_range fl' (b + 2 ^ n) (cnt - 2 ^ n)"
      using False n fl'(1) lim by (subst add_range.simps) (simp add: checked_add_def)
    have split: "{b..<b + cnt} = block n b \<union> {b + 2 ^ n..<b + 2 ^ n + (cnt - 2 ^ n)}"
      using n(3) by (auto simp: block_def)
    have "\<exists>fl''. add_range fl' (b + 2 ^ n) (cnt - 2 ^ n) = (Inr (), fl'') \<and> pool_wf fl'' \<and>
        pool_pages fl'' = pool_pages fl' \<union> {b + 2 ^ n..<b + 2 ^ n + (cnt - 2 ^ n)}"
    proof (rule less.IH)
      show "cnt - 2 ^ n < cnt" using False by simp
      show "b + 2 ^ n + (cnt - 2 ^ n) \<le> page_limit" using less.prems(2) n(3) by simp
      show "{b + 2 ^ n..<b + 2 ^ n + (cnt - 2 ^ n)} \<inter> pool_pages fl' = {}"
        using less.prems(3) fl'(3) unfolding split by (auto simp: block_def)
    qed (rule fl'(2))
    then show ?thesis using rec fl'(3) unfolding split by auto
  qed
qed

section \<open>Searching a pool\<close>

lemma scan_blocks_None_iff:
  assumes "\<forall>b \<in> set xs. b + cnt < usize_limit"
  shows "scan_blocks page cnt k xs \<noteq> None"
    and "scan_blocks page cnt k xs = Some None \<longleftrightarrow> (\<forall>b \<in> set xs. page \<notin> {b..<b + cnt})"
  using assms by (induction xs arbitrary: k) (auto simp: checked_add_def)

lemma containing_from_None:
  assumes "k + length fl \<le> 64" and "\<And>n b. n < length fl \<Longrightarrow> b \<in> set (fl ! n) \<Longrightarrow> b + 2 ^ (k + n) \<le> page_limit"
  shows "containing_from page k fl = None \<longleftrightarrow>
    (\<forall>n < length fl. \<forall>b \<in> set (fl ! n). page \<notin> block (k + n) b)"
  using assms
proof (induction fl arbitrary: k)
  case (Cons xs fl)
  have k: "k < 64" using Cons.prems(1) by simp
  have lim: "\<forall>b \<in> set xs. b + 2 ^ k < usize_limit"
    using Cons.prems(2) [of 0] page_limit_less by fastforce
  note sc = scan_blocks_None_iff [OF lim, of page 0]
  have IH: "containing_from page (Suc k) fl = None \<longleftrightarrow>
      (\<forall>n < length fl. \<forall>b \<in> set (fl ! n). page \<notin> block (Suc k + n) b)"
    using Cons.prems(1) Cons.prems(2) [of "Suc n" for n] by (intro Cons.IH) auto
  have "containing_from page k (xs # fl) = None \<longleftrightarrow>
      (\<forall>b \<in> set xs. page \<notin> block k b) \<and> containing_from page (Suc k) fl = None"
    using sc k by (cases "scan_blocks page (2 ^ k) 0 xs") (auto simp: block_def split: option.splits)
  then show ?case unfolding IH by (simp add: All_less_Suc2)
qed simp

lemma find_containing_block_correct:
  assumes "pool_wf fl"
  shows "find_containing_block fl page = None \<longleftrightarrow> page \<notin> pool_pages fl"
    and "find_containing_block fl page = Some (n, i, b) \<Longrightarrow>
      n < length fl \<and> i < length (fl ! n) \<and> fl ! n ! i = b \<and> page \<in> block n b \<and> n < 64 \<and>
      (n, b) \<in> pool_blocks fl \<and> b + 2 ^ n \<le> page_limit"
proof -
  have lim: "b + 2 ^ n \<le> page_limit" if "(n, b) \<in> pool_blocks fl" for n b
    using assms blocks_okD(2) that by (auto simp: pool_wf_def)
  have "find_containing_block fl page = None \<longleftrightarrow> (\<forall>n < length fl. \<forall>b \<in> set (fl ! n). page \<notin> block n b)"
    using containing_from_None [of 0 fl page] assms lim
    by (simp add: find_containing_block_def pool_wf_def pool_blocks_def)
  also have "\<dots> \<longleftrightarrow> page \<notin> pool_pages fl" by (auto simp: pool_pages_def pages_of_def pool_blocks_def)
  finally show "find_containing_block fl page = None \<longleftrightarrow> page \<notin> pool_pages fl" .
  assume s: "find_containing_block fl page = Some (n, i, b)"
  obtain cnt where c: "n < length fl" "i < length (fl ! n)" "fl ! n ! i = b" "block_pages n = Inr cnt"
    "b \<le> page" "page < b + cnt" using find_containing_block_Some [OF s] by metis
  then have "n < 64" "(n, b) \<in> pool_blocks fl" using assms by (auto simp: pool_wf_def pool_blocks_def)
  then show "n < length fl \<and> i < length (fl ! n) \<and> fl ! n ! i = b \<and> page \<in> block n b \<and> n < 64 \<and>
      (n, b) \<in> pool_blocks fl \<and> b + 2 ^ n \<le> page_limit"
    using c lim [of n b] by (simp add: block_def)
qed

section \<open>Containment and carving\<close>

lemma contains_from_correct:
  assumes "pool_wf fl"
  shows "contains_from fl current limit \<longleftrightarrow> {current..<limit} \<subseteq> pool_pages fl"
proof (induction "limit - current" arbitrary: current rule: less_induct)
  case less
  show ?case
  proof (cases "current < limit")
    case True
    show ?thesis
    proof (cases "find_containing_block fl current")
      case None
      then have "current \<notin> pool_pages fl" using find_containing_block_correct(1) [OF assms] by simp
      moreover have "current \<in> {current..<limit}" using True by simp
      ultimately show ?thesis using True None by (subst contains_from.simps) auto
    next
      case (Some r)
      then obtain n i b where r: "find_containing_block fl current = Some (n, i, b)" by (cases r) auto
      note f = find_containing_block_correct(2) [OF assms r]
      have lim: "b + 2 ^ n < usize_limit" using f page_limit_less by linarith
      let ?c = "min (b + 2 ^ n) limit"
      have rec: "contains_from fl current limit \<longleftrightarrow> contains_from fl ?c limit"
        using True r f lim by (subst contains_from.simps) (simp add: checked_add_def)
      have "current < ?c" using f True by (simp add: block_def)
      then have IH: "contains_from fl ?c limit \<longleftrightarrow> {?c..<limit} \<subseteq> pool_pages fl"
        using True by (intro less) linarith
      have "block n b \<subseteq> pool_pages fl" using f by (auto simp: pool_pages_def pages_of_def)
      then have "{current..<?c} \<subseteq> pool_pages fl" using f by (auto simp: block_def)
      moreover have "{current..<limit} = {current..<?c} \<union> {?c..<limit}" using \<open>current < ?c\<close> by auto
      ultimately show ?thesis unfolding rec IH by auto
    qed
  qed (simp add: contains_from.simps)
qed

lemma contains_range_correct:
  assumes "pool_wf fl"
  shows "contains_range fl b cnt \<longleftrightarrow> 0 < cnt \<and> b + cnt < usize_limit \<and> {b..<b + cnt} \<subseteq> pool_pages fl"
  by (auto simp: contains_range_def contains_from_correct [OF assms] checked_add_def)

text \<open>Putting a part of a removed block back.\<close>

definition put_back :: "pool \<Rightarrow> nat \<Rightarrow> nat \<Rightarrow> unit phys_result \<times> pool" where
  "put_back fl lo hi = (if lo < hi then add_range fl lo (hi - lo) else (Inr (), fl))"

lemma put_back_correct:
  assumes "pool_wf fl" and "hi \<le> page_limit" and "{lo..<hi} \<inter> pool_pages fl = {}"
  shows "\<exists>fl'. put_back fl lo hi = (Inr (), fl') \<and> pool_wf fl' \<and> pool_pages fl' = pool_pages fl \<union> {lo..<hi}"
  using add_range_correct [OF assms(1), of lo "hi - lo"] assms by (auto simp: put_back_def)

lemma carve_from_unfold:
  assumes "current < limit" and "find_containing_block fl current = Some (n, i, b)" and "n < 64"
    and "b + 2 ^ n < usize_limit"
    and "put_back (drop_block fl n i) b current = (Inr (), fl2)"
    and "put_back fl2 (min (b + 2 ^ n) limit) (b + 2 ^ n) = (Inr (), fl3)"
  shows "carve_from fl current limit = carve_from fl3 (min (b + 2 ^ n) limit) limit"
proof -
  have min: "(if b + 2 ^ n < limit then b + 2 ^ n else limit) = min (b + 2 ^ n) limit" by auto
  show ?thesis
    using assms by (subst carve_from.simps) (simp add: checked_add_def Let_def min put_back_def [symmetric])
qed

lemma carve_from_correct:
  assumes "pool_wf fl" and "{current..<limit} \<subseteq> pool_pages fl"
  shows "\<exists>fl'. carve_from fl current limit = (Inr (), fl') \<and> pool_wf fl' \<and>
    pool_pages fl' = pool_pages fl - {current..<limit}"
  using assms
proof (induction "limit - current" arbitrary: fl current rule: less_induct)
  case less
  show ?case
  proof (cases "current < limit")
    case True
    then have "current \<in> pool_pages fl" using less.prems(2) by auto
    then obtain n i b where r: "find_containing_block fl current = Some (n, i, b)"
      using find_containing_block_correct(1) [OF less.prems(1), of current]
      by (cases "find_containing_block fl current") auto
    note f = find_containing_block_correct(2) [OF less.prems(1) r]
    have lim: "b + 2 ^ n < usize_limit" "b + 2 ^ n \<le> page_limit" using f page_limit_less by linarith+
    let ?c = "min (b + 2 ^ n) limit" and ?fl = "drop_block fl n i"
    have bc: "b \<le> current" "current < ?c" "current < b + 2 ^ n" using f True by (auto simp: block_def)
    have wf1: "pool_wf ?fl" and p1: "pool_pages ?fl = pool_pages fl - {b..<b + 2 ^ n}"
      using drop_block_wf [OF less.prems(1)] f by (auto simp: block_def)
    have "{b..<current} \<inter> pool_pages ?fl = {}" "current \<le> page_limit" using p1 bc lim by auto
    then obtain fl2 where fl2: "put_back ?fl b current = (Inr (), fl2)" "pool_wf fl2"
      "pool_pages fl2 = pool_pages ?fl \<union> {b..<current}"
      using put_back_correct [OF wf1] by blast
    have "{?c..<b + 2 ^ n} \<inter> pool_pages fl2 = {}" using fl2(3) p1 bc by auto
    then obtain fl3 where fl3: "put_back fl2 ?c (b + 2 ^ n) = (Inr (), fl3)" "pool_wf fl3"
      "pool_pages fl3 = pool_pages fl2 \<union> {?c..<b + 2 ^ n}"
      using put_back_correct [OF fl2(2) lim(2)] by blast
    have rec: "carve_from fl current limit = carve_from fl3 ?c limit"
      using carve_from_unfold [OF True r _ lim(1) fl2(1) fl3(1)] f by simp
    have sub: "x \<in> pool_pages fl" if "b \<le> x" "x < b + 2 ^ n" for x
      using f that by (auto simp: pool_pages_def pages_of_def block_def)
    have p3: "pool_pages fl3 = pool_pages fl - {current..<?c}"
      unfolding fl3(3) fl2(3) p1 using bc by (auto simp: min_le_iff_disj intro: sub) (rule sub; linarith)
    have split: "{current..<limit} = {current..<?c} \<union> {?c..<limit}" using bc by auto
    then have "{?c..<limit} \<subseteq> pool_pages fl3" using less.prems(2) unfolding p3 by auto
    then have "\<exists>fl'. carve_from fl3 ?c limit = (Inr (), fl') \<and> pool_wf fl' \<and>
        pool_pages fl' = pool_pages fl3 - {?c..<limit}"
      using bc True fl3(2) by (intro less.hyps) auto
    then show ?thesis using rec p3 unfolding split by auto
  qed (use less.prems in \<open>simp add: carve_from.simps\<close>)
qed

lemma allocate_range_correct:
  assumes "pool_wf fl"
  shows "if 0 < cnt \<and> b + cnt < usize_limit \<and> {b..<b + cnt} \<subseteq> pool_pages fl
    then \<exists>fl'. allocate_range fl b cnt = (Inr (), fl') \<and> pool_wf fl' \<and> pool_pages fl' = pool_pages fl - {b..<b + cnt}
    else \<exists>e. allocate_range fl b cnt = (Inl e, fl)"
  using carve_from_correct [OF assms, of b "b + cnt"] contains_range_correct [OF assms, of b cnt]
  by (auto simp: allocate_range_def carve_range_def checked_add_def)

section \<open>First fit and free counts\<close>

lemma is_power_of_two_exp [simp]: "is_power_of_two (2 ^ n)"
proof -
  have "2 ^ n AND mask n = (0 :: nat)" by (rule bit_eqI) (auto simp: bit_and_iff bit_exp_iff bit_mask_iff)
  then show ?thesis by (simp add: is_power_of_two_def mask_nat_def)
qed

lemma ceil_log2_Some:
  assumes "0 < v" and "v \<le> page_limit"
  obtains n where "ceil_log2 v = Some n" and "v \<le> 2 ^ n" and "n < 64"
proof -
  have "v < usize_limit" using assms(2) page_limit_less by simp
  then obtain f where f: "floor_log2 v = Some f" "2 ^ f \<le> v" "v < 2 ^ Suc f" "f < 64"
    using floor_log2_Some [OF assms(1)] by metis
  show ?thesis
  proof (cases "is_power_of_two v")
    case True
    have "v = 2 ^ f"
    proof (rule ccontr)
      assume "v \<noteq> 2 ^ f"
      then have "2 ^ f \<le> v - 1" "v - 1 < 2 ^ Suc f" using f by auto
      then have "bit v f" "bit (v - 1) f" using f by (simp_all add: bit_iff_odd div_nat_eqI [of _ 1])
      then have "bit (v AND (v - 1)) f" by (simp add: bit_and_iff)
      then show False using True by (simp add: is_power_of_two_def)
    qed
    then show ?thesis using that f True by (simp add: ceil_log2_def)
  next
    case False
    then have "v \<noteq> 2 ^ f" using is_power_of_two_exp by metis
    then have "2 ^ f < (2 :: nat) ^ 51" using f(2) assms(2) by (simp add: page_limit_def)
    then have "f < 51" by (rule power_less_imp_less_exp [rotated]) simp
    moreover have "f + 1 < usize_limit" using f(4) by (simp add: usize_limit_def)
    ultimately show ?thesis using that [of "Suc f"] f False by (simp add: ceil_log2_def checked_add_def)
  qed
qed

lemma first_fit_from_None: "first_fit_from fl = None \<longleftrightarrow> (\<forall>xs \<in> set fl. xs = [])"
  by (induction fl rule: first_fit_from.induct) auto

lemma first_fit_from_Some:
  "first_fit_from fl = Some b \<Longrightarrow> \<exists>n < length fl. b \<in> set (fl ! n)"
  by (induction fl rule: first_fit_from.induct) fastforce+

lemma find_first_fit_correct:
  assumes "pool_wf fl" and "ceil_log2 cnt = Some k" and "0 < cnt"
  shows "find_first_fit fl cnt = None \<longleftrightarrow> (\<forall>b. 2 ^ k dvd b \<longrightarrow> \<not> block k b \<subseteq> pool_pages fl)"
    and "find_first_fit fl cnt = Some b \<Longrightarrow> \<exists>n. k \<le> n \<and> (n, b) \<in> pool_blocks fl"
proof -
  have ok: "blocks_ok (pool_blocks fl)" using assms(1) by (simp add: pool_wf_def)
  have big: "(\<exists>n b. k \<le> n \<and> (n, b) \<in> pool_blocks fl) \<longleftrightarrow> (\<exists>b. 2 ^ k dvd b \<and> block k b \<subseteq> pool_pages fl)"
  proof
    assume "\<exists>n b. k \<le> n \<and> (n, b) \<in> pool_blocks fl"
    then obtain n b where n: "k \<le> n" "(n, b) \<in> pool_blocks fl" by blast
    have "(2 :: nat) ^ k dvd 2 ^ n" using n(1) by (rule le_imp_power_dvd)
    then have d: "2 ^ k dvd b" using blocks_okD(1) [OF ok n(2)] by (rule dvd_trans)
    have "block k b \<subseteq> block n b"
      using block_nested [OF d blocks_okD(1) [OF ok n(2)] n(1)] by (meson block_nonempty)
    then show "\<exists>b. 2 ^ k dvd b \<and> block k b \<subseteq> pool_pages fl"
      using d n(2) by (auto simp: pool_pages_def pages_of_def)
  next
    assume "\<exists>b. 2 ^ k dvd b \<and> block k b \<subseteq> pool_pages fl"
    then show "\<exists>n b. k \<le> n \<and> (n, b) \<in> pool_blocks fl"
      using aligned_block_contained [OF ok] unfolding pool_pages_def by blast
  qed
  have "find_first_fit fl cnt = first_fit_from (drop k fl)" using assms(2,3) by (simp add: find_first_fit_def)
  moreover have "first_fit_from (drop k fl) = None \<longleftrightarrow> \<not> (\<exists>n b. k \<le> n \<and> (n, b) \<in> pool_blocks fl)"
  proof -
    have "first_fit_from (drop k fl) = None \<longleftrightarrow> (\<forall>n < length fl - k. fl ! (k + n) = [])"
      unfolding first_fit_from_None by (simp add: all_set_conv_all_nth)
    also have "\<dots> \<longleftrightarrow> (\<forall>n. k \<le> n \<and> n < length fl \<longrightarrow> fl ! n = [])"
      by (auto simp: le_iff_add)
    also have "\<dots> \<longleftrightarrow> \<not> (\<exists>n b. k \<le> n \<and> (n, b) \<in> pool_blocks fl)"
      by (simp add: pool_blocks_def flip: set_empty) blast
    finally show ?thesis .
  qed
  ultimately show "find_first_fit fl cnt = None \<longleftrightarrow> (\<forall>b. 2 ^ k dvd b \<longrightarrow> \<not> block k b \<subseteq> pool_pages fl)"
    using big by auto
  assume "find_first_fit fl cnt = Some b"
  then have "first_fit_from (drop k fl) = Some b" using assms(2,3) by (simp add: find_first_fit_def)
  from first_fit_from_Some [OF this] obtain n where "n < length fl - k" "b \<in> set (drop k fl ! n)" by auto
  then have "(k + n, b) \<in> pool_blocks fl" by (simp add: pool_blocks_def)
  then show "\<exists>n. k \<le> n \<and> (n, b) \<in> pool_blocks fl" by (meson le_add1)
qed

lemma pool_pages_limit: "pool_wf fl \<Longrightarrow> pool_pages fl \<subseteq> {..<page_limit}"
  using blocks_okD(2) by (fastforce simp: pool_wf_def pool_pages_def pages_of_def block_def)

lemma finite_pool_pages: "pool_wf fl \<Longrightarrow> finite (pool_pages fl)"
  by (rule finite_subset [OF pool_pages_limit]) auto

definition level_pages :: "nat \<Rightarrow> nat list \<Rightarrow> nat set" where
  "level_pages n xs = (\<Union>b \<in> set xs. block n b)"

lemma card_level_pages:
  assumes "distinct xs" and "\<And>b c. b \<in> set xs \<Longrightarrow> c \<in> set xs \<Longrightarrow> b \<noteq> c \<Longrightarrow> block n b \<inter> block n c = {}"
  shows "card (level_pages n xs) = length xs * 2 ^ n"
proof -
  have "card (level_pages n xs) = (\<Sum>b \<in> set xs. card (block n b))"
    unfolding level_pages_def using assms(2) by (intro card_UN_disjoint) (auto simp: block_def)
  also have "\<dots> = length xs * 2 ^ n" using assms(1) by (simp add: block_def distinct_card)
  finally show ?thesis .
qed

lemma pool_pages_levels: "pool_pages fl = (\<Union>n < length fl. level_pages n (fl ! n))"
  by (auto simp: pool_pages_def pages_of_def pool_blocks_def level_pages_def)

lemma card_pool_pages:
  assumes "pool_wf fl"
  shows "card (pool_pages fl) = (\<Sum>n < length fl. length (fl ! n) * 2 ^ n)"
proof -
  have ok: "blocks_ok (pool_blocks fl)" and d: "\<forall>xs \<in> set fl. distinct xs" using assms by (auto simp: pool_wf_def)
  have dis: "n = m \<and> b = c" if "n < length fl" "m < length fl" "b \<in> set (fl ! n)" "c \<in> set (fl ! m)"
      "x \<in> block n b" "x \<in> block m c" for n m b c x
    using blocks_ok_disjoint [OF ok _ _ that(5,6)] that(1-4) by (simp add: pool_blocks_def)
  have "card (pool_pages fl) = (\<Sum>n < length fl. card (level_pages n (fl ! n)))"
    unfolding pool_pages_levels
  proof (rule card_UN_disjoint)
    show "\<forall>i \<in> {..<length fl}. finite (level_pages i (fl ! i))" by (auto simp: level_pages_def block_def)
    show "\<forall>i \<in> {..<length fl}. \<forall>j \<in> {..<length fl}. i \<noteq> j \<longrightarrow>
        level_pages i (fl ! i) \<inter> level_pages j (fl ! j) = {}"
      using dis unfolding level_pages_def by blast
  qed simp
  also have "\<dots> = (\<Sum>n < length fl. length (fl ! n) * 2 ^ n)"
    using dis d by (intro sum.cong refl card_level_pages) (simp, blast)
  finally show ?thesis .
qed

lemma free_pages_from_sum:
  assumes "k + length fl \<le> 64" and "p + (\<Sum>n < length fl. length (fl ! n) * 2 ^ (k + n)) < usize_limit"
  shows "free_pages_from p k fl = p + (\<Sum>n < length fl. length (fl ! n) * 2 ^ (k + n))"
  using assms
proof (induction fl arbitrary: p k)
  case (Cons xs fl)
  have s: "(\<Sum>n < length (xs # fl). length ((xs # fl) ! n) * 2 ^ (k + n)) =
      length xs * 2 ^ k + (\<Sum>n < length fl. length (fl ! n) * 2 ^ (Suc k + n))"
    by (simp only: length_Cons sum.lessThan_Suc_shift) simp
  have "free_pages_from p k (xs # fl) = free_pages_from (p + length xs * 2 ^ k) (Suc k) fl"
    using Cons.prems unfolding s by simp
  then show ?case using Cons.IH [of "Suc k" "p + length xs * 2 ^ k"] Cons.prems unfolding s by simp
qed simp

lemma free_page_count_correct:
  assumes "pool_wf fl"
  shows "free_page_count fl = card (pool_pages fl)"
proof -
  have "card (pool_pages fl) \<le> page_limit"
    using card_mono [OF _ pool_pages_limit [OF assms]] by simp
  then have "(\<Sum>n < length fl. length (fl ! n) * 2 ^ n) < usize_limit"
    using page_limit_less unfolding card_pool_pages [OF assms] by linarith
  then show ?thesis
    using free_pages_from_sum [of 0 fl 0] assms card_pool_pages [OF assms]
    by (simp add: free_page_count_def pool_wf_def)
qed

end
