(* ===== verification/Physical_Allocator.thy ===== *)
theory Physical_Allocator imports Buddy_Pages begin

text \<open>
  The physical page allocator (\<open>src/nanami/src/nanami_core/physical_allocator.rs\<close>,
  \<open>PhysicalAllocator\<close>): a pool of ordinary pages, a pool of device pages and the list of allocation
  records. The first part translates the code. The second part gives the contract of a page pool as a
  locale, interpreted on the buddy pools, and a specification of the allocator on sets of pages which
  the code is shown to implement.
\<close>

section \<open>Definitions\<close>

record phys_allocation =
  pa_base :: nat
  pa_count :: nat
  pa_device :: bool

record memory_info =
  mi_total :: nat
  mi_free :: nat

record alloc_record =
  ar_base :: nat
  ar_count :: nat
  ar_device :: bool
  ar_reserved :: bool

record phys_allocator =
  normal_pool :: pool
  device_pool :: pool
  allocations :: "alloc_record list"

type_synonym 'a phys_op = "'a phys_result \<times> phys_allocator"

definition allocator_new :: phys_allocator where
  "allocator_new = \<lparr>normal_pool = pool_new, device_pool = pool_new, allocations = []\<rparr>"

text \<open>Sizes are \<open>usize\<close>: the rounding addition and the shifts wrap around.\<close>

definition bytes_to_pages :: "nat \<Rightarrow> nat" where
  "bytes_to_pages size_bytes = ((size_bytes + PAGE_SIZE - 1) mod usize_limit) div PAGE_SIZE"

definition is_page_aligned :: "nat \<Rightarrow> bool" where
  "is_page_aligned address \<longleftrightarrow> address AND (PAGE_SIZE - 1) = 0"

definition address_page :: "nat \<Rightarrow> nat" where
  "address_page address = drop_bit PAGE_BITS address"

definition page_address :: "nat \<Rightarrow> nat" where
  "page_address page = push_bit PAGE_BITS page mod usize_limit"

definition pool_of :: "phys_allocator \<Rightarrow> bool \<Rightarrow> pool" where
  "pool_of pa is_device = (if is_device then device_pool pa else normal_pool pa)"

definition set_pool :: "phys_allocator \<Rightarrow> bool \<Rightarrow> pool \<Rightarrow> phys_allocator" where
  "set_pool pa is_device fl =
     (if is_device then pa\<lparr>device_pool := fl\<rparr> else pa\<lparr>normal_pool := fl\<rparr>)"

definition record_allocation :: "phys_allocator \<Rightarrow> nat \<Rightarrow> nat \<Rightarrow> bool \<Rightarrow> phys_allocator" where
  "record_allocation pa base_page page_count is_device =
     pa\<lparr>allocations := allocations pa @
       [\<lparr>ar_base = base_page, ar_count = page_count, ar_device = is_device, ar_reserved = False\<rparr>]\<rparr>"

definition add_region :: "phys_allocator \<Rightarrow> nat \<Rightarrow> nat \<Rightarrow> bool \<Rightarrow> bool \<Rightarrow> unit phys_op" where
  "add_region pa base_address size_bytes is_device used =
     (if \<not> is_page_aligned base_address \<or> size_bytes = 0 then (Inl PhysInvalidArgument, pa)
      else
        let page_count = bytes_to_pages size_bytes;
            base_page = address_page base_address
        in if page_count = 0 then (Inl PhysInvalidArgument, pa)
           else if used then
             (Inr (), pa\<lparr>allocations := allocations pa @
               [\<lparr>ar_base = base_page, ar_count = page_count, ar_device = is_device, ar_reserved = True\<rparr>]\<rparr>)
           else case add_range (pool_of pa is_device) base_page page_count of
             (r, fl) \<Rightarrow> (r, set_pool pa is_device fl))"

definition allocate_at :: "phys_allocator \<Rightarrow> nat \<Rightarrow> nat \<Rightarrow> bool \<Rightarrow> phys_allocation phys_op" where
  "allocate_at pa base_address size_bytes allow_device =
     (if \<not> is_page_aligned base_address \<or> size_bytes = 0 then (Inl PhysInvalidArgument, pa)
      else
        let req_base = address_page base_address;
            req_count = bytes_to_pages size_bytes
        in case allocate_range (normal_pool pa) req_base req_count of
             (Inr u, fl) \<Rightarrow>
               (Inr \<lparr>pa_base = req_base, pa_count = req_count, pa_device = False\<rparr>,
                record_allocation (pa\<lparr>normal_pool := fl\<rparr>) req_base req_count False)
           | (Inl e, fl) \<Rightarrow>
               let pa1 = pa\<lparr>normal_pool := fl\<rparr>
               in if contains_range (device_pool pa1) req_base req_count \<and> \<not> allow_device
                  then (Inl PhysPermissionDenied, pa1)
                  else if \<not> allow_device then (Inl PhysOutOfMemory, pa1)
                  else case allocate_range (device_pool pa1) req_base req_count of
                         (Inr u, fl') \<Rightarrow>
                           (Inr \<lparr>pa_base = req_base, pa_count = req_count, pa_device = True\<rparr>,
                            record_allocation (pa1\<lparr>device_pool := fl'\<rparr>) req_base req_count True)
                       | (Inl e, fl') \<Rightarrow> (Inl PhysOutOfMemory, pa1\<lparr>device_pool := fl'\<rparr>))"

definition allocate_any :: "phys_allocator \<Rightarrow> nat \<Rightarrow> phys_allocation phys_op" where
  "allocate_any pa size_bytes =
     (if size_bytes = 0 then (Inl PhysInvalidArgument, pa)
      else
        let req_count = bytes_to_pages size_bytes
        in case find_first_fit (normal_pool pa) req_count of
             None \<Rightarrow> (Inl PhysOutOfMemory, pa)
           | Some base_page \<Rightarrow>
               allocate_at pa (page_address base_page) (page_address req_count) False)"

text \<open>\<open>value & !mask\<close> clears the bits of the mask.\<close>

definition and_not :: "nat \<Rightarrow> nat \<Rightarrow> nat" where
  "and_not v m = v - (v AND m)"

definition select_block ::
  "nat \<Rightarrow> nat \<Rightarrow> nat \<Rightarrow> nat \<Rightarrow> nat option \<Rightarrow> nat \<Rightarrow> nat option" where
  "select_block start limit bytes block_bytes selected page =
     (let base = page_address page
      in case checked_add base block_bytes of
           None \<Rightarrow> selected
         | Some block_end \<Rightarrow>
             (case checked_add (max base start) (bytes - 1) of
                None \<Rightarrow> selected
              | Some v \<Rightarrow>
                  let address = and_not v (bytes - 1)
                  in case checked_add address bytes of
                       None \<Rightarrow> selected
                     | Some address_end \<Rightarrow>
                         if address_end \<le> min limit block_end \<and>
                            (case selected of None \<Rightarrow> True | Some best \<Rightarrow> address < best)
                         then Some address else selected))"

fun select_orders ::
  "nat \<Rightarrow> nat \<Rightarrow> nat \<Rightarrow> nat option \<Rightarrow> nat \<Rightarrow> pool \<Rightarrow> nat option phys_result" where
  "select_orders start limit bytes selected order [] = Inr selected"
| "select_orders start limit bytes selected order (pages # rest) =
     (case block_pages order of
        Inl e \<Rightarrow> Inl e
      | Inr n \<Rightarrow>
          (case checked_mul n PAGE_SIZE of
             None \<Rightarrow> Inl PhysInvalidArgument
           | Some block_bytes \<Rightarrow>
               select_orders start limit bytes
                 (foldl (select_block start limit bytes block_bytes) selected pages) (Suc order) rest))"

definition allocate_aligned_in_range ::
  "phys_allocator \<Rightarrow> nat \<Rightarrow> nat \<Rightarrow> nat \<Rightarrow> phys_allocation phys_op" where
  "allocate_aligned_in_range pa start limit bytes =
     (if bytes < PAGE_SIZE \<or> \<not> is_power_of_two bytes \<or> limit \<le> start then (Inl PhysInvalidArgument, pa)
      else
        let wanted_order = bit_length (drop_bit PAGE_BITS bytes) - 1
        in case select_orders start limit bytes None wanted_order (drop wanted_order (normal_pool pa)) of
             Inl e \<Rightarrow> (Inl e, pa)
           | Inr None \<Rightarrow> (Inl PhysOutOfMemory, pa)
           | Inr (Some address) \<Rightarrow> allocate_at pa address bytes False)"

text \<open>\<open>ar_matches\<close> is the predicate of \<open>position\<close> in \<open>free\<close>; its sum is not checked and wraps.\<close>

definition ar_matches :: "nat \<Rightarrow> nat \<Rightarrow> alloc_record \<Rightarrow> bool" where
  "ar_matches req_base req_end a \<longleftrightarrow>
     \<not> ar_reserved a \<and> ar_base a \<le> req_base \<and> req_end \<le> wrapping_add (ar_base a) (ar_count a)"

definition free_phys :: "phys_allocator \<Rightarrow> nat \<Rightarrow> nat \<Rightarrow> unit phys_op" where
  "free_phys pa base_address size_bytes =
     (if \<not> is_page_aligned base_address \<or> size_bytes = 0 then (Inl PhysInvalidArgument, pa)
      else
        let req_base = address_page base_address;
            req_count = bytes_to_pages size_bytes
        in case checked_add req_base req_count of
             None \<Rightarrow> (Inl PhysInvalidArgument, pa)
           | Some req_end \<Rightarrow>
               (case first_index (ar_matches req_base req_end) (allocations pa) of
                  None \<Rightarrow> (Inl PhysInvalidArgument, pa)
                | Some index \<Rightarrow>
                    let a = allocations pa ! index;
                        pa1 = pa\<lparr>allocations := swap_remove (allocations pa) index\<rparr>
                    in case checked_add (ar_base a) (ar_count a) of
                         None \<Rightarrow> (Inl PhysInvalidArgument, pa1)
                       | Some allocation_end \<Rightarrow>
                           let pa2 = (if ar_base a < req_base
                                      then record_allocation pa1 (ar_base a) (req_base - ar_base a) (ar_device a)
                                      else pa1);
                               pa3 = (if req_end < allocation_end
                                      then record_allocation pa2 req_end (allocation_end - req_end) (ar_device a)
                                      else pa2)
                           in (case add_range (pool_of pa3 (ar_device a)) req_base req_count of
                                 (r, fl) \<Rightarrow> (r, set_pool pa3 (ar_device a) fl))))"

definition allocated_pages :: "alloc_record list \<Rightarrow> nat" where
  "allocated_pages as =
     foldl (\<lambda>n a. if ar_device a then n else saturating_add n (ar_count a)) 0 as"

definition memory_info_of :: "phys_allocator \<Rightarrow> memory_info" where
  "memory_info_of pa =
     (let free_pages = free_page_count (normal_pool pa);
          allocated = allocated_pages (allocations pa)
      in \<lparr>mi_total = saturating_add free_pages allocated, mi_free = free_pages\<rparr>)"

section \<open>The contract of a page pool\<close>

locale page_pool =
  fixes wf :: "'p \<Rightarrow> bool" and pages :: "'p \<Rightarrow> nat set"
    and put :: "'p \<Rightarrow> nat \<Rightarrow> nat \<Rightarrow> unit phys_result \<times> 'p"
    and take_pages :: "'p \<Rightarrow> nat \<Rightarrow> nat \<Rightarrow> unit phys_result \<times> 'p"
    and covers :: "'p \<Rightarrow> nat \<Rightarrow> nat \<Rightarrow> bool"
  assumes put_ok: "wf p \<Longrightarrow> b + n \<le> page_limit \<Longrightarrow> {b..<b + n} \<inter> pages p = {} \<Longrightarrow>
      \<exists>p'. put p b n = (Inr (), p') \<and> wf p' \<and> pages p' = pages p \<union> {b..<b + n}"
    and take_ok: "wf p \<Longrightarrow> 0 < n \<Longrightarrow> {b..<b + n} \<subseteq> pages p \<Longrightarrow>
      \<exists>p'. take_pages p b n = (Inr (), p') \<and> wf p' \<and> pages p' = pages p - {b..<b + n}"
    and take_err: "wf p \<Longrightarrow> \<not> (0 < n \<and> {b..<b + n} \<subseteq> pages p) \<Longrightarrow> \<exists>e. take_pages p b n = (Inl e, p)"
    and covers_iff: "wf p \<Longrightarrow> covers p b n \<longleftrightarrow> 0 < n \<and> {b..<b + n} \<subseteq> pages p"
    and pages_bound: "wf p \<Longrightarrow> pages p \<subseteq> {..<page_limit}"
begin

lemma range_below_limit: "wf p \<Longrightarrow> 0 < n \<Longrightarrow> {b..<b + n} \<subseteq> pages p \<Longrightarrow> b + n \<le> page_limit"
proof -
  assume a: "wf p" "0 < n" "{b..<b + n} \<subseteq> pages p"
  then have "b + n - 1 \<in> pages p" by auto
  then have "b + n - 1 < page_limit" using pages_bound [OF a(1)] by auto
  then show ?thesis by simp
qed

lemma take_success:
  assumes "wf p" and "take_pages p b n = (Inr (), p')"
  shows "0 < n" and "{b..<b + n} \<subseteq> pages p" and "wf p'" and "pages p' = pages p - {b..<b + n}"
proof -
  have r: "0 < n \<and> {b..<b + n} \<subseteq> pages p"
    using take_err [OF assms(1), of n b] assms(2) by (cases "0 < n \<and> {b..<b + n} \<subseteq> pages p") auto
  then show "0 < n" and "{b..<b + n} \<subseteq> pages p" by auto
  show "wf p'" and "pages p' = pages p - {b..<b + n}" using take_ok [OF assms(1), of n b] r assms(2) by auto
qed

lemma take_put_restores:
  assumes "wf p" and "take_pages p b n = (Inr (), p')"
  shows "\<exists>p''. put p' b n = (Inr (), p'') \<and> wf p'' \<and> pages p'' = pages p"
  using put_ok [of p' b n] take_success [OF assms] range_below_limit [OF assms(1), of n b] by auto

lemma take_twice_fails:
  assumes "wf p" and "take_pages p b n = (Inr (), p')" and "{c..<c + m} \<inter> {b..<b + n} \<noteq> {}"
  shows "\<exists>e. take_pages p' c m = (Inl e, p')"
proof -
  have "\<not> {c..<c + m} \<subseteq> pages p'" using take_success(4) [OF assms(1,2)] assms(3) by blast
  then show ?thesis using take_err [OF take_success(3) [OF assms(1,2)]] by blast
qed

end

lemma range_below_usize:
  assumes "pool_wf fl" and "0 < n" and "{b..<b + n} \<subseteq> pool_pages fl"
  shows "b + n < usize_limit"
proof -
  have "b + n - 1 \<in> pool_pages fl" using assms by auto
  then have "b + n - 1 < page_limit" using pool_pages_limit [OF assms(1)] by auto
  then show ?thesis using page_limit_less by linarith
qed

interpretation buddy: page_pool pool_wf pool_pages add_range allocate_range contains_range
proof
  fix fl b n assume wf: "pool_wf fl"
  show "b + n \<le> page_limit \<Longrightarrow> {b..<b + n} \<inter> pool_pages fl = {} \<Longrightarrow>
      \<exists>p'. add_range fl b n = (Inr (), p') \<and> pool_wf p' \<and> pool_pages p' = pool_pages fl \<union> {b..<b + n}"
    by (rule add_range_correct [OF wf])
  show "0 < n \<Longrightarrow> {b..<b + n} \<subseteq> pool_pages fl \<Longrightarrow>
      \<exists>p'. allocate_range fl b n = (Inr (), p') \<and> pool_wf p' \<and> pool_pages p' = pool_pages fl - {b..<b + n}"
    using allocate_range_correct [OF wf, of n b] range_below_usize [OF wf, of n b] by simp
  show "\<not> (0 < n \<and> {b..<b + n} \<subseteq> pool_pages fl) \<Longrightarrow> \<exists>e. allocate_range fl b n = (Inl e, fl)"
    using allocate_range_correct [OF wf, of n b] by (simp split: if_splits)
  show "contains_range fl b n \<longleftrightarrow> 0 < n \<and> {b..<b + n} \<subseteq> pool_pages fl"
    using contains_range_correct [OF wf] range_below_usize [OF wf] by blast
  show "pool_pages fl \<subseteq> {..<page_limit}" by (rule pool_pages_limit [OF wf])
qed

end
