(* ===== verification/Physical_Spec.thy ===== *)
theory Physical_Spec imports Physical_Allocator begin

text \<open>
  What the physical page allocator promises. The abstract allocator has a set of free pages per pool
  instead of free lists. Under the allocator's invariant, which says that every page has at most one
  owner, the operations of the code act as the abstract ones, and every run keeps the invariant.
\<close>

section \<open>Abstraction and invariant\<close>

definition free_of :: "phys_allocator \<Rightarrow> bool \<Rightarrow> nat set" where
  "free_of pa d = pool_pages (pool_of pa d)"

definition ar_pages :: "alloc_record \<Rightarrow> nat set" where
  "ar_pages a = {ar_base a..<ar_base a + ar_count a}"

definition holds :: "bool \<Rightarrow> nat \<Rightarrow> alloc_record \<Rightarrow> bool" where
  "holds d x a \<longleftrightarrow> \<not> ar_reserved a \<and> ar_device a = d \<and> x \<in> ar_pages a"

text \<open>The number of owners of a page of a pool: the live records that hold it, and the free list.\<close>

definition holders :: "alloc_record list \<Rightarrow> bool \<Rightarrow> nat \<Rightarrow> nat" where
  "holders as d x = length (filter (holds d x) as)"

definition owners :: "phys_allocator \<Rightarrow> bool \<Rightarrow> nat \<Rightarrow> nat" where
  "owners pa d x = holders (allocations pa) d x + of_bool (x \<in> free_of pa d)"

definition phys_wf :: "phys_allocator \<Rightarrow> bool" where
  "phys_wf pa \<longleftrightarrow>
     pool_wf (normal_pool pa) \<and> pool_wf (device_pool pa) \<and>
     (\<forall>d x. owners pa d x \<le> 1) \<and>
     (\<forall>a \<in> set (allocations pa). \<not> ar_reserved a \<longrightarrow> 0 < ar_count a \<and> ar_base a + ar_count a \<le> page_limit)"

lemma pool_of_simps [simp]:
  "pool_of (pa\<lparr>allocations := as\<rparr>) d = pool_of pa d"
  "pool_of (set_pool pa e fl) d = (if d = e then fl else pool_of pa d)"
  "pool_of (record_allocation pa b n e) d = pool_of pa d"
  "allocations (set_pool pa e fl) = allocations pa"
  "allocations (record_allocation pa b n e) = allocations pa @
     [\<lparr>ar_base = b, ar_count = n, ar_device = e, ar_reserved = False\<rparr>]"
  by (auto simp: pool_of_def set_pool_def record_allocation_def)

lemma phys_wfD:
  assumes "phys_wf pa"
  shows "pool_wf (pool_of pa d)" and "owners pa d x \<le> 1"
    and "a \<in> set (allocations pa) \<Longrightarrow> \<not> ar_reserved a \<Longrightarrow> 0 < ar_count a \<and> ar_base a + ar_count a \<le> page_limit"
  using assms by (auto simp: phys_wf_def pool_of_def)

lemma phys_wfI:
  assumes "\<And>d. pool_wf (pool_of pa d)" and "\<And>d x. owners pa d x \<le> 1"
    and "\<And>a. a \<in> set (allocations pa) \<Longrightarrow> \<not> ar_reserved a \<Longrightarrow> 0 < ar_count a \<and> ar_base a + ar_count a \<le> page_limit"
  shows "phys_wf pa"
  using assms(1) [of True] assms(1) [of False] assms(2,3) by (simp add: phys_wf_def pool_of_def)

lemma holders_append [simp]: "holders (as @ bs) d x = holders as d x + holders bs d x"
  by (simp add: holders_def)

lemma holders_Cons: "holders (a # as) d x = of_bool (holds d x a) + holders as d x"
  by (simp add: holders_def)

lemma holders_Nil [simp]: "holders [] d x = 0"
  by (simp add: holders_def)

lemma holders_mset: "mset as = mset bs \<Longrightarrow> holders as d x = holders bs d x"
  unfolding holders_def by (metis mset_filter size_mset)

lemma holders_swap_remove:
  assumes "i < length as"
  shows "holders as d x = of_bool (holds d x (as ! i)) + holders (swap_remove as i) d x"
proof -
  have "mset as = mset (as ! i # swap_remove as i)" using mset_swap_remove [OF assms] assms by simp
  then show ?thesis using holders_mset holders_Cons by metis
qed

lemma set_swap_remove: "i < length as \<Longrightarrow> set (swap_remove as i) \<subseteq> set as"
  using mset_swap_remove [of i as] by (metis in_diffD set_mset_mset subsetI)

section \<open>Allocation\<close>

text \<open>A request that finds its pages free in the pool of kind \<open>d\<close> takes them and records them.\<close>

definition took :: "phys_allocator \<Rightarrow> bool \<Rightarrow> nat \<Rightarrow> nat \<Rightarrow> phys_allocator \<Rightarrow> bool" where
  "took pa d b n pa' \<longleftrightarrow>
     allocations pa' = allocations pa @ [\<lparr>ar_base = b, ar_count = n, ar_device = d, ar_reserved = False\<rparr>] \<and>
     free_of pa' = (free_of pa)(d := free_of pa d - {b..<b + n}) \<and> (\<forall>e. pool_wf (pool_of pa' e))"

lemma took_keeps_owners:
  assumes "took pa d b n pa'" and "{b..<b + n} \<subseteq> free_of pa d"
  shows "owners pa' e x = owners pa e x"
  using assms by (auto simp: took_def owners_def holders_Cons holds_def ar_pages_def)

lemma took_wf:
  assumes "phys_wf pa" and "took pa d b n pa'" and "0 < n" and "{b..<b + n} \<subseteq> free_of pa d"
  shows "phys_wf pa'"
proof (rule phys_wfI)
  show "pool_wf (pool_of pa' e)" for e using assms(2) by (simp add: took_def)
  show "owners pa' e x \<le> 1" for e x
    using took_keeps_owners [OF assms(2,4)] phys_wfD(2) [OF assms(1)] by simp
  have "b + n \<le> page_limit"
    using buddy.range_below_limit [OF phys_wfD(1) [OF assms(1)] assms(3)] assms(4) by (simp add: free_of_def)
  then show "0 < ar_count a \<and> ar_base a + ar_count a \<le> page_limit"
    if "a \<in> set (allocations pa')" "\<not> ar_reserved a" for a
    using that assms(2,3) phys_wfD(3) [OF assms(1)] by (auto simp: took_def)
qed

lemma allocate_take:
  assumes "phys_wf pa" and "0 < n" and "{b..<b + n} \<subseteq> free_of pa d"
  shows "\<exists>fl. allocate_range (pool_of pa d) b n = (Inr (), fl) \<and>
    took pa d b n (record_allocation (set_pool pa d fl) b n d)"
proof -
  obtain fl where fl: "allocate_range (pool_of pa d) b n = (Inr (), fl)" "pool_wf fl"
      "pool_pages fl = pool_pages (pool_of pa d) - {b..<b + n}"
    using buddy.take_ok [OF phys_wfD(1) [OF assms(1), of d] assms(2), of b] assms(3) by (auto simp: free_of_def)
  have "took pa d b n (record_allocation (set_pool pa d fl) b n d)"
    using fl phys_wfD(1) [OF assms(1)] by (auto simp: took_def free_of_def fun_eq_iff)
  then show ?thesis using fl(1) by blast
qed

lemma allocate_refused:
  assumes "phys_wf pa" and "\<not> (0 < n \<and> {b..<b + n} \<subseteq> free_of pa d)"
  shows "\<exists>e. allocate_range (pool_of pa d) b n = (Inl e, pool_of pa d)"
  using buddy.take_err [OF phys_wfD(1) [OF assms(1)], of n b] assms(2) by (simp add: free_of_def)

text \<open>What \<open>allocate_at\<close> answers, as a function of the sets of free pages.\<close>

definition spec_allocate_at ::
  "(bool \<Rightarrow> nat set) \<Rightarrow> nat \<Rightarrow> nat \<Rightarrow> bool \<Rightarrow> phys_allocation phys_result" where
  "spec_allocate_at free address bytes allow_device =
     (let b = address_page address; n = bytes_to_pages bytes; fits = (\<lambda>d. 0 < n \<and> {b..<b + n} \<subseteq> free d)
      in if \<not> is_page_aligned address \<or> bytes = 0 then Inl PhysInvalidArgument
         else if fits False then Inr \<lparr>pa_base = b, pa_count = n, pa_device = False\<rparr>
         else if fits True \<and> \<not> allow_device then Inl PhysPermissionDenied
         else if fits True then Inr \<lparr>pa_base = b, pa_count = n, pa_device = True\<rparr>
         else Inl PhysOutOfMemory)"

definition alloc_effect :: "phys_allocator \<Rightarrow> phys_allocation phys_result \<Rightarrow> phys_allocator \<Rightarrow> bool" where
  "alloc_effect pa r pa' \<longleftrightarrow>
     (case r of
        Inl e \<Rightarrow> pa' = pa
      | Inr a \<Rightarrow> 0 < pa_count a \<and> {pa_base a..<pa_base a + pa_count a} \<subseteq> free_of pa (pa_device a) \<and>
          took pa (pa_device a) (pa_base a) (pa_count a) pa')"

lemma pool_projections:
  "normal_pool pa = pool_of pa False" "device_pool pa = pool_of pa True"
  "pa\<lparr>normal_pool := fl\<rparr> = set_pool pa False fl" "pa\<lparr>device_pool := fl\<rparr> = set_pool pa True fl"
  by (simp_all add: pool_of_def set_pool_def)

lemma set_pool_same [simp]: "set_pool pa d (pool_of pa d) = pa"
  by (simp add: set_pool_def pool_of_def)

lemma allocate_at_correct:
  assumes wf: "phys_wf pa"
  shows "\<exists>pa'. allocate_at pa address bytes allow_device = (spec_allocate_at (free_of pa) address bytes allow_device, pa') \<and>
    alloc_effect pa (spec_allocate_at (free_of pa) address bytes allow_device) pa'"
proof -
  let ?b = "address_page address" and ?n = "bytes_to_pages bytes"
  let ?fits = "\<lambda>d. 0 < ?n \<and> {?b..<?b + ?n} \<subseteq> free_of pa d"
  consider "\<not> is_page_aligned address \<or> bytes = 0" | "is_page_aligned address" "bytes \<noteq> 0" "?fits False"
    | "is_page_aligned address" "bytes \<noteq> 0" "\<not> ?fits False" by blast
  then show ?thesis
  proof cases
    case 1
    then show ?thesis by (auto simp: allocate_at_def spec_allocate_at_def Let_def alloc_effect_def)
  next
    case 2
    then obtain fl where "allocate_range (pool_of pa False) ?b ?n = (Inr (), fl)"
      "took pa False ?b ?n (record_allocation (set_pool pa False fl) ?b ?n False)"
      using allocate_take [OF wf] by blast
    then show ?thesis using 2
      by (auto simp: allocate_at_def spec_allocate_at_def Let_def alloc_effect_def pool_projections)
  next
    case 3
    obtain e where e: "allocate_range (pool_of pa False) ?b ?n = (Inl e, pool_of pa False)"
      using allocate_refused [OF wf 3(3)] by blast
    have cov: "contains_range (pool_of pa True) ?b ?n \<longleftrightarrow> ?fits True"
      using buddy.covers_iff [OF phys_wfD(1) [OF wf]] by (simp add: free_of_def)
    show ?thesis
    proof (cases "?fits True \<and> allow_device")
      case True
      then obtain fl where "allocate_range (pool_of pa True) ?b ?n = (Inr (), fl)"
        "took pa True ?b ?n (record_allocation (set_pool pa True fl) ?b ?n True)"
        using allocate_take [OF wf, of ?n ?b True] by blast
      then show ?thesis using 3 e True
        by (auto simp: allocate_at_def spec_allocate_at_def Let_def alloc_effect_def pool_projections)
    next
      case False
      show ?thesis
      proof (cases allow_device)
        case True
        with False have nf: "\<not> ?fits True" by blast
        obtain e' where "allocate_range (pool_of pa True) ?b ?n = (Inl e', pool_of pa True)"
          using allocate_refused [OF wf nf] by blast
        then show ?thesis using 3 e True nf
          by (simp add: allocate_at_def spec_allocate_at_def Let_def alloc_effect_def pool_projections)
      next
        case False
        then show ?thesis using 3 e cov
          by (cases "?fits True") (simp_all add: allocate_at_def spec_allocate_at_def Let_def alloc_effect_def pool_projections)
      qed
    qed
  qed
qed

lemma alloc_effect_keeps:
  assumes "phys_wf pa" and "alloc_effect pa r pa'"
  shows "phys_wf pa'" and "owners pa' d x = owners pa d x"
  using assms took_wf [OF assms(1)] took_keeps_owners [of pa]
  by (auto simp: alloc_effect_def split: sum.splits)

section \<open>Release\<close>

text \<open>The records that replace a record from which \<open>{b..<c}\<close> is cut out.\<close>

definition leftover :: "alloc_record \<Rightarrow> nat \<Rightarrow> nat \<Rightarrow> alloc_record list" where
  "leftover a b c =
     (if ar_base a < b then [\<lparr>ar_base = ar_base a, ar_count = b - ar_base a, ar_device = ar_device a, ar_reserved = False\<rparr>] else []) @
     (if c < ar_base a + ar_count a
      then [\<lparr>ar_base = c, ar_count = ar_base a + ar_count a - c, ar_device = ar_device a, ar_reserved = False\<rparr>] else [])"

text \<open>Giving a range back: it leaves the live record that contained it and joins the free pages.\<close>

definition freed :: "phys_allocator \<Rightarrow> nat \<Rightarrow> nat \<Rightarrow> phys_allocator \<Rightarrow> bool" where
  "freed pa b n pa' \<longleftrightarrow>
     (\<exists>a \<in> set (allocations pa). ar_matches b (b + n) a \<and>
        mset (allocations pa') = mset (allocations pa) - {#a#} + mset (leftover a b (b + n)) \<and>
        free_of pa' = (free_of pa)(ar_device a := free_of pa (ar_device a) \<union> {b..<b + n})) \<and>
     (\<forall>d x. owners pa' d x = owners pa d x)"

lemma live_record:
  assumes "phys_wf pa" and "a \<in> set (allocations pa)" and "ar_matches b c a"
  shows "\<not> ar_reserved a" and "ar_base a \<le> b" and "c \<le> ar_base a + ar_count a" and "0 < ar_count a"
    and "ar_base a + ar_count a \<le> page_limit" and "ar_base a + ar_count a < usize_limit"
proof -
  show r: "\<not> ar_reserved a" and "ar_base a \<le> b" using assms(3) by (simp_all add: ar_matches_def)
  show "0 < ar_count a" and lim: "ar_base a + ar_count a \<le> page_limit"
    using phys_wfD(3) [OF assms(1,2) r] by simp_all
  then show u: "ar_base a + ar_count a < usize_limit" using page_limit_less by linarith
  then show "c \<le> ar_base a + ar_count a" using assms(3) by (simp add: ar_matches_def)
qed

lemma live_pages_not_free:
  assumes "phys_wf pa" and "a \<in> set (allocations pa)" and "\<not> ar_reserved a" and "x \<in> ar_pages a"
  shows "x \<notin> free_of pa (ar_device a)"
proof
  assume "x \<in> free_of pa (ar_device a)"
  moreover obtain i where "i < length (allocations pa)" "allocations pa ! i = a"
    using assms(2) by (auto simp: in_set_conv_nth)
  then have "0 < holders (allocations pa) (ar_device a) x"
    using holders_swap_remove assms(3,4) by (simp add: holds_def)
  ultimately show False using phys_wfD(2) [OF assms(1), of "ar_device a" x] by (simp add: owners_def)
qed

lemma holders_leftover:
  assumes "\<not> ar_reserved a" and "ar_base a \<le> b" and "b \<le> c" and "c \<le> ar_base a + ar_count a"
  shows "of_bool (holds d x a) = holders (leftover a b c) d x + of_bool (d = ar_device a \<and> x \<in> {b..<c})"
  using assms by (auto simp: leftover_def holders_Cons holds_def ar_pages_def)

lemma free_phys_unfold:
  assumes "is_page_aligned address" and "bytes \<noteq> 0" and "address_page address = b" and "bytes_to_pages bytes = n"
    and "b + n < usize_limit" and "first_index (ar_matches b (b + n)) (allocations pa) = Some i"
    and "a = allocations pa ! i" and "ar_base a + ar_count a < usize_limit"
  shows "free_phys pa address bytes =
    (case add_range (pool_of pa (ar_device a)) b n of
       (r, fl) \<Rightarrow> (r, set_pool (pa\<lparr>allocations := swap_remove (allocations pa) i @ leftover a b (b + n)\<rparr>)
          (ar_device a) fl))"
  using assms by (simp add: free_phys_def Let_def checked_add_def leftover_def record_allocation_def)

lemma free_phys_correct:
  assumes wf: "phys_wf pa" and "is_page_aligned address" and "bytes \<noteq> 0"
    and "address_page address = b" and "bytes_to_pages bytes = n"
    and m: "first_index (ar_matches b (b + n)) (allocations pa) = Some i"
  shows "\<exists>pa'. free_phys pa address bytes = (Inr (), pa') \<and> freed pa b n pa' \<and> phys_wf pa'"
proof -
  define a where "a = allocations pa ! i"
  have i: "i < length (allocations pa)" and am: "ar_matches b (b + n) a"
    using first_index_Some [OF m] by (auto simp: a_def)
  then have a: "a \<in> set (allocations pa)" by (simp add: a_def)
  note live = live_record [OF wf a am]
  let ?d = "ar_device a" and ?as = "swap_remove (allocations pa) i @ leftover a b (b + n)"
  have lim: "b + n \<le> page_limit" "b + n < usize_limit" using live page_limit_less by linarith+
  have "{b..<b + n} \<inter> pool_pages (pool_of pa ?d) = {}"
    using live_pages_not_free [OF wf a live(1)] live by (auto simp: ar_pages_def free_of_def)
  then obtain fl where fl: "add_range (pool_of pa ?d) b n = (Inr (), fl)" "pool_wf fl"
    "pool_pages fl = pool_pages (pool_of pa ?d) \<union> {b..<b + n}"
    using buddy.put_ok [OF phys_wfD(1) [OF wf] lim(1)] by blast
  define pa' where "pa' = set_pool (pa\<lparr>allocations := ?as\<rparr>) ?d fl"
  have res: "free_phys pa address bytes = (Inr (), pa')"
    using free_phys_unfold [OF assms(2-5) lim(2) m a_def live(6)] fl(1) by (simp add: pa'_def)
  have free': "free_of pa' = (free_of pa)(?d := free_of pa ?d \<union> {b..<b + n})"
    using fl(3) by (auto simp: pa'_def free_of_def fun_eq_iff)
  have notfree: "x \<notin> free_of pa ?d" if "x \<in> {b..<b + n}" for x
    using live_pages_not_free [OF wf a live(1)] live that by (auto simp: ar_pages_def)
  have own: "owners pa' d x = owners pa d x" for d x
    using holders_swap_remove [OF i, of d x] holders_leftover [OF live(1,2) _ live(3), of d x] notfree [of x]
    unfolding owners_def free' a_def [symmetric] by (auto simp: pa'_def)
  have "phys_wf pa'"
  proof (rule phys_wfI)
    show "pool_wf (pool_of pa' d)" for d using fl(2) phys_wfD(1) [OF wf] by (simp add: pa'_def)
    show "owners pa' d x \<le> 1" for d x using own phys_wfD(2) [OF wf] by simp
    show "0 < ar_count r \<and> ar_base r + ar_count r \<le> page_limit"
      if "r \<in> set (allocations pa')" "\<not> ar_reserved r" for r
      using that set_swap_remove [OF i] phys_wfD(3) [OF wf, of r] live
      by (auto simp: pa'_def leftover_def split: if_splits)
  qed
  moreover have "mset (allocations pa') = mset (allocations pa) - {#a#} + mset (leftover a b (b + n))"
    using mset_swap_remove [OF i] by (simp add: pa'_def a_def)
  then have "freed pa b n pa'" unfolding freed_def using a am free' own by blast
  ultimately show ?thesis using res by blast
qed

lemma free_phys_refused:
  assumes "\<not> is_page_aligned address \<or> bytes = 0 \<or>
    (\<forall>a \<in> set (allocations pa). \<not> ar_matches (address_page address) (address_page address + bytes_to_pages bytes) a)"
  shows "free_phys pa address bytes = (Inl PhysInvalidArgument, pa)"
  using assms by (auto simp: free_phys_def Let_def checked_add_def first_index_None [THEN iffD2])

section \<open>Regions\<close>

lemma PAGE_SIZE_simps [simp]: "PAGE_SIZE = 4096" "PAGE_BITS = 12"
  by (simp_all add: PAGE_SIZE_def PAGE_BITS_def)

lemma bytes_to_pages_bound: "bytes_to_pages bytes < 2 ^ 52"
  by (simp add: bytes_to_pages_def usize_limit_def div_less_iff_less_mult less_mult_imp_div_less)

text \<open>A boot region is fresh when no page of it is free or held in its pool.\<close>

definition fresh_region :: "phys_allocator \<Rightarrow> nat \<Rightarrow> nat \<Rightarrow> bool \<Rightarrow> bool" where
  "fresh_region pa address bytes d \<longleftrightarrow>
     address_page address + bytes_to_pages bytes \<le> page_limit \<and>
     (\<forall>x \<in> {address_page address..<address_page address + bytes_to_pages bytes}. owners pa d x = 0)"

lemma add_region_wf:
  assumes wf: "phys_wf pa" and "used \<or> fresh_region pa address bytes d"
  shows "phys_wf (snd (add_region pa address bytes d used))"
proof -
  let ?b = "address_page address" and ?n = "bytes_to_pages bytes"
  show ?thesis
  proof (cases "\<not> is_page_aligned address \<or> bytes = 0 \<or> ?n = 0")
    case True
    then show ?thesis using wf by (auto simp: add_region_def Let_def)
  next
    case ok: False
    show ?thesis
    proof (cases used)
      case True
      then show ?thesis using wf ok
        by (auto simp: add_region_def Let_def phys_wf_def owners_def holders_Cons holds_def free_of_def)
    next
      case False
      then have fresh: "?b + ?n \<le> page_limit" "owners pa d x = 0" if "x \<in> {?b..<?b + ?n}" for x
        using assms(2) that by (auto simp: fresh_region_def)
      have lim: "?b + ?n \<le> page_limit" using assms(2) False by (simp add: fresh_region_def)
      have "{?b..<?b + ?n} \<inter> pool_pages (pool_of pa d) = {}"
        using fresh(2) by (fastforce simp: owners_def free_of_def)
      then obtain fl where fl: "add_range (pool_of pa d) ?b ?n = (Inr (), fl)" "pool_wf fl"
        "pool_pages fl = pool_pages (pool_of pa d) \<union> {?b..<?b + ?n}"
        using buddy.put_ok [OF phys_wfD(1) [OF wf] lim] by blast
      have res: "snd (add_region pa address bytes d used) = set_pool pa d fl"
        using ok False fl(1) by (simp add: add_region_def Let_def)
      show ?thesis unfolding res
      proof (rule phys_wfI)
        show "pool_wf (pool_of (set_pool pa d fl) e)" for e using fl(2) phys_wfD(1) [OF wf] by simp
        show "owners (set_pool pa d fl) e x \<le> 1" for e x
          using phys_wfD(2) [OF wf, of e x] fresh(2) [of x] fl(3)
          by (cases "e = d") (auto simp: owners_def free_of_def)
      qed (use phys_wfD(3) [OF wf] in simp)
    qed
  qed
qed

section \<open>Searching allocations\<close>

lemma page_address_eq: "page < page_limit \<Longrightarrow> page_address page = page * 4096"
  by (simp add: page_address_def push_bit_eq_mult page_limit_def usize_limit_def)

lemma page_address_inverse:
  assumes "page < page_limit"
  shows "is_page_aligned (page_address page)" and "address_page (page_address page) = page"
proof -
  have "page * 4096 AND mask 12 = (0 :: nat)" unfolding take_bit_eq_mask [symmetric] by (simp add: take_bit_eq_mod)
  then show "is_page_aligned (page_address page)"
    by (simp add: page_address_eq [OF assms] is_page_aligned_def mask_nat_def)
  show "address_page (page_address page) = page"
    by (simp add: page_address_eq [OF assms] address_page_def drop_bit_eq_div)
qed

lemma bytes_to_pages_address:
  assumes "n < page_limit"
  shows "bytes_to_pages (page_address n) = n"
  using assms by (simp add: page_address_eq bytes_to_pages_def page_limit_def usize_limit_def)

text \<open>
  \<open>allocate_any\<close> finds room exactly when an aligned block of the rounded-up size is free: the coalesced
  free lists never hide such a block.
\<close>

lemma allocate_any_correct:
  assumes wf: "phys_wf pa" and "bytes \<noteq> 0" and n: "bytes_to_pages bytes = n" "0 < n" "n < page_limit"
    and k: "ceil_log2 n = Some k"
  shows "if \<exists>b. 2 ^ k dvd b \<and> block k b \<subseteq> free_of pa False
    then \<exists>b pa'. allocate_any pa bytes = (Inr \<lparr>pa_base = b, pa_count = n, pa_device = False\<rparr>, pa') \<and>
      2 ^ k dvd b \<and> alloc_effect pa (Inr \<lparr>pa_base = b, pa_count = n, pa_device = False\<rparr>) pa'
    else allocate_any pa bytes = (Inl PhysOutOfMemory, pa)"
proof -
  have pw: "pool_wf (normal_pool pa)" using phys_wfD(1) [OF wf, of False] by (simp add: pool_of_def)
  have fo: "free_of pa False = pool_pages (normal_pool pa)" by (simp add: free_of_def pool_of_def)
  note ff = find_first_fit_correct [OF pw k n(2)]
  have "n \<le> 2 ^ k" using ceil_log2_Some [OF n(2)] n(3) k by force
  show ?thesis
  proof (cases "find_first_fit (normal_pool pa) n")
    case None
    then show ?thesis using ff(1) assms(2) n(1) fo by (simp add: allocate_any_def)
  next
    case (Some b)
    obtain m where m: "k \<le> m" "(m, b) \<in> pool_blocks (normal_pool pa)" using ff(2) [OF Some] by blast
    have ok: "blocks_ok (pool_blocks (normal_pool pa))" using pw by (simp add: pool_wf_def)
    have "(2 :: nat) ^ k \<le> 2 ^ m" using m(1) by simp
    then have "n \<le> 2 ^ m" using \<open>n \<le> 2 ^ k\<close> by (rule le_trans [rotated])
    then have "{b..<b + n} \<subseteq> block m b" unfolding block_def by auto
    then have sub: "{b..<b + n} \<subseteq> free_of pa False"
      using m(2) fo by (fastforce simp: pool_pages_def pages_of_def)
    have b: "b < page_limit" using blocks_okD(2) [OF ok m(2)] by (auto intro: less_le_trans [rotated])
    have d: "2 ^ k dvd b" using blocks_okD(1) [OF ok m(2)] m(1) by (meson dvd_trans le_imp_power_dvd)
    have "allocate_any pa bytes = allocate_at pa (page_address b) (page_address n) False"
      using Some assms(2) n(1) by (simp add: allocate_any_def)
    moreover have "spec_allocate_at (free_of pa) (page_address b) (page_address n) False =
        Inr \<lparr>pa_base = b, pa_count = n, pa_device = False\<rparr>"
      using sub n page_address_inverse [OF b] bytes_to_pages_address [OF n(3)] page_address_eq [OF n(3)]
      by (simp add: spec_allocate_at_def)
    moreover have "\<exists>b. 2 ^ k dvd b \<and> block k b \<subseteq> free_of pa False" using ff(1) Some fo by auto
    ultimately show ?thesis using allocate_at_correct [OF wf, of "page_address b" "page_address n" False] d by auto
  qed
qed

lemma allocate_at_effect:
  "phys_wf pa \<Longrightarrow> alloc_effect pa (fst (allocate_at pa a s d)) (snd (allocate_at pa a s d))"
  using allocate_at_correct [of pa a s d] by auto

lemma alloc_effect_error: "alloc_effect pa (Inl e) pa"
  by (simp add: alloc_effect_def)

lemma allocate_any_effect:
  "phys_wf pa \<Longrightarrow> alloc_effect pa (fst (allocate_any pa bytes)) (snd (allocate_any pa bytes))"
  by (simp add: allocate_any_def Let_def allocate_at_effect alloc_effect_error split: option.split)

lemma allocate_aligned_effect:
  "phys_wf pa \<Longrightarrow> alloc_effect pa (fst (allocate_aligned_in_range pa start limit bytes))
     (snd (allocate_aligned_in_range pa start limit bytes))"
  by (simp add: allocate_aligned_in_range_def Let_def allocate_at_effect alloc_effect_error
      split: sum.split option.split)

text \<open>\<open>least_of sel S\<close>: the running selection is the least element of \<open>S\<close>, if there is one.\<close>

definition least_of :: "nat option \<Rightarrow> nat set \<Rightarrow> bool" where
  "least_of sel S \<longleftrightarrow> (case sel of None \<Rightarrow> S = {} | Some a \<Rightarrow> a \<in> S \<and> (\<forall>x \<in> S. a \<le> x))"

definition block_fits :: "nat \<Rightarrow> nat \<Rightarrow> nat \<Rightarrow> nat \<Rightarrow> nat \<Rightarrow> nat set" where
  "block_fits start limit bytes base block_end =
     {a. bytes dvd a \<and> start \<le> a \<and> a + bytes \<le> limit \<and> base \<le> a \<and> a + bytes \<le> block_end}"

lemma and_not_mask: "and_not v (2 ^ k - 1) = v - v mod 2 ^ k"
  by (simp add: and_not_def take_bit_eq_mask mask_nat_def flip: take_bit_eq_mod)

lemma round_up:
  fixes m :: nat
  assumes "0 < q"
  defines "a \<equiv> (m + q - 1) - (m + q - 1) mod q"
  shows "q dvd a" and "m \<le> a" and "\<And>x. q dvd x \<Longrightarrow> m \<le> x \<Longrightarrow> a \<le> x"
proof -
  have a: "a = q * ((m + q - 1) div q)" by (simp add: a_def minus_mod_eq_mult_div)
  show "q dvd a" by (simp add: a)
  have "(m + q - 1) mod q < q" using assms(1) by simp
  then show "m \<le> a" unfolding a_def using assms(1) by linarith
  fix x assume x: "q dvd x" "m \<le> x"
  then obtain y where y: "x = q * y" by (elim dvdE)
  have "(m + q - 1) div q \<le> y"
    using x(2) assms(1) unfolding y by (simp add: less_mult_imp_div_less algebra_simps flip: less_Suc_eq_le)
  then show "a \<le> x" by (simp add: a y)
qed

lemma least_of_insert_least:
  assumes "least_of sel S" and "a \<in> T" and "\<And>x. x \<in> T \<Longrightarrow> a \<le> x"
  shows "least_of (if (case sel of None \<Rightarrow> True | Some best \<Rightarrow> a < best) then Some a else sel) (S \<union> T)"
  using assms by (auto simp: least_of_def split: option.splits) (meson leD le_less_trans linear not_less order_trans)+

lemma select_block_least:
  assumes "bytes = 2 ^ k" and "limit < usize_limit" and "page_address page + block_bytes < usize_limit"
    and "least_of sel S"
  shows "least_of (select_block start limit bytes block_bytes sel page)
    (S \<union> block_fits start limit bytes (page_address page) (page_address page + block_bytes))"
proof -
  let ?m = "max (page_address page) start"
    and ?T = "block_fits start limit bytes (page_address page) (page_address page + block_bytes)"
  define a where "a = (?m + bytes - 1) - (?m + bytes - 1) mod bytes"
  have q: "0 < bytes" using assms(1) by simp
  have up: "bytes dvd a" "?m \<le> a" "\<And>x. bytes dvd x \<Longrightarrow> ?m \<le> x \<Longrightarrow> a \<le> x"
    using round_up [OF q, where m = ?m] unfolding a_def by blast+
  have least: "a \<le> x" if "x \<in> ?T" for x using up(3) [of x] that by (auto simp: block_fits_def)
  have an: "and_not (?m + (bytes - Suc 0)) (bytes - Suc 0) = a"
    using q and_not_mask [of "?m + (bytes - 1)" k] by (simp add: a_def assms(1))
  show ?thesis
  proof (cases "a + bytes \<le> min limit (page_address page + block_bytes)")
    case True
    then have "a \<in> ?T" using up(1,2) by (auto simp: block_fits_def)
    moreover have "?m + (bytes - 1) < usize_limit" "a + bytes < usize_limit"
      using True assms(2) up(2) by linarith+
    ultimately show ?thesis
      using least_of_insert_least [OF assms(4), of a ?T] least True assms(3)
      by (simp add: select_block_def Let_def checked_add_def an)
  next
    case False
    have T: "?T = {}"
    proof (rule ccontr)
      assume "?T \<noteq> {}"
      then obtain x where "x \<in> ?T" by blast
      then show False using least [of x] False by (simp add: block_fits_def)
    qed
    show ?thesis using assms(3,4) False unfolding T
      by (auto simp: select_block_def Let_def checked_add_def an)
  qed
qed

lemma foldl_select_least:
  assumes "bytes = 2 ^ k" and "limit < usize_limit"
    and "\<And>page. page \<in> set pages \<Longrightarrow> page_address page + block_bytes < usize_limit" and "least_of sel S"
  shows "least_of (foldl (select_block start limit bytes block_bytes) sel pages)
    (S \<union> (\<Union>page \<in> set pages. block_fits start limit bytes (page_address page) (page_address page + block_bytes)))"
  using assms(3,4)
proof (induction pages arbitrary: sel S)
  case (Cons page pages)
  let ?F = "\<lambda>p. block_fits start limit bytes (page_address p) (page_address p + block_bytes)"
  have "least_of (foldl (select_block start limit bytes block_bytes)
      (select_block start limit bytes block_bytes sel page) pages) ((S \<union> ?F page) \<union> (\<Union>p \<in> set pages. ?F p))"
    using Cons.prems select_block_least [OF assms(1,2), of page block_bytes sel S start]
    by (intro Cons.IH) auto
  then show ?case by (simp add: Un_assoc)
qed simp

text \<open>The addresses that fit in some block of a list of free lists whose first order is \<open>n\<close>.\<close>

definition pool_fits :: "nat \<Rightarrow> nat \<Rightarrow> nat \<Rightarrow> nat \<Rightarrow> pool \<Rightarrow> nat set" where
  "pool_fits start limit bytes n fl =
     (\<Union>i < length fl. \<Union>b \<in> set (fl ! i).
        block_fits start limit bytes (b * 4096) (b * 4096 + 2 ^ (n + i) * 4096))"

lemma pool_fits_Cons:
  "pool_fits start limit bytes n (xs # fl) =
   (\<Union>b \<in> set xs. block_fits start limit bytes (b * 4096) (b * 4096 + 2 ^ n * 4096)) \<union>
   pool_fits start limit bytes (Suc n) fl"
  by (simp add: pool_fits_def lessThan_Suc_eq_insert_0)

lemma select_orders_least:
  assumes "bytes = 2 ^ k" and "limit < usize_limit" and "fl = [] \<or> n + length fl \<le> 52"
    and "\<And>i b. i < length fl \<Longrightarrow> b \<in> set (fl ! i) \<Longrightarrow> b + 2 ^ (n + i) \<le> page_limit"
    and "least_of sel S"
  shows "\<exists>r. select_orders start limit bytes sel n fl = Inr r \<and>
    least_of r (S \<union> pool_fits start limit bytes n fl)"
  using assms(3-5)
proof (induction fl arbitrary: n sel S)
  case Nil
  then show ?case by (simp add: pool_fits_def)
next
  case (Cons xs fl)
  let ?F = "\<lambda>b. block_fits start limit bytes (b * 4096) (b * 4096 + 2 ^ n * 4096)"
  have n: "n \<le> 51" using Cons.prems(1) by simp
  have "(2 :: nat) ^ n \<le> 2 ^ 51" using n by (intro power_increasing) auto
  then have mul: "2 ^ n * 4096 < usize_limit" by (simp add: usize_limit_def)
  have pg: "page_address b = b * 4096" "b * 4096 + 2 ^ n * 4096 < usize_limit" if "b \<in> set xs" for b
  proof -
    have "b + 2 ^ n \<le> page_limit" using Cons.prems(2) [of 0 b] that by simp
    moreover have "0 < (2 :: nat) ^ n" by simp
    ultimately have "b < page_limit" by linarith
    then show "page_address b = b * 4096" by (rule page_address_eq)
    have "(b + 2 ^ n) * 4096 \<le> page_limit * 4096" using \<open>b + 2 ^ n \<le> page_limit\<close> by (rule mult_right_mono) simp
    then show "b * 4096 + 2 ^ n * 4096 < usize_limit"
      by (simp add: algebra_simps page_limit_def usize_limit_def)
  qed
  let ?sel = "foldl (select_block start limit bytes (2 ^ n * 4096)) sel xs"
  have "least_of ?sel (S \<union> (\<Union>b \<in> set xs. ?F b))"
    using foldl_select_least [OF assms(1,2) _ Cons.prems(3), of xs "2 ^ n * 4096" start] pg by simp
  from Cons.IH [OF _ _ this, of "Suc n"] Cons.prems(1) Cons.prems(2) [of "Suc i" for i]
  obtain r where "select_orders start limit bytes ?sel (Suc n) fl = Inr r"
    "least_of r ((S \<union> (\<Union>b \<in> set xs. ?F b)) \<union> pool_fits start limit bytes (Suc n) fl)" by auto
  then show ?case using n mul by (simp add: pool_fits_Cons Un_assoc checked_mul_def)
qed

text \<open>An aligned run of free pages lies in one block of the pool, so the search misses none.\<close>

definition aligned_fits :: "nat set \<Rightarrow> nat \<Rightarrow> nat \<Rightarrow> nat \<Rightarrow> nat set" where
  "aligned_fits free start limit bytes =
     {a. bytes dvd a \<and> start \<le> a \<and> a + bytes \<le> limit \<and>
        {a div 4096..<a div 4096 + bytes div 4096} \<subseteq> free}"

lemma pool_fits_eq:
  assumes wf: "pool_wf fl" and bytes: "bytes = 2 ^ (12 + w)"
  shows "pool_fits start limit bytes w (drop w fl) = aligned_fits (pool_pages fl) start limit bytes"
proof -
  have ok: "blocks_ok (pool_blocks fl)" using wf by (simp add: pool_wf_def)
  have b4: "bytes = 2 ^ w * 4096" by (simp add: bytes power_add)
  have pf: "a \<in> pool_fits start limit bytes w (drop w fl) \<longleftrightarrow>
      (\<exists>m c. w \<le> m \<and> (m, c) \<in> pool_blocks fl \<and> a \<in> block_fits start limit bytes (c * 4096) (c * 4096 + 2 ^ m * 4096))" for a
  proof
    assume "a \<in> pool_fits start limit bytes w (drop w fl)"
    then obtain i c where "i < length fl - w" "c \<in> set (fl ! (w + i))"
      "a \<in> block_fits start limit bytes (c * 4096) (c * 4096 + 2 ^ (w + i) * 4096)" by (auto simp: pool_fits_def)
    then show "\<exists>m c. w \<le> m \<and> (m, c) \<in> pool_blocks fl \<and> a \<in> block_fits start limit bytes (c * 4096) (c * 4096 + 2 ^ m * 4096)"
      by (intro exI [of _ "w + i"] exI [of _ c]) (simp add: pool_blocks_def)
  next
    assume "\<exists>m c. w \<le> m \<and> (m, c) \<in> pool_blocks fl \<and> a \<in> block_fits start limit bytes (c * 4096) (c * 4096 + 2 ^ m * 4096)"
    then obtain i c where "(w + i, c) \<in> pool_blocks fl" "a \<in> block_fits start limit bytes (c * 4096) (c * 4096 + 2 ^ (w + i) * 4096)"
      by (auto simp: le_iff_add)
    then show "a \<in> pool_fits start limit bytes w (drop w fl)"
      unfolding pool_fits_def by (auto simp: pool_blocks_def)
  qed
  have within: "c * 4096 \<le> a \<and> a + bytes \<le> c * 4096 + 2 ^ m * 4096 \<longleftrightarrow> block w (a div 4096) \<subseteq> block m c"
    if "bytes dvd a" for a m c
  proof -
    from that obtain z where "a = bytes * z" by (elim dvdE)
    then obtain y where y: "a = 4096 * y" by (auto simp: b4 mult.assoc mult.left_commute)
    have "c * 4096 \<le> a \<and> a + bytes \<le> c * 4096 + 2 ^ m * 4096 \<longleftrightarrow> c \<le> y \<and> y + 2 ^ w \<le> c + 2 ^ m"
      unfolding y b4 mult.commute [of 4096 y] distrib_right [symmetric] mult_le_cancel2 by simp
    also have "\<dots> \<longleftrightarrow> block w y \<subseteq> block m c" by (simp add: block_def)
    finally show ?thesis by (simp add: y)
  qed
  have al: "2 ^ w dvd a div 4096" if "bytes dvd a" for a
  proof -
    from that obtain z where "a = bytes * z" by (elim dvdE)
    then have "a = 4096 * (2 ^ w * z)" by (simp add: b4)
    then show ?thesis by simp
  qed
  have "a \<in> pool_fits start limit bytes w (drop w fl) \<longleftrightarrow> a \<in> aligned_fits (pool_pages fl) start limit bytes" for a
  proof -
    have "(\<exists>m c. w \<le> m \<and> (m, c) \<in> pool_blocks fl \<and> block w (a div 4096) \<subseteq> block m c) \<longleftrightarrow>
        block w (a div 4096) \<subseteq> pool_pages fl" if "bytes dvd a"
      using aligned_block_contained [OF ok al [OF that]] unfolding pool_pages_def pages_of_def by blast
    then show ?thesis
      unfolding pf block_fits_def aligned_fits_def using within [of a]
      by (auto simp: block_def b4)
  qed
  then show ?thesis by blast
qed

lemma is_page_aligned_iff: "is_page_aligned a \<longleftrightarrow> 4096 dvd a"
proof -
  have "a AND mask 12 = a mod 4096" by (simp flip: take_bit_eq_mask add: take_bit_eq_mod)
  then show ?thesis by (simp add: is_page_aligned_def mask_nat_def dvd_eq_mod_eq_0)
qed

lemma bit_length_exp [simp]: "bit_length (2 ^ w) = Suc w"
  by (induction w) (simp_all add: bit_length.simps)

lemma allocate_aligned_correct:
  assumes wf: "phys_wf pa" and bytes: "bytes = 2 ^ (12 + w)" and "start < limit" and "limit < usize_limit"
  shows "if aligned_fits (free_of pa False) start limit bytes = {}
    then allocate_aligned_in_range pa start limit bytes = (Inl PhysOutOfMemory, pa)
    else \<exists>a pa'. least_of (Some a) (aligned_fits (free_of pa False) start limit bytes) \<and>
      allocate_aligned_in_range pa start limit bytes =
        (Inr \<lparr>pa_base = a div 4096, pa_count = 2 ^ w, pa_device = False\<rparr>, pa') \<and>
      alloc_effect pa (Inr \<lparr>pa_base = a div 4096, pa_count = 2 ^ w, pa_device = False\<rparr>) pa'"
proof -
  let ?fl = "normal_pool pa" and ?S = "aligned_fits (free_of pa False) start limit bytes"
  have pw: "pool_wf ?fl" using phys_wfD(1) [OF wf, of False] by (simp add: pool_of_def)
  have fo: "free_of pa False = pool_pages ?fl" by (simp add: free_of_def pool_of_def)
  have b4: "bytes = 2 ^ w * 4096" by (simp add: bytes power_add)
  have order: "bit_length (drop_bit PAGE_BITS bytes) - 1 = w" by (simp add: b4 drop_bit_eq_div)
  have "\<exists>r. select_orders start limit bytes None w (drop w ?fl) = Inr r \<and>
      least_of r ({} \<union> pool_fits start limit bytes w (drop w ?fl))"
  proof (rule select_orders_least [OF bytes assms(4)])
    show "drop w ?fl = [] \<or> w + length (drop w ?fl) \<le> 52" using pw by (auto simp: pool_wf_def)
    show "b + 2 ^ (w + i) \<le> page_limit" if "i < length (drop w ?fl)" "b \<in> set (drop w ?fl ! i)" for i b
      using blocks_okD(2) [of "pool_blocks ?fl" "w + i" b] pw that by (auto simp: pool_wf_def pool_blocks_def)
  qed (simp add: least_of_def)
  then obtain r where r: "select_orders start limit bytes None w (drop w ?fl) = Inr r" "least_of r ?S"
    using pool_fits_eq [OF pw bytes] fo by auto
  have unf: "allocate_aligned_in_range pa start limit bytes =
      (case r of None \<Rightarrow> (Inl PhysOutOfMemory, pa) | Some a \<Rightarrow> allocate_at pa a bytes False)"
    using assms(3) r(1) order is_power_of_two_exp [of "12 + w"]
    by (simp add: allocate_aligned_in_range_def b4 power_add mult.commute split: option.splits)
  show ?thesis
  proof (cases r)
    case None
    then show ?thesis using unf r(2) by (simp add: least_of_def)
  next
    case (Some a)
    then have S: "a \<in> ?S" using r(2) by (simp add: least_of_def)
    have "4096 dvd a" using S by (auto simp: aligned_fits_def b4 intro: dvd_trans)
    moreover have "bytes < usize_limit" using S assms(4) by (simp add: aligned_fits_def)
    then have "(2 :: nat) ^ (12 + w) < 2 ^ 64" by (simp add: bytes usize_limit_def)
    then have "12 + w < 64" by (rule power_less_imp_less_exp [rotated]) simp
    then have "(2 :: nat) ^ w \<le> 2 ^ 51" by (intro power_increasing) auto
    then have "bytes_to_pages bytes = 2 ^ w"
      by (simp add: bytes_to_pages_def b4 usize_limit_def)
    ultimately have "spec_allocate_at (free_of pa) a bytes False =
        Inr \<lparr>pa_base = a div 4096, pa_count = 2 ^ w, pa_device = False\<rparr>"
      using S by (simp add: spec_allocate_at_def is_page_aligned_iff address_page_def drop_bit_eq_div aligned_fits_def b4)
    then show ?thesis using unf Some r(2) S allocate_at_correct [OF wf, of a bytes False] by auto
  qed
qed

section \<open>Counting pages\<close>

definition page_total :: "phys_allocator \<Rightarrow> nat" where
  "page_total pa = card (free_of pa False) +
     (\<Sum>a \<in># mset (allocations pa). if ar_device a then 0 else ar_count a)"

lemma allocated_pages_eq:
  "foldl (\<lambda>n a. if ar_device a then n else saturating_add n (ar_count a)) (min s (usize_limit - 1)) as =
   min (s + (\<Sum>a \<in># mset as. if ar_device a then 0 else ar_count a)) (usize_limit - 1)"
proof (induction as arbitrary: s)
  case (Cons a as)
  have "saturating_add (min s (usize_limit - 1)) (ar_count a) = min (s + ar_count a) (usize_limit - 1)"
    by (simp add: saturating_add_def)
  then show ?case using Cons [of s] Cons [of "s + ar_count a"] by (simp add: add.assoc)
qed simp

lemma memory_info_correct:
  assumes "phys_wf pa"
  shows "memory_info_of pa = \<lparr>mi_total = min (page_total pa) (usize_limit - 1), mi_free = card (free_of pa False)\<rparr>"
proof -
  have "free_page_count (normal_pool pa) = card (free_of pa False)"
    using free_page_count_correct phys_wfD(1) [OF assms, of False] by (simp add: free_of_def pool_of_def)
  moreover have "allocated_pages (allocations pa) =
      min (\<Sum>a \<in># mset (allocations pa). if ar_device a then 0 else ar_count a) (usize_limit - 1)"
    using allocated_pages_eq [of 0 "allocations pa"] by (simp add: allocated_pages_def)
  ultimately show ?thesis by (simp add: memory_info_of_def page_total_def saturating_add_def Let_def min_def)
qed

lemma finite_free_of: "phys_wf pa \<Longrightarrow> finite (free_of pa d)"
  using finite_pool_pages phys_wfD(1) by (simp add: free_of_def)

lemma alloc_effect_total:
  assumes "phys_wf pa" and "alloc_effect pa r pa'"
  shows "page_total pa' = page_total pa"
proof (cases r)
  case (Inr a)
  let ?R = "{pa_base a..<pa_base a + pa_count a}"
  have t: "?R \<subseteq> free_of pa (pa_device a)" "took pa (pa_device a) (pa_base a) (pa_count a) pa'"
    using assms(2) Inr by (auto simp: alloc_effect_def)
  have "card ?R \<le> card (free_of pa (pa_device a))" using card_mono [OF finite_free_of [OF assms(1)] t(1)] .
  then show ?thesis
    using t card_Diff_subset [OF _ t(1)] by (auto simp: took_def page_total_def)
qed (use assms(2) in \<open>simp add: alloc_effect_def\<close>)

lemma freed_total:
  assumes "phys_wf pa" and "freed pa b n pa'"
  shows "page_total pa' = page_total pa"
proof -
  obtain a where a: "a \<in> set (allocations pa)" "ar_matches b (b + n) a"
      "mset (allocations pa') = mset (allocations pa) - {#a#} + mset (leftover a b (b + n))"
      "free_of pa' = (free_of pa)(ar_device a := free_of pa (ar_device a) \<union> {b..<b + n})"
    using assms(2) unfolding freed_def by blast
  note live = live_record [OF assms(1) a(1,2)]
  define c where "c = (\<lambda>a :: alloc_record. if ar_device a then 0 else ar_count a)"
  define rest where "rest = mset (allocations pa) - {#a#}"
  have "mset (allocations pa) = add_mset a rest" using a(1) by (simp add: rest_def)
  then have s: "(\<Sum>r \<in># mset (allocations pa). c r) = c a + (\<Sum>r \<in># rest. c r)" by simp
  have s': "(\<Sum>r \<in># mset (allocations pa'). c r) = (\<Sum>r \<in># rest. c r) + (\<Sum>r \<in># mset (leftover a b (b + n)). c r)"
    unfolding a(3) rest_def by simp
  have l: "(\<Sum>r \<in># mset (leftover a b (b + n)). c r) + (if ar_device a then 0 else n) = c a"
    using live(2,3) by (simp add: leftover_def c_def)
  have "free_of pa (ar_device a) \<inter> {b..<b + n} = {}"
    using live_pages_not_free [OF assms(1) a(1) live(1)] live by (auto simp: ar_pages_def)
  then have "card (free_of pa (ar_device a) \<union> {b..<b + n}) = card (free_of pa (ar_device a)) + n"
    using card_Un_disjoint [OF finite_free_of [OF assms(1)]] by simp
  then have "card (free_of pa' False) = card (free_of pa False) + (if ar_device a then 0 else n)"
    using a(4) by (cases "ar_device a") simp_all
  then show ?thesis using s s' l unfolding page_total_def c_def by linarith
qed

section \<open>Runs of the allocator\<close>

inductive phys_step :: "phys_allocator \<Rightarrow> phys_allocator \<Rightarrow> bool" where
  add_region: "used \<or> fresh_region pa address bytes d \<Longrightarrow>
    add_region pa address bytes d used = (r, pa') \<Longrightarrow> phys_step pa pa'"
| allocate_at: "allocate_at pa address bytes allow_device = (r, pa') \<Longrightarrow> phys_step pa pa'"
| allocate_any: "allocate_any pa bytes = (r, pa') \<Longrightarrow> phys_step pa pa'"
| allocate_aligned: "allocate_aligned_in_range pa start limit bytes = (r, pa') \<Longrightarrow> phys_step pa pa'"
| free: "free_phys pa address bytes = (r, pa') \<Longrightarrow> phys_step pa pa'"

inductive phys_reachable :: "phys_allocator \<Rightarrow> bool" where
  init: "phys_reachable allocator_new"
| step: "phys_reachable pa \<Longrightarrow> phys_step pa pa' \<Longrightarrow> phys_reachable pa'"

lemma free_phys_keeps:
  assumes "phys_wf pa" and "free_phys pa address bytes = (r, pa')"
  shows "phys_wf pa'" and "owners pa' d x = owners pa d x"
proof -
  let ?b = "address_page address" and ?n = "bytes_to_pages bytes"
  have "phys_wf pa' \<and> (\<forall>d x. owners pa' d x = owners pa d x)"
  proof (cases "\<not> is_page_aligned address \<or> bytes = 0 \<or> first_index (ar_matches ?b (?b + ?n)) (allocations pa) = None")
    case True
    then show ?thesis using assms free_phys_refused [of address bytes pa] by (auto simp: first_index_None)
  next
    case False
    then obtain i where "first_index (ar_matches ?b (?b + ?n)) (allocations pa) = Some i" by auto
    then show ?thesis using free_phys_correct [OF assms(1), of address bytes ?b ?n i] False assms(2)
      by (auto simp: freed_def)
  qed
  then show "phys_wf pa'" and "owners pa' d x = owners pa d x" by auto
qed

lemma phys_step_wf:
  assumes "phys_step pa pa'" and "phys_wf pa"
  shows "phys_wf pa'"
  using assms(1)
proof cases
  case (add_region used address bytes d r)
  then show ?thesis using add_region_wf [OF assms(2), of used address bytes d] by simp
next
  case (allocate_at address bytes allow_device r)
  then show ?thesis using allocate_at_correct [OF assms(2), of address bytes allow_device]
      alloc_effect_keeps(1) [OF assms(2)] by auto
next
  case (allocate_any bytes r)
  then show ?thesis using allocate_any_effect [OF assms(2), of bytes] alloc_effect_keeps(1) [OF assms(2)] by auto
next
  case (allocate_aligned start limit bytes r)
  then show ?thesis using allocate_aligned_effect [OF assms(2), of start limit bytes]
      alloc_effect_keeps(1) [OF assms(2)] by auto
next
  case (free address bytes r)
  then show ?thesis using free_phys_keeps(1) [OF assms(2)] by auto
qed

lemma pool_new_wf: "pool_wf pool_new" "pool_pages pool_new = {}"
  by (simp_all add: pool_wf_def pool_new_def pool_blocks_def blocks_ok_def pool_pages_def pages_of_def)

lemma allocator_new_wf: "phys_wf allocator_new"
  by (simp add: phys_wf_def allocator_new_def pool_new_wf owners_def free_of_def pool_of_def)

lemma phys_reachable_wf: "phys_reachable pa \<Longrightarrow> phys_wf pa"
  by (induction rule: phys_reachable.induct) (auto intro: allocator_new_wf phys_step_wf)

section \<open>Properties\<close>

text \<open>A small machine for the witnesses: 16 pages of memory at page 16 and one device page.\<close>

definition small_machine :: phys_allocator where
  "small_machine = snd (add_region (snd (add_region allocator_new 65536 65536 False False)) 1048576 4096 True False)"

lemma bit_length_numeral:
  "bit_length (Suc 0) = 1" "bit_length (numeral n) = Suc (bit_length (numeral n div 2))"
  by (simp_all add: bit_length.simps)

lemma add_range_16: "add_range [] 16 16 = (Inr (), [[], [], [], [], [16]])"
proof -
  have "largest_aligned_order 16 16 = Inr 4"
    by (simp add: largest_aligned_order_def floor_log2_def leading_zeros_def bit_length_numeral
        aligned_order_from.simps block_pages_def)
  moreover have "add_block [] 16 4 = (Inr (), [[], [], [], [], [16]])"
    by (simp add: add_block.simps [of _ 16 4] Let_def block_pages_def ensure_order_def find_block_index_def)
      (simp add: numeral_eq_Suc)
  ultimately show ?thesis by (simp add: add_range.simps block_pages_def checked_add_def usize_limit_def)
qed

lemma add_range_256: "add_range [] 256 1 = (Inr (), [[256]])"
proof -
  have "largest_aligned_order 256 1 = Inr 0"
    by (simp add: largest_aligned_order_def floor_log2_def leading_zeros_def bit_length_numeral
        aligned_order_from.simps block_pages_def)
  moreover have "add_block [] 256 0 = (Inr (), [[256]])"
    by (simp add: add_block.simps [of _ 256 0] Let_def block_pages_def ensure_order_def find_block_index_def)
  ultimately show ?thesis by (simp add: add_range.simps block_pages_def checked_add_def usize_limit_def)
qed

lemma small_region: "add_region allocator_new 65536 65536 False False =
  (Inr (), \<lparr>normal_pool = [[], [], [], [], [16]], device_pool = [], allocations = []\<rparr>)"
  using add_range_16
  by (simp add: add_region_def is_page_aligned_iff bytes_to_pages_def address_page_def drop_bit_eq_div
      usize_limit_def allocator_new_def pool_new_def pool_of_def set_pool_def)

lemma small_machine_pools: "small_machine =
  \<lparr>normal_pool = [[], [], [], [], [16]], device_pool = [[256]], allocations = []\<rparr>"
  unfolding small_machine_def small_region using add_range_256
  by (simp add: add_region_def is_page_aligned_iff bytes_to_pages_def address_page_def drop_bit_eq_div
      usize_limit_def pool_of_def set_pool_def)

lemma small_machine_reachable: "phys_reachable small_machine"
proof -
  let ?m = "snd (add_region allocator_new 65536 65536 False False)"
  have "fresh_region allocator_new 65536 65536 False" "fresh_region ?m 1048576 4096 True"
    unfolding small_region by (simp_all add: fresh_region_def owners_def allocator_new_def free_of_def pool_of_def
        pool_new_wf address_page_def bytes_to_pages_def usize_limit_def page_limit_def drop_bit_eq_div
        pool_pages_def pages_of_def pool_blocks_def pool_new_def)
  then show ?thesis
    unfolding small_machine_def
    by (metis phys_reachable.init phys_reachable.step phys_step.add_region prod.collapse)
qed

lemma small_machine_step:
  "phys_reachable (snd (allocate_at small_machine address bytes allow_device))"
  by (rule phys_reachable.step [OF small_machine_reachable], rule phys_step.allocate_at) (rule prod.collapse [symmetric])

lemma small_machine_free: "free_of small_machine False = {16..<32}"
  by (auto simp: small_machine_pools free_of_def pool_of_def pool_pages_levels level_pages_def block_def
      less_Suc_eq numeral_eq_Suc)

lemma small_machine_allocate:
  assumes "is_page_aligned address" and "bytes \<noteq> 0" and "0 < bytes_to_pages bytes"
    and "16 \<le> address_page address" and "address_page address + bytes_to_pages bytes \<le> 32"
  shows "allocations (snd (allocate_at small_machine address bytes False)) =
    [\<lparr>ar_base = address_page address, ar_count = bytes_to_pages bytes, ar_device = False, ar_reserved = False\<rparr>]"
proof -
  have "spec_allocate_at (free_of small_machine) address bytes False =
      Inr \<lparr>pa_base = address_page address, pa_count = bytes_to_pages bytes, pa_device = False\<rparr>"
    using assms by (simp add: spec_allocate_at_def small_machine_free Let_def)
  moreover have "allocations small_machine = []" by (simp add: small_machine_pools)
  ultimately show ?thesis
    using allocate_at_correct [OF phys_reachable_wf [OF small_machine_reachable], of address bytes False]
    by (auto simp: alloc_effect_def took_def)
qed

lemmas small_page_simps = is_page_aligned_iff address_page_def bytes_to_pages_def usize_limit_def drop_bit_eq_div

text \<open>
  C9: in every reachable state of the physical allocator, no page has two owners. Two different live
  allocation records of the same kind never share a page, and no page of a live record is free in the
  pool of its kind, whatever sequence of regions, allocations and releases led to the state.
\<close>

theorem phys_page_one_owner:
  assumes "phys_reachable pa" and "i < length (allocations pa)" and "\<not> ar_reserved (allocations pa ! i)"
    and "x \<in> ar_pages (allocations pa ! i)"
  shows "x \<notin> free_of pa (ar_device (allocations pa ! i)) \<and>
    (\<forall>j < length (allocations pa). j \<noteq> i \<and> \<not> ar_reserved (allocations pa ! j) \<and>
       ar_device (allocations pa ! j) = ar_device (allocations pa ! i) \<longrightarrow> x \<notin> ar_pages (allocations pa ! j))"
proof (intro conjI allI impI)
  let ?as = "allocations pa" and ?d = "ar_device (allocations pa ! i)"
  have wf: "phys_wf pa" using assms(1) by (rule phys_reachable_wf)
  show "x \<notin> free_of pa ?d" using live_pages_not_free [OF wf _ assms(3,4)] assms(2) by simp
  fix j assume j: "j < length ?as" "j \<noteq> i \<and> \<not> ar_reserved (?as ! j) \<and> ar_device (?as ! j) = ?d"
  show "x \<notin> ar_pages (?as ! j)"
  proof
    assume "x \<in> ar_pages (?as ! j)"
    then have "{i, j} \<subseteq> {k. k < length ?as \<and> holds ?d x (?as ! k)}" using assms j by (auto simp: holds_def)
    then have "card {i, j} \<le> holders ?as ?d x"
      unfolding holders_def length_filter_conv_card by (intro card_mono) auto
    then show False using phys_wfD(2) [OF wf, of ?d x] j(2) by (simp add: owners_def)
  qed
qed

theorem phys_page_one_owner_witness:
  "17 \<notin> free_of (snd (allocate_at small_machine 69632 4096 False)) False"
proof -
  let ?pa = "snd (allocate_at small_machine 69632 4096 False)"
  have as: "allocations ?pa = [\<lparr>ar_base = 17, ar_count = 1, ar_device = False, ar_reserved = False\<rparr>]"
    using small_machine_allocate [of 69632 4096] by (simp add: small_page_simps)
  from phys_page_one_owner [OF small_machine_step [of 69632 4096 False], of 0 17] show ?thesis by (simp add: as ar_pages_def)
qed

text \<open>
  C10: \<open>allocate_at\<close> implements its specification on sets of pages. It answers exactly what the
  specification says of the free pages of the two pools; a refused request changes nothing, and a
  granted one removes its pages from the free pages of its pool, records them and touches nothing else.
\<close>

theorem allocate_at_refines_spec:
  assumes "phys_reachable pa"
  shows "fst (allocate_at pa address bytes allow_device) = spec_allocate_at (free_of pa) address bytes allow_device \<and>
    alloc_effect pa (fst (allocate_at pa address bytes allow_device)) (snd (allocate_at pa address bytes allow_device))"
  using allocate_at_correct [OF phys_reachable_wf [OF assms], of address bytes allow_device] by auto

theorem allocate_at_refines_spec_witness:
  "fst (allocate_at small_machine 69632 8192 False) = Inr \<lparr>pa_base = 17, pa_count = 2, pa_device = False\<rparr>"
proof -
  have "spec_allocate_at (free_of small_machine) 69632 8192 False =
      Inr \<lparr>pa_base = 17, pa_count = 2, pa_device = False\<rparr>"
    by (simp add: spec_allocate_at_def small_page_simps small_machine_free Let_def)
  then show ?thesis
    using allocate_at_refines_spec [OF small_machine_reachable, of 69632 8192 False] by simp
qed

text \<open>
  C11: \<open>free\<close> gives back exactly the pages of the requested range, for every size up to \<open>2 ^ 64 - 4096\<close>, beyond
  which the page count of the code wraps. If the address is on a page boundary, the size is not zero and some live
  record holds every page of the range, the release succeeds, the pages of the range join the free pages of the
  pool of that record and no other page does, the rest of the record stays allocated, and the owners of every page
  are conserved; otherwise the request is refused with \<open>InvalidArgument\<close> and nothing changes.
\<close>

theorem free_returns_range:
  assumes "phys_reachable pa" and "bytes \<le> 2 ^ 64 - 4096"
    and "first = address div 4096" and "beyond = (address + bytes + 4095) div 4096"
  shows "if 4096 dvd address \<and> 0 < bytes \<and> (\<exists>a \<in> set (allocations pa). \<not> ar_reserved a \<and> {first..<beyond} \<subseteq> ar_pages a)
    then \<exists>a pa'. free_phys pa address bytes = (Inr (), pa') \<and>
      a \<in> set (allocations pa) \<and> \<not> ar_reserved a \<and> {first..<beyond} \<subseteq> ar_pages a \<and>
      mset (allocations pa') = mset (allocations pa) - {#a#} + mset (leftover a first beyond) \<and>
      free_of pa' = (free_of pa)(ar_device a := free_of pa (ar_device a) \<union> {first..<beyond}) \<and>
      (\<forall>d x. owners pa' d x = owners pa d x)
    else free_phys pa address bytes = (Inl PhysInvalidArgument, pa)"
proof -
  note wf = phys_reachable_wf [OF assms(1)]
  show ?thesis
  proof (cases "4096 dvd address \<and> 0 < bytes")
    case False
    then show ?thesis using free_phys_refused [of address bytes pa] by (auto simp: is_page_aligned_iff)
  next
    case True
    define n where "n = bytes_to_pages bytes"
    have al: "is_page_aligned address" "bytes \<noteq> 0" "address_page address = first"
      using True assms(3) by (simp_all add: is_page_aligned_iff address_page_def drop_bit_eq_div)
    have n: "beyond = first + n" "0 < n" using True assms(2-4) by (auto simp: n_def bytes_to_pages_def usize_limit_def)
    have iff: "ar_matches first (first + n) a \<longleftrightarrow> \<not> ar_reserved a \<and> {first..<beyond} \<subseteq> ar_pages a" if "a \<in> set (allocations pa)" for a
      using phys_wfD(3) [OF wf that] n page_limit_less by (auto simp: ar_matches_def ar_pages_def)
    show ?thesis
    proof (cases "first_index (ar_matches first (first + n)) (allocations pa)")
      case None
      then have none: "\<forall>a \<in> set (allocations pa). \<not> ar_matches first (first + n) a" by (simp add: first_index_None)
      then show ?thesis using free_phys_refused [of address bytes pa] al(3) iff by (auto simp: n_def)
    next
      case (Some i)
      obtain pa' where r: "free_phys pa address bytes = (Inr (), pa')" "freed pa first n pa'"
        using free_phys_correct [OF wf al n_def [symmetric] Some] by blast
      then obtain a where "a \<in> set (allocations pa)" "ar_matches first (first + n) a"
          "mset (allocations pa') = mset (allocations pa) - {#a#} + mset (leftover a first beyond)"
          "free_of pa' = (free_of pa)(ar_device a := free_of pa (ar_device a) \<union> {first..<beyond})" "\<forall>d x. owners pa' d x = owners pa d x"
        unfolding freed_def n(1) by blast
      then show ?thesis using r(1) True iff by auto
    qed
  qed
qed

theorem free_returns_range_witness:
  "\<exists>pa'. free_phys (snd (allocate_at small_machine 65536 65536 False)) 69632 4096 = (Inr (), pa') \<and>
     free_of pa' False = free_of (snd (allocate_at small_machine 65536 65536 False)) False \<union> {17..<18}"
proof -
  let ?pa = "snd (allocate_at small_machine 65536 65536 False)"
  have as: "allocations ?pa = [\<lparr>ar_base = 16, ar_count = 16, ar_device = False, ar_reserved = False\<rparr>]"
    using small_machine_allocate [of 65536 65536] by (simp add: small_page_simps)
  have "(4096 :: nat) \<le> 2 ^ 64 - 4096" "(17 :: nat) = 69632 div 4096" "(18 :: nat) = (69632 + 4096 + 4095) div 4096" by simp_all
  from free_returns_range [OF small_machine_step [of 65536 65536 False] this] show ?thesis
    by (simp add: as ar_pages_def) (metis fun_upd_same)
qed

text \<open>
  Above that bound the page count is zero. On a machine whose memory is one record of 16 pages, releasing
  \<open>2 ^ 64 - 1\<close> bytes from its second page on reports success although no record holds the range; no page becomes
  free, and the record is split in two.
\<close>

theorem free_oversize_accepted:
  "\<exists>pa pa'. phys_reachable pa \<and> length (allocations pa) = 1 \<and> free_phys pa 69632 (2 ^ 64 - 1) = (Inr (), pa') \<and>
     (\<forall>a \<in> set (allocations pa). \<not> {69632 div 4096..<(69632 + (2 ^ 64 - 1) + 4095) div 4096} \<subseteq> ar_pages a) \<and>
     free_of pa' = free_of pa \<and> length (allocations pa') = 2"
proof -
  define pa where "pa = snd (allocate_at small_machine 65536 65536 False)"
  let ?a = "\<lparr>ar_base = 16, ar_count = 16, ar_device = False, ar_reserved = False\<rparr>"
  have as: "allocations pa = [?a]" unfolding pa_def using small_machine_allocate [of 65536 65536] by (simp add: small_page_simps)
  have reach: "phys_reachable pa" unfolding pa_def by (rule small_machine_step)
  have "first_index (ar_matches 17 (17 + 0)) (allocations pa) = Some 0"
    by (simp add: as ar_matches_def wrapping_add_def usize_limit_def)
  moreover have "is_page_aligned 69632" "(2 ^ 64 - 1 :: nat) \<noteq> 0" "address_page 69632 = 17" "bytes_to_pages (2 ^ 64 - 1) = 0"
    by (simp_all add: small_page_simps)
  ultimately obtain pa' where r: "free_phys pa 69632 (2 ^ 64 - 1) = (Inr (), pa')" "freed pa 17 0 pa'"
    using free_phys_correct [OF phys_reachable_wf [OF reach]] by blast
  then have "mset (allocations pa') = mset (leftover ?a 17 17)" "free_of pa' = free_of pa" by (auto simp: freed_def as)
  moreover from this(1) have "length (allocations pa') = length (leftover ?a 17 17)" by (metis size_mset)
  moreover have "\<forall>a \<in> set (allocations pa). \<not> {69632 div 4096..<(69632 + (2 ^ 64 - 1) + 4095) div 4096} \<subseteq> ar_pages a"
    by (simp add: as ar_pages_def)
  ultimately show ?thesis using reach r(1) as by (intro exI [of _ pa] exI [of _ pa']) (simp add: leftover_def)
qed

text \<open>
  C12: \<open>allocate_any\<close> is complete: it grants a request for \<open>n\<close> pages whenever an aligned run of the next
  power of two is free, however the free lists were split and merged before, and then returns aligned pages that
  were free and are the caller's afterwards; otherwise it refuses with \<open>OutOfMemory\<close> and changes nothing.
\<close>

theorem allocate_any_complete:
  assumes "phys_reachable pa" and "bytes \<noteq> 0" and "bytes_to_pages bytes = n" and "0 < n" and "n < page_limit"
    and "ceil_log2 n = Some k"
  shows "if \<exists>b. 2 ^ k dvd b \<and> {b..<b + 2 ^ k} \<subseteq> free_of pa False
    then \<exists>b pa'. allocate_any pa bytes = (Inr \<lparr>pa_base = b, pa_count = n, pa_device = False\<rparr>, pa') \<and>
      2 ^ k dvd b \<and> {b..<b + n} \<subseteq> free_of pa False \<and> took pa False b n pa'
    else allocate_any pa bytes = (Inl PhysOutOfMemory, pa)"
proof -
  have block: "{b..<b + 2 ^ k} = block k b" for b by (simp add: block_def)
  show ?thesis unfolding block
    using allocate_any_correct [OF phys_reachable_wf [OF assms(1)] assms(2-6)]
    by (auto simp: alloc_effect_def split: if_splits)
qed

theorem allocate_any_complete_witness:
  "\<exists>b pa'. allocate_any small_machine 12288 = (Inr \<lparr>pa_base = b, pa_count = 3, pa_device = False\<rparr>, pa') \<and> 4 dvd b"
proof -
  have n: "bytes_to_pages 12288 = 3" "ceil_log2 3 = Some 2"
    by (simp_all add: small_page_simps ceil_log2_def floor_log2_def leading_zeros_def bit_length_numeral
        is_power_of_two_def checked_add_def)
  have "{16 :: nat..<16 + 2 ^ 2} \<subseteq> free_of small_machine False" unfolding small_machine_free by simp
  then have "\<exists>b. (2 :: nat) ^ 2 dvd b \<and> {b..<b + 2 ^ 2} \<subseteq> free_of small_machine False"
    by (intro exI [of _ 16]) simp
  then show ?thesis
    using allocate_any_complete [OF small_machine_reachable _ n(1) _ _ n(2)] by (auto simp: page_limit_def)
qed

text \<open>
  C13: \<open>allocate_aligned_in_range\<close> returns the lowest aligned free block of the requested size inside the
  extent, and refuses with \<open>OutOfMemory\<close> only when the extent holds none, although it looks at the buddy
  blocks only and not at every page.
\<close>

theorem allocate_aligned_lowest:
  assumes "phys_reachable pa" and "bytes = 2 ^ (12 + w)" and "start < limit" and "limit < usize_limit"
  shows "case fst (allocate_aligned_in_range pa start limit bytes) of
      Inr a \<Rightarrow> pa_count a = 2 ^ w \<and> \<not> pa_device a \<and>
        least_of (Some (pa_base a * 4096)) (aligned_fits (free_of pa False) start limit bytes)
    | Inl e \<Rightarrow> e = PhysOutOfMemory \<and> aligned_fits (free_of pa False) start limit bytes = {}"
proof -
  let ?S = "aligned_fits (free_of pa False) start limit bytes"
  have "a div 4096 * 4096 = a" if "least_of (Some a) ?S" for a
    using that assms(2) by (auto simp: least_of_def aligned_fits_def power_add elim!: dvdE)
  then show ?thesis
    using allocate_aligned_correct [OF phys_reachable_wf [OF assms(1)] assms(2-4)] by (auto split: if_splits)
qed

theorem allocate_aligned_lowest_witness:
  "\<exists>a. fst (allocate_aligned_in_range small_machine 70000 131072 8192) = Inr a \<and> pa_base a = 18 \<and> pa_count a = 2"
proof -
  let ?S = "aligned_fits (free_of small_machine False) 70000 131072 8192"
  have S: "73728 \<in> ?S" by (simp add: aligned_fits_def small_machine_free)
  have low: "73728 \<le> x" if "x \<in> ?S" for x using that by (auto simp: aligned_fits_def elim!: dvdE)
  have al: "case fst (allocate_aligned_in_range small_machine 70000 131072 8192) of
      Inr a \<Rightarrow> pa_count a = 2 ^ 1 \<and> \<not> pa_device a \<and> least_of (Some (pa_base a * 4096)) ?S
    | Inl e \<Rightarrow> e = PhysOutOfMemory \<and> ?S = {}"
    by (rule allocate_aligned_lowest [OF small_machine_reachable]) (simp_all add: usize_limit_def)
  show ?thesis
  proof (cases "fst (allocate_aligned_in_range small_machine 70000 131072 8192)")
    case (Inl e)
    then show ?thesis using al S by simp
  next
    case (Inr a)
    then have "pa_count a = 2" "pa_base a * 4096 \<in> ?S" "pa_base a * 4096 \<le> 73728"
      using al S by (auto simp: least_of_def)
    then show ?thesis using Inr low [of "pa_base a * 4096"] by simp
  qed
qed

text \<open>
  C14: the memory report is exact and stable. \<open>memory_info\<close> counts every free page once, its total is the
  free pages plus the recorded ordinary pages (cut off at the largest \<open>usize\<close>), and neither an
  allocation nor a release changes the total.
\<close>

theorem memory_info_exact:
  assumes "phys_reachable pa"
  shows "memory_info_of pa = \<lparr>mi_total = min (page_total pa) (usize_limit - 1), mi_free = card (free_of pa False)\<rparr> \<and>
    page_total (snd (allocate_at pa address bytes allow_device)) = page_total pa \<and>
    page_total (snd (allocate_any pa bytes)) = page_total pa \<and>
    page_total (snd (allocate_aligned_in_range pa start limit bytes)) = page_total pa \<and>
    page_total (snd (free_phys pa address bytes)) = page_total pa"
proof -
  have wf: "phys_wf pa" using assms by (rule phys_reachable_wf)
  let ?b = "address_page address" and ?n = "bytes_to_pages bytes"
  have "page_total (snd (free_phys pa address bytes)) = page_total pa"
  proof (cases "is_page_aligned address \<and> bytes \<noteq> 0 \<and> first_index (ar_matches ?b (?b + ?n)) (allocations pa) \<noteq> None")
    case True
    then obtain i where "first_index (ar_matches ?b (?b + ?n)) (allocations pa) = Some i" by auto
    then obtain pa' where "free_phys pa address bytes = (Inr (), pa')" "freed pa ?b ?n pa'"
      using free_phys_correct [OF wf _ _ refl refl] True by blast
    then show ?thesis using freed_total [OF wf] by simp
  next
    case False
    then show ?thesis using free_phys_refused [of address bytes pa] by (auto simp: first_index_None)
  qed
  then show ?thesis
    using memory_info_correct [OF wf] alloc_effect_total [OF wf allocate_at_effect [OF wf]]
      alloc_effect_total [OF wf allocate_any_effect [OF wf]] alloc_effect_total [OF wf allocate_aligned_effect [OF wf]]
    by blast
qed

theorem memory_info_exact_witness:
  "memory_info_of small_machine = \<lparr>mi_total = 16, mi_free = 16\<rparr> \<and>
   page_total (snd (allocate_any small_machine 12288)) = 16"
proof -
  have "page_total small_machine = 16" using small_machine_free by (simp add: page_total_def small_machine_pools)
  then show ?thesis
    using memory_info_exact [OF small_machine_reachable, of 0 12288 False 0 0]
    by (simp add: small_machine_free usize_limit_def)
qed

end
