(* ===== verification/Service_Registry.thy ===== *)
theory Service_Registry imports Nanami_Prelude begin

text \<open>
  The name registry of the root server (\<open>src/nanami/src/nanami_core/communication/services.rs\<close>): a
  fixed table of 64 entries, filled from the front and never shrunk. Names are the bytes of the
  source's strings. The registry is shown to be an append-only finite map from names to endpoints.
\<close>

section \<open>Definitions\<close>

type_synonym name_bytes = "8 word list"

definition SERVICE_NAME_BYTES :: nat where "SERVICE_NAME_BYTES = 24"
definition MAX_SERVICES :: nat where "MAX_SERVICES = 64"

record service_info =
  si_owner :: machine_word
  si_name_len :: nat
  si_name :: name_bytes

record reg_entry =
  re_info :: service_info
  re_port :: machine_word
  re_managed :: machine_word

definition empty_entry :: reg_entry where
  "empty_entry = \<lparr>re_info = \<lparr>si_owner = 0, si_name_len = 0, si_name = replicate SERVICE_NAME_BYTES 0\<rparr>,
     re_port = 0, re_managed = 0\<rparr>"

record services =
  sv_entries :: "reg_entry list"
  sv_count :: nat

definition services_new :: services where
  "services_new = \<lparr>sv_entries = replicate MAX_SERVICES empty_entry, sv_count = 0\<rparr>"

definition name_matches :: "name_bytes \<Rightarrow> reg_entry \<Rightarrow> bool" where
  "name_matches name entry \<longleftrightarrow>
     si_name_len (re_info entry) = length name \<and> take (length name) (si_name (re_info entry)) = name"

definition invalid_name :: "name_bytes \<Rightarrow> bool" where
  "invalid_name name \<longleftrightarrow> name = [] \<or> length name > SERVICE_NAME_BYTES \<or> 0 \<in> set name"

definition live_entries :: "services \<Rightarrow> reg_entry list" where
  "live_entries sv = take (sv_count sv) (sv_entries sv)"

definition padded_name :: "name_bytes \<Rightarrow> name_bytes" where
  "padded_name name = name @ replicate (SERVICE_NAME_BYTES - length name) 0"

definition sv_register ::
  "services \<Rightarrow> machine_word \<Rightarrow> name_bytes \<Rightarrow> machine_word \<Rightarrow> unit cap_result \<times> services" where
  "sv_register sv owner name port =
     (if invalid_name name \<or> port = 0 then (Inl InvalidArgument, sv)
      else case find (name_matches name) (live_entries sv) of
        Some existing \<Rightarrow>
          if si_owner (re_info existing) = owner \<and> re_port existing = port then (Inr (), sv)
          else (Inl PermissionDenied, sv)
      | None \<Rightarrow>
          if sv_count sv = MAX_SERVICES then (Inl InvalidArgument, sv)
          else
            let info = \<lparr>si_owner = owner, si_name_len = length name, si_name = padded_name name\<rparr>
            in (Inr (), sv\<lparr>sv_entries := (sv_entries sv)[sv_count sv := \<lparr>re_info = info, re_port = port, re_managed = 0\<rparr>],
                          sv_count := sv_count sv + 1\<rparr>))"

definition sv_resolve :: "services \<Rightarrow> name_bytes \<Rightarrow> (machine_word \<times> machine_word) option" where
  "sv_resolve sv name =
     map_option (\<lambda>entry. (re_port entry, si_owner (re_info entry))) (find (name_matches name) (live_entries sv))"

definition sv_can_publish :: "services \<Rightarrow> name_bytes \<Rightarrow> unit cap_result" where
  "sv_can_publish sv name =
     (if invalid_name name \<or> sv_count sv = MAX_SERVICES then Inl InvalidArgument
      else if sv_resolve sv name \<noteq> None then Inl PermissionDenied
      else Inr ())"

definition sv_publish ::
  "services \<Rightarrow> name_bytes \<Rightarrow> machine_word \<Rightarrow> machine_word \<Rightarrow> unit cap_result \<times> services" where
  "sv_publish sv name managed port =
     (case sv_can_publish sv name of
        Inl e \<Rightarrow> (Inl e, sv)
      | Inr u \<Rightarrow>
          if managed = 0 then (Inl InvalidArgument, sv)
          else case sv_register sv 0 name port of
            (Inl e, sv1) \<Rightarrow> (Inl e, sv1)
          | (Inr u, sv1) \<Rightarrow>
              (Inr (), sv1\<lparr>sv_entries := (sv_entries sv1)[sv_count sv1 - 1 :=
                 (sv_entries sv1 ! (sv_count sv1 - 1))\<lparr>re_managed := managed\<rparr>]\<rparr>))"

definition sv_managed_id :: "services \<Rightarrow> name_bytes \<Rightarrow> machine_word option" where
  "sv_managed_id sv name =
     map_option re_managed (find (\<lambda>entry. re_managed entry \<noteq> 0 \<and> name_matches name entry) (live_entries sv))"

text \<open>\<open>le_word\<close> is \<open>Word::from_le_bytes\<close>.\<close>

fun le_word :: "name_bytes \<Rightarrow> machine_word" where
  "le_word [] = 0"
| "le_word (b # bs) = ucast b + 256 * le_word bs"

definition WORD_BYTES :: nat where "WORD_BYTES = 8"
definition CHUNK_BYTES :: nat where "CHUNK_BYTES = 2 * WORD_BYTES"

definition sv_info_chunk :: "services \<Rightarrow> nat \<Rightarrow> nat \<Rightarrow> (machine_word \<times> machine_word) option" where
  "sv_info_chunk sv ordinal chunk =
     (if ordinal < length (live_entries sv) then
        let entry = live_entries sv ! ordinal
        in if chunk = 0 then Some (si_owner (re_info entry), of_nat (si_name_len (re_info entry)))
           else if chunk > (SERVICE_NAME_BYTES + CHUNK_BYTES - 1) div CHUNK_BYTES then None
           else
             let start = (chunk - 1) * CHUNK_BYTES;
                 limit = min (start + CHUNK_BYTES) SERVICE_NAME_BYTES;
                 raw = take (limit - start) (drop start (si_name (re_info entry))) @ replicate (CHUNK_BYTES - (limit - start)) 0
             in Some (le_word (take WORD_BYTES raw), le_word (drop WORD_BYTES raw))
      else None)"

section \<open>The registry as a map\<close>

text \<open>The invariant: the table keeps its size, entries hold padded names, and live names differ.\<close>

definition entry_name :: "reg_entry \<Rightarrow> name_bytes" where
  "entry_name entry = take (si_name_len (re_info entry)) (si_name (re_info entry))"

definition entry_ok :: "reg_entry \<Rightarrow> bool" where
  "entry_ok entry \<longleftrightarrow> \<not> invalid_name (entry_name entry) \<and> si_name_len (re_info entry) = length (entry_name entry) \<and>
     si_name (re_info entry) = padded_name (entry_name entry) \<and> re_port entry \<noteq> 0"

definition services_wf :: "services \<Rightarrow> bool" where
  "services_wf sv \<longleftrightarrow> length (sv_entries sv) = MAX_SERVICES \<and> sv_count sv \<le> MAX_SERVICES \<and>
     (\<forall>entry \<in> set (live_entries sv). entry_ok entry) \<and> distinct (map entry_name (live_entries sv))"

definition names :: "services \<Rightarrow> name_bytes \<Rightarrow> (machine_word \<times> machine_word \<times> machine_word) option" where
  "names sv = map_of (map (\<lambda>e. (entry_name e, re_port e, si_owner (re_info e), re_managed e)) (live_entries sv))"

lemma name_matches_iff: "entry_ok e \<Longrightarrow> name_matches name e \<longleftrightarrow> entry_name e = name"
  by (auto simp: name_matches_def entry_ok_def entry_name_def)

lemma find_names:
  assumes "\<forall>e \<in> set es. entry_ok e"
  shows "map_option (\<lambda>e. (re_port e, si_owner (re_info e), re_managed e)) (find (name_matches name) es) =
    map_of (map (\<lambda>e. (entry_name e, re_port e, si_owner (re_info e), re_managed e)) es) name"
  using assms by (induction es) (auto simp: name_matches_iff)

lemma find_matches_names:
  assumes "services_wf sv"
  shows "map_option (\<lambda>e. (re_port e, si_owner (re_info e), re_managed e)) (find (name_matches name) (live_entries sv)) =
    names sv name"
  using find_names assms by (simp add: services_wf_def names_def)

lemma live_append:
  assumes "length (sv_entries sv) = MAX_SERVICES" and "sv_count sv < MAX_SERVICES"
  shows "live_entries (sv\<lparr>sv_entries := (sv_entries sv)[sv_count sv := e], sv_count := sv_count sv + 1\<rparr>) =
    live_entries sv @ [e]"
  using assms by (simp add: live_entries_def take_Suc_conv_app_nth)

lemma entry_ok_new:
  assumes "\<not> invalid_name name" and "port \<noteq> 0"
  shows "entry_ok \<lparr>re_info = \<lparr>si_owner = owner, si_name_len = length name, si_name = padded_name name\<rparr>,
      re_port = port, re_managed = m\<rparr>"
    and "entry_name \<lparr>re_info = \<lparr>si_owner = owner, si_name_len = length name, si_name = padded_name name\<rparr>,
      re_port = port, re_managed = m\<rparr> = name"
  using assms by (auto simp: entry_ok_def entry_name_def padded_name_def)

text \<open>Appending a fresh entry extends the map at one name.\<close>

lemma append_wf:
  assumes "services_wf sv" and "live_entries sv' = live_entries sv @ [e]" and "length (sv_entries sv') = MAX_SERVICES"
    and "sv_count sv' = sv_count sv + 1" and "sv_count sv < MAX_SERVICES" and "entry_ok e"
    and "names sv (entry_name e) = None"
  shows "services_wf sv'"
    and "names sv' = (names sv)(entry_name e \<mapsto> (re_port e, si_owner (re_info e), re_managed e))"
proof -
  have n: "entry_name e \<notin> set (map entry_name (live_entries sv))"
    using assms(7) by (force simp: names_def map_of_eq_None_iff)
  then show "services_wf sv'" using assms by (auto simp: services_wf_def)
  show "names sv' = (names sv)(entry_name e \<mapsto> (re_port e, si_owner (re_info e), re_managed e))"
    using assms(7) unfolding names_def assms(2)
    by (auto simp: fun_eq_iff map_add_def split: option.splits)
qed

lemma dom_names_card:
  assumes "services_wf sv"
  shows "card (dom (names sv)) = sv_count sv"
proof -
  have "dom (names sv) = set (map entry_name (live_entries sv))"
    by (simp add: names_def dom_map_of_conv_image_fst image_image)
  moreover have "length (live_entries sv) = sv_count sv" using assms by (simp add: services_wf_def live_entries_def)
  ultimately show ?thesis using assms distinct_card [of "map entry_name (live_entries sv)"] by (simp add: services_wf_def)
qed

text \<open>The specification: a finite map of at most \<open>MAX_SERVICES\<close> names that is only ever extended.\<close>

type_synonym name_map = "name_bytes \<Rightarrow> (machine_word \<times> machine_word \<times> machine_word) option"

definition spec_register :: "name_map \<Rightarrow> machine_word \<Rightarrow> name_bytes \<Rightarrow> machine_word \<Rightarrow> unit cap_result \<times> name_map" where
  "spec_register m owner name port =
     (if invalid_name name \<or> port = 0 then (Inl InvalidArgument, m)
      else case m name of
        Some (port', owner', managed) \<Rightarrow>
          if owner' = owner \<and> port' = port then (Inr (), m) else (Inl PermissionDenied, m)
      | None \<Rightarrow>
          if card (dom m) = MAX_SERVICES then (Inl InvalidArgument, m)
          else (Inr (), m(name \<mapsto> (port, owner, 0))))"

definition spec_publish :: "name_map \<Rightarrow> name_bytes \<Rightarrow> machine_word \<Rightarrow> machine_word \<Rightarrow> unit cap_result \<times> name_map" where
  "spec_publish m name managed port =
     (if invalid_name name \<or> card (dom m) = MAX_SERVICES then (Inl InvalidArgument, m)
      else if m name \<noteq> None then (Inl PermissionDenied, m)
      else if managed = 0 \<or> port = 0 then (Inl InvalidArgument, m)
      else (Inr (), m(name \<mapsto> (port, 0, managed))))"

lemma sv_register_refines:
  assumes wf: "services_wf sv"
  shows "services_wf (snd (sv_register sv owner name port)) \<and>
    map_prod id names (sv_register sv owner name port) = spec_register (names sv) owner name port"
proof (cases "invalid_name name \<or> port = 0")
  case True
  then show ?thesis using wf by (auto simp: sv_register_def spec_register_def)
next
  case ok: False
  show ?thesis
  proof (cases "find (name_matches name) (live_entries sv)")
    case (Some e)
    then have "names sv name = Some (re_port e, si_owner (re_info e), re_managed e)"
      using find_matches_names [OF wf, of name] by simp
    then show ?thesis using Some ok wf by (auto simp: sv_register_def spec_register_def)
  next
    case None
    then have fresh: "names sv name = None" using find_matches_names [OF wf, of name] by simp
    show ?thesis
    proof (cases "sv_count sv = MAX_SERVICES")
      case True
      then show ?thesis using None ok wf fresh dom_names_card [OF wf] by (auto simp: sv_register_def spec_register_def)
    next
      case False
      then have c: "sv_count sv < MAX_SERVICES" using wf by (simp add: services_wf_def)
      let ?e = "\<lparr>re_info = \<lparr>si_owner = owner, si_name_len = length name, si_name = padded_name name\<rparr>, re_port = port, re_managed = 0\<rparr>"
      let ?sv = "sv\<lparr>sv_entries := (sv_entries sv)[sv_count sv := ?e], sv_count := sv_count sv + 1\<rparr>"
      have len: "length (sv_entries sv) = MAX_SERVICES" using wf by (simp add: services_wf_def)
      have e: "entry_ok ?e" "entry_name ?e = name" using entry_ok_new [of name port] ok by auto
      have "services_wf ?sv" "names ?sv = (names sv)(name \<mapsto> (port, owner, 0))"
        using append_wf [OF wf live_append [OF len c] _ _ c e(1)] e(2) fresh len by auto
      moreover have "sv_register sv owner name port = (Inr (), ?sv)"
        using ok None False by (simp add: sv_register_def)
      ultimately show ?thesis using ok fresh False dom_names_card [OF wf] by (simp add: spec_register_def)
    qed
  qed
qed

lemma sv_publish_refines:
  assumes wf: "services_wf sv"
  shows "services_wf (snd (sv_publish sv name managed port)) \<and>
    map_prod id names (sv_publish sv name managed port) = spec_publish (names sv) name managed port"
proof -
  have card: "card (dom (names sv)) = sv_count sv" by (rule dom_names_card [OF wf])
  have res: "sv_resolve sv name = None \<longleftrightarrow> names sv name = None"
    unfolding find_matches_names [OF wf, symmetric] by (simp add: sv_resolve_def)
  show ?thesis
  proof (cases "invalid_name name \<or> sv_count sv = MAX_SERVICES \<or> names sv name \<noteq> None \<or> managed = 0 \<or> port = 0")
    case True
    then show ?thesis using wf card res
      by (auto simp: sv_publish_def sv_can_publish_def spec_publish_def sv_register_def split: option.splits)
  next
    case False
    then have fresh: "names sv name = None" by blast
    have c: "sv_count sv < MAX_SERVICES" and len: "length (sv_entries sv) = MAX_SERVICES"
      using wf False by (auto simp: services_wf_def)
    let ?e = "\<lparr>re_info = \<lparr>si_owner = 0, si_name_len = length name, si_name = padded_name name\<rparr>, re_port = port, re_managed = managed\<rparr>"
    let ?sv = "sv\<lparr>sv_entries := (sv_entries sv)[sv_count sv := ?e], sv_count := sv_count sv + 1\<rparr>"
    have none: "find (name_matches name) (live_entries sv) = None"
      using find_matches_names [OF wf, of name] fresh by auto
    have pub: "sv_publish sv name managed port = (Inr (), ?sv)"
      using False none res c len by (simp add: sv_publish_def sv_can_publish_def sv_register_def)
    have e: "entry_ok ?e" "entry_name ?e = name" using entry_ok_new [of name port] False by auto
    have "services_wf ?sv" "names ?sv = (names sv)(name \<mapsto> (port, 0, managed))"
      using append_wf [OF wf live_append [OF len c] _ _ c e(1)] e(2) fresh len by auto
    then show ?thesis using pub False card by (simp add: spec_publish_def)
  qed
qed

lemma sv_resolve_names:
  assumes "services_wf sv"
  shows "sv_resolve sv name = map_option (\<lambda>(port, owner, managed). (port, owner)) (names sv name)"
  using find_matches_names [OF assms, of name, symmetric] by (simp add: sv_resolve_def option.map_comp o_def)

lemma sv_managed_id_names:
  assumes wf: "services_wf sv"
  shows "sv_managed_id sv name =
    (case names sv name of Some (port, owner, managed) \<Rightarrow> if managed = 0 then None else Some managed | None \<Rightarrow> None)"
proof -
  have "map_option re_managed (find (\<lambda>e. re_managed e \<noteq> 0 \<and> name_matches name e) es) =
      (case map_of (map (\<lambda>e. (entry_name e, re_port e, si_owner (re_info e), re_managed e)) es) name of
         Some (port, owner, managed) \<Rightarrow> if managed = 0 then None else Some managed | None \<Rightarrow> None)"
    if "\<forall>e \<in> set es. entry_ok e" "distinct (map entry_name es)" for es
    using that
  proof (induction es)
    case (Cons e es)
    have "map_of (map (\<lambda>e. (entry_name e, re_port e, si_owner (re_info e), re_managed e)) es) (entry_name e) = None"
      using Cons.prems(2) by (auto simp: map_of_eq_None_iff)
    then show ?case using Cons by (auto simp: name_matches_iff split: option.splits)
  qed simp
  then show ?thesis using wf by (simp add: sv_managed_id_def names_def services_wf_def)
qed

section \<open>Reading an entry back\<close>

text \<open>
  The client side (\<open>service_info_by_ordinal\<close> of
  \<open>src/nanami/servers/libs/nanami-runtime/src/lib.rs\<close>) reads the owner and the length first and then
  the name, two words at a time. A request the server answers with \<open>None\<close> fails with a status.
\<close>

datatype request_error = RequestStatus | RequestInvalidArgument

definition word_le_bytes :: "machine_word \<Rightarrow> name_bytes" where
  "word_le_bytes w = map (\<lambda>i. ucast (drop_bit (8 * i) w)) [0..<WORD_BYTES]"

text \<open>\<open>utf8_valid\<close> is the standard library's \<open>core::str::from_utf8(..).is_ok()\<close>.\<close>

definition utf8_tail :: "8 word \<Rightarrow> bool" where
  "utf8_tail b \<longleftrightarrow> 0x80 \<le> b \<and> b \<le> 0xBF"

fun utf8_valid :: "name_bytes \<Rightarrow> bool" where
  "utf8_valid [] = True"
| "utf8_valid (a # rest) =
     (if a < 0x80 then utf8_valid rest
      else case rest of
        [] \<Rightarrow> False
      | b # rest1 \<Rightarrow>
          if 0xC2 \<le> a \<and> a \<le> 0xDF then utf8_tail b \<and> utf8_valid rest1
          else case rest1 of
            [] \<Rightarrow> False
          | c # rest2 \<Rightarrow>
              if 0xE0 \<le> a \<and> a \<le> 0xEF then
                (if a = 0xE0 then 0xA0 \<le> b \<and> b \<le> 0xBF
                 else if a = 0xED then 0x80 \<le> b \<and> b \<le> 0x9F
                 else utf8_tail b) \<and> utf8_tail c \<and> utf8_valid rest2
              else case rest2 of
                [] \<Rightarrow> False
              | d # rest3 \<Rightarrow>
                  0xF0 \<le> a \<and> a \<le> 0xF4 \<and>
                  (if a = 0xF0 then 0x90 \<le> b \<and> b \<le> 0xBF
                   else if a = 0xF4 then 0x80 \<le> b \<and> b \<le> 0x8F
                   else utf8_tail b) \<and> utf8_tail c \<and> utf8_tail d \<and> utf8_valid rest3)"

text \<open>Bytes whose index is past the name array are dropped.\<close>

fun store_bytes :: "name_bytes \<Rightarrow> nat \<Rightarrow> name_bytes \<Rightarrow> name_bytes" where
  "store_bytes name index [] = name"
| "store_bytes name index (byte # bytes) =
     store_bytes (if index < SERVICE_NAME_BYTES then name[index := byte] else name) (Suc index) bytes"

fun read_chunks ::
  "(nat \<Rightarrow> (machine_word \<times> machine_word) option) \<Rightarrow> nat list \<Rightarrow> name_bytes \<Rightarrow> request_error + name_bytes" where
  "read_chunks call [] name = Inr name"
| "read_chunks call (chunk # chunks) name =
     (case call (chunk + 1) of
        None \<Rightarrow> Inl RequestStatus
      | Some (w1, w2) \<Rightarrow>
          read_chunks call chunks (store_bytes name (chunk * 2 * WORD_BYTES) (word_le_bytes w1 @ word_le_bytes w2)))"

definition service_info_by_ordinal ::
  "(nat \<Rightarrow> (machine_word \<times> machine_word) option) \<Rightarrow> request_error + service_info" where
  "service_info_by_ordinal call =
     (case call 0 of
        None \<Rightarrow> Inl RequestStatus
      | Some (owner_pid, len_word) \<Rightarrow>
          let name_len = unat len_word
          in if name_len = 0 \<or> name_len > SERVICE_NAME_BYTES then Inl RequestInvalidArgument
             else case read_chunks call [0..<(name_len + 2 * WORD_BYTES - 1) div (2 * WORD_BYTES)]
                         (replicate SERVICE_NAME_BYTES 0) of
               Inl e \<Rightarrow> Inl e
             | Inr name \<Rightarrow>
                 if \<not> utf8_valid (take name_len name) \<or> 0 \<in> set (take name_len name)
                 then Inl RequestInvalidArgument
                 else Inr \<lparr>si_owner = owner_pid, si_name_len = name_len, si_name = name\<rparr>)"

lemma le_word_nth:
  assumes "length bs \<le> 8" and "i < length bs"
  shows "ucast (drop_bit (8 * i) (le_word bs)) = bs ! i"
  using assms
proof (induction bs arbitrary: i)
  case (Cons b bs)
  have w: "le_word (b # bs) = ucast b OR push_bit 8 (le_word bs)"
  proof -
    have "ucast b AND push_bit 8 (le_word bs) = (0 :: machine_word)"
      by (rule bit_word_eqI) (auto simp: bit_simps dest: bit_imp_le_length)
    then have "ucast b OR push_bit 8 (le_word bs) = ucast b + push_bit 8 (le_word bs)"
      by (simp add: disjunctive_add_eq_or)
    then show ?thesis by (simp add: push_bit_eq_mult mult.commute)
  qed
  show ?case
  proof (cases i)
    case 0
    then show ?thesis unfolding w by (auto intro!: bit_word_eqI simp: bit_simps)
  next
    case (Suc j)
    then have j: "j < 7" using Cons.prems by simp
    have "ucast (drop_bit (8 * i) (le_word (b # bs))) = (ucast (drop_bit (8 * j) (le_word bs)) :: 8 word)"
      unfolding w Suc by (rule bit_word_eqI) (use j in \<open>auto simp: bit_simps dest: bit_imp_le_length\<close>)
    then show ?thesis using Cons Suc by simp
  qed
qed simp

lemma word_le_bytes_le_word: "length bs = 8 \<Longrightarrow> word_le_bytes (le_word bs) = bs"
  by (rule nth_equalityI) (simp_all add: word_le_bytes_def WORD_BYTES_def le_word_nth)

lemma store_bytes_nth:
  assumes "length name = SERVICE_NAME_BYTES"
  shows "length (store_bytes name k bytes) = SERVICE_NAME_BYTES \<and>
    (\<forall>i < SERVICE_NAME_BYTES. store_bytes name k bytes ! i =
       (if k \<le> i \<and> i < k + length bytes then bytes ! (i - k) else name ! i))"
  using assms
proof (induction bytes arbitrary: name k)
  case (Cons b bytes)
  have "length (if k < SERVICE_NAME_BYTES then name[k := b] else name) = SERVICE_NAME_BYTES" using Cons.prems by simp
  from Cons.IH [OF this, of "Suc k"] Cons.prems show ?case
    by (auto simp: nth_Cons' nth_list_update Suc_le_eq)
qed auto

text \<open>The words of a chunk, written out as bytes, are the bytes of the name at that place.\<close>

lemma info_chunk_bytes:
  assumes "ordinal < length (live_entries sv)" and "entry_ok (live_entries sv ! ordinal)" and "chunk < 2"
  obtains w1 w2 where "sv_info_chunk sv ordinal (chunk + 1) = Some (w1, w2)"
    and "length (word_le_bytes w1 @ word_le_bytes w2) = 16"
    and "\<And>i. i < 16 \<Longrightarrow> chunk * 16 + i < SERVICE_NAME_BYTES \<Longrightarrow>
      (word_le_bytes w1 @ word_le_bytes w2) ! i = si_name (re_info (live_entries sv ! ordinal)) ! (chunk * 16 + i)"
proof -
  let ?name = "si_name (re_info (live_entries sv ! ordinal))"
  define raw where "raw = take 16 (drop (chunk * 16) ?name) @ replicate (chunk * 8) 0"
  have len: "length ?name = 24"
    using assms(2) by (simp add: entry_ok_def invalid_name_def padded_name_def SERVICE_NAME_BYTES_def)
  consider "chunk = 0" | "chunk = 1" using assms(3) by linarith
  note cases = this
  have lr: "length raw = 16" by (cases rule: cases) (simp_all add: raw_def len)
  have w: "sv_info_chunk sv ordinal (chunk + 1) = Some (le_word (take 8 raw), le_word (drop 8 raw))"
    by (cases rule: cases)
      (use assms(1) len in \<open>simp_all add: sv_info_chunk_def CHUNK_BYTES_def WORD_BYTES_def SERVICE_NAME_BYTES_def raw_def Let_def\<close>)
  have b: "word_le_bytes (le_word (take 8 raw)) @ word_le_bytes (le_word (drop 8 raw)) = raw"
    using lr by (simp add: word_le_bytes_le_word)
  have "raw ! i = ?name ! (chunk * 16 + i)" if "i < 16" "chunk * 16 + i < SERVICE_NAME_BYTES" for i
    using that len by (auto simp: raw_def nth_append SERVICE_NAME_BYTES_def)
  then show ?thesis using that [OF w] lr unfolding b by blast
qed

text \<open>Reading the first chunks restores that much of the name.\<close>

lemma read_chunks_prefix:
  assumes "ordinal < length (live_entries sv)" and "entry_ok (live_entries sv ! ordinal)" and "n \<le> 2"
    and "length name = SERVICE_NAME_BYTES" and "k + m = n"
    and "\<And>i. i < SERVICE_NAME_BYTES \<Longrightarrow> name ! i =
      (if i < k * 16 then si_name (re_info (live_entries sv ! ordinal)) ! i else 0)"
  shows "\<exists>name'. read_chunks (sv_info_chunk sv ordinal) [k..<n] name = Inr name' \<and> length name' = SERVICE_NAME_BYTES \<and>
    (\<forall>i < SERVICE_NAME_BYTES. name' ! i =
      (if i < n * 16 then si_name (re_info (live_entries sv ! ordinal)) ! i else 0))"
  using assms(4-6)
proof (induction m arbitrary: k name)
  case 0
  then show ?case by simp
next
  case (Suc m)
  let ?full = "si_name (re_info (live_entries sv ! ordinal))"
  have k: "k < n" "k < 2" using Suc.prems(2) assms(3) by auto
  obtain w1 w2 where w: "sv_info_chunk sv ordinal (k + 1) = Some (w1, w2)"
    "length (word_le_bytes w1 @ word_le_bytes w2) = 16"
    "\<And>i. i < 16 \<Longrightarrow> k * 16 + i < SERVICE_NAME_BYTES \<Longrightarrow>
      (word_le_bytes w1 @ word_le_bytes w2) ! i = ?full ! (k * 16 + i)"
    using info_chunk_bytes [OF assms(1,2) k(2)] by metis
  let ?bs = "word_le_bytes w1 @ word_le_bytes w2"
  let ?name = "store_bytes name (k * 16) ?bs"
  have e: "k * 2 * WORD_BYTES = k * 16" by (simp add: WORD_BYTES_def)
  have sb: "length ?name = SERVICE_NAME_BYTES"
    "\<And>i. i < SERVICE_NAME_BYTES \<Longrightarrow> ?name ! i = (if k * 16 \<le> i \<and> i < k * 16 + 16 then ?bs ! (i - k * 16) else name ! i)"
    using store_bytes_nth [OF Suc.prems(1), of "k * 16" ?bs] w(2) by simp_all
  have "?name ! i = (if i < Suc k * 16 then ?full ! i else 0)" if "i < SERVICE_NAME_BYTES" for i
    using sb(2) [OF that] w(3) [of "i - k * 16"] Suc.prems(3) [OF that] that by auto
  from Suc.IH [OF sb(1) _ this] Suc.prems(2)
  show ?case using w(1) k(1) by (simp add: upt_conv_Cons e)
qed

section \<open>Runs\<close>

datatype reg_op = OpRegister machine_word name_bytes machine_word | OpPublish name_bytes machine_word machine_word

fun reg_apply :: "services \<Rightarrow> reg_op \<Rightarrow> unit cap_result \<times> services" where
  "reg_apply sv (OpRegister owner name port) = sv_register sv owner name port"
| "reg_apply sv (OpPublish name managed port) = sv_publish sv name managed port"

fun reg_spec :: "name_map \<Rightarrow> reg_op \<Rightarrow> unit cap_result \<times> name_map" where
  "reg_spec m (OpRegister owner name port) = spec_register m owner name port"
| "reg_spec m (OpPublish name managed port) = spec_publish m name managed port"

fun reg_run :: "services \<Rightarrow> reg_op list \<Rightarrow> unit cap_result list \<times> services" where
  "reg_run sv [] = ([], sv)"
| "reg_run sv (x # xs) = (case reg_apply sv x of (r, sv1) \<Rightarrow> case reg_run sv1 xs of (rs, sv2) \<Rightarrow> (r # rs, sv2))"

fun reg_spec_run :: "name_map \<Rightarrow> reg_op list \<Rightarrow> unit cap_result list \<times> name_map" where
  "reg_spec_run m [] = ([], m)"
| "reg_spec_run m (x # xs) = (case reg_spec m x of (r, m1) \<Rightarrow> case reg_spec_run m1 xs of (rs, m2) \<Rightarrow> (r # rs, m2))"

lemma reg_apply_refines:
  "services_wf sv \<Longrightarrow> services_wf (snd (reg_apply sv x)) \<and> map_prod id names (reg_apply sv x) = reg_spec (names sv) x"
  by (cases x) (simp_all only: reg_apply.simps reg_spec.simps sv_register_refines sv_publish_refines)

lemma reg_run_refines:
  "services_wf sv \<Longrightarrow> services_wf (snd (reg_run sv xs)) \<and> map_prod id names (reg_run sv xs) = reg_spec_run (names sv) xs"
proof (induction xs arbitrary: sv)
  case (Cons x xs)
  obtain r sv1 where a: "reg_apply sv x = (r, sv1)" by force
  then have "services_wf sv1" "reg_spec (names sv) x = (r, names sv1)"
    using reg_apply_refines [OF Cons.prems, of x] by auto
  then show ?case using Cons.IH [of sv1] a by (cases "reg_run sv1 xs") (auto split: prod.splits)
qed simp

lemma services_new_wf: "services_wf services_new" "names services_new = Map.empty"
  by (simp_all add: services_wf_def services_new_def live_entries_def names_def)

lemma reg_spec_extends: "m \<subseteq>\<^sub>m snd (reg_spec m x)"
  by (cases x) (auto simp: spec_register_def spec_publish_def map_le_def split: option.splits)

text \<open>
  C26: the registry refines an append-only finite map. Any sequence of registrations and publications
  gives the same answers as on the specification map, lookups and managed identifiers read that map,
  and whatever a name resolves to, it resolves to after every further operation.
\<close>

theorem registry_refines_map:
  "map_prod id names (reg_run services_new ops) = reg_spec_run Map.empty ops \<and>
   sv_resolve (snd (reg_run services_new ops)) name =
     map_option (\<lambda>(port, owner, managed). (port, owner)) (snd (reg_spec_run Map.empty ops) name) \<and>
   sv_managed_id (snd (reg_run services_new ops)) name =
     (case snd (reg_spec_run Map.empty ops) name of
        Some (port, owner, managed) \<Rightarrow> if managed = 0 then None else Some managed | None \<Rightarrow> None) \<and>
   names (snd (reg_run services_new ops)) \<subseteq>\<^sub>m names (snd (reg_apply (snd (reg_run services_new ops)) x))"
proof -
  let ?sv = "snd (reg_run services_new ops)"
  have wf: "services_wf ?sv" and run: "map_prod id names (reg_run services_new ops) = reg_spec_run Map.empty ops"
    using reg_run_refines [OF services_new_wf(1), of ops] services_new_wf(2) by auto
  have m: "snd (reg_spec_run Map.empty ops) = names ?sv" unfolding run [symmetric] by simp
  have "names (snd (reg_apply ?sv x)) = snd (reg_spec (names ?sv) x)"
    using reg_apply_refines [OF wf, of x] by (metis snd_map_prod)
  then have "names ?sv \<subseteq>\<^sub>m names (snd (reg_apply ?sv x))" using reg_spec_extends by metis
  then show ?thesis using run sv_resolve_names [OF wf] sv_managed_id_names [OF wf] m by simp
qed

text \<open>
  C27: a client reads every registry entry back exactly. For a live entry with a valid name, the chunked
  protocol of \<open>service_info_by_ordinal\<close> over \<open>info_chunk\<close> returns the owner, the length and the padded
  name that were stored.
\<close>

theorem service_info_roundtrip:
  assumes "services_wf sv" and "ordinal < sv_count sv" and "utf8_valid (entry_name (live_entries sv ! ordinal))"
  shows "service_info_by_ordinal (sv_info_chunk sv ordinal) = Inr (re_info (live_entries sv ! ordinal))"
proof -
  let ?e = "live_entries sv ! ordinal"
  have o: "ordinal < length (live_entries sv)" using assms(1,2) by (simp add: services_wf_def live_entries_def)
  then have ok: "entry_ok ?e" using assms(1) by (simp add: services_wf_def)
  define len where "len = si_name_len (re_info ?e)"
  have pad: "si_name (re_info ?e) = padded_name (entry_name ?e)" "len = length (entry_name ?e)" "0 < len" "len \<le> 24"
    "0 \<notin> set (entry_name ?e)"
    using ok by (auto simp: entry_ok_def invalid_name_def len_def SERVICE_NAME_BYTES_def)
  have ul: "unat (of_nat len :: machine_word) = len" using pad(4) by (simp add: unat_of_nat take_bit_nat_eq_self)
  have c0: "sv_info_chunk sv ordinal 0 = Some (si_owner (re_info ?e), of_nat len)"
    using o by (simp add: sv_info_chunk_def len_def Let_def)
  let ?n = "(len + 2 * WORD_BYTES - 1) div (2 * WORD_BYTES)"
  have n: "?n \<le> 2" "len \<le> ?n * 16" using pad(4) by (auto simp: WORD_BYTES_def)
  obtain name where r: "read_chunks (sv_info_chunk sv ordinal) [0..<?n] (replicate SERVICE_NAME_BYTES 0) = Inr name"
    "length name = SERVICE_NAME_BYTES"
    "\<forall>i < SERVICE_NAME_BYTES. name ! i = (if i < ?n * 16 then si_name (re_info ?e) ! i else 0)"
    using read_chunks_prefix [OF o ok n(1), of "replicate SERVICE_NAME_BYTES 0" 0 ?n] by auto
  have full: "length (si_name (re_info ?e)) = SERVICE_NAME_BYTES"
    using pad by (simp add: padded_name_def SERVICE_NAME_BYTES_def)
  have "name = si_name (re_info ?e)"
  proof (rule nth_equalityI)
    show "name ! i = si_name (re_info ?e) ! i" if "i < length name" for i
      using r(2,3) that n(2) pad by (auto simp: padded_name_def nth_append)
  qed (simp add: r(2) full)
  moreover have "take len (si_name (re_info ?e)) = entry_name ?e" by (simp add: entry_name_def len_def)
  ultimately show ?thesis
    using c0 r(1) ul pad(3-5) assms(3)
    by (simp add: service_info_by_ordinal_def SERVICE_NAME_BYTES_def Let_def flip: len_def)
qed

theorem service_info_roundtrip_witness:
  "service_info_by_ordinal (sv_info_chunk (snd (sv_register services_new 3 [0x76, 0x66, 0x73] 9)) 0) =
   Inr \<lparr>si_owner = 3, si_name_len = 3, si_name = [0x76, 0x66, 0x73] @ replicate 21 0\<rparr>"
proof -
  let ?sv = "snd (sv_register services_new 3 [0x76, 0x66, 0x73] 9)"
  have "services_wf ?sv" using sv_register_refines [OF services_new_wf(1)] by blast
  moreover have "0 < sv_count ?sv" "utf8_valid (entry_name (live_entries ?sv ! 0))" by code_simp+
  ultimately have "service_info_by_ordinal (sv_info_chunk ?sv 0) = Inr (re_info (live_entries ?sv ! 0))"
    by (rule service_info_roundtrip)
  moreover have "re_info (live_entries ?sv ! 0) =
      \<lparr>si_owner = 3, si_name_len = 3, si_name = [0x76, 0x66, 0x73] @ replicate 21 0\<rparr>" by code_simp
  ultimately show ?thesis by simp
qed

end
