(* ===== verification/Service_Events.thy ===== *)
theory Service_Events imports Bindings begin

text \<open>
  The work-hint events of managed services
  (\<open>src/nanami/src/nanami_core/communication/events.rs\<close>). Each service has one event with at most one
  receiver, each session at most one client alias of it. The capability effects of the source's
  \<open>Effects\<close> trait are a record of functions on an arbitrary world. The second part specifies in which
  states which effect may be called and what its result does to the state, and shows that every run of
  the code follows that specification.
\<close>

section \<open>Definitions\<close>

record event =
  ev_initialized :: bool
  ev_receiver :: "(machine_word \<times> machine_word) option"
  ev_faulted :: bool

record client =
  cl_service :: service_id
  cl_owner :: machine_word
  cl_slot :: machine_word
  cl_ready :: bool
  cl_closed :: bool

record 'w event_effects =
  ef_create :: "service_id \<Rightarrow> 'w effect"
  ef_install :: "service_id \<Rightarrow> machine_word \<Rightarrow> machine_word \<Rightarrow> 'w effect"
  ef_withdraw :: "service_id \<Rightarrow> machine_word \<Rightarrow> machine_word \<Rightarrow> 'w effect"
  ef_client :: "service_id \<Rightarrow> machine_word \<Rightarrow> machine_word \<Rightarrow> 'w effect"
  ef_close :: "session_id \<Rightarrow> machine_word \<Rightarrow> machine_word \<Rightarrow> 'w effect"

record events =
  evs_services :: "event list"
  evs_clients :: "client option list"

type_synonym 'w event_op = "unit cap_result \<times> events \<times> 'w"

fun service_index :: "service_id \<Rightarrow> nat cap_result" where
  "service_index (ServiceId w) =
     (if w = 0 then Inl InvalidArgument
      else if unat w - 1 < SERVICES then Inr (unat w - 1) else Inl InvalidArgument)"

fun session_index :: "session_id \<Rightarrow> nat cap_result" where
  "session_index (SessionId w) =
     (if w AND SESSION_IDENTIFIER_BIT = 0 then Inl InvalidArgument
      else
        let v = w AND NOT SESSION_IDENTIFIER_BIT
        in if v = 0 then Inl InvalidArgument
           else if unat v - 1 < SESSIONS then Inr (unat v - 1) else Inl InvalidArgument)"

definition event_new :: event where
  "event_new = \<lparr>ev_initialized = False, ev_receiver = None, ev_faulted = False\<rparr>"

definition events_new :: events where
  "events_new = \<lparr>evs_services = replicate SERVICES event_new, evs_clients = replicate SESSIONS None\<rparr>"

definition has_receiver :: "events \<Rightarrow> service_id \<Rightarrow> machine_word \<Rightarrow> bool" where
  "has_receiver evs sid owner =
     (case service_index sid of
        Inl e \<Rightarrow> False
      | Inr index \<Rightarrow>
          let event = evs_services evs ! index
          in \<not> ev_faulted event \<and> (case ev_receiver event of None \<Rightarrow> False | Some r \<Rightarrow> fst r = owner))"

definition event_owns_process_slot :: "events \<Rightarrow> machine_word \<Rightarrow> machine_word \<Rightarrow> bool" where
  "event_owns_process_slot evs owner slot =
     flat_any (\<lambda>client. \<not> cl_closed client \<and> cl_owner client = owner \<and> cl_slot client = slot) (evs_clients evs)"

definition slot_in_range :: "machine_word \<Rightarrow> bool" where
  "slot_in_range slot \<longleftrightarrow> 23 \<le> slot \<and> slot < 224"

definition put_event :: "events \<Rightarrow> nat \<Rightarrow> event \<Rightarrow> events" where
  "put_event evs index event = evs\<lparr>evs_services := (evs_services evs)[index := event]\<rparr>"

definition put_client :: "events \<Rightarrow> nat \<Rightarrow> client \<Rightarrow> events" where
  "put_client evs index client = evs\<lparr>evs_clients := (evs_clients evs)[index := Some client]\<rparr>"

definition install_receiver ::
  "'w event_effects \<Rightarrow> events \<Rightarrow> nat \<Rightarrow> event \<Rightarrow> service_id \<Rightarrow> machine_word \<Rightarrow> machine_word \<Rightarrow> 'w \<Rightarrow> 'w event_op" where
  "install_receiver ef evs index event sid owner slot w =
     (case ef_install ef sid owner slot w of
        (Inl e, w') \<Rightarrow> (Inl e, put_event evs index (event\<lparr>ev_faulted := (e = Fatal)\<rparr>), w')
      | (Inr u, w') \<Rightarrow> (Inr (), put_event evs index (event\<lparr>ev_receiver := Some (owner, slot)\<rparr>), w'))"

definition event_install ::
  "'w event_effects \<Rightarrow> events \<Rightarrow> service_id \<Rightarrow> machine_word \<Rightarrow> machine_word \<Rightarrow> 'w \<Rightarrow> 'w event_op" where
  "event_install ef evs sid owner slot w =
     (case service_index sid of
        Inl e \<Rightarrow> (Inl e, evs, w)
      | Inr index \<Rightarrow>
          let event = evs_services evs ! index
          in if ev_faulted event then (Inl Fatal, evs, w)
             else if owner = 0 \<or> \<not> slot_in_range slot \<or> ev_receiver event \<noteq> None then (Inl InvalidArgument, evs, w)
             else if \<not> ev_initialized event then
               (case ef_create ef sid w of
                  (Inl e, w') \<Rightarrow> (Inl Fatal, put_event evs index (event\<lparr>ev_faulted := True\<rparr>), w')
                | (Inr u, w') \<Rightarrow> install_receiver ef evs index (event\<lparr>ev_initialized := True\<rparr>) sid owner slot w')
             else install_receiver ef evs index event sid owner slot w)"

definition event_withdraw :: "'w event_effects \<Rightarrow> events \<Rightarrow> service_id \<Rightarrow> machine_word \<Rightarrow> 'w \<Rightarrow> 'w event_op" where
  "event_withdraw ef evs sid owner w =
     (case service_index sid of
        Inl e \<Rightarrow> (Inl e, evs, w)
      | Inr index \<Rightarrow>
          let event = evs_services evs ! index
          in if ev_faulted event then (Inl Fatal, evs, w)
             else case ev_receiver event of
               None \<Rightarrow> (Inr (), evs, w)
             | Some (receiver, slot) \<Rightarrow>
                 if receiver \<noteq> owner then (Inl PermissionDenied, evs, w)
                 else case ef_withdraw ef sid owner slot w of
                   (Inl e, w') \<Rightarrow> (Inl Fatal, put_event evs index (event\<lparr>ev_faulted := True\<rparr>), w')
                 | (Inr u, w') \<Rightarrow> (Inr (), put_event evs index (event\<lparr>ev_receiver := None\<rparr>), w'))"

definition event_connect ::
  "'w event_effects \<Rightarrow> events \<Rightarrow> session_id \<Rightarrow> service_id \<Rightarrow> machine_word \<Rightarrow> machine_word \<Rightarrow> 'w \<Rightarrow> 'w event_op" where
  "event_connect ef evs cid sid owner slot w =
     (case session_index cid of
        Inl e \<Rightarrow> (Inl e, evs, w)
      | Inr index \<Rightarrow>
        (case service_index sid of
           Inl e \<Rightarrow> (Inl e, evs, w)
         | Inr sindex \<Rightarrow>
           let event = evs_services evs ! sindex
           in if ev_faulted event then (Inl Fatal, evs, w)
              else if \<not> ev_initialized event \<or> owner = 0 \<or> \<not> slot_in_range slot then (Inl InvalidArgument, evs, w)
              else case evs_clients evs ! index of
                Some client \<Rightarrow>
                  if cl_service client \<noteq> sid \<or> cl_owner client \<noteq> owner \<or> cl_slot client \<noteq> slot
                  then (Inl PermissionDenied, evs, w)
                  else if cl_ready client \<and> \<not> cl_closed client then (Inr (), evs, w)
                  else if \<not> cl_ready client then (Inl Fatal, evs, w)
                  else (Inl IllegalOperation, evs, w)
              | None \<Rightarrow>
                  (case ef_client ef sid owner slot w of
                     (result, w') \<Rightarrow>
                       let evs1 = (if result = Inr () \<or> result = Inl Fatal
                                   then put_client evs index \<lparr>cl_service = sid, cl_owner = owner, cl_slot = slot,
                                          cl_ready = (result = Inr ()), cl_closed = False\<rparr>
                                   else evs);
                           evs2 = (if result = Inl Fatal
                                   then put_event evs1 sindex (event\<lparr>ev_faulted := True\<rparr>) else evs1)
                       in (result, evs2, w'))))"

definition event_close :: "'w event_effects \<Rightarrow> events \<Rightarrow> session_id \<Rightarrow> 'w \<Rightarrow> 'w event_op" where
  "event_close ef evs cid w =
     (case session_index cid of
        Inl e \<Rightarrow> (Inl e, evs, w)
      | Inr index \<Rightarrow>
        (case evs_clients evs ! index of
           None \<Rightarrow> (Inr (), evs, w)
         | Some client \<Rightarrow>
             if cl_closed client then (Inr (), evs, w)
             else if \<not> cl_ready client then (Inl Fatal, evs, w)
             else case ef_close ef cid (cl_owner client) (cl_slot client) w of
               (Inl e, w') \<Rightarrow>
                 if e = Fatal then
                   (case service_index (cl_service client) of
                      Inl e' \<Rightarrow> (Inl e', evs, w')
                    | Inr sindex \<Rightarrow>
                        (Inl e, put_event evs sindex ((evs_services evs ! sindex)\<lparr>ev_faulted := True\<rparr>), w'))
                 else (Inl e, evs, w')
             | (Inr u, w') \<Rightarrow> (Inr (), put_client evs index (client\<lparr>cl_closed := True\<rparr>), w')))"

section \<open>The effect protocol\<close>

text \<open>
  The calls of the \<open>Effects\<close> trait, and for every call when it is allowed and how its result changes the
  state. \<open>None\<close> is a call the protocol forbids.
\<close>

datatype event_call =
    CallCreate service_id
  | CallInstall service_id machine_word machine_word
  | CallWithdraw service_id machine_word machine_word
  | CallClient session_id service_id machine_word machine_word
  | CallClose session_id machine_word machine_word

fun call_effect :: "'w event_effects \<Rightarrow> event_call \<Rightarrow> 'w effect" where
  "call_effect ef (CallCreate sid) = ef_create ef sid"
| "call_effect ef (CallInstall sid owner slot) = ef_install ef sid owner slot"
| "call_effect ef (CallWithdraw sid owner slot) = ef_withdraw ef sid owner slot"
| "call_effect ef (CallClient cid sid owner slot) = ef_client ef sid owner slot"
| "call_effect ef (CallClose cid owner slot) = ef_close ef cid owner slot"

definition event_at :: "events \<Rightarrow> service_id \<Rightarrow> (nat \<times> event) option" where
  "event_at evs sid = (case service_index sid of Inl e \<Rightarrow> None | Inr i \<Rightarrow> Some (i, evs_services evs ! i))"

fun protocol :: "events \<Rightarrow> event_call \<Rightarrow> unit cap_result \<Rightarrow> events option" where
  "protocol evs (CallCreate sid) r =
     (case event_at evs sid of
        Some (i, ev) \<Rightarrow>
          if ev_faulted ev \<or> ev_initialized ev \<or> ev_receiver ev \<noteq> None then None
          else Some (put_event evs i (if r = Inr () then ev\<lparr>ev_initialized := True\<rparr> else ev\<lparr>ev_faulted := True\<rparr>))
      | None \<Rightarrow> None)"
| "protocol evs (CallInstall sid owner slot) r =
     (case event_at evs sid of
        Some (i, ev) \<Rightarrow>
          if ev_faulted ev \<or> \<not> ev_initialized ev \<or> ev_receiver ev \<noteq> None \<or> owner = 0 \<or> \<not> slot_in_range slot then None
          else Some (put_event evs i
            (if r = Inr () then ev\<lparr>ev_receiver := Some (owner, slot)\<rparr> else ev\<lparr>ev_faulted := (r = Inl Fatal)\<rparr>))
      | None \<Rightarrow> None)"
| "protocol evs (CallWithdraw sid owner slot) r =
     (case event_at evs sid of
        Some (i, ev) \<Rightarrow>
          if ev_faulted ev \<or> ev_receiver ev \<noteq> Some (owner, slot) then None
          else Some (put_event evs i (if r = Inr () then ev\<lparr>ev_receiver := None\<rparr> else ev\<lparr>ev_faulted := True\<rparr>))
      | None \<Rightarrow> None)"
| "protocol evs (CallClient cid sid owner slot) r =
     (case (event_at evs sid, session_index cid) of
        (Some (i, ev), Inr j) \<Rightarrow>
          if ev_faulted ev \<or> \<not> ev_initialized ev \<or> owner = 0 \<or> \<not> slot_in_range slot \<or> evs_clients evs ! j \<noteq> None then None
          else
            let new = \<lparr>cl_service = sid, cl_owner = owner, cl_slot = slot, cl_ready = (r = Inr ()), cl_closed = False\<rparr>
            in if r = Inr () then Some (put_client evs j new)
               else if r = Inl Fatal then Some (put_event (put_client evs j new) i (ev\<lparr>ev_faulted := True\<rparr>))
               else Some evs
      | _ \<Rightarrow> None)"
| "protocol evs (CallClose cid owner slot) r =
     (case session_index cid of
        Inl e \<Rightarrow> None
      | Inr j \<Rightarrow>
        (case evs_clients evs ! j of
           None \<Rightarrow> None
         | Some cl \<Rightarrow>
             if cl_closed cl \<or> \<not> cl_ready cl \<or> cl_owner cl \<noteq> owner \<or> cl_slot cl \<noteq> slot then None
             else if r = Inr () then Some (put_client evs j (cl\<lparr>cl_closed := True\<rparr>))
             else if r = Inl Fatal then
               map_option (\<lambda>(i, ev). put_event evs i (ev\<lparr>ev_faulted := True\<rparr>)) (event_at evs (cl_service cl))
             else Some evs))"

fun run_calls :: "'w event_effects \<Rightarrow> events \<Rightarrow> 'w \<Rightarrow> event_call list \<Rightarrow> (events \<times> 'w) option" where
  "run_calls ef evs w [] = Some (evs, w)"
| "run_calls ef evs w (c # cs) =
     (case call_effect ef c w of
        (r, w') \<Rightarrow> (case protocol evs c r of None \<Rightarrow> None | Some evs' \<Rightarrow> run_calls ef evs' w' cs))"

section \<open>Every operation follows the protocol\<close>

definition events_wf :: "events \<Rightarrow> bool" where
  "events_wf evs \<longleftrightarrow> length (evs_services evs) = SERVICES \<and> length (evs_clients evs) = SESSIONS \<and>
     (\<forall>cl. Some cl \<in> set (evs_clients evs) \<longrightarrow> \<not> isl (service_index (cl_service cl)))"

datatype event_request =
    ReqInstall service_id machine_word machine_word
  | ReqWithdraw service_id machine_word
  | ReqConnect session_id service_id machine_word machine_word
  | ReqClose session_id

fun event_apply :: "'w event_effects \<Rightarrow> events \<Rightarrow> event_request \<Rightarrow> 'w \<Rightarrow> 'w event_op" where
  "event_apply ef evs (ReqInstall sid owner slot) w = event_install ef evs sid owner slot w"
| "event_apply ef evs (ReqWithdraw sid owner) w = event_withdraw ef evs sid owner w"
| "event_apply ef evs (ReqConnect cid sid owner slot) w = event_connect ef evs cid sid owner slot w"
| "event_apply ef evs (ReqClose cid) w = event_close ef evs cid w"

lemma service_index_bound: "service_index sid = Inr i \<Longrightarrow> i < SERVICES"
  by (cases sid) (auto split: if_splits)

lemma session_index_bound: "session_index cid = Inr i \<Longrightarrow> i < SESSIONS"
  by (cases cid) (auto simp: Let_def split: if_splits)

lemma put_simps [simp]:
  "evs_services (put_event evs i ev) = (evs_services evs)[i := ev]" "evs_clients (put_event evs i ev) = evs_clients evs"
  "evs_services (put_client evs j cl) = evs_services evs" "evs_clients (put_client evs j cl) = (evs_clients evs)[j := Some cl]"
  "put_event (put_event evs i ev) i ev' = put_event evs i ev'"
  by (simp_all add: put_event_def put_client_def)

lemma events_wf_put_event [simp]: "events_wf (put_event evs i ev) \<longleftrightarrow> events_wf evs"
  by (simp add: events_wf_def)

lemma events_wf_put_client:
  assumes "events_wf evs" and "\<not> isl (service_index (cl_service cl))"
  shows "events_wf (put_client evs j cl)"
  using assms set_update_subset_insert [of "evs_clients evs" j "Some cl"] by (auto simp: events_wf_def)

lemma protocol_wf:
  assumes "protocol evs c r = Some evs'" and "events_wf evs"
  shows "events_wf evs'"
proof (cases c)
  case (CallClient cid sid owner slot)
  then show ?thesis using assms
    by (auto simp: event_at_def Let_def events_wf_put_client split: sum.splits option.splits if_splits)
next
  case (CallClose cid owner slot)
  then obtain j cl where j: "session_index cid = Inr j" "evs_clients evs ! j = Some cl"
    using assms(1) by (auto split: sum.splits option.splits)
  then have "Some cl \<in> set (evs_clients evs)"
    using session_index_bound [OF j(1)] assms(2) by (metis events_wf_def nth_mem)
  then have "\<not> isl (service_index (cl_service cl))" using assms(2) by (auto simp: events_wf_def)
  then show ?thesis using assms j CallClose by (auto simp: events_wf_put_client split: if_splits)
qed (use assms in \<open>auto simp: event_at_def split: sum.splits if_splits\<close>)

lemma run_calls_wf: "run_calls ef evs w cs = Some (evs', w') \<Longrightarrow> events_wf evs \<Longrightarrow> events_wf evs'"
  by (induction cs arbitrary: evs w) (auto split: prod.splits option.splits dest: protocol_wf)

lemma run_calls_append:
  "run_calls ef evs w (cs @ ds) = Option.bind (run_calls ef evs w cs) (\<lambda>(evs', w'). run_calls ef evs' w' ds)"
  by (induction cs arbitrary: evs w) (auto split: prod.splits option.splits)

lemma install_calls:
  assumes "events_wf evs"
  shows "\<exists>cs. run_calls ef evs w cs = Some (snd (event_install ef evs sid owner slot w))"
proof (cases "service_index sid")
  case (Inl e)
  then show ?thesis by (intro exI [of _ "[]"]) (simp add: event_install_def)
next
  case (Inr i)
  let ?ev = "evs_services evs ! i"
  have i: "i < length (evs_services evs)" using service_index_bound [OF Inr] assms by (simp add: events_wf_def)
  show ?thesis
  proof (cases "ev_faulted ?ev \<or> owner = 0 \<or> \<not> slot_in_range slot \<or> ev_receiver ?ev \<noteq> None")
    case True
    then show ?thesis using Inr by (intro exI [of _ "[]"]) (auto simp: event_install_def Let_def)
  next
    case ok: False
    have ins: "run_calls ef (put_event evs i ev) v [CallInstall sid owner slot] =
        Some (snd (install_receiver ef evs i ev sid owner slot v))"
      if "\<not> ev_faulted ev" "ev_receiver ev = None" "ev_initialized ev" for ev v
      using that ok Inr i
      by (auto simp: event_at_def install_receiver_def split: prod.splits sum.splits)
    have same: "put_event evs i ?ev = evs" by (simp add: put_event_def)
    have rn: "ev_receiver ?ev = None" and nf: "\<not> ev_faulted ?ev" using ok by blast+
    show ?thesis
    proof (cases "ev_initialized ?ev")
      case True
      have "event_install ef evs sid owner slot w = install_receiver ef evs i ?ev sid owner slot w"
        using ok rn Inr True by (simp add: event_install_def Let_def)
      then show ?thesis using ins [OF nf rn True, of w] unfolding same by metis
    next
      case False
      obtain r w' where r: "ef_create ef sid w = (r, w')" by force
      show ?thesis
      proof (cases r)
        case e: (Inl e)
        show ?thesis using r e ok rn Inr False
          by (intro exI [of _ "[CallCreate sid]"]) (simp add: event_install_def Let_def event_at_def)
      next
        case u: (Inr u)
        let ?ev' = "?ev\<lparr>ev_initialized := True\<rparr>"
        have "event_install ef evs sid owner slot w = install_receiver ef evs i ?ev' sid owner slot w'"
          using ok rn Inr False r u by (simp add: event_install_def Let_def)
        moreover have "run_calls ef evs w (CallCreate sid # cs) = run_calls ef (put_event evs i ?ev') w' cs" for cs
          using r u nf rn False Inr by (simp add: event_at_def)
        moreover have "\<not> ev_faulted ?ev'" "ev_receiver ?ev' = None" "ev_initialized ?ev'" using nf rn by simp_all
        note ins [OF this, of w']
        ultimately show ?thesis by metis
      qed
    qed
  qed
qed

lemma withdraw_calls: "\<exists>cs. run_calls ef evs w cs = Some (snd (event_withdraw ef evs sid owner w))"
proof (cases "service_index sid")
  case (Inl e)
  then show ?thesis by (intro exI [of _ "[]"]) (simp add: event_withdraw_def)
next
  case (Inr i)
  let ?ev = "evs_services evs ! i"
  show ?thesis
  proof (cases "\<not> ev_faulted ?ev \<and> (\<exists>slot. ev_receiver ?ev = Some (owner, slot))")
    case True
    then obtain slot where "ev_receiver ?ev = Some (owner, slot)" by blast
    then show ?thesis using True Inr
      by (intro exI [of _ "[CallWithdraw sid owner slot]"])
        (auto simp: event_withdraw_def Let_def event_at_def split: prod.splits sum.splits)
  next
    case False
    then show ?thesis using Inr
      by (intro exI [of _ "[]"]) (auto simp: event_withdraw_def Let_def split: option.splits)
  qed
qed

lemma connect_calls: "\<exists>cs. run_calls ef evs w cs = Some (snd (event_connect ef evs cid sid owner slot w))"
proof (cases "session_index cid")
  case (Inl e)
  then show ?thesis by (intro exI [of _ "[]"]) (simp add: event_connect_def)
next
  case j: (Inr j)
  show ?thesis
  proof (cases "service_index sid")
    case (Inl e)
    then show ?thesis using j by (intro exI [of _ "[]"]) (simp add: event_connect_def)
  next
    case (Inr i)
    let ?ev = "evs_services evs ! i"
    show ?thesis
    proof (cases "\<not> ev_faulted ?ev \<and> ev_initialized ?ev \<and> owner \<noteq> 0 \<and> slot_in_range slot \<and> evs_clients evs ! j = None")
      case True
      then show ?thesis using Inr j
        by (intro exI [of _ "[CallClient cid sid owner slot]"])
          (auto simp: event_connect_def Let_def event_at_def split: prod.splits)
    next
      case False
      then show ?thesis using Inr j
        by (intro exI [of _ "[]"]) (auto simp: event_connect_def Let_def split: option.splits)
    qed
  qed
qed

lemma close_calls:
  assumes "events_wf evs"
  shows "\<exists>cs. run_calls ef evs w cs = Some (snd (event_close ef evs cid w))"
proof (cases "session_index cid")
  case (Inl e)
  then show ?thesis by (intro exI [of _ "[]"]) (simp add: event_close_def)
next
  case j: (Inr j)
  show ?thesis
  proof (cases "\<exists>cl. evs_clients evs ! j = Some cl \<and> \<not> cl_closed cl \<and> cl_ready cl")
    case True
    then obtain cl where cl: "evs_clients evs ! j = Some cl" "\<not> cl_closed cl" "cl_ready cl" by blast
    then have "Some cl \<in> set (evs_clients evs)"
      using session_index_bound [OF j] assms by (metis events_wf_def nth_mem)
    then obtain i where "service_index (cl_service cl) = Inr i"
      using assms by (cases "service_index (cl_service cl)") (auto simp: events_wf_def)
    then show ?thesis using cl j
      by (intro exI [of _ "[CallClose cid (cl_owner cl) (cl_slot cl)]"])
        (auto simp: event_close_def event_at_def split: prod.splits sum.splits)
  next
    case False
    then show ?thesis using j by (intro exI [of _ "[]"]) (auto simp: event_close_def split: option.splits)
  qed
qed

lemma apply_calls:
  assumes "events_wf evs"
  shows "\<exists>cs. run_calls ef evs w cs = Some (snd (event_apply ef evs req w))"
  using install_calls [OF assms] withdraw_calls connect_calls close_calls [OF assms] by (cases req) simp_all

section \<open>Properties\<close>

fun event_run :: "'w event_effects \<Rightarrow> events \<Rightarrow> event_request list \<Rightarrow> 'w \<Rightarrow> events \<times> 'w" where
  "event_run ef evs [] w = (evs, w)"
| "event_run ef evs (req # reqs) w =
     (case event_apply ef evs req w of (r, evs', w') \<Rightarrow> event_run ef evs' reqs w')"

lemma run_calls_exists:
  "events_wf evs \<Longrightarrow> \<exists>cs. run_calls ef evs w cs = Some (event_run ef evs reqs w)"
proof (induction reqs arbitrary: evs w)
  case Nil
  show ?case by (intro exI [of _ "[]"]) simp
next
  case (Cons req reqs)
  obtain r evs' w' where a: "event_apply ef evs req w = (r, evs', w')" by (cases "event_apply ef evs req w") auto
  obtain cs where cs: "run_calls ef evs w cs = Some (evs', w')" using apply_calls [OF Cons.prems, of ef w req] a by auto
  obtain ds where "run_calls ef evs' w' ds = Some (event_run ef evs' reqs w')"
    using Cons.IH [OF run_calls_wf [OF cs Cons.prems]] by blast
  then show ?case using cs a by (intro exI [of _ "cs @ ds"]) (simp add: run_calls_append)
qed

lemma events_new_wf: "events_wf events_new"
  by (auto simp: events_wf_def events_new_def)

text \<open>Once a service has its event or is faulted, no call creates it again.\<close>

definition settled :: "events \<Rightarrow> service_id \<Rightarrow> bool" where
  "settled evs sid \<longleftrightarrow> (\<forall>i ev. event_at evs sid = Some (i, ev) \<longrightarrow> ev_initialized ev \<or> ev_faulted ev)"

lemma event_at_services: "evs_services evs' = evs_services evs \<Longrightarrow> event_at evs' sid = event_at evs sid"
  by (simp add: event_at_def split: sum.split)

lemma event_at_update:
  assumes "events_wf evs" and "event_at evs tid = Some (i, ev)" and "evs_services evs' = (evs_services evs)[i := ev']"
  shows "event_at evs' sid = map_option (\<lambda>(j, x). (j, if j = i then ev' else x)) (event_at evs sid)"
  using assms service_index_bound [of tid i] by (auto simp: event_at_def events_wf_def split: sum.splits)

lemma event_at_same: "event_at evs sid = Some (i, ev) \<Longrightarrow> event_at evs tid = Some (i, ev') \<Longrightarrow> ev' = ev"
  by (auto simp: event_at_def split: sum.splits)

text \<open>A call changes the event of one service at most, and never takes back \<open>initialized\<close> or \<open>faulted\<close>.\<close>

definition event_grows :: "event \<Rightarrow> event \<Rightarrow> bool" where
  "event_grows ev ev' \<longleftrightarrow> (ev_initialized ev \<longrightarrow> ev_initialized ev') \<and> (ev_faulted ev \<longrightarrow> ev_faulted ev')"

lemma protocol_change:
  assumes "protocol evs c r = Some evs'"
  shows "evs_services evs' = evs_services evs \<or>
    (\<exists>tid i ev ev'. event_at evs tid = Some (i, ev) \<and> evs_services evs' = (evs_services evs)[i := ev'] \<and> event_grows ev ev')"
proof (cases c)
  case (CallCreate sid)
  then obtain i ev where e: "event_at evs sid = Some (i, ev)" using assms by (auto split: option.splits)
  show ?thesis
    by (rule disjI2, rule exI [of _ sid], rule exI [of _ i], rule exI [of _ ev],
        rule exI [of _ "if r = Inr () then ev\<lparr>ev_initialized := True\<rparr> else ev\<lparr>ev_faulted := True\<rparr>"])
      (use assms e CallCreate in \<open>auto simp: event_grows_def split: if_splits\<close>)
next
  case (CallInstall sid owner slot)
  then obtain i ev where e: "event_at evs sid = Some (i, ev)" using assms by (auto split: option.splits)
  show ?thesis
    by (rule disjI2, rule exI [of _ sid], rule exI [of _ i], rule exI [of _ ev],
        rule exI [of _ "if r = Inr () then ev\<lparr>ev_receiver := Some (owner, slot)\<rparr> else ev\<lparr>ev_faulted := (r = Inl Fatal)\<rparr>"])
      (use assms e CallInstall in \<open>auto simp: event_grows_def split: if_splits\<close>)
next
  case (CallWithdraw sid owner slot)
  then obtain i ev where e: "event_at evs sid = Some (i, ev)" using assms by (auto split: option.splits)
  show ?thesis
    by (rule disjI2, rule exI [of _ sid], rule exI [of _ i], rule exI [of _ ev],
        rule exI [of _ "if r = Inr () then ev\<lparr>ev_receiver := None\<rparr> else ev\<lparr>ev_faulted := True\<rparr>"])
      (use assms e CallWithdraw in \<open>auto simp: event_grows_def split: if_splits\<close>)
next
  case (CallClient cid sid owner slot)
  then obtain i ev where e: "event_at evs sid = Some (i, ev)" using assms by (auto split: option.splits)
  show ?thesis
  proof (cases "r = Inl Fatal")
    case True
    then have "evs_services evs' = (evs_services evs)[i := ev\<lparr>ev_faulted := True\<rparr>]"
      using assms e CallClient by (auto simp: Let_def split: sum.splits if_splits)
    then show ?thesis using e unfolding event_grows_def by force
  qed (use assms e CallClient in \<open>auto simp: Let_def split: sum.splits if_splits\<close>)
next
  case (CallClose cid owner slot)
  then obtain j cl where j: "session_index cid = Inr j" "evs_clients evs ! j = Some cl"
    using assms by (auto split: sum.splits option.splits)
  show ?thesis
  proof (cases "r = Inl Fatal")
    case True
    then obtain i ev where e: "event_at evs (cl_service cl) = Some (i, ev)"
      "evs_services evs' = (evs_services evs)[i := ev\<lparr>ev_faulted := True\<rparr>]"
      using assms j CallClose by (auto split: if_splits)
    then show ?thesis unfolding event_grows_def by force
  qed (use assms j CallClose in \<open>auto split: if_splits\<close>)
qed

lemma protocol_event:
  assumes "events_wf evs" and "protocol evs c r = Some evs'" and "event_at evs sid = Some (i, ev)"
  shows "\<exists>ev'. event_at evs' sid = Some (i, ev') \<and> event_grows ev ev'"
  using protocol_change [OF assms(2)]
proof (elim disjE exE conjE)
  assume "evs_services evs' = evs_services evs"
  then have "event_at evs' sid = Some (i, ev)" using assms(3) event_at_services by metis
  then show ?thesis by (simp add: event_grows_def)
next
  fix tid j x x' assume *: "event_at evs tid = Some (j, x)" "evs_services evs' = (evs_services evs)[j := x']" "event_grows x x'"
  have upd: "event_at evs' sid = Some (i, if i = j then x' else ev)"
    using event_at_update [OF assms(1) *(1,2), of sid] assms(3) by simp
  show ?thesis
  proof (cases "i = j")
    case True
    then have "ev = x" using event_at_same [OF *(1)] assms(3) by blast
    then show ?thesis using upd True *(3) by simp
  qed (use upd in \<open>simp add: event_grows_def\<close>)
qed

lemma run_calls_event:
  assumes "events_wf evs" and "run_calls ef evs w cs = Some (evs', w')" and "event_at evs sid = Some (i, ev)"
  shows "\<exists>ev'. event_at evs' sid = Some (i, ev') \<and> event_grows ev ev'"
  using assms
proof (induction cs arbitrary: evs w ev)
  case (Cons c cs)
  obtain r w1 evs1 where s: "call_effect ef c w = (r, w1)" "protocol evs c r = Some evs1" "run_calls ef evs1 w1 cs = Some (evs', w')"
    using Cons.prems(2) by (auto split: prod.splits option.splits)
  obtain ev1 where "event_at evs1 sid = Some (i, ev1)" "event_grows ev ev1"
    using protocol_event [OF Cons.prems(1) s(2) Cons.prems(3)] by blast
  with Cons.IH [OF protocol_wf [OF s(2) Cons.prems(1)] s(3)] show ?case by (auto simp: event_grows_def)
qed (auto simp: event_grows_def)

lemma settled_no_create:
  assumes "events_wf evs" and "run_calls ef evs w cs = Some (evs', w')" and "settled evs sid"
  shows "CallCreate sid \<notin> set cs"
  using assms
proof (induction cs arbitrary: evs w)
  case (Cons c cs)
  obtain r w1 evs1 where s: "call_effect ef c w = (r, w1)" "protocol evs c r = Some evs1" "run_calls ef evs1 w1 cs = Some (evs', w')"
    using Cons.prems(2) by (auto split: prod.splits option.splits)
  have "settled evs1 sid" unfolding settled_def
  proof (intro allI impI)
    fix i ev1 assume a1: "event_at evs1 sid = Some (i, ev1)"
    then obtain ev where ev: "event_at evs sid = Some (i, ev)" by (auto simp: event_at_def split: sum.splits)
    then show "ev_initialized ev1 \<or> ev_faulted ev1"
      using protocol_event [OF Cons.prems(1) s(2) ev] a1 Cons.prems(3) by (auto simp: settled_def event_grows_def)
  qed
  moreover have "c \<noteq> CallCreate sid" using s(2) Cons.prems(3) by (auto simp: settled_def split: option.splits if_splits)
  ultimately show ?case using Cons.IH [OF protocol_wf [OF s(2) Cons.prems(1)] s(3)] by auto
qed simp

lemma create_settles:
  assumes "events_wf evs" and "protocol evs (CallCreate sid) r = Some evs'"
  shows "settled evs' sid"
proof -
  obtain i ev where e: "event_at evs sid = Some (i, ev)" using assms(2) by (auto split: option.splits)
  let ?ev = "if r = Inr () then ev\<lparr>ev_initialized := True\<rparr> else ev\<lparr>ev_faulted := True\<rparr>"
  have "evs_services evs' = (evs_services evs)[i := ?ev]" using assms(2) e by (auto split: if_splits)
  from event_at_update [OF assms(1) e this, of sid] e show ?thesis by (auto simp: settled_def)
qed

lemma created_once:
  assumes "events_wf evs" and "run_calls ef evs w cs = Some (evs', w')"
  shows "length (filter (\<lambda>c. c = CallCreate sid) cs) \<le> 1"
  using assms
proof (induction cs arbitrary: evs w)
  case (Cons c cs)
  obtain r w1 evs1 where s: "call_effect ef c w = (r, w1)" "protocol evs c r = Some evs1" "run_calls ef evs1 w1 cs = Some (evs', w')"
    using Cons.prems(2) by (auto split: prod.splits option.splits)
  have wf1: "events_wf evs1" by (rule protocol_wf [OF s(2) Cons.prems(1)])
  show ?case
  proof (cases "c = CallCreate sid")
    case True
    then have "CallCreate sid \<notin> set cs"
      using settled_no_create [OF wf1 s(3)] create_settles [OF Cons.prems(1)] s(2) by blast
    then have "filter (\<lambda>c. c = CallCreate sid) cs = []" by (auto simp: filter_empty_conv)
    then show ?thesis by simp
  qed (use Cons.IH [OF wf1 s(3)] in simp)
qed simp

text \<open>
  C28: every run of the event manager follows the effect protocol. Whatever requests arrive and whatever
  the effects answer, the final state and world arise from a sequence of effect calls each of which the
  protocol allows in the state it is made, and the event of a service is created at most once.
\<close>

theorem events_follow_protocol:
  "\<exists>calls. run_calls ef events_new w calls = Some (event_run ef events_new reqs w) \<and>
     (\<forall>sid. length (filter (\<lambda>c. c = CallCreate sid) calls) \<le> 1)"
proof -
  obtain calls where c: "run_calls ef events_new w calls = Some (event_run ef events_new reqs w)"
    using run_calls_exists [OF events_new_wf, of ef w reqs] by blast
  then have "length (filter (\<lambda>c. c = CallCreate sid) calls) \<le> 1" for sid
    using created_once [OF events_new_wf, of ef w calls "fst (event_run ef events_new reqs w)" "snd (event_run ef events_new reqs w)"]
    by simp
  then show ?thesis using c by blast
qed

text \<open>
  A faulted event is inert. After any run, if the event of a service is faulted, then installing and
  withdrawing a receiver and connecting a session to it answer \<open>Fatal\<close> without calling any effect and
  without changing the state, no process is reported as its receiver, and it stays faulted under every
  further request.
\<close>

theorem faulted_event_inert:
  assumes "evs = fst (event_run ef events_new reqs w)" and "event_at evs sid = Some (i, ev)" and "ev_faulted ev"
  shows "event_install ef evs sid owner slot v = (Inl Fatal, evs, v) \<and>
    event_withdraw ef evs sid owner v = (Inl Fatal, evs, v) \<and>
    (\<forall>j. session_index cid = Inr j \<longrightarrow> event_connect ef evs cid sid owner slot v = (Inl Fatal, evs, v)) \<and>
    \<not> has_receiver evs sid owner \<and>
    (\<exists>ev'. event_at (fst (event_run ef evs later v)) sid = Some (i, ev') \<and> ev_faulted ev')"
proof -
  obtain cs where "run_calls ef events_new w cs = Some (event_run ef events_new reqs w)"
    using run_calls_exists [OF events_new_wf, of ef w reqs] by blast
  then have wf: "events_wf evs"
    using run_calls_wf [OF _ events_new_wf, of ef w cs evs "snd (event_run ef events_new reqs w)"] assms(1) by simp
  obtain ds where "run_calls ef evs v ds = Some (event_run ef evs later v)" using run_calls_exists [OF wf, of ef v later] by blast
  then have "\<exists>ev'. event_at (fst (event_run ef evs later v)) sid = Some (i, ev') \<and> event_grows ev ev'"
    using run_calls_event [OF wf _ assms(2), of ef v ds "fst (event_run ef evs later v)" "snd (event_run ef evs later v)"] by simp
  moreover have "service_index sid = Inr i" "evs_services evs ! i = ev"
    using assms(2) by (auto simp: event_at_def split: sum.splits)
  ultimately show ?thesis
    using assms(3)
    by (auto simp: event_install_def event_withdraw_def event_connect_def has_receiver_def event_grows_def)
qed

definition failing_effects :: "unit event_effects" where
  "failing_effects = \<lparr>ef_create = (\<lambda>sid w. (Inl Fatal, w)), ef_install = (\<lambda>sid owner slot w. (Inr (), w)),
     ef_withdraw = (\<lambda>sid owner slot w. (Inr (), w)), ef_client = (\<lambda>sid owner slot w. (Inr (), w)),
     ef_close = (\<lambda>cid owner slot w. (Inr (), w))\<rparr>"

theorem faulted_event_inert_witness:
  "event_install failing_effects (fst (event_run failing_effects events_new [ReqInstall (ServiceId 1) 7 30] ())) (ServiceId 1) 8 31 () =
   (Inl Fatal, fst (event_run failing_effects events_new [ReqInstall (ServiceId 1) 7 30] ()), ())"
proof -
  have "event_at (fst (event_run failing_effects events_new [ReqInstall (ServiceId 1) 7 30] ())) (ServiceId 1) =
      Some (0, \<lparr>ev_initialized = False, ev_receiver = None, ev_faulted = True\<rparr>)" by code_simp
  from faulted_event_inert [OF refl this] show ?thesis by simp
qed

end
