(* ===== verification/Session_Buffers.thy ===== *)
theory Session_Buffers imports Service_Events begin

text \<open>
  The session buffers of managed services (\<open>src/nanami/src/nanami_core/communication/buffers.rs\<close>):
  pages shared between a client and the current provider of its service. The effects that allocate,
  reserve, map and unmap pages are a record of functions on an arbitrary world. The second part shows
  that every page the effects may have mapped is accounted for in the table, and that moving the buffers
  of a service to a new provider moves all of them or, short of \<open>Fatal\<close>, leaves no trace.
\<close>

section \<open>Definitions\<close>

definition PAGE :: machine_word where "PAGE = 4096"

record mapping =
  mp_owner :: machine_word
  mp_address :: machine_word
  mp_installed :: nat

record buffer =
  bf_service :: service_id
  bf_physical :: machine_word
  bf_pages :: nat
  bf_client :: mapping
  bf_provider :: mapping
  bf_candidate :: "mapping option"
  bf_closed :: bool
  bf_ready :: bool

datatype map_error = NotInstalled capability_error | MaybeInstalled capability_error

record 'w buffer_effects =
  bx_participants :: "machine_word \<Rightarrow> machine_word \<Rightarrow> 'w effect"
  bx_allocate :: "nat \<Rightarrow> 'w \<Rightarrow> machine_word cap_result \<times> 'w"
  bx_reserve :: "machine_word \<Rightarrow> nat \<Rightarrow> 'w \<Rightarrow> machine_word cap_result \<times> 'w"
  bx_zero :: "machine_word \<Rightarrow> 'w effect"
  bx_map :: "machine_word \<Rightarrow> machine_word \<Rightarrow> machine_word \<Rightarrow> 'w \<Rightarrow> (map_error + unit) \<times> 'w"
  bx_unmap :: "machine_word \<Rightarrow> machine_word \<Rightarrow> machine_word \<Rightarrow> 'w effect"
  bx_receiver :: "service_id \<Rightarrow> machine_word \<Rightarrow> machine_word \<Rightarrow> 'w effect"

type_synonym buffers = "buffer option list"

definition buffers_new :: buffers where
  "buffers_new = replicate SESSIONS None"

text \<open>\<open>map_pages\<close> maps the pages \<open>page, page + 1, ..\<close>; \<open>n\<close> pages are left.\<close>

fun map_pages ::
  "'w buffer_effects \<Rightarrow> mapping \<Rightarrow> machine_word \<Rightarrow> nat \<Rightarrow> nat \<Rightarrow> 'w \<Rightarrow> unit cap_result \<times> mapping \<times> 'w" where
  "map_pages ef m physical page 0 w = (Inr (), m, w)"
| "map_pages ef m physical page (Suc n) w =
     (case bx_map ef (mp_owner m) (mp_address m + of_nat page * PAGE) (physical + of_nat page) w of
        (Inr u, w') \<Rightarrow> map_pages ef (m\<lparr>mp_installed := page + 1\<rparr>) physical (page + 1) n w'
      | (Inl (NotInstalled e), w') \<Rightarrow> (Inl e, m, w')
      | (Inl (MaybeInstalled e), w') \<Rightarrow> (Inl e, m\<lparr>mp_installed := page + 1\<rparr>, w'))"

function unmap_pages ::
  "'w buffer_effects \<Rightarrow> mapping \<Rightarrow> machine_word \<Rightarrow> 'w \<Rightarrow> unit cap_result \<times> mapping \<times> 'w" where
  "unmap_pages ef m physical w =
     (if mp_installed m = 0 then (Inr (), m, w)
      else
        let page = mp_installed m - 1
        in case bx_unmap ef (mp_owner m) (mp_address m + of_nat page * PAGE) (physical + of_nat page) w of
             (Inl e, w') \<Rightarrow> (Inl e, m, w')
           | (Inr u, w') \<Rightarrow> unmap_pages ef (m\<lparr>mp_installed := mp_installed m - 1\<rparr>) physical w')"
  by pat_completeness auto
termination
  by (relation "measure (\<lambda>(ef, m, physical, w). mp_installed m)") auto

declare unmap_pages.simps [simp del]

definition buffer_get :: "buffers \<Rightarrow> session_id \<Rightarrow> buffer option cap_result" where
  "buffer_get bs cid = (case session_index cid of Inl e \<Rightarrow> Inl e | Inr i \<Rightarrow> Inr (bs ! i))"

definition live_for :: "service_id \<Rightarrow> buffer \<Rightarrow> bool" where
  "live_for sid b \<longleftrightarrow> bf_service b = sid \<and> bf_ready b \<and> \<not> bf_closed b"

definition session_at :: "buffers \<Rightarrow> service_id \<Rightarrow> nat \<Rightarrow> session_id option" where
  "session_at bs sid ordinal =
     (let ids = List.map_filter (\<lambda>(i, entry).
            case entry of None \<Rightarrow> None
            | Some b \<Rightarrow> if live_for sid b then Some (SessionId (SESSION_IDENTIFIER_BIT OR of_nat (i + 1))) else None)
          (enumerate 0 bs)
      in if ordinal < length ids then Some (ids ! ordinal) else None)"

definition has_mapping :: "buffers \<Rightarrow> machine_word \<Rightarrow> bool" where
  "has_mapping bs owner =
     flat_any (\<lambda>b.
       (mp_owner (bf_client b) = owner \<and> mp_installed (bf_client b) \<noteq> 0) \<or>
       (mp_owner (bf_provider b) = owner \<and> mp_installed (bf_provider b) \<noteq> 0) \<or>
       (case bf_candidate b of None \<Rightarrow> False | Some m \<Rightarrow> mp_owner m = owner \<and> mp_installed m \<noteq> 0)) bs"

fun zero_pages :: "'w buffer_effects \<Rightarrow> machine_word \<Rightarrow> nat \<Rightarrow> nat \<Rightarrow> 'w effect" where
  "zero_pages ef physical page 0 w = (Inr (), w)"
| "zero_pages ef physical page (Suc n) w =
     (case bx_zero ef (physical + of_nat page) w of
        (Inl e, w') \<Rightarrow> (Inl e, w')
      | (Inr u, w') \<Rightarrow> zero_pages ef physical (page + 1) n w')"

text \<open>The closure of \<open>create\<close>: reserve both address ranges, clear the pages, map them twice.\<close>

definition populate :: "'w buffer_effects \<Rightarrow> buffer \<Rightarrow> 'w \<Rightarrow> unit cap_result \<times> buffer \<times> 'w" where
  "populate ef b w =
     (case bx_reserve ef (mp_owner (bf_client b)) (bf_pages b) w of
        (Inl e, w1) \<Rightarrow> (Inl e, b, w1)
      | (Inr client_address, w1) \<Rightarrow>
        let b1 = b\<lparr>bf_client := (bf_client b)\<lparr>mp_address := client_address\<rparr>\<rparr>
        in case bx_reserve ef (mp_owner (bf_provider b)) (bf_pages b) w1 of
          (Inl e, w2) \<Rightarrow> (Inl e, b1, w2)
        | (Inr provider_address, w2) \<Rightarrow>
          let b2 = b1\<lparr>bf_provider := (bf_provider b1)\<lparr>mp_address := provider_address\<rparr>\<rparr>
          in case zero_pages ef (bf_physical b) 0 (bf_pages b) w2 of
            (Inl e, w3) \<Rightarrow> (Inl e, b2, w3)
          | (Inr u, w3) \<Rightarrow>
            (case map_pages ef (bf_client b2) (bf_physical b) 0 (bf_pages b) w3 of
               (Inl e, m, w4) \<Rightarrow> (Inl e, b2\<lparr>bf_client := m\<rparr>, w4)
             | (Inr u, m, w4) \<Rightarrow>
               let b3 = b2\<lparr>bf_client := m\<rparr>
               in case map_pages ef (bf_provider b3) (bf_physical b) 0 (bf_pages b) w4 of
                 (r, m', w5) \<Rightarrow> (r, b3\<lparr>bf_provider := m'\<rparr>, w5)))"

definition fresh_buffer :: "service_id \<Rightarrow> machine_word \<Rightarrow> nat \<Rightarrow> machine_word \<Rightarrow> machine_word \<Rightarrow> buffer" where
  "fresh_buffer sid physical pages cl pr =
     \<lparr>bf_service = sid, bf_physical = physical, bf_pages = pages,
      bf_client = \<lparr>mp_owner = cl, mp_address = 0, mp_installed = 0\<rparr>,
      bf_provider = \<lparr>mp_owner = pr, mp_address = 0, mp_installed = 0\<rparr>,
      bf_candidate = None, bf_closed = False, bf_ready = False\<rparr>"

definition client_view :: "buffer \<Rightarrow> session_buffer" where
  "client_view b = \<lparr>sb_address = mp_address (bf_client b), sb_bytes = of_nat (bf_pages b) * PAGE\<rparr>"

definition buffer_create ::
  "'w buffer_effects \<Rightarrow> buffers \<Rightarrow> session_id \<Rightarrow> service_id \<Rightarrow> machine_word \<Rightarrow> machine_word \<Rightarrow> nat \<Rightarrow> 'w \<Rightarrow>
   session_buffer cap_result \<times> buffers \<times> 'w" where
  "buffer_create ef bs cid sid cl pr pages w =
     (case session_index cid of
        Inl e \<Rightarrow> (Inl e, bs, w)
      | Inr slot \<Rightarrow>
          if cl = 0 \<or> pr = 0 \<or> cl = pr \<or> \<not> (1 \<le> pages \<and> pages \<le> 16) then (Inl InvalidArgument, bs, w)
          else case bs ! slot of
            Some b \<Rightarrow>
              if bf_service b \<noteq> sid \<or> mp_owner (bf_client b) \<noteq> cl \<or> bf_pages b \<noteq> pages
              then (Inl PermissionDenied, bs, w)
              else if bf_ready b \<and> \<not> bf_closed b
              then (Inr \<lparr>sb_address = mp_address (bf_client b), sb_bytes = of_nat pages * PAGE\<rparr>, bs, w)
              else (Inl Fatal, bs, w)
          | None \<Rightarrow>
            (case bx_participants ef cl pr w of
               (Inl e, w1) \<Rightarrow> (Inl e, bs, w1)
             | (Inr u, w1) \<Rightarrow>
               (case bx_allocate ef pages w1 of
                  (Inl e, w2) \<Rightarrow> (Inl e, bs, w2)
                | (Inr physical, w2) \<Rightarrow>
                  (case populate ef (fresh_buffer sid physical pages cl pr) w2 of
                     (Inl e, b, w3) \<Rightarrow>
                       (case unmap_pages ef (bf_provider b) physical w3 of
                          (rp, mp, w4) \<Rightarrow>
                            (case unmap_pages ef (bf_client b) physical w4 of
                               (rc, mc, w5) \<Rightarrow>
                                 let b' = b\<lparr>bf_provider := mp, bf_client := mc, bf_closed := True\<rparr>
                                 in (if rp = Inr () \<and> rc = Inr () then Inl e else Inl Fatal,
                                     bs[slot := Some b'], w5)))
                   | (Inr u, b, w3) \<Rightarrow>
                       (Inr (client_view (b\<lparr>bf_ready := True\<rparr>)), bs[slot := Some (b\<lparr>bf_ready := True\<rparr>)], w3)))))"

definition buffer_view :: "buffers \<Rightarrow> session_id \<Rightarrow> machine_word \<Rightarrow> session_buffer cap_result" where
  "buffer_view bs cid pr =
     (case buffer_get bs cid of
        Inl e \<Rightarrow> Inl e
      | Inr None \<Rightarrow> Inl InvalidArgument
      | Inr (Some b) \<Rightarrow>
          if bf_closed b \<or> \<not> bf_ready b \<or> mp_owner (bf_provider b) \<noteq> pr \<or> mp_installed (bf_provider b) \<noteq> bf_pages b
          then Inl PermissionDenied
          else Inr \<lparr>sb_address = mp_address (bf_provider b), sb_bytes = of_nat (bf_pages b) * PAGE\<rparr>)"

fun buffer_withdraw ::
  "'w buffer_effects \<Rightarrow> buffers \<Rightarrow> service_id \<Rightarrow> machine_word \<Rightarrow> 'w \<Rightarrow> unit cap_result \<times> buffers \<times> 'w" where
  "buffer_withdraw ef [] sid owner w = (Inr (), [], w)"
| "buffer_withdraw ef (None # bs) sid owner w =
     (case buffer_withdraw ef bs sid owner w of (r, bs', w') \<Rightarrow> (r, None # bs', w'))"
| "buffer_withdraw ef (Some b # bs) sid owner w =
     (if \<not> live_for sid b then
        case buffer_withdraw ef bs sid owner w of (r, bs', w') \<Rightarrow> (r, Some b # bs', w')
      else if mp_owner (bf_provider b) \<noteq> owner then (Inl Fatal, Some b # bs, w)
      else case unmap_pages ef (bf_provider b) (bf_physical b) w of
        (Inl e, m, w') \<Rightarrow> (Inl Fatal, Some (b\<lparr>bf_provider := m\<rparr>) # bs, w')
      | (Inr u, m, w') \<Rightarrow>
          (case buffer_withdraw ef bs sid owner w' of (r, bs', w'') \<Rightarrow> (r, Some (b\<lparr>bf_provider := m\<rparr>) # bs', w'')))"

text \<open>One buffer of \<open>install\<close>: its guards, the address of the new mapping and the mapping itself.\<close>

definition install_one ::
  "'w buffer_effects \<Rightarrow> buffer \<Rightarrow> machine_word \<Rightarrow> 'w \<Rightarrow> unit cap_result \<times> buffer \<times> 'w" where
  "install_one ef b owner w =
     (if mp_installed (bf_provider b) \<noteq> 0 \<or> bf_candidate b \<noteq> None then (Inl Fatal, b, w)
      else if mp_owner (bf_client b) = owner then (Inl PermissionDenied, b, w)
      else case bx_participants ef (mp_owner (bf_client b)) owner w of
        (Inl e, w1) \<Rightarrow> (Inl e, b, w1)
      | (Inr u, w1) \<Rightarrow>
        (case (if mp_owner (bf_provider b) = owner then (Inr (mp_address (bf_provider b)), w1)
               else bx_reserve ef owner (bf_pages b) w1) of
           (Inl e, w2) \<Rightarrow> (Inl e, b, w2)
         | (Inr address, w2) \<Rightarrow>
           (case map_pages ef \<lparr>mp_owner = owner, mp_address = address, mp_installed = 0\<rparr> (bf_physical b) 0 (bf_pages b) w2 of
              (r, m, w3) \<Rightarrow> (r, b\<lparr>bf_candidate := Some m\<rparr>, w3))))"

fun install_entries ::
  "'w buffer_effects \<Rightarrow> buffers \<Rightarrow> service_id \<Rightarrow> machine_word \<Rightarrow> 'w \<Rightarrow> unit cap_result \<times> buffers \<times> 'w" where
  "install_entries ef [] sid owner w = (Inr (), [], w)"
| "install_entries ef (None # bs) sid owner w =
     (case install_entries ef bs sid owner w of (r, bs', w') \<Rightarrow> (r, None # bs', w'))"
| "install_entries ef (Some b # bs) sid owner w =
     (if \<not> live_for sid b then
        case install_entries ef bs sid owner w of (r, bs', w') \<Rightarrow> (r, Some b # bs', w')
      else case install_one ef b owner w of
        (Inl e, b', w') \<Rightarrow> (Inl e, Some b' # bs, w')
      | (Inr u, b', w') \<Rightarrow>
          (case install_entries ef bs sid owner w' of (r, bs', w'') \<Rightarrow> (r, Some b' # bs', w'')))"

fun discard_candidates ::
  "'w buffer_effects \<Rightarrow> buffers \<Rightarrow> service_id \<Rightarrow> bool \<Rightarrow> 'w \<Rightarrow> bool \<times> buffers \<times> 'w" where
  "discard_candidates ef [] sid clean w = (clean, [], w)"
| "discard_candidates ef (None # bs) sid clean w =
     (case discard_candidates ef bs sid clean w of (c, bs', w') \<Rightarrow> (c, None # bs', w'))"
| "discard_candidates ef (Some b # bs) sid clean w =
     (case (if bf_service b = sid then bf_candidate b else None) of
        None \<Rightarrow> (case discard_candidates ef bs sid clean w of (c, bs', w') \<Rightarrow> (c, Some b # bs', w'))
      | Some m \<Rightarrow>
          (case unmap_pages ef m (bf_physical b) w of
             (Inl e, m', w') \<Rightarrow>
               (case discard_candidates ef bs sid False w' of
                  (c, bs', w'') \<Rightarrow> (c, Some (b\<lparr>bf_candidate := Some m'\<rparr>) # bs', w''))
           | (Inr u, m', w') \<Rightarrow>
               (case discard_candidates ef bs sid clean w' of
                  (c, bs', w'') \<Rightarrow> (c, Some (b\<lparr>bf_candidate := None\<rparr>) # bs', w''))))"

definition promote :: "service_id \<Rightarrow> buffer \<Rightarrow> buffer" where
  "promote sid b =
     (if bf_service b = sid then
        case bf_candidate b of None \<Rightarrow> b | Some m \<Rightarrow> b\<lparr>bf_candidate := None, bf_provider := m\<rparr>
      else b)"

definition buffer_install ::
  "'w buffer_effects \<Rightarrow> buffers \<Rightarrow> service_id \<Rightarrow> machine_word \<Rightarrow> machine_word \<Rightarrow> 'w \<Rightarrow> unit cap_result \<times> buffers \<times> 'w" where
  "buffer_install ef bs sid owner slot w =
     (case (case install_entries ef bs sid owner w of
              (Inl e, bs', w') \<Rightarrow> (Inl e, bs', w')
            | (Inr u, bs', w') \<Rightarrow> (case bx_receiver ef sid owner slot w' of (r, w'') \<Rightarrow> (r, bs', w''))) of
        (Inl e, bs1, w1) \<Rightarrow>
          (case discard_candidates ef bs1 sid True w1 of
             (clean, bs2, w2) \<Rightarrow> (if \<not> clean then Inl Fatal else Inl e, bs2, w2))
      | (Inr u, bs1, w1) \<Rightarrow> (Inr (), map (map_option (promote sid)) bs1, w1))"

definition buffer_close ::
  "'w buffer_effects \<Rightarrow> buffers \<Rightarrow> session_id \<Rightarrow> 'w \<Rightarrow> unit cap_result \<times> buffers \<times> 'w" where
  "buffer_close ef bs cid w =
     (case session_index cid of
        Inl e \<Rightarrow> (Inl e, bs, w)
      | Inr i \<Rightarrow>
        (case bs ! i of
           None \<Rightarrow> (Inr (), bs, w)
         | Some b \<Rightarrow>
             if mp_installed (bf_provider b) \<noteq> 0 \<or> bf_candidate b \<noteq> None then (Inl IllegalOperation, bs, w)
             else case unmap_pages ef (bf_client b) (bf_physical b) w of
               (Inl e, m, w') \<Rightarrow> (Inl Fatal, bs[i := Some (b\<lparr>bf_client := m\<rparr>)], w')
             | (Inr u, m, w') \<Rightarrow> (Inr (), bs[i := Some (b\<lparr>bf_client := m, bf_closed := True\<rparr>)], w')))"

section \<open>Accounting for mappings\<close>

type_synonym page_mapping = "machine_word \<times> machine_word \<times> machine_word"

definition accounts :: "mapping \<Rightarrow> machine_word \<Rightarrow> page_mapping set" where
  "accounts m physical =
     (\<lambda>k. (mp_owner m, mp_address m + of_nat k * PAGE, physical + of_nat k)) ` {..<mp_installed m}"

fun candidate_pages :: "mapping option \<Rightarrow> machine_word \<Rightarrow> page_mapping set" where
  "candidate_pages None physical = {}"
| "candidate_pages (Some m) physical = accounts m physical"

definition buffer_pages :: "buffer \<Rightarrow> page_mapping set" where
  "buffer_pages b = accounts (bf_client b) (bf_physical b) \<union> accounts (bf_provider b) (bf_physical b) \<union>
     candidate_pages (bf_candidate b) (bf_physical b)"

fun entry_pages :: "buffer option \<Rightarrow> page_mapping set" where
  "entry_pages None = {}"
| "entry_pages (Some b) = buffer_pages b"

definition accounted :: "buffers \<Rightarrow> page_mapping set" where
  "accounted bs = (\<Union>e \<in> set bs. entry_pages e)"

text \<open>
  What the table relies on: \<open>mapped w\<close> is the set of page mappings that may exist in the world \<open>w\<close>.
  Mapping a page adds at most that page and nothing when it reports \<open>NotInstalled\<close>; unmapping never
  adds one and removes the page when it succeeds; the other effects add none.
\<close>

definition mapping_law :: "('w \<Rightarrow> page_mapping set) \<Rightarrow> 'w buffer_effects \<Rightarrow> bool" where
  "mapping_law mapped ef \<longleftrightarrow>
     (\<forall>cl pr w. mapped (snd (bx_participants ef cl pr w)) \<subseteq> mapped w) \<and>
     (\<forall>n w. mapped (snd (bx_allocate ef n w)) \<subseteq> mapped w) \<and>
     (\<forall>owner n w. mapped (snd (bx_reserve ef owner n w)) \<subseteq> mapped w) \<and>
     (\<forall>ph w. mapped (snd (bx_zero ef ph w)) \<subseteq> mapped w) \<and>
     (\<forall>sid owner slot w. mapped (snd (bx_receiver ef sid owner slot w)) \<subseteq> mapped w) \<and>
     (\<forall>owner a ph w. mapped (snd (bx_map ef owner a ph w)) \<subseteq> insert (owner, a, ph) (mapped w)) \<and>
     (\<forall>owner a ph w e. fst (bx_map ef owner a ph w) = Inl (NotInstalled e) \<longrightarrow>
        mapped (snd (bx_map ef owner a ph w)) \<subseteq> mapped w) \<and>
     (\<forall>owner a ph w. mapped (snd (bx_unmap ef owner a ph w)) \<subseteq> mapped w) \<and>
     (\<forall>owner a ph w. fst (bx_unmap ef owner a ph w) = Inr () \<longrightarrow>
        (owner, a, ph) \<notin> mapped (snd (bx_unmap ef owner a ph w)))"

lemma mapping_lawD:
  assumes "mapping_law mapped ef"
  shows "bx_participants ef cl pr w = (r1, w') \<Longrightarrow> mapped w' \<subseteq> mapped w"
    and "bx_allocate ef n w = (r2, w') \<Longrightarrow> mapped w' \<subseteq> mapped w"
    and "bx_reserve ef owner n w = (r2, w') \<Longrightarrow> mapped w' \<subseteq> mapped w"
    and "bx_zero ef ph w = (r1, w') \<Longrightarrow> mapped w' \<subseteq> mapped w"
    and "bx_receiver ef sid owner slot w = (r1, w') \<Longrightarrow> mapped w' \<subseteq> mapped w"
    and "bx_map ef owner a ph w = (r3, w') \<Longrightarrow> mapped w' \<subseteq> insert (owner, a, ph) (mapped w)"
    and "bx_map ef owner a ph w = (Inl (NotInstalled e), w') \<Longrightarrow> mapped w' \<subseteq> mapped w"
    and "bx_unmap ef owner a ph w = (r1, w') \<Longrightarrow> mapped w' \<subseteq> mapped w"
    and "bx_unmap ef owner a ph w = (Inr (), w') \<Longrightarrow> (owner, a, ph) \<notin> mapped w'"
  using assms unfolding mapping_law_def by (metis fst_conv snd_conv)+

lemma accounts_Suc:
  "accounts (m\<lparr>mp_installed := Suc k\<rparr>) ph =
   insert (mp_owner m, mp_address m + of_nat k * PAGE, ph + of_nat k) (accounts (m\<lparr>mp_installed := k\<rparr>) ph)"
  by (simp add: accounts_def lessThan_Suc)

lemma map_pages_spec:
  assumes "mapping_law mapped ef" and "map_pages ef m ph page n w = (r, m', w')" and "mp_installed m = page"
  shows "mapped w' \<subseteq> mapped w \<union> accounts m' ph \<and> accounts m ph \<subseteq> accounts m' ph \<and>
    mp_owner m' = mp_owner m \<and> mp_address m' = mp_address m \<and> mp_installed m' \<le> page + n \<and>
    (r = Inr () \<longrightarrow> mp_installed m' = page + n)"
  using assms(2,3)
proof (induction n arbitrary: m page w)
  case (Suc n)
  let ?t = "(mp_owner m, mp_address m + of_nat page * PAGE, ph + of_nat page)"
  have m: "m\<lparr>mp_installed := page\<rparr> = m" using Suc.prems(2) by simp
  have acc: "accounts (m\<lparr>mp_installed := page + 1\<rparr>) ph = insert ?t (accounts m ph)"
    using accounts_Suc [where m = m and k = page and ph = ph] m by simp
  obtain r1 w1 where e: "bx_map ef (mp_owner m) (mp_address m + of_nat page * PAGE) (ph + of_nat page) w = (r1, w1)" by force
  note law = mapping_lawD(6) [OF assms(1) e]
  consider u where "r1 = Inr u" | x where "r1 = Inl (NotInstalled x)" | x where "r1 = Inl (MaybeInstalled x)"
    by (metis map_error.exhaust old.sum.exhaust)
  then show ?case
  proof cases
    case 1
    then have "map_pages ef (m\<lparr>mp_installed := page + 1\<rparr>) ph (page + 1) n w1 = (r, m', w')" using Suc.prems(1) e by simp
    from Suc.IH [OF this] acc law show ?thesis by auto
  next
    case 2
    then show ?thesis using Suc.prems e mapping_lawD(7) [OF assms(1) e [unfolded 2]] by auto
  next
    case 3
    then show ?thesis using Suc.prems e law acc by auto
  qed
qed auto

lemma unmap_pages_spec:
  assumes "mapping_law mapped ef" and "unmap_pages ef m ph w = (r, m', w')" and "mapped w \<subseteq> X \<union> accounts m ph"
  shows "mapped w' \<subseteq> X \<union> accounts m' ph"
  using assms(2,3)
proof (induction "mp_installed m" arbitrary: m w)
  case 0
  then show ?case by (simp add: unmap_pages.simps)
next
  case (Suc k)
  let ?t = "(mp_owner m, mp_address m + of_nat k * PAGE, ph + of_nat k)" and ?m = "m\<lparr>mp_installed := k\<rparr>"
  have acc: "accounts m ph = insert ?t (accounts ?m ph)"
    using accounts_Suc [where m = m and k = k and ph = ph] Suc.hyps(2) by (metis mapping.surjective mapping.update_convs(3))
  obtain r1 w1 where e: "bx_unmap ef (mp_owner m) (mp_address m + of_nat k * PAGE) (ph + of_nat k) w = (r1, w1)" by force
  note law = mapping_lawD(8) [OF assms(1) e]
  have unf: "unmap_pages ef m ph w = (case r1 of Inl e \<Rightarrow> (Inl e, m, w1) | Inr u \<Rightarrow> unmap_pages ef ?m ph w1)"
    using e by (subst unmap_pages.simps) (simp add: Let_def Suc.hyps(2) [symmetric] split: sum.splits)
  show ?case
  proof (cases r1)
    case (Inl x)
    then show ?thesis using unf Suc.prems law by auto
  next
    case (Inr u)
    then have "?t \<notin> mapped w1" using mapping_lawD(9) [OF assms(1)] e by simp
    then have "mapped w1 \<subseteq> X \<union> accounts ?m ph" using law Suc.prems(2) acc by auto
    then show ?thesis using Suc.hyps(1) [of ?m w1] unf Inr Suc.prems(1) by simp
  qed
qed

lemma unmap_pages_frame:
  assumes "unmap_pages ef m ph w = (r, m', w')"
  shows "mp_owner m' = mp_owner m" and "mp_address m' = mp_address m" and "mp_installed m' \<le> mp_installed m"
    and "r = Inr () \<Longrightarrow> mp_installed m' = 0"
proof -
  have "mp_owner m' = mp_owner m \<and> mp_address m' = mp_address m \<and> mp_installed m' \<le> mp_installed m \<and>
      (r = Inr () \<longrightarrow> mp_installed m' = 0)"
    using assms
  proof (induction ef m ph w rule: unmap_pages.induct)
    case (1 ef m ph w)
    show ?case
    proof (cases "mp_installed m = 0")
      case True
      then show ?thesis using "1.prems" by (simp add: unmap_pages.simps)
    next
      case False
      obtain r1 w1 where e: "bx_unmap ef (mp_owner m) (mp_address m + of_nat (mp_installed m - 1) * PAGE)
          (ph + of_nat (mp_installed m - 1)) w = (r1, w1)" by force
      show ?thesis
      proof (cases r1)
        case (Inl x)
        then show ?thesis using "1.prems" False e by (subst (asm) unmap_pages.simps) (auto simp: Let_def)
      next
        case (Inr u)
        then have "unmap_pages ef (m\<lparr>mp_installed := mp_installed m - 1\<rparr>) ph w1 = (r, m', w')"
          using "1.prems" False e by (subst (asm) unmap_pages.simps) (simp add: Let_def)
        from "1.IH" [OF False refl e [symmetric] Inr this] show ?thesis by auto
      qed
    qed
  qed
  then show "mp_owner m' = mp_owner m" and "mp_address m' = mp_address m" and "mp_installed m' \<le> mp_installed m"
    and "r = Inr () \<Longrightarrow> mp_installed m' = 0" by auto
qed

lemma accounted_Cons [simp]: "accounted (e # bs) = entry_pages e \<union> accounted bs"
  by (simp add: accounted_def)

lemma accounted_Nil [simp]: "accounted [] = {}"
  by (simp add: accounted_def)

lemma accounted_update:
  assumes "i < length bs" and "mapped \<subseteq> X \<union> accounted bs"
    and "mapped \<subseteq> (X \<union> (\<Union>e \<in> set (take i bs) \<union> set (drop (Suc i) bs). entry_pages e)) \<union> entry_pages (bs ! i) \<Longrightarrow>
      mapped' \<subseteq> (X \<union> (\<Union>e \<in> set (take i bs) \<union> set (drop (Suc i) bs). entry_pages e)) \<union> entry_pages e'"
  shows "mapped' \<subseteq> X \<union> accounted (bs[i := e'])"
proof -
  have "accounted bs = (\<Union>e \<in> set (take i bs) \<union> set (drop (Suc i) bs). entry_pages e) \<union> entry_pages (bs ! i)"
    using id_take_nth_drop [OF assms(1)] by (metis (no_types) UN_Un Un_assoc Un_commute accounted_Cons accounted_def set_append)
  moreover have "accounted (bs[i := e']) = (\<Union>e \<in> set (take i bs) \<union> set (drop (Suc i) bs). entry_pages e) \<union> entry_pages e'"
    using assms(1) by (auto simp: upd_conv_take_nth_drop accounted_def)
  ultimately show ?thesis using assms(2,3) by (simp add: Un_assoc)
qed

section \<open>The operations keep the account\<close>

text \<open>Every operation preserves \<open>covered X\<close>: what may be mapped is outside the table or accounted for.\<close>

lemma zero_pages_spec:
  "mapping_law mapped ef \<Longrightarrow> zero_pages ef ph page n w = (r, w') \<Longrightarrow> mapped w' \<subseteq> mapped w"
proof (induction n arbitrary: page w)
  case (Suc n)
  obtain r1 w1 where e: "bx_zero ef (ph + of_nat page) w = (r1, w1)" by force
  then show ?case using Suc mapping_lawD(4) [OF Suc.prems(1) e] by (fastforce split: sum.splits)
qed simp

lemma buffer_pages_simps [simp]:
  "buffer_pages (b\<lparr>bf_closed := c\<rparr>) = buffer_pages b" "buffer_pages (b\<lparr>bf_ready := c\<rparr>) = buffer_pages b"
  by (simp_all add: buffer_pages_def)

lemma populate_spec:
  assumes law: "mapping_law mapped ef" and "populate ef b w = (r, b', w')"
    and "mp_installed (bf_client b) = 0" and "mp_installed (bf_provider b) = 0"
  shows "mapped w' \<subseteq> mapped w \<union> buffer_pages b' \<and> bf_physical b' = bf_physical b \<and> bf_candidate b' = bf_candidate b"
proof -
  obtain r1 w1 where e1: "bx_reserve ef (mp_owner (bf_client b)) (bf_pages b) w = (r1, w1)" by force
  have m1: "mapped w1 \<subseteq> mapped w" by (rule mapping_lawD(3) [OF law e1])
  show ?thesis
  proof (cases r1)
    case (Inl x)
    then show ?thesis using assms(2) e1 m1 by (auto simp: populate_def)
  next
    case a1: (Inr a)
    obtain r2 w2 where e2: "bx_reserve ef (mp_owner (bf_provider b)) (bf_pages b) w1 = (r2, w2)" by force
    have m2: "mapped w2 \<subseteq> mapped w" using mapping_lawD(3) [OF law e2] m1 by auto
    show ?thesis
    proof (cases r2)
      case (Inl x)
      then show ?thesis using assms(2) e1 a1 e2 m2 by (auto simp: populate_def)
    next
      case a2: (Inr c)
      let ?b2 = "b\<lparr>bf_client := (bf_client b)\<lparr>mp_address := a\<rparr>, bf_provider := (bf_provider b)\<lparr>mp_address := c\<rparr>\<rparr>"
      obtain r3 w3 where e3: "zero_pages ef (bf_physical b) 0 (bf_pages b) w2 = (r3, w3)" by force
      have m3: "mapped w3 \<subseteq> mapped w" using zero_pages_spec [OF law e3] m2 by auto
      show ?thesis
      proof (cases r3)
        case (Inl x)
        then show ?thesis using assms(2) e1 a1 e2 a2 e3 m3 by (auto simp: populate_def)
      next
        case a3: (Inr u)
        obtain r4 mc w4 where e4: "map_pages ef (bf_client ?b2) (bf_physical b) 0 (bf_pages b) w3 = (r4, mc, w4)"
          by (metis prod_cases3)
        have m4: "mapped w4 \<subseteq> mapped w \<union> accounts mc (bf_physical b)"
          using map_pages_spec [OF law e4] assms(3) m3 by auto
        show ?thesis
        proof (cases r4)
          case (Inl x)
          then show ?thesis using assms(2) e1 a1 e2 a2 e3 a3 e4 m4 by (auto simp: populate_def buffer_pages_def)
        next
          case a4: (Inr v)
          obtain r5 mp w5 where e5: "map_pages ef (bf_provider ?b2) (bf_physical b) 0 (bf_pages b) w4 = (r5, mp, w5)"
            by (metis prod_cases3)
          have "mapped w5 \<subseteq> mapped w \<union> accounts mc (bf_physical b) \<union> accounts mp (bf_physical b)"
            using map_pages_spec [OF law e5] assms(4) m4 by auto
          moreover have "w' = w5" "b' = ?b2\<lparr>bf_client := mc, bf_provider := mp\<rparr>"
            using assms(2) e1 a1 e2 a2 e3 a3 e4 a4 e5 by (auto simp: populate_def)
          ultimately show ?thesis by (auto simp: buffer_pages_def)
        qed
      qed
    qed
  qed
qed

lemma accounted_new_entry:
  assumes "i < length bs" and "bs ! i = None" and "mapped \<subseteq> X \<union> accounted bs" and "mapped' \<subseteq> mapped \<union> buffer_pages b"
  shows "mapped' \<subseteq> X \<union> accounted (bs[i := Some b])"
  by (rule accounted_update [OF assms(1,3)]) (use assms(2,4) in auto)

text \<open>Only a buffer without an installed provider mapping has a candidate, so promoting it loses no page.\<close>

fun candidate_ok :: "buffer option \<Rightarrow> bool" where
  "candidate_ok None \<longleftrightarrow> True"
| "candidate_ok (Some b) \<longleftrightarrow> bf_candidate b = None \<or> mp_installed (bf_provider b) = 0"

lemma candidate_ok_update:
  "list_all candidate_ok bs \<Longrightarrow> i < length bs \<Longrightarrow> candidate_ok e \<Longrightarrow> list_all candidate_ok (bs[i := e])"
  by (auto simp: list_all_length nth_list_update)

lemma create_covered:
  assumes law: "mapping_law mapped ef" and "buffer_create ef bs cid sid cl pr pages w = (r, bs', w')"
    and "mapped w \<subseteq> X \<union> accounted bs" and "list_all candidate_ok bs" and "length bs = SESSIONS"
  shows "mapped w' \<subseteq> X \<union> accounted bs' \<and> length bs' = length bs \<and> list_all candidate_ok bs'"
proof (cases "session_index cid")
  case (Inl e)
  then show ?thesis using assms by (simp add: buffer_create_def)
next
  case (Inr slot)
  have sl: "slot < length bs" using session_index_bound [OF Inr] assms(5) by simp
  show ?thesis
  proof (cases "(cl = 0 \<or> pr = 0 \<or> cl = pr \<or> \<not> (1 \<le> pages \<and> pages \<le> 16)) \<or> bs ! slot \<noteq> None")
    case True
    then show ?thesis using assms Inr by (auto simp: buffer_create_def split: option.splits if_splits)
  next
    case False
    then have none: "bs ! slot = None" by simp
    obtain r1 w1 where e1: "bx_participants ef cl pr w = (r1, w1)" by force
    have m1: "mapped w1 \<subseteq> mapped w" by (rule mapping_lawD(1) [OF law e1])
    obtain r2 w2 where e2: "bx_allocate ef pages w1 = (r2, w2)" by force
    have m2: "mapped w2 \<subseteq> mapped w" using mapping_lawD(2) [OF law e2] m1 by auto
    show ?thesis
    proof (cases "isl r1 \<or> isl r2")
      case True
      then show ?thesis using assms Inr False e1 e2 m1 m2 by (auto simp: buffer_create_def none split: sum.splits)
    next
      case ok: False
      then obtain ph where ph: "r1 = Inr ()" "r2 = Inr ph" by (cases r1; cases r2) auto
      obtain r3 b w3 where e3: "populate ef (fresh_buffer sid ph pages cl pr) w2 = (r3, b, w3)" by (metis prod_cases3)
      have p3: "mapped w3 \<subseteq> mapped w2 \<union> buffer_pages b" "bf_physical b = ph" "bf_candidate b = None"
        using populate_spec [OF law e3] by (auto simp: fresh_buffer_def)
      show ?thesis
      proof (cases r3)
        case (Inr u)
        have "w' = w3" "bs' = bs[slot := Some (b\<lparr>bf_ready := True\<rparr>)]"
          using assms(2) \<open>session_index cid = Inr slot\<close> False none e1 e2 ph e3 Inr by (auto simp: buffer_create_def)
        then show ?thesis
          using accounted_new_entry [OF sl none assms(3), of "mapped w3" "b\<lparr>bf_ready := True\<rparr>"] p3 m2 candidate_ok_update [OF assms(4) sl] by auto
      next
        case (Inl x)
        obtain rp mp w4 where e4: "unmap_pages ef (bf_provider b) ph w3 = (rp, mp, w4)" by (metis prod_cases3)
        obtain rc mc w5 where e5: "unmap_pages ef (bf_client b) ph w4 = (rc, mc, w5)" by (metis prod_cases3)
        let ?b = "b\<lparr>bf_provider := mp, bf_client := mc, bf_closed := True\<rparr>"
        have st: "w' = w5" "bs' = bs[slot := Some ?b]"
          using assms(2) \<open>session_index cid = Inr slot\<close> False none e1 e2 ph e3 Inl e4 e5 by (auto simp: buffer_create_def)
        let ?C = "candidate_pages (bf_candidate b) ph"
        have "mapped w4 \<subseteq> (mapped w \<union> accounts (bf_client b) ph \<union> ?C) \<union> accounts mp ph"
          by (rule unmap_pages_spec [OF law e4]) (use p3 m2 in \<open>auto simp: buffer_pages_def\<close>)
        then have "mapped w5 \<subseteq> (mapped w \<union> ?C \<union> accounts mp ph) \<union> accounts mc ph"
          by (intro unmap_pages_spec [OF law e5]) auto
        then have "mapped w5 \<subseteq> mapped w \<union> buffer_pages ?b" using p3(2) by (auto simp: buffer_pages_def)
        then show ?thesis using accounted_new_entry [OF sl none assms(3)] st p3(3) candidate_ok_update [OF assms(4) sl] by simp
      qed
    qed
  qed
qed

lemma unmap_member:
  assumes "mapping_law mapped ef" and "unmap_pages ef m (bf_physical b) w = (r, m', w')" and "mapped w \<subseteq> X \<union> buffer_pages b"
  shows "m = bf_provider b \<Longrightarrow> mapped w' \<subseteq> X \<union> buffer_pages (b\<lparr>bf_provider := m'\<rparr>)"
    and "m = bf_client b \<Longrightarrow> mapped w' \<subseteq> X \<union> buffer_pages (b\<lparr>bf_client := m'\<rparr>)"
    and "bf_candidate b = Some m \<Longrightarrow> mapped w' \<subseteq> X \<union> buffer_pages (b\<lparr>bf_candidate := Some m'\<rparr>)"
    and "bf_candidate b = Some m \<Longrightarrow> r = Inr () \<Longrightarrow> mapped w' \<subseteq> X \<union> buffer_pages (b\<lparr>bf_candidate := None\<rparr>)"
proof -
  note spec = unmap_pages_spec [OF assms(1,2)]
  show "m = bf_provider b \<Longrightarrow> mapped w' \<subseteq> X \<union> buffer_pages (b\<lparr>bf_provider := m'\<rparr>)"
    using spec [of "X \<union> accounts (bf_client b) (bf_physical b) \<union> candidate_pages (bf_candidate b) (bf_physical b)"] assms(3)
    by (simp add: buffer_pages_def ac_simps)
  show "m = bf_client b \<Longrightarrow> mapped w' \<subseteq> X \<union> buffer_pages (b\<lparr>bf_client := m'\<rparr>)"
    using spec [of "X \<union> accounts (bf_provider b) (bf_physical b) \<union> candidate_pages (bf_candidate b) (bf_physical b)"] assms(3)
    by (simp add: buffer_pages_def ac_simps)
  have c: "bf_candidate b = Some m \<Longrightarrow>
      mapped w' \<subseteq> X \<union> accounts (bf_client b) (bf_physical b) \<union> accounts (bf_provider b) (bf_physical b) \<union> accounts m' (bf_physical b)"
    using spec [of "X \<union> accounts (bf_client b) (bf_physical b) \<union> accounts (bf_provider b) (bf_physical b)"] assms(3)
    by (simp add: buffer_pages_def ac_simps)
  then show "bf_candidate b = Some m \<Longrightarrow> mapped w' \<subseteq> X \<union> buffer_pages (b\<lparr>bf_candidate := Some m'\<rparr>)"
    by (simp add: buffer_pages_def ac_simps)
  have "r = Inr () \<Longrightarrow> accounts m' (bf_physical b) = {}"
    using unmap_pages_frame(4) [OF assms(2)] by (simp add: accounts_def)
  then show "bf_candidate b = Some m \<Longrightarrow> r = Inr () \<Longrightarrow> mapped w' \<subseteq> X \<union> buffer_pages (b\<lparr>bf_candidate := None\<rparr>)"
    using c by (simp add: buffer_pages_def ac_simps)
qed

lemma withdraw_covered:
  assumes law: "mapping_law mapped ef"
  shows "buffer_withdraw ef bs sid owner w = (r, bs', w') \<Longrightarrow> mapped w \<subseteq> X \<union> accounted bs \<Longrightarrow>
    list_all candidate_ok bs \<Longrightarrow> mapped w' \<subseteq> X \<union> accounted bs' \<and> length bs' = length bs \<and> list_all candidate_ok bs'"
proof (induction bs arbitrary: X r bs' w w')
  case (Cons e bs)
  have skip: ?case if s: "buffer_withdraw ef bs sid owner w1 = (r, bs1, w')" "bs' = e' # bs1"
    "mapped w1 \<subseteq> X \<union> entry_pages e' \<union> accounted bs" "candidate_ok e'" for w1 bs1 e'
    using Cons.IH [OF s(1,3)] s(2,4) Cons.prems(3) by (simp add: Un_assoc)
  show ?case
  proof (cases e)
    case None
    obtain r1 bs1 w1 where "buffer_withdraw ef bs sid owner w = (r1, bs1, w1)" by (metis prod_cases3)
    then show ?thesis using skip [of w bs1 None] Cons.prems None by clarsimp
  next
    case (Some b)
    obtain r1 bs1 w1 where e1: "buffer_withdraw ef bs sid owner w = (r1, bs1, w1)" by (metis prod_cases3)
    show ?thesis
    proof (cases "live_for sid b \<and> mp_owner (bf_provider b) = owner")
      case False
      then show ?thesis using skip [of w bs1 e] Cons.prems Some e1 by (auto simp: Un_assoc split: if_splits)
    next
      case True
      obtain r2 m w2 where e2: "unmap_pages ef (bf_provider b) (bf_physical b) w = (r2, m, w2)" by (metis prod_cases3)
      let ?b = "b\<lparr>bf_provider := m\<rparr>"
      have cov: "mapped w2 \<subseteq> (X \<union> accounted bs) \<union> buffer_pages ?b"
        by (rule unmap_member(1) [OF law e2 _ refl]) (use Cons.prems(2) Some in \<open>simp add: ac_simps\<close>)
      have ok: "candidate_ok (Some ?b)"
        using Cons.prems(3) Some unmap_pages_frame(3) [OF e2] by auto
      obtain r3 bs3 w3 where e3: "buffer_withdraw ef bs sid owner w2 = (r3, bs3, w3)" by (metis prod_cases3)
      show ?thesis
      proof (cases r2)
        case (Inl x)
        then show ?thesis using Cons.prems Some True e2 cov ok by (auto simp: ac_simps)
      next
        case (Inr u)
        then show ?thesis using skip [of w2 bs3 "Some ?b"] Cons.prems(1) Some True e2 e3 cov ok by (clarsimp simp: ac_simps)
      qed
    qed
  qed
qed simp

lemma map_pages_frame:
  "map_pages ef m ph page n w = (r, m', w') \<Longrightarrow> mp_installed m = page \<Longrightarrow>
   mp_owner m' = mp_owner m \<and> mp_address m' = mp_address m \<and> mp_installed m' \<le> page + n \<and> (r = Inr () \<longrightarrow> mp_installed m' = page + n)"
proof (induction n arbitrary: m page w)
  case (Suc n)
  obtain r1 w1 where e: "bx_map ef (mp_owner m) (mp_address m + of_nat page * PAGE) (ph + of_nat page) w = (r1, w1)" by force
  show ?case
  proof (cases r1)
    case (Inl x)
    then show ?thesis using Suc.prems e by (cases x) auto
  next
    case (Inr u)
    then show ?thesis using Suc.prems e Suc.IH [of "m\<lparr>mp_installed := page + 1\<rparr>" "page + 1" w1] by simp
  qed
qed auto

text \<open>What \<open>install\<close> does to one buffer of the service, whatever the effects do.\<close>

lemma install_one_frame:
  assumes "install_one ef b owner w = (r, b', w')"
  shows "b' = b \<and> r \<noteq> Inr () \<or>
    (\<exists>m. b' = b\<lparr>bf_candidate := Some m\<rparr> \<and> mp_owner m = owner \<and> mp_installed (bf_provider b) = 0 \<and> bf_candidate b = None \<and>
       (r = Inr () \<longrightarrow> mp_installed m = bf_pages b) \<and> (mp_owner (bf_provider b) = owner \<longrightarrow> mp_address m = mp_address (bf_provider b)))"
proof -
  obtain r1 w1 where e1: "bx_participants ef (mp_owner (bf_client b)) owner w = (r1, w1)" by force
  obtain r2 w2 where e2: "(if mp_owner (bf_provider b) = owner then (Inr (mp_address (bf_provider b)), w1)
      else bx_reserve ef owner (bf_pages b) w1) = (r2, w2)" by force
  consider "mp_installed (bf_provider b) \<noteq> 0 \<or> bf_candidate b \<noteq> None \<or> mp_owner (bf_client b) = owner \<or> isl r1 \<or> isl r2"
    | a where "mp_installed (bf_provider b) = 0" "bf_candidate b = None" "mp_owner (bf_client b) \<noteq> owner" "r1 = Inr ()" "r2 = Inr a"
    by (cases r1; cases r2) auto
  then show ?thesis
  proof cases
    case 1
    then show ?thesis using assms e1 e2 by (auto simp: install_one_def split: sum.splits if_splits)
  next
    case 2
    obtain m w3 where e3: "map_pages ef \<lparr>mp_owner = owner, mp_address = a, mp_installed = 0\<rparr> (bf_physical b) 0 (bf_pages b) w2 = (r, m, w3)"
      and b': "b' = b\<lparr>bf_candidate := Some m\<rparr>"
      using assms e1 e2 2 by (auto simp: install_one_def split: prod.splits)
    have "mp_owner (bf_provider b) = owner \<Longrightarrow> a = mp_address (bf_provider b)" using e2 2 by simp
    then show ?thesis using map_pages_frame [OF e3] b' 2 by auto
  qed
qed

lemma install_one_covered:
  assumes law: "mapping_law mapped ef" and "install_one ef b owner w = (r, b', w')"
  shows "mapped w' \<subseteq> mapped w \<union> buffer_pages b'" and "buffer_pages b \<subseteq> buffer_pages b'"
proof -
  obtain r1 w1 where e1: "bx_participants ef (mp_owner (bf_client b)) owner w = (r1, w1)" by force
  have m1: "mapped w1 \<subseteq> mapped w" by (rule mapping_lawD(1) [OF law e1])
  obtain r2 w2 where e2: "(if mp_owner (bf_provider b) = owner then (Inr (mp_address (bf_provider b)), w1)
      else bx_reserve ef owner (bf_pages b) w1) = (r2, w2)" by force
  have m2: "mapped w2 \<subseteq> mapped w" using e2 mapping_lawD(3) [OF law, of owner "bf_pages b" w1] m1 by (cases "mp_owner (bf_provider b) = owner") auto
  consider "mp_installed (bf_provider b) \<noteq> 0 \<or> bf_candidate b \<noteq> None \<or> mp_owner (bf_client b) = owner \<or> isl r1 \<or> isl r2"
    | a where "mp_installed (bf_provider b) = 0" "bf_candidate b = None" "mp_owner (bf_client b) \<noteq> owner" "r1 = Inr ()" "r2 = Inr a"
    by (cases r1; cases r2) auto
  then have "mapped w' \<subseteq> mapped w \<union> buffer_pages b' \<and> buffer_pages b \<subseteq> buffer_pages b'"
  proof cases
    case 1
    then have "b' = b \<and> mapped w' \<subseteq> mapped w"
      using assms(2) e1 e2 m1 m2 by (auto simp: install_one_def split: sum.splits if_splits)
    then show ?thesis by auto
  next
    case 2
    obtain m where e3: "map_pages ef \<lparr>mp_owner = owner, mp_address = a, mp_installed = 0\<rparr> (bf_physical b) 0 (bf_pages b) w2 = (r, m, w')"
      and b': "b' = b\<lparr>bf_candidate := Some m\<rparr>"
      using assms(2) e1 e2 2 by (auto simp: install_one_def split: prod.splits)
    then show ?thesis using map_pages_spec [OF law e3] m2 2 by (auto simp: buffer_pages_def)
  qed
  then show "mapped w' \<subseteq> mapped w \<union> buffer_pages b'" and "buffer_pages b \<subseteq> buffer_pages b'" by auto
qed

lemma install_entries_covered:
  assumes law: "mapping_law mapped ef"
  shows "install_entries ef bs sid owner w = (r, bs', w') \<Longrightarrow> mapped w \<subseteq> X \<union> accounted bs \<Longrightarrow>
    list_all candidate_ok bs \<Longrightarrow> mapped w' \<subseteq> X \<union> accounted bs' \<and> length bs' = length bs \<and> list_all candidate_ok bs'"
proof (induction bs arbitrary: X r bs' w w')
  case (Cons e bs)
  have skip: ?case if s: "install_entries ef bs sid owner w1 = (r, bs1, w')" "bs' = e' # bs1"
    "mapped w1 \<subseteq> X \<union> entry_pages e' \<union> accounted bs" "candidate_ok e'" for w1 bs1 e'
    using Cons.IH [OF s(1,3)] s(2,4) Cons.prems(3) by (simp add: Un_assoc)
  obtain r1 bs1 w1 where e1: "install_entries ef bs sid owner w = (r1, bs1, w1)" by (metis prod_cases3)
  consider "e = None" | b where "e = Some b" "\<not> live_for sid b" | b where "e = Some b" "live_for sid b" by (cases e) auto
  then show ?case
  proof cases
    case 1
    then show ?thesis using skip [of w bs1 None] Cons.prems e1 by clarsimp
  next
    case 2
    then show ?thesis using skip [of w bs1 e] Cons.prems e1 by (clarsimp simp: Un_assoc)
  next
    case (3 b)
    obtain r2 b2 w2 where e2: "install_one ef b owner w = (r2, b2, w2)" by (metis prod_cases3)
    have cov: "mapped w2 \<subseteq> X \<union> buffer_pages b2 \<union> accounted bs"
      using install_one_covered [OF law e2] Cons.prems(2) 3 by auto
    have ok: "candidate_ok (Some b2)"
      using install_one_frame [OF e2] Cons.prems(3) 3 by auto
    obtain r3 bs3 w3 where e3: "install_entries ef bs sid owner w2 = (r3, bs3, w3)" by (metis prod_cases3)
    show ?thesis
    proof (cases r2)
      case (Inl x)
      then show ?thesis using Cons.prems 3 e2 cov ok by (auto simp: ac_simps)
    next
      case (Inr u)
      then show ?thesis using skip [of w2 bs3 "Some b2"] Cons.prems(1) 3 e2 e3 cov ok by (clarsimp simp: ac_simps)
    qed
  qed
qed simp

lemma discard_covered:
  assumes law: "mapping_law mapped ef"
  shows "discard_candidates ef bs sid clean w = (c, bs', w') \<Longrightarrow> mapped w \<subseteq> X \<union> accounted bs \<Longrightarrow>
    list_all candidate_ok bs \<Longrightarrow> mapped w' \<subseteq> X \<union> accounted bs' \<and> length bs' = length bs \<and> list_all candidate_ok bs'"
proof (induction bs arbitrary: X clean c bs' w w')
  case (Cons e bs)
  have skip: ?case if s: "discard_candidates ef bs sid cl1 w1 = (c, bs1, w')" "bs' = e' # bs1"
    "mapped w1 \<subseteq> X \<union> entry_pages e' \<union> accounted bs" "candidate_ok e'" for cl1 w1 bs1 e'
    using Cons.IH [OF s(1,3)] s(2,4) Cons.prems(3) by (simp add: Un_assoc)
  obtain c1 bs1 w1 where e1: "discard_candidates ef bs sid clean w = (c1, bs1, w1)" by (metis prod_cases3)
  consider "e = None" | b where "e = Some b" "(if bf_service b = sid then bf_candidate b else None) = None"
    | b m where "e = Some b" "bf_service b = sid" "bf_candidate b = Some m"
    by (cases e; cases "bf_service (the e) = sid"; cases "bf_candidate (the e)") auto
  then show ?case
  proof cases
    case 1
    then show ?thesis using skip [of clean w bs1 None] Cons.prems e1 by clarsimp
  next
    case (2 b)
    then have "discard_candidates ef (e # bs) sid clean w = (c1, e # bs1, w1)" using e1 by simp
    then show ?thesis using skip [of clean w bs1 e] Cons.prems e1 by (clarsimp simp: Un_assoc)
  next
    case (3 b m)
    obtain r2 m2 w2 where e2: "unmap_pages ef m (bf_physical b) w = (r2, m2, w2)" by (metis prod_cases3)
    have cov: "mapped w \<subseteq> (X \<union> accounted bs) \<union> buffer_pages b" using Cons.prems(2) 3 by (simp add: ac_simps)
    note mem = unmap_member(3,4) [OF law e2 cov 3(3)]
    have ok: "mp_installed (bf_provider b) = 0" using Cons.prems(3) 3 by simp
    show ?thesis
    proof (cases r2)
      case (Inl x)
      obtain c3 bs3 w3 where e3: "discard_candidates ef bs sid False w2 = (c3, bs3, w3)" by (metis prod_cases3)
      show ?thesis
        using skip [of False w2 bs3 "Some (b\<lparr>bf_candidate := Some m2\<rparr>)"] Cons.prems(1) 3 e2 e3 Inl mem(1) ok by (clarsimp simp: ac_simps)
    next
      case (Inr u)
      obtain c3 bs3 w3 where e3: "discard_candidates ef bs sid clean w2 = (c3, bs3, w3)" by (metis prod_cases3)
      show ?thesis
        using skip [of clean w2 bs3 "Some (b\<lparr>bf_candidate := None\<rparr>)"] Cons.prems(1) 3 e2 e3 Inr mem(2) ok by (clarsimp simp: ac_simps)
    qed
  qed
qed simp

lemma promote_covered:
  "list_all candidate_ok bs \<Longrightarrow> accounted (map (map_option (promote sid)) bs) = accounted bs \<and>
   list_all candidate_ok (map (map_option (promote sid)) bs)"
proof (induction bs)
  case (Cons e bs)
  have "candidate_ok e \<Longrightarrow> entry_pages (map_option (promote sid) e) = entry_pages e \<and> candidate_ok (map_option (promote sid) e)"
    by (cases e) (auto simp: promote_def buffer_pages_def accounts_def split: option.splits)
  then show ?case using Cons by simp
qed simp

lemma install_unfold:
  assumes "install_entries ef bs sid owner w = (r1, bs1, w1)"
    and "(case r1 of Inl e \<Rightarrow> (Inl e, w1) | Inr u \<Rightarrow> bx_receiver ef sid owner slot w1) = (r2, w2)"
  shows "buffer_install ef bs sid owner slot w = (case r2 of
      Inl e \<Rightarrow> (case discard_candidates ef bs1 sid True w2 of (clean, bs2, w3) \<Rightarrow> (if \<not> clean then Inl Fatal else Inl e, bs2, w3))
    | Inr u \<Rightarrow> (Inr (), map (map_option (promote sid)) bs1, w2))"
  using assms by (auto simp: buffer_install_def split: sum.splits)

lemma install_covered:
  assumes law: "mapping_law mapped ef" and "buffer_install ef bs sid owner slot w = (r, bs', w')"
    and "mapped w \<subseteq> X \<union> accounted bs" and "list_all candidate_ok bs"
  shows "mapped w' \<subseteq> X \<union> accounted bs' \<and> length bs' = length bs \<and> list_all candidate_ok bs'"
proof -
  obtain r1 bs1 w1 where e1: "install_entries ef bs sid owner w = (r1, bs1, w1)" by (metis prod_cases3)
  note c1 = install_entries_covered [OF law e1 assms(3,4)]
  obtain r2 w2 where e2: "(case r1 of Inl e \<Rightarrow> (Inl e, w1) | Inr u \<Rightarrow> bx_receiver ef sid owner slot w1) = (r2, w2)" by force
  have m2: "mapped w2 \<subseteq> mapped w1" using e2 mapping_lawD(5) [OF law] by (auto split: sum.splits)
  then have c2: "mapped w2 \<subseteq> X \<union> accounted bs1" using c1 by auto
  note unf = install_unfold [OF e1 e2]
  show ?thesis
  proof (cases r2)
    case (Inl x)
    obtain c bs3 w3 where e3: "discard_candidates ef bs1 sid True w2 = (c, bs3, w3)" by (metis prod_cases3)
    then show ?thesis using discard_covered [OF law e3 c2] c1 assms(2) unf Inl by auto
  next
    case (Inr u)
    then show ?thesis using promote_covered [of bs1 sid] c1 c2 assms(2) unf by auto
  qed
qed

lemma close_covered:
  assumes law: "mapping_law mapped ef" and "buffer_close ef bs cid w = (r, bs', w')"
    and "mapped w \<subseteq> X \<union> accounted bs" and "list_all candidate_ok bs" and "length bs = SESSIONS"
  shows "mapped w' \<subseteq> X \<union> accounted bs' \<and> length bs' = length bs \<and> list_all candidate_ok bs'"
proof (cases "session_index cid")
  case (Inl e)
  then show ?thesis using assms by (simp add: buffer_close_def)
next
  case (Inr i)
  have i: "i < length bs" using session_index_bound [OF Inr] assms(5) by simp
  have "(bs' = bs \<and> w' = w) \<or> (\<exists>b m r2 c. bs ! i = Some b \<and> bf_candidate b = None \<and>
      unmap_pages ef (bf_client b) (bf_physical b) w = (r2, m, w') \<and> bs' = bs[i := Some (b\<lparr>bf_client := m, bf_closed := c\<rparr>)])"
  proof (cases "bs ! i = None \<or> mp_installed (bf_provider (the (bs ! i))) \<noteq> 0 \<or> bf_candidate (the (bs ! i)) \<noteq> None")
    case True
    then show ?thesis using assms(2) Inr by (cases "bs ! i") (auto simp: buffer_close_def)
  next
    case False
    then obtain b where b: "bs ! i = Some b" "mp_installed (bf_provider b) = 0" "bf_candidate b = None" by auto
    obtain r2 m w2 where e: "unmap_pages ef (bf_client b) (bf_physical b) w = (r2, m, w2)" by (metis prod_cases3)
    have "w' = w2 \<and> bs' = bs[i := Some (b\<lparr>bf_client := m, bf_closed := bf_closed b \<or> \<not> isl r2\<rparr>)]"
      using assms(2) Inr b e by (cases r2) (auto simp: buffer_close_def)
    then show ?thesis using b e by blast
  qed
  then consider "bs' = bs" "w' = w"
    | b m r2 c where "bs ! i = Some b" "bf_candidate b = None" "unmap_pages ef (bf_client b) (bf_physical b) w = (r2, m, w')"
      "bs' = bs[i := Some (b\<lparr>bf_client := m, bf_closed := c\<rparr>)]" by blast
  then show ?thesis
  proof cases
    case 1
    then show ?thesis using assms by simp
  next
    case (2 b m r2 c)
    have "mapped w' \<subseteq> X \<union> accounted (bs[i := Some (b\<lparr>bf_client := m, bf_closed := c\<rparr>)])"
      by (rule accounted_update [OF i assms(3)]) (use unmap_member(2) [OF law 2(3) _ refl] 2(1) in \<open>simp add: buffer_pages_def\<close>)
    then show ?thesis using 2 assms(4) i by (auto simp: list_all_length nth_list_update)
  qed
qed

section \<open>Properties\<close>

datatype buffer_request =
    CreateBuffer session_id service_id machine_word machine_word nat
  | WithdrawBuffers service_id machine_word
  | InstallBuffers service_id machine_word machine_word
  | CloseBuffer session_id

fun buffer_step :: "'w buffer_effects \<Rightarrow> buffer_request \<Rightarrow> buffers \<times> 'w \<Rightarrow> buffers \<times> 'w" where
  "buffer_step ef (CreateBuffer cid sid cl pr pages) (bs, w) = snd (buffer_create ef bs cid sid cl pr pages w)"
| "buffer_step ef (WithdrawBuffers sid owner) (bs, w) = snd (buffer_withdraw ef bs sid owner w)"
| "buffer_step ef (InstallBuffers sid owner slot) (bs, w) = snd (buffer_install ef bs sid owner slot w)"
| "buffer_step ef (CloseBuffer cid) (bs, w) = snd (buffer_close ef bs cid w)"

definition covered :: "('w \<Rightarrow> page_mapping set) \<Rightarrow> page_mapping set \<Rightarrow> buffers \<times> 'w \<Rightarrow> bool" where
  "covered mapped X s \<longleftrightarrow>
     mapped (snd s) \<subseteq> X \<union> accounted (fst s) \<and> length (fst s) = SESSIONS \<and> list_all candidate_ok (fst s)"

lemma buffer_step_covered:
  assumes "mapping_law mapped ef" and "covered mapped X s"
  shows "covered mapped X (buffer_step ef q s)"
proof -
  obtain bs w where s: "s = (bs, w)" by force
  note cov = assms(2) [unfolded covered_def s fst_conv snd_conv]
  show ?thesis
  proof (cases q)
    case (CreateBuffer cid sid cl pr pages)
    obtain r bs' w' where "buffer_create ef bs cid sid cl pr pages w = (r, bs', w')" by (metis prod_cases3)
    then show ?thesis using create_covered [OF assms(1)] cov s CreateBuffer by (fastforce simp: covered_def)
  next
    case (WithdrawBuffers sid owner)
    obtain r bs' w' where "buffer_withdraw ef bs sid owner w = (r, bs', w')" by (metis prod_cases3)
    then show ?thesis using withdraw_covered [OF assms(1)] cov s WithdrawBuffers by (fastforce simp: covered_def)
  next
    case (InstallBuffers sid owner slot)
    obtain r bs' w' where "buffer_install ef bs sid owner slot w = (r, bs', w')" by (metis prod_cases3)
    then show ?thesis using install_covered [OF assms(1)] cov s InstallBuffers by (fastforce simp: covered_def)
  next
    case (CloseBuffer cid)
    obtain r bs' w' where "buffer_close ef bs cid w = (r, bs', w')" by (metis prod_cases3)
    then show ?thesis using close_covered [OF assms(1)] cov s CloseBuffer by (fastforce simp: covered_def)
  qed
qed

lemma buffer_run_covered:
  "mapping_law mapped ef \<Longrightarrow> covered mapped X s \<Longrightarrow> covered mapped X (fold (buffer_step ef) qs s)"
  by (induction qs arbitrary: s) (simp_all add: buffer_step_covered)

lemma has_mapping_sound: "\<not> has_mapping bs owner \<Longrightarrow> (owner, a, ph) \<notin> accounted bs"
proof
  assume no: "\<not> has_mapping bs owner" and "(owner, a, ph) \<in> accounted bs"
  then obtain b where b: "Some b \<in> set bs" "(owner, a, ph) \<in> buffer_pages b"
    by (metis UN_E accounted_def entry_pages.elims empty_iff)
  have "\<not> ((mp_owner (bf_client b) = owner \<and> mp_installed (bf_client b) \<noteq> 0) \<or>
      (mp_owner (bf_provider b) = owner \<and> mp_installed (bf_provider b) \<noteq> 0) \<or>
      (case bf_candidate b of None \<Rightarrow> False | Some m \<Rightarrow> mp_owner m = owner \<and> mp_installed m \<noteq> 0))"
    using no b(1) by (force simp: has_mapping_def flat_any_def list_ex_iff)
  then show False using b(2) by (cases "bf_candidate b") (auto simp: buffer_pages_def accounts_def)
qed

text \<open>
  C24: over every sequence of requests to the buffer table, whatever the effects answer, each page mapping
  that exists afterwards and did not before is one the table accounts for, so when \<open>has_mapping\<close> denies a
  process, no page of a session buffer is left in that process.
\<close>

theorem buffers_account_mappings:
  assumes "mapping_law mapped ef" and "fold (buffer_step ef) qs (buffers_new, w) = (bs, w')"
  shows "mapped w' \<subseteq> mapped w \<union> accounted bs \<and>
    (\<not> has_mapping bs owner \<longrightarrow> {p \<in> mapped w'. fst p = owner} \<subseteq> mapped w)"
proof -
  have "covered mapped (mapped w) (buffers_new, w)"
    by (auto simp: covered_def buffers_new_def list_all_length)
  from buffer_run_covered [OF assms(1) this, of qs] have acc: "mapped w' \<subseteq> mapped w \<union> accounted bs"
    using assms(2) by (simp add: covered_def)
  then show ?thesis using has_mapping_sound [of bs owner] by auto
qed

text \<open>Effects over the list of the mapped pages, which always succeed; a page counter gives the addresses.\<close>

definition list_effects :: "(nat \<times> page_mapping list) buffer_effects" where
  "list_effects =
     \<lparr>bx_participants = (\<lambda>cl pr w. (Inr (), w)),
      bx_allocate = (\<lambda>n w. (Inr (of_nat (fst w)), (fst w + n, snd w))),
      bx_reserve = (\<lambda>owner n w. (Inr (of_nat (fst w) * PAGE), (fst w + n, snd w))),
      bx_zero = (\<lambda>ph w. (Inr (), w)),
      bx_map = (\<lambda>owner a ph w. (Inr (), (fst w, (owner, a, ph) # snd w))),
      bx_unmap = (\<lambda>owner a ph w. (Inr (), (fst w, removeAll (owner, a, ph) (snd w)))),
      bx_receiver = (\<lambda>sid owner slot w. (Inr (), w))\<rparr>"

lemma list_effects_law: "mapping_law (\<lambda>w. set (snd w)) list_effects"
  by (auto simp: mapping_law_def list_effects_def)

definition demo_requests :: "buffer_request list" where
  "demo_requests =
     [CreateBuffer (SessionId (SESSION_IDENTIFIER_BIT OR 1)) (ServiceId 5) 7 8 2, WithdrawBuffers (ServiceId 5) 8,
      InstallBuffers (ServiceId 5) 9 0]"

theorem buffers_account_mappings_witness:
  "set (snd (snd (fold (buffer_step list_effects) demo_requests (buffers_new, (0, []))))) \<subseteq>
     accounted (fst (fold (buffer_step list_effects) demo_requests (buffers_new, (0, [])))) \<and>
   mapping_law (\<lambda>w. set (snd w)) list_effects"
  using buffers_account_mappings [OF list_effects_law, of demo_requests "(0, [])"
      "fst (fold (buffer_step list_effects) demo_requests (buffers_new, (0, [])))"
      "snd (fold (buffer_step list_effects) demo_requests (buffers_new, (0, [])))"] list_effects_law
  by simp

text \<open>What \<open>install_entries\<close> leaves in one entry: unchanged, or a candidate for the new owner.\<close>

definition staged :: "service_id \<Rightarrow> machine_word \<Rightarrow> buffer option \<Rightarrow> buffer option \<Rightarrow> bool" where
  "staged sid owner e e' \<longleftrightarrow> e' = e \<or>
     (\<exists>b m. e = Some b \<and> live_for sid b \<and> bf_candidate b = None \<and> e' = Some (b\<lparr>bf_candidate := Some m\<rparr>))"

definition complete :: "service_id \<Rightarrow> machine_word \<Rightarrow> buffer option \<Rightarrow> buffer option \<Rightarrow> bool" where
  "complete sid owner e e' \<longleftrightarrow>
     (case e of
        Some b \<Rightarrow> if live_for sid b
          then \<exists>m. bf_candidate b = None \<and> e' = Some (b\<lparr>bf_candidate := Some m\<rparr>) \<and> mp_owner m = owner \<and> mp_installed m = bf_pages b
            \<and> (mp_owner (bf_provider b) = owner \<longrightarrow> mp_address m = mp_address (bf_provider b))
          else e' = e
      | None \<Rightarrow> e' = e)"

definition moved :: "service_id \<Rightarrow> machine_word \<Rightarrow> buffer option \<Rightarrow> buffer option \<Rightarrow> bool" where
  "moved sid owner e e' \<longleftrightarrow>
     (case e of
        Some b \<Rightarrow> if live_for sid b
          then \<exists>m. bf_candidate b = None \<and> e' = Some (b\<lparr>bf_provider := m\<rparr>) \<and> mp_owner m = owner \<and> mp_installed m = bf_pages b
            \<and> (mp_owner (bf_provider b) = owner \<longrightarrow> mp_address m = mp_address (bf_provider b))
          else e' = e
      | None \<Rightarrow> e' = e)"

lemma install_entries_staged:
  "install_entries ef bs sid owner w = (r, bs', w') \<Longrightarrow>
   list_all2 (staged sid owner) bs bs' \<and> (r = Inr () \<longrightarrow> list_all2 (complete sid owner) bs bs')"
proof (induction bs arbitrary: r bs' w w')
  case (Cons e bs)
  have refl: "list_all2 (staged sid owner) bs bs" by (simp add: list_all2_conv_all_nth staged_def)
  consider "e = None" | b where "e = Some b" "\<not> live_for sid b" | b where "e = Some b" "live_for sid b" by (cases e) auto
  then show ?case
  proof cases
    case 1
    obtain r1 bs1 w1 where "install_entries ef bs sid owner w = (r1, bs1, w1)" by (metis prod_cases3)
    with Cons.IH [OF this] show ?thesis using Cons.prems 1 by (auto simp: staged_def [of _ _ None] complete_def [of _ _ None])
  next
    case 2
    obtain r1 bs1 w1 where "install_entries ef bs sid owner w = (r1, bs1, w1)" by (metis prod_cases3)
    moreover have "staged sid owner e e" "complete sid owner e e" using 2 by (simp_all add: staged_def complete_def)
    ultimately show ?thesis using Cons.IH [of w] Cons.prems 2 by auto
  next
    case (3 b)
    obtain r2 b2 w2 where e2: "install_one ef b owner w = (r2, b2, w2)" by (metis prod_cases3)
    note f = install_one_frame [OF e2]
    have st: "staged sid owner e (Some b2)" using f 3 by (auto simp: staged_def)
    obtain r3 bs3 w3 where e3: "install_entries ef bs sid owner w2 = (r3, bs3, w3)" by (metis prod_cases3)
    show ?thesis
    proof (cases r2)
      case (Inl x)
      then show ?thesis using Cons.prems 3 e2 st refl by auto
    next
      case (Inr u)
      then have "complete sid owner e (Some b2)" using f 3 by (auto simp: complete_def)
      then show ?thesis using Cons.IH [OF e3] Cons.prems 3 e2 e3 Inr st by auto
    qed
  qed
qed simp

definition drop_candidate :: "service_id \<Rightarrow> buffer \<Rightarrow> buffer" where
  "drop_candidate sid b = (if bf_service b = sid then b\<lparr>bf_candidate := None\<rparr> else b)"

lemma discard_drops:
  "discard_candidates ef bs sid clean w = (c, bs', w') \<Longrightarrow>
   (c \<longrightarrow> clean \<and> bs' = map (map_option (drop_candidate sid)) bs) \<and>
   map (map_option (drop_candidate sid)) bs' = map (map_option (drop_candidate sid)) bs"
proof (induction bs arbitrary: clean c bs' w w')
  case (Cons e bs)
  obtain c1 bs1 w1 where e1: "discard_candidates ef bs sid clean w = (c1, bs1, w1)" by (metis prod_cases3)
  consider "e = None" | b where "e = Some b" "(if bf_service b = sid then bf_candidate b else None) = None"
    | b m where "e = Some b" "bf_service b = sid" "bf_candidate b = Some m"
    by (cases e; cases "bf_service (the e) = sid"; cases "bf_candidate (the e)") auto
  then show ?case
  proof cases
    case 1
    then show ?thesis using Cons.IH [OF e1] Cons.prems e1 by auto
  next
    case (2 b)
    then have "discard_candidates ef (e # bs) sid clean w = (c1, e # bs1, w1)" using e1 by simp
    moreover have "drop_candidate sid b = b" using 2 by (auto simp: drop_candidate_def split: if_splits)
    ultimately show ?thesis using Cons.IH [OF e1] Cons.prems 2 by auto
  next
    case (3 b m)
    obtain r2 m2 w2 where e2: "unmap_pages ef m (bf_physical b) w = (r2, m2, w2)" by (metis prod_cases3)
    obtain c3 bs3 w3 where e3: "discard_candidates ef bs sid (clean \<and> \<not> isl r2) w2 = (c3, bs3, w3)" by (metis prod_cases3)
    show ?thesis using Cons.IH [OF e3] Cons.prems 3 e2 e3 by (cases r2) (auto simp: drop_candidate_def)
  qed
qed simp

lemma staged_drop:
  "list_all2 (staged sid owner) bs bs' \<Longrightarrow> map (map_option (drop_candidate sid)) bs' = map (map_option (drop_candidate sid)) bs"
proof (induction rule: list_all2_induct)
  case (Cons e bs e' bs')
  then show ?case by (auto simp: staged_def drop_candidate_def live_for_def)
qed simp

text \<open>Only a live buffer has a candidate: a failed creation has none, and a buffer with one cannot be closed.\<close>

fun candidate_live :: "buffer option \<Rightarrow> bool" where
  "candidate_live None \<longleftrightarrow> True"
| "candidate_live (Some b) \<longleftrightarrow> bf_candidate b = None \<or> bf_ready b \<and> \<not> bf_closed b"

lemma candidate_live_update: "list_all candidate_live bs \<Longrightarrow> candidate_live e \<Longrightarrow> list_all candidate_live (bs[i := e])"
  using set_update_subset_insert [of bs i e] by (auto simp: list_all_iff)

lemma populate_candidate:
  assumes "populate ef (fresh_buffer sid physical pages cl pr) w = (r, b, w')"
  shows "bf_candidate b = None"
proof -
  have "mapping_law (\<lambda>_. {}) ef" by (simp add: mapping_law_def)
  from populate_spec [OF this assms] show ?thesis by (simp add: fresh_buffer_def)
qed

lemma create_live:
  assumes "list_all candidate_live bs" and "buffer_create ef bs cid sid cl pr pages w = (r, bs', w')"
  shows "list_all candidate_live bs'"
  using assms
  by (auto simp: buffer_create_def Let_def candidate_live_update split: sum.splits option.splits prod.splits if_splits dest!: populate_candidate)

lemma withdraw_live: "list_all candidate_live bs \<Longrightarrow> buffer_withdraw ef bs sid owner w = (r, bs', w') \<Longrightarrow> list_all candidate_live bs'"
  by (induction ef bs sid owner w arbitrary: r bs' w' rule: buffer_withdraw.induct)
    (force split: if_splits prod.splits sum.splits)+

lemma discard_live: "list_all candidate_live bs \<Longrightarrow> discard_candidates ef bs sid clean w = (c, bs', w') \<Longrightarrow> list_all candidate_live bs'"
  by (induction ef bs sid clean w arbitrary: c bs' w' rule: discard_candidates.induct)
    (force split: if_splits prod.splits sum.splits option.splits)+

lemma install_live:
  assumes live: "list_all candidate_live bs" and eq: "buffer_install ef bs sid owner slot w = (r, bs', w')"
  shows "list_all candidate_live bs'"
proof -
  obtain r1 bs1 w1 where e1: "install_entries ef bs sid owner w = (r1, bs1, w1)" by (metis prod_cases3)
  obtain r2 w2 where e2: "(case r1 of Inl e \<Rightarrow> (Inl e, w1) | Inr u \<Rightarrow> bx_receiver ef sid owner slot w1) = (r2, w2)" by force
  have "list_all2 (staged sid owner) bs bs1" using install_entries_staged [OF e1] by blast
  then have live1: "list_all candidate_live bs1" using live
    by (induction rule: list_all2_induct) (auto simp: staged_def live_for_def)
  have "candidate_live (map_option (promote sid) e)" if "candidate_live e" for e
    using that by (cases e) (auto simp: promote_def split: option.split)
  then have "list_all candidate_live (map (map_option (promote sid)) bs1)" using live1 by (auto simp: list_all_iff)
  then show ?thesis using eq install_unfold [OF e1 e2] discard_live [OF live1]
    by (cases r2) (auto split: prod.splits if_splits)
qed

lemma close_live: "list_all candidate_live bs \<Longrightarrow> buffer_close ef bs cid w = (r, bs', w') \<Longrightarrow> list_all candidate_live bs'"
  by (auto simp: buffer_close_def candidate_live_update split: sum.splits option.splits prod.splits if_splits)

lemma entries_after: "(\<And>r bs w. x = (r, bs, w) \<Longrightarrow> list_all P bs) \<Longrightarrow> list_all P (fst (snd x))"
  by (cases x) auto

lemma buffer_run_live: "list_all candidate_live (fst s) \<Longrightarrow> list_all candidate_live (fst (fold (buffer_step ef) qs s))"
proof (induction qs arbitrary: s)
  case (Cons q qs)
  obtain bs w where s: "s = (bs, w)" by force
  have live: "list_all candidate_live bs" using Cons.prems s by simp
  have "list_all candidate_live (fst (buffer_step ef q s))"
    by (cases q) (simp_all add: s, (rule entries_after, erule create_live [OF live] withdraw_live [OF live] install_live [OF live] close_live [OF live])+)
  then show ?case using Cons.IH by simp
qed simp

lemma promote_candidate:
  "bf_candidate b = None \<Longrightarrow> bf_service b = sid \<Longrightarrow> promote sid (b\<lparr>bf_candidate := Some m\<rparr>) = b\<lparr>bf_provider := m\<rparr>"
  by (cases b) (simp add: promote_def)

lemma complete_promote:
  assumes "list_all2 (complete sid owner) bs bs1" and "list_all candidate_live bs"
  shows "list_all2 (moved sid owner) bs (map (map_option (promote sid)) bs1)"
  using assms
proof (induction rule: list_all2_induct)
  case (Cons e bs e1 bs1)
  have "moved sid owner e (map_option (promote sid) e1)"
  proof (cases "\<exists>b. e = Some b \<and> live_for sid b")
    case True
    then obtain b where b: "e = Some b" "live_for sid b" by blast
    then obtain m where m: "bf_candidate b = None" "e1 = Some (b\<lparr>bf_candidate := Some m\<rparr>)" "mp_owner m = owner" "mp_installed m = bf_pages b"
        "mp_owner (bf_provider b) = owner \<longrightarrow> mp_address m = mp_address (bf_provider b)"
      using Cons.hyps(1) unfolding complete_def by auto
    have "map_option (promote sid) e1 = Some (b\<lparr>bf_provider := m\<rparr>)"
      using m(1,2) b(2) promote_candidate [of b sid m] by (simp add: live_for_def)
    then show ?thesis using m b by (simp add: moved_def) blast
  next
    case False
    then have "e1 = e" using Cons.hyps(1) by (auto simp: complete_def split: option.splits)
    moreover have "map_option (promote sid) e = e"
      using False Cons.prems by (cases e) (auto simp: promote_def live_for_def split: option.split)
    ultimately show ?thesis using False by (auto simp: moved_def split: option.split)
  qed
  then show ?case using Cons.IH Cons.prems by simp
qed simp

text \<open>
  C25: moving the buffers of a service to a new provider, in every state that requests to the buffer table reach.
  A successful \<open>install\<close> gives every live buffer of the service a provider mapping of all its pages in the new
  owner, at the old address when the owner is the same, leaves no candidate mapping on it, and changes no other
  entry. A failed one changes no field of any buffer but the candidate mappings of the service; when the error is
  not \<open>Fatal\<close> these are all gone, so that a buffer that had none is exactly as before, and only \<open>Fatal\<close> may leave
  some behind.
\<close>

theorem install_all_or_nothing:
  assumes "fold (buffer_step ef) qs (buffers_new, w0) = (bs, w)" and "buffer_install ef bs sid owner slot w = (r, bs', w')"
  shows "case r of
      Inr u \<Rightarrow> list_all2 (moved sid owner) bs bs'
    | Inl error \<Rightarrow> map (map_option (drop_candidate sid)) bs' = map (map_option (drop_candidate sid)) bs \<and>
        (error \<noteq> Fatal \<longrightarrow> bs' = map (map_option (drop_candidate sid)) bs)"
proof -
  have live: "list_all candidate_live bs"
    using buffer_run_live [of "(buffers_new, w0)" ef qs] assms(1) by (simp add: buffers_new_def list_all_length)
  obtain r1 bs1 w1 where e1: "install_entries ef bs sid owner w = (r1, bs1, w1)" by (metis prod_cases3)
  note st = install_entries_staged [OF e1]
  note drop = staged_drop [OF conjunct1 [OF st]]
  obtain r2 w2 where e2: "(case r1 of Inl e \<Rightarrow> (Inl e, w1) | Inr u \<Rightarrow> bx_receiver ef sid owner slot w1) = (r2, w2)" by force
  note unf = install_unfold [OF e1 e2]
  show ?thesis
  proof (cases r2)
    case (Inl x)
    obtain c bs3 w3 where e3: "discard_candidates ef bs1 sid True w2 = (c, bs3, w3)" by (metis prod_cases3)
    show ?thesis using assms(2) unf Inl e3 discard_drops [OF e3, unfolded drop] by (cases c) auto
  next
    case (Inr u)
    then have ok: "r1 = Inr ()" using e2 by (cases r1) auto
    have "bs' = map (map_option (promote sid)) bs1" "r = Inr ()" using assms(2) unf Inr by auto
    then show ?thesis using st ok complete_promote [OF _ live, of sid owner] by simp
  qed
qed

definition demo_moves :: "buffer_request list" where
  "demo_moves = [CreateBuffer (SessionId (SESSION_IDENTIFIER_BIT OR 1)) (ServiceId 5) 7 8 1, WithdrawBuffers (ServiceId 5) 8]"

definition demo_buffer :: "nat \<Rightarrow> buffer" where
  "demo_buffer installed = \<lparr>bf_service = ServiceId 5, bf_physical = 0, bf_pages = 1,
     bf_client = \<lparr>mp_owner = 7, mp_address = 4096, mp_installed = 1\<rparr>,
     bf_provider = \<lparr>mp_owner = 8, mp_address = 8192, mp_installed = installed\<rparr>,
     bf_candidate = None, bf_closed = False, bf_ready = True\<rparr>"

lemma empty_entries:
  "buffer_withdraw ef (replicate n None) sid owner w = (Inr (), replicate n None, w)"
  "install_entries ef (replicate n None) sid owner w = (Inr (), replicate n None, w)"
  by (induction n) simp_all

lemma demo_index: "session_index (SessionId (SESSION_IDENTIFIER_BIT OR 1)) = Inr 0"
  by code_simp

lemma demo_create:
  "buffer_create list_effects buffers_new (SessionId (SESSION_IDENTIFIER_BIT OR 1)) (ServiceId 5) 7 8 1 (0, []) =
     (Inr \<lparr>sb_address = 4096, sb_bytes = 4096\<rparr>, Some (demo_buffer 1) # replicate 63 None, (3, [(8, 8192, 0), (7, 4096, 0)]))"
proof -
  have new: "buffers_new = None # replicate 63 None" by (simp add: buffers_new_def SESSIONS_def numeral_eq_Suc)
  have "populate list_effects (fresh_buffer (ServiceId 5) 0 1 7 8) (1, []) = (Inr (), (demo_buffer 1)\<lparr>bf_ready := False\<rparr>, (3, [(8, 8192, 0), (7, 4096, 0)]))"
    by (simp add: populate_def fresh_buffer_def list_effects_def demo_buffer_def PAGE_def)
  then show ?thesis unfolding buffer_create_def demo_index new
    by (simp add: list_effects_def client_view_def demo_buffer_def PAGE_def)
qed

lemma demo_moves_state:
  "fold (buffer_step list_effects) demo_moves (buffers_new, (0, [])) = (Some (demo_buffer 0) # replicate 63 None, (3, [(7, 4096, 0)]))"
proof -
  have "buffer_withdraw list_effects (Some (demo_buffer 1) # replicate 63 None) (ServiceId 5) 8 (3, [(8, 8192, 0), (7, 4096, 0)]) =
      (Inr (), Some (demo_buffer 0) # replicate 63 None, (3, [(7, 4096, 0)]))"
    by (simp add: demo_buffer_def live_for_def empty_entries unmap_pages.simps list_effects_def PAGE_def)
  then show ?thesis using demo_create by (simp add: demo_moves_def)
qed

theorem install_all_or_nothing_witness:
  "\<exists>bs'. buffer_install list_effects (Some (demo_buffer 0) # replicate 63 None) (ServiceId 5) 9 0 (3, [(7, 4096, 0)]) =
       (Inr (), bs', (4, [(9, 12288, 0), (7, 4096, 0)])) \<and>
     list_all2 (moved (ServiceId 5) 9) (Some (demo_buffer 0) # replicate 63 None) bs'"
proof -
  have "install_entries list_effects (Some (demo_buffer 0) # replicate 63 None) (ServiceId 5) 9 (3, [(7, 4096, 0)]) =
      (Inr (), Some ((demo_buffer 0)\<lparr>bf_candidate := Some \<lparr>mp_owner = 9, mp_address = 12288, mp_installed = 1\<rparr>\<rparr>) # replicate 63 None,
       (4, [(9, 12288, 0), (7, 4096, 0)]))"
    by (simp add: demo_buffer_def live_for_def install_one_def empty_entries list_effects_def PAGE_def)
  then obtain bs' where run: "buffer_install list_effects (Some (demo_buffer 0) # replicate 63 None) (ServiceId 5) 9 0 (3, [(7, 4096, 0)]) =
      (Inr (), bs', (4, [(9, 12288, 0), (7, 4096, 0)]))"
    unfolding buffer_install_def by (simp add: list_effects_def del: install_entries.simps)
  show ?thesis using install_all_or_nothing [OF demo_moves_state run] run by simp
qed

end
