(* ===== verification/Static_Avl.thy ===== *)
theory Static_Avl imports Avl_Tree "HOL-Library.Monad_Syntax" begin

text \<open>
  The allocation-free ordered map of \<open>nanami_utils/static_avl.rs\<close>: an AVL tree whose nodes live in an
  array of fixed length and refer to each other by index, with a free list through the left links of
  the unused nodes. An index out of range, a failed \<open>expect\<close> and a recursion that does not end are
  \<open>None\<close>. The second part shows that the array represents the tree of \<open>Avl_Tree\<close> after every call, so
  that none of these happens and the calls answer like a finite map of bounded capacity.
\<close>

section \<open>Definitions\<close>

record arena_node =
  an_key :: machine_word
  an_value :: machine_word
  an_left :: "nat option"
  an_right :: "nat option"
  an_height :: int

definition EMPTY_NODE :: arena_node where
  "EMPTY_NODE = \<lparr>an_key = 0, an_value = 0, an_left = None, an_right = None, an_height = 0\<rparr>"

record static_avl =
  sa_root :: "nat option"
  sa_free :: "nat option"
  sa_initialized :: nat
  sa_nodes :: "arena_node list"

definition static_new :: "nat \<Rightarrow> static_avl" where
  "static_new n = \<lparr>sa_root = None, sa_free = None, sa_initialized = 0, sa_nodes = replicate n EMPTY_NODE\<rparr>"

definition node_at :: "arena_node list \<Rightarrow> nat \<Rightarrow> arena_node option" where
  "node_at ns i = (if i < length ns then Some (ns ! i) else None)"

definition node_update :: "arena_node list \<Rightarrow> nat \<Rightarrow> (arena_node \<Rightarrow> arena_node) \<Rightarrow> arena_node list option" where
  "node_update ns i f = (if i < length ns then Some (ns[i := f (ns ! i)]) else None)"

fun arena_height :: "arena_node list \<Rightarrow> nat option \<Rightarrow> int option" where
  "arena_height ns (Some i) = map_option an_height (node_at ns i)"
| "arena_height ns None = Some 0"

definition arena_balance_factor :: "arena_node list \<Rightarrow> nat \<Rightarrow> int option" where
  "arena_balance_factor ns i = do {
     n \<leftarrow> node_at ns i;
     l \<leftarrow> arena_height ns (an_left n);
     r \<leftarrow> arena_height ns (an_right n);
     Some (l - r)}"

definition arena_recompute_height :: "arena_node list \<Rightarrow> nat \<Rightarrow> arena_node list option" where
  "arena_recompute_height ns i = do {
     n \<leftarrow> node_at ns i;
     left_h \<leftarrow> arena_height ns (an_left n);
     right_h \<leftarrow> arena_height ns (an_right n);
     node_update ns i (an_height_update (\<lambda>_. if left_h > right_h then left_h + 1 else right_h + 1))}"

definition arena_rotate_left :: "arena_node list \<Rightarrow> nat \<Rightarrow> (nat \<times> arena_node list) option" where
  "arena_rotate_left ns x = do {
     nx \<leftarrow> node_at ns x;
     y \<leftarrow> an_right nx;
     ny \<leftarrow> node_at ns y;
     ns \<leftarrow> node_update ns y (an_left_update (\<lambda>_. Some x));
     ns \<leftarrow> node_update ns x (an_right_update (\<lambda>_. an_left ny));
     ns \<leftarrow> arena_recompute_height ns x;
     ns \<leftarrow> arena_recompute_height ns y;
     Some (y, ns)}"

definition arena_rotate_right :: "arena_node list \<Rightarrow> nat \<Rightarrow> (nat \<times> arena_node list) option" where
  "arena_rotate_right ns y = do {
     ny \<leftarrow> node_at ns y;
     x \<leftarrow> an_left ny;
     nx \<leftarrow> node_at ns x;
     ns \<leftarrow> node_update ns x (an_right_update (\<lambda>_. Some y));
     ns \<leftarrow> node_update ns y (an_left_update (\<lambda>_. an_right nx));
     ns \<leftarrow> arena_recompute_height ns y;
     ns \<leftarrow> arena_recompute_height ns x;
     Some (x, ns)}"

definition arena_rebalance :: "arena_node list \<Rightarrow> nat \<Rightarrow> (nat \<times> arena_node list) option" where
  "arena_rebalance ns i = do {
     bf \<leftarrow> arena_balance_factor ns i;
     if bf > 1 then do {
       n \<leftarrow> node_at ns i;
       left \<leftarrow> an_left n;
       lbf \<leftarrow> arena_balance_factor ns left;
       ns \<leftarrow> (if lbf < 0 then do {
           (new_left, ns) \<leftarrow> arena_rotate_left ns left;
           node_update ns i (an_left_update (\<lambda>_. Some new_left))}
         else Some ns);
       arena_rotate_right ns i}
     else if bf < -1 then do {
       n \<leftarrow> node_at ns i;
       right \<leftarrow> an_right n;
       rbf \<leftarrow> arena_balance_factor ns right;
       ns \<leftarrow> (if rbf > 0 then do {
           (new_right, ns) \<leftarrow> arena_rotate_right ns right;
           node_update ns i (an_right_update (\<lambda>_. Some new_right))}
         else Some ns);
       arena_rotate_left ns i}
     else Some (i, ns)}"

definition allocate_node :: "static_avl \<Rightarrow> machine_word \<Rightarrow> machine_word \<Rightarrow> ((unit + nat) \<times> static_avl) option" where
  "allocate_node t key val =
     (let fresh = \<lparr>an_key = key, an_value = val, an_left = None, an_right = None, an_height = 1\<rparr>
      in case sa_free t of
           Some i \<Rightarrow> do {
             n \<leftarrow> node_at (sa_nodes t) i;
             ns \<leftarrow> node_update (sa_nodes t) i (\<lambda>_. fresh);
             Some (Inr i, t\<lparr>sa_free := an_left n, sa_nodes := ns\<rparr>)}
         | None \<Rightarrow>
             if sa_initialized t < length (sa_nodes t) then do {
               ns \<leftarrow> node_update (sa_nodes t) (sa_initialized t) (\<lambda>_. fresh);
               Some (Inr (sa_initialized t), t\<lparr>sa_initialized := sa_initialized t + 1, sa_nodes := ns\<rparr>)}
             else Some (Inl (), t))"

definition release_node :: "static_avl \<Rightarrow> nat \<Rightarrow> static_avl option" where
  "release_node t i = do {
     ns \<leftarrow> node_update (sa_nodes t) i (\<lambda>_. EMPTY_NODE\<lparr>an_left := sa_free t\<rparr>);
     Some (t\<lparr>sa_free := Some i, sa_nodes := ns\<rparr>)}"

text \<open>The tail of \<open>insert_at\<close>, \<open>remove_at\<close> and \<open>take_min\<close>: recompute the height of a node and rebalance it.\<close>

definition arena_settle :: "arena_node list \<Rightarrow> nat \<Rightarrow> (nat \<times> arena_node list) option" where
  "arena_settle ns i = do { ns \<leftarrow> arena_recompute_height ns i; arena_rebalance ns i }"

partial_function (option) insert_at ::
  "static_avl \<Rightarrow> nat option \<Rightarrow> machine_word \<Rightarrow> machine_word \<Rightarrow> ((unit + nat) \<times> static_avl) option" where
  "insert_at t current key val =
     (case current of
        None \<Rightarrow> allocate_node t key val
      | Some i \<Rightarrow> do {
          n \<leftarrow> node_at (sa_nodes t) i;
          if key < an_key n then do {
            (r, t) \<leftarrow> insert_at t (an_left n) key val;
            case r of Inl e \<Rightarrow> Some (Inl e, t)
            | Inr left \<Rightarrow> do {
                ns \<leftarrow> node_update (sa_nodes t) i (an_left_update (\<lambda>_. Some left));
                (j, ns) \<leftarrow> arena_settle ns i;
                Some (Inr j, t\<lparr>sa_nodes := ns\<rparr>)}}
          else if key > an_key n then do {
            (r, t) \<leftarrow> insert_at t (an_right n) key val;
            case r of Inl e \<Rightarrow> Some (Inl e, t)
            | Inr right \<Rightarrow> do {
                ns \<leftarrow> node_update (sa_nodes t) i (an_right_update (\<lambda>_. Some right));
                (j, ns) \<leftarrow> arena_settle ns i;
                Some (Inr j, t\<lparr>sa_nodes := ns\<rparr>)}}
          else do {
            ns \<leftarrow> node_update (sa_nodes t) i (an_value_update (\<lambda>_. val));
            Some (Inr i, t\<lparr>sa_nodes := ns\<rparr>)}})"

partial_function (option) take_min :: "arena_node list \<Rightarrow> nat \<Rightarrow> ((nat option \<times> nat) \<times> arena_node list) option" where
  "take_min ns i = do {
     n \<leftarrow> node_at ns i;
     case an_left n of
       None \<Rightarrow> Some ((an_right n, i), ns)
     | Some left \<Rightarrow> do {
         ((new_left, min_index), ns) \<leftarrow> take_min ns left;
         ns \<leftarrow> node_update ns i (an_left_update (\<lambda>_. new_left));
         (j, ns) \<leftarrow> arena_settle ns i;
         Some ((Some j, min_index), ns)}}"

partial_function (option) remove_at ::
  "static_avl \<Rightarrow> nat option \<Rightarrow> machine_word \<Rightarrow> ((nat option \<times> machine_word option) \<times> static_avl) option" where
  "remove_at t current key =
     (case current of
        None \<Rightarrow> Some ((None, None), t)
      | Some i \<Rightarrow> do {
          n \<leftarrow> node_at (sa_nodes t) i;
          if key < an_key n then do {
            ((left, removed), t) \<leftarrow> remove_at t (an_left n) key;
            if removed = None then Some ((Some i, None), t)
            else do {
              ns \<leftarrow> node_update (sa_nodes t) i (an_left_update (\<lambda>_. left));
              (j, ns) \<leftarrow> arena_settle ns i;
              Some ((Some j, removed), t\<lparr>sa_nodes := ns\<rparr>)}}
          else if key > an_key n then do {
            ((right, removed), t) \<leftarrow> remove_at t (an_right n) key;
            if removed = None then Some ((Some i, None), t)
            else do {
              ns \<leftarrow> node_update (sa_nodes t) i (an_right_update (\<lambda>_. right));
              (j, ns) \<leftarrow> arena_settle ns i;
              Some ((Some j, removed), t\<lparr>sa_nodes := ns\<rparr>)}}
          else if an_left n = None then do {
            t \<leftarrow> release_node t i;
            Some ((an_right n, Some (an_value n)), t)}
          else case an_right n of
            None \<Rightarrow> do {
              t \<leftarrow> release_node t i;
              Some ((an_left n, Some (an_value n)), t)}
          | Some right \<Rightarrow> do {
              ((new_right, successor), ns) \<leftarrow> take_min (sa_nodes t) right;
              s \<leftarrow> node_at ns successor;
              ns \<leftarrow> node_update ns i (\<lambda>n. n\<lparr>an_key := an_key s, an_value := an_value s, an_right := new_right\<rparr>);
              t \<leftarrow> release_node (t\<lparr>sa_nodes := ns\<rparr>) successor;
              (j, ns) \<leftarrow> arena_settle (sa_nodes t) i;
              Some ((Some j, Some (an_value n)), t\<lparr>sa_nodes := ns\<rparr>)}})"

partial_function (option) find_from :: "arena_node list \<Rightarrow> nat option \<Rightarrow> machine_word \<Rightarrow> machine_word option option" where
  "find_from ns cursor key =
     (case cursor of
        None \<Rightarrow> Some None
      | Some i \<Rightarrow> do {
          n \<leftarrow> node_at ns i;
          if key < an_key n then find_from ns (an_left n) key
          else if key > an_key n then find_from ns (an_right n) key
          else Some (Some (an_value n))})"

definition static_insert :: "static_avl \<Rightarrow> machine_word \<Rightarrow> machine_word \<Rightarrow> ((unit + unit) \<times> static_avl) option" where
  "static_insert t key val = do {
     (r, t) \<leftarrow> insert_at t (sa_root t) key val;
     case r of Inl e \<Rightarrow> Some (Inl e, t) | Inr new_root \<Rightarrow> Some (Inr (), t\<lparr>sa_root := Some new_root\<rparr>)}"

definition static_find :: "static_avl \<Rightarrow> machine_word \<Rightarrow> machine_word option option" where
  "static_find t key = find_from (sa_nodes t) (sa_root t) key"

definition static_remove :: "static_avl \<Rightarrow> machine_word \<Rightarrow> (machine_word option \<times> static_avl) option" where
  "static_remove t key = do {
     ((root, removed), t) \<leftarrow> remove_at t (sa_root t) key;
     Some (removed, t\<lparr>sa_root := root\<rparr>)}"

section \<open>The array represents a tree\<close>

text \<open>\<open>rep ns p t S\<close>: following the links from \<open>p\<close> gives the tree \<open>t\<close>, whose nodes are the disjoint indices \<open>S\<close>.\<close>

fun rep :: "arena_node list \<Rightarrow> nat option \<Rightarrow> avl_tree \<Rightarrow> nat set \<Rightarrow> bool" where
  "rep ns p AvlNil S \<longleftrightarrow> p = None \<and> S = {}"
| "rep ns p (AvlNode k v l r h) S \<longleftrightarrow>
     (\<exists>i pl pr Sl Sr. p = Some i \<and> i < length ns \<and>
        ns ! i = \<lparr>an_key = k, an_value = v, an_left = pl, an_right = pr, an_height = h\<rparr> \<and>
        rep ns pl l Sl \<and> rep ns pr r Sr \<and> S = insert i (Sl \<union> Sr) \<and> i \<notin> Sl \<and> i \<notin> Sr \<and> Sl \<inter> Sr = {})"

definition same_outside :: "nat set \<Rightarrow> arena_node list \<Rightarrow> arena_node list \<Rightarrow> bool" where
  "same_outside S ns ns' \<longleftrightarrow> length ns' = length ns \<and> (\<forall>i. i \<notin> S \<longrightarrow> ns' ! i = ns ! i)"

lemma rep_None [simp]: "rep ns None t S \<longleftrightarrow> t = AvlNil \<and> S = {}"
  by (cases t) auto

lemma rep_bounds: "rep ns p t S \<Longrightarrow> i \<in> S \<Longrightarrow> i < length ns"
  by (induction t arbitrary: p S) auto

lemma rep_frame: "rep ns p t S \<Longrightarrow> same_outside T ns ns' \<Longrightarrow> S \<inter> T = {} \<Longrightarrow> rep ns' p t S"
proof (induction t arbitrary: p S)
  case (AvlNode k v l r h)
  from AvlNode.prems(1) obtain i pl pr Sl Sr where i: "p = Some i" "i < length ns"
    "ns ! i = \<lparr>an_key = k, an_value = v, an_left = pl, an_right = pr, an_height = h\<rparr>"
    "rep ns pl l Sl" "rep ns pr r Sr" "S = insert i (Sl \<union> Sr)" "i \<notin> Sl" "i \<notin> Sr" "Sl \<inter> Sr = {}"
    unfolding rep.simps by blast
  have "rep ns' pl l Sl" "rep ns' pr r Sr" using AvlNode.IH i(4,5,6) AvlNode.prems(2,3) by blast+
  moreover have "i < length ns'" "ns' ! i = ns ! i" using AvlNode.prems(2,3) i(2,6) by (auto simp: same_outside_def)
  ultimately show ?case using i by auto
qed simp

lemma same_outside_refl [simp]: "same_outside S ns ns"
  by (simp add: same_outside_def)

lemma same_outside_trans:
  assumes "same_outside S ns ns'" and "same_outside T ns' ns''" and "S \<subseteq> U" and "T \<subseteq> U"
  shows "same_outside U ns ns''"
proof -
  have "ns'' ! i = ns ! i" if "i \<notin> U" for i
  proof -
    have "i \<notin> S" "i \<notin> T" using that assms(3,4) by auto
    then show ?thesis using assms(1,2) by (simp add: same_outside_def)
  qed
  then show ?thesis using assms(1,2) by (simp add: same_outside_def)
qed

lemma same_outside_update [simp]: "i \<in> S \<Longrightarrow> same_outside S ns (ns[i := n])"
  by (metis same_outside_def length_list_update nth_list_update_neq)

lemma arena_height_rep: "rep ns p t S \<Longrightarrow> arena_height ns p = Some (avl_height t)"
  by (cases t) (auto simp: node_at_def)

text \<open>The five facts that make up a node of the representation, as a rule in each direction.\<close>

lemma rep_node_intro:
  assumes "i < length ns" and "ns ! i = \<lparr>an_key = k, an_value = v, an_left = pl, an_right = pr, an_height = h\<rparr>"
    and "rep ns pl l Sl" and "rep ns pr r Sr" and "i \<notin> Sl" and "i \<notin> Sr" and "Sl \<inter> Sr = {}"
  shows "rep ns (Some i) (AvlNode k v l r h) (insert i (Sl \<union> Sr))"
  using assms by auto

lemma rep_node_elim:
  assumes "rep ns p (AvlNode k v l r h) S"
  obtains i pl pr Sl Sr where "p = Some i" "i < length ns"
    "ns ! i = \<lparr>an_key = k, an_value = v, an_left = pl, an_right = pr, an_height = h\<rparr>"
    "rep ns pl l Sl" "rep ns pr r Sr" "S = insert i (Sl \<union> Sr)" "i \<notin> Sl" "i \<notin> Sr" "Sl \<inter> Sr = {}"
  using assms unfolding rep.simps by blast

lemma rep_some_elim:
  assumes "rep ns (Some i) (AvlNode k v l r h) S"
  obtains pl pr Sl Sr where "i < length ns"
    "ns ! i = \<lparr>an_key = k, an_value = v, an_left = pl, an_right = pr, an_height = h\<rparr>"
    "rep ns pl l Sl" "rep ns pr r Sr" "S = insert i (Sl \<union> Sr)" "i \<notin> Sl" "i \<notin> Sr" "Sl \<inter> Sr = {}"
  using assms unfolding rep.simps option.inject by blast

declare rep.simps(2) [simp del]

text \<open>Writing one node keeps the subtrees it does not belong to.\<close>

lemma rep_update_other: "rep ns p t S \<Longrightarrow> i \<notin> S \<Longrightarrow> rep (ns[i := n]) p t S"
  by (rule rep_frame [of _ _ _ _ "{i}"]) auto

lemma recompute_rep:
  assumes "rep ns pl l Sl" and "rep ns pr r Sr" and "i < length ns" and "an_left (ns ! i) = pl" and "an_right (ns ! i) = pr"
  shows "arena_recompute_height ns i = Some (ns[i := (ns ! i)\<lparr>an_height := taller (avl_height l) (avl_height r)\<rparr>])"
  using assms arena_height_rep [OF assms(1)] arena_height_rep [OF assms(2)]
  by (simp add: arena_recompute_height_def node_at_def node_update_def taller_def)

lemma rotate_left_rep:
  assumes "rep ns (Some x) (AvlNode kx vx lx (AvlNode ky vy t2 ry hy) hx) S"
  shows "\<exists>y ns'. arena_rotate_left ns x = Some (y, ns') \<and>
    rep ns' (Some y) (rotate_left (AvlNode kx vx lx (AvlNode ky vy t2 ry hy) hx)) S \<and> same_outside S ns ns'"
proof -
  obtain pl pr Sl Sr where x: "x < length ns"
    "ns ! x = \<lparr>an_key = kx, an_value = vx, an_left = pl, an_right = pr, an_height = hx\<rparr>"
    "rep ns pl lx Sl" "rep ns pr (AvlNode ky vy t2 ry hy) Sr" "S = insert x (Sl \<union> Sr)" "x \<notin> Sl" "x \<notin> Sr" "Sl \<inter> Sr = {}"
    using assms by (rule rep_some_elim)
  obtain y p2 py S2 Sy where y: "pr = Some y" "y < length ns"
    "ns ! y = \<lparr>an_key = ky, an_value = vy, an_left = p2, an_right = py, an_height = hy\<rparr>"
    "rep ns p2 t2 S2" "rep ns py ry Sy" "Sr = insert y (S2 \<union> Sy)" "y \<notin> S2" "y \<notin> Sy" "S2 \<inter> Sy = {}"
    using x(4) by (rule rep_node_elim)
  have d: "x \<noteq> y" "x \<notin> S2" "x \<notin> Sy" "y \<notin> Sl" using x y by auto
  let ?ny = "\<lparr>an_key = ky, an_value = vy, an_left = Some x, an_right = py, an_height = hy\<rparr>"
  let ?nx = "\<lparr>an_key = kx, an_value = vx, an_left = pl, an_right = p2, an_height = hx\<rparr>"
  let ?nx' = "?nx\<lparr>an_height := taller (avl_height lx) (avl_height t2)\<rparr>"
  let ?ns1 = "ns[y := ?ny, x := ?nx]" and ?ns2 = "ns[y := ?ny, x := ?nx']"
  have r1: "rep ?ns1 pl lx Sl" "rep ?ns1 p2 t2 S2" "rep ?ns2 pl lx Sl" "rep ?ns2 p2 t2 S2" "rep ?ns2 py ry Sy"
    using x y d by (auto intro!: rep_update_other)
  have e1: "arena_recompute_height ?ns1 x = Some ?ns2"
    using recompute_rep [OF r1(1,2), of x] x(1) by simp
  let ?tx = "AvlNode kx vx lx t2 (taller (avl_height lx) (avl_height t2))"
  have rx: "rep ?ns2 (Some x) ?tx (insert x (Sl \<union> S2))"
    by (rule rep_node_intro [OF _ _ r1(3,4)]) (use x y d in auto)
  let ?ns3 = "?ns2[y := ?ny\<lparr>an_height := taller (avl_height ?tx) (avl_height ry)\<rparr>]"
  have e2: "arena_recompute_height ?ns2 y = Some ?ns3"
    using recompute_rep [OF rx r1(5), of y] x(1) y(2) d(1) by simp
  have rx3: "rep ?ns3 (Some x) ?tx (insert x (Sl \<union> S2))" "rep ?ns3 py ry Sy"
    using rx r1(5) y d by (auto intro!: rep_update_other)
  have "rep ?ns3 (Some y) (AvlNode ky vy ?tx ry (taller (avl_height ?tx) (avl_height ry))) (insert y (insert x (Sl \<union> S2) \<union> Sy))"
    by (rule rep_node_intro [OF _ _ rx3]) (use x y d in auto)
  moreover have "insert y (insert x (Sl \<union> S2) \<union> Sy) = S" using x y by auto
  moreover have "arena_rotate_left ns x = Some (y, ?ns3)"
    using x y d e1 e2 by (simp add: arena_rotate_left_def node_at_def node_update_def)
  moreover have "same_outside S ns ?ns3" using x y by (simp add: same_outside_def)
  ultimately show ?thesis by auto
qed

lemma rotate_right_rep:
  assumes "rep ns (Some y) (AvlNode ky vy (AvlNode kx vx lx t2 hx) ry hy) S"
  shows "\<exists>x ns'. arena_rotate_right ns y = Some (x, ns') \<and>
    rep ns' (Some x) (rotate_right (AvlNode ky vy (AvlNode kx vx lx t2 hx) ry hy)) S \<and> same_outside S ns ns'"
proof -
  obtain pl pr Sl Sr where y: "y < length ns"
    "ns ! y = \<lparr>an_key = ky, an_value = vy, an_left = pl, an_right = pr, an_height = hy\<rparr>"
    "rep ns pl (AvlNode kx vx lx t2 hx) Sl" "rep ns pr ry Sr" "S = insert y (Sl \<union> Sr)" "y \<notin> Sl" "y \<notin> Sr" "Sl \<inter> Sr = {}"
    using assms by (rule rep_some_elim)
  obtain x px p2 Sx S2 where x: "pl = Some x" "x < length ns"
    "ns ! x = \<lparr>an_key = kx, an_value = vx, an_left = px, an_right = p2, an_height = hx\<rparr>"
    "rep ns px lx Sx" "rep ns p2 t2 S2" "Sl = insert x (Sx \<union> S2)" "x \<notin> Sx" "x \<notin> S2" "Sx \<inter> S2 = {}"
    using y(3) by (rule rep_node_elim)
  have d: "x \<noteq> y" "y \<notin> S2" "y \<notin> Sx" "x \<notin> Sr" using x y by auto
  let ?nx = "\<lparr>an_key = kx, an_value = vx, an_left = px, an_right = Some y, an_height = hx\<rparr>"
  let ?ny = "\<lparr>an_key = ky, an_value = vy, an_left = p2, an_right = pr, an_height = hy\<rparr>"
  let ?ny' = "?ny\<lparr>an_height := taller (avl_height t2) (avl_height ry)\<rparr>"
  let ?ns1 = "ns[x := ?nx, y := ?ny]" and ?ns2 = "ns[x := ?nx, y := ?ny']"
  have r1: "rep ?ns1 p2 t2 S2" "rep ?ns1 pr ry Sr" "rep ?ns2 p2 t2 S2" "rep ?ns2 pr ry Sr" "rep ?ns2 px lx Sx"
    using x y d by (auto intro!: rep_update_other)
  have e1: "arena_recompute_height ?ns1 y = Some ?ns2"
    using recompute_rep [OF r1(1,2), of y] y(1) by simp
  let ?ty = "AvlNode ky vy t2 ry (taller (avl_height t2) (avl_height ry))"
  have ry: "rep ?ns2 (Some y) ?ty (insert y (S2 \<union> Sr))"
    by (rule rep_node_intro [OF _ _ r1(3,4)]) (use x y d in auto)
  let ?ns3 = "?ns2[x := ?nx\<lparr>an_height := taller (avl_height lx) (avl_height ?ty)\<rparr>]"
  have e2: "arena_recompute_height ?ns2 x = Some ?ns3"
    using recompute_rep [OF r1(5) ry, of x] y(1) x(2) d(1) by simp
  have ry3: "rep ?ns3 px lx Sx" "rep ?ns3 (Some y) ?ty (insert y (S2 \<union> Sr))"
    using ry r1(5) x d by (auto intro!: rep_update_other)
  have "rep ?ns3 (Some x) (AvlNode kx vx lx ?ty (taller (avl_height lx) (avl_height ?ty))) (insert x (Sx \<union> insert y (S2 \<union> Sr)))"
    by (rule rep_node_intro [OF _ _ ry3]) (use x y d in auto)
  moreover have "insert x (Sx \<union> insert y (S2 \<union> Sr)) = S" using x y by auto
  moreover have "arena_rotate_right ns y = Some (x, ?ns3)"
    using x y d e1 e2 by (simp add: arena_rotate_right_def node_at_def node_update_def)
  moreover have "same_outside S ns ?ns3" using x y by (simp add: same_outside_def)
  ultimately show ?thesis by auto
qed

lemma balance_factor_rep:
  "rep ns (Some i) (AvlNode k v l r h) S \<Longrightarrow> arena_balance_factor ns i = Some (avl_height l - avl_height r)"
  by (erule rep_some_elim) (simp add: arena_balance_factor_def node_at_def arena_height_rep)

lemma rep_join:
  assumes "i < length ns" and "rep ns pl l Sl" and "rep ns pr r Sr" and "i \<notin> Sl" and "i \<notin> Sr" and "Sl \<inter> Sr = {}"
    and "n = \<lparr>an_key = k, an_value = v, an_left = pl, an_right = pr, an_height = h\<rparr>"
  shows "rep (ns[i := n]) (Some i) (AvlNode k v l r h) (insert i (Sl \<union> Sr))"
  by (rule rep_node_intro [of _ _ k v pl pr]) (use assms in \<open>auto intro: rep_update_other\<close>)

lemma rebalance_rep:
  assumes "rep ns (Some i) (AvlNode k v l r h) S" and "balanced l" and "balanced r"
  shows "\<exists>j ns'. arena_rebalance ns i = Some (j, ns') \<and> rep ns' (Some j) (rebalance (AvlNode k v l r h)) S \<and> same_outside S ns ns'"
proof -
  obtain pl pr Sl Sr where x: "i < length ns"
    "ns ! i = \<lparr>an_key = k, an_value = v, an_left = pl, an_right = pr, an_height = h\<rparr>"
    "rep ns pl l Sl" "rep ns pr r Sr" "S = insert i (Sl \<union> Sr)" "i \<notin> Sl" "i \<notin> Sr" "Sl \<inter> Sr = {}"
    using assms(1) by (rule rep_some_elim)
  note bf = balance_factor_rep [OF assms(1)]
  have nn: "0 \<le> avl_height l" "0 \<le> avl_height r" using assms(2,3) avl_height_nonneg by auto
  consider "avl_height l - avl_height r > 1" | "avl_height l - avl_height r < -1"
    | "\<not> avl_height l - avl_height r > 1" "\<not> avl_height l - avl_height r < -1" by linarith
  then show ?thesis
  proof cases
    case 1
    then obtain kl vl ll rl hl where l: "l = AvlNode kl vl ll rl hl" using nn by (cases l) auto
    obtain j where pl: "pl = Some j" using x(3) unfolding l by (rule rep_node_elim)
    have lbf: "arena_balance_factor ns j = Some (avl_height ll - avl_height rl)"
      using balance_factor_rep x(3) l pl by blast
    obtain ns1 where ns1: "(if avl_height ll - avl_height rl < 0
          then arena_rotate_left ns j \<bind> (\<lambda>(q, ns). node_update ns i (an_left_update (\<lambda>_. Some q))) else Some ns) = Some ns1"
        "rep ns1 (Some i) (AvlNode k v (if balance_factor l < 0 then rotate_left l else l) r h) S" "same_outside S ns ns1"
    proof (cases "avl_height ll - avl_height rl < 0")
      case True
      have "0 \<le> avl_height ll" using assms(2) l avl_height_nonneg by auto
      then obtain kr vr lr rr hr where rl: "rl = AvlNode kr vr lr rr hr" using True by (cases rl) auto
      obtain q ns2 where q: "arena_rotate_left ns j = Some (q, ns2)" "rep ns2 (Some q) (rotate_left l) Sl" "same_outside Sl ns ns2"
        using rotate_left_rep x(3) unfolding l rl pl by blast
      have r2: "rep ns2 pr r Sr" by (rule rep_frame [OF x(4) q(3)]) (use x(8) in auto)
      have i2: "i < length ns2" "ns2 ! i = ns ! i" using q(3) x(1,6) by (auto simp: same_outside_def)
      have "rep (ns2[i := (ns2 ! i)\<lparr>an_left := Some q\<rparr>]) (Some i) (AvlNode k v (rotate_left l) r h) S"
        unfolding x(5) by (rule rep_join [OF i2(1) q(2) r2]) (use x i2 in auto)
      moreover have "same_outside S ns (ns2[i := (ns2 ! i)\<lparr>an_left := Some q\<rparr>])"
        by (rule same_outside_trans [OF q(3) same_outside_update [of i S]]) (use x(5) in auto)
      ultimately show ?thesis using that True q(1) i2(1) l by (simp add: node_update_def)
    next
      case False
      then show ?thesis using that [of ns] assms(1) l by simp
    qed
    let ?l = "if balance_factor l < 0 then rotate_left l else l"
    have "?l \<noteq> AvlNil" using l by (auto elim!: rotate_left.elims)
    then obtain k1 v1 l1 r1 h1 where l1: "?l = AvlNode k1 v1 l1 r1 h1" by (cases ?l) auto
    obtain q ns2 where q: "arena_rotate_right ns1 i = Some (q, ns2)" "rep ns2 (Some q) (rotate_right (AvlNode k v ?l r h)) S"
      "same_outside S ns1 ns2"
      using rotate_right_rep ns1(2) unfolding l1 by blast
    have "rebalance (AvlNode k v l r h) = rotate_right (AvlNode k v ?l r h)" using 1 by simp
    moreover have "arena_rebalance ns i = Some (q, ns2)"
      using 1 bf ns1(1) q(1) x(1,2) pl lbf by (simp add: arena_rebalance_def node_at_def)
    ultimately show ?thesis using q same_outside_trans [OF ns1(3) q(3)] by auto
  next
    case 2
    then obtain kr vr lr rr hr where r: "r = AvlNode kr vr lr rr hr" using nn by (cases r) auto
    obtain j where pr: "pr = Some j" using x(4) unfolding r by (rule rep_node_elim)
    have rbf: "arena_balance_factor ns j = Some (avl_height lr - avl_height rr)"
      using balance_factor_rep x(4) r pr by blast
    obtain ns1 where ns1: "(if avl_height lr - avl_height rr > 0
          then arena_rotate_right ns j \<bind> (\<lambda>(q, ns). node_update ns i (an_right_update (\<lambda>_. Some q))) else Some ns) = Some ns1"
        "rep ns1 (Some i) (AvlNode k v l (if balance_factor r > 0 then rotate_right r else r) h) S" "same_outside S ns ns1"
    proof (cases "avl_height lr - avl_height rr > 0")
      case True
      have "0 \<le> avl_height rr" using assms(3) r avl_height_nonneg by auto
      then obtain kl vl ll rl hl where lr: "lr = AvlNode kl vl ll rl hl" using True by (cases lr) auto
      obtain q ns2 where q: "arena_rotate_right ns j = Some (q, ns2)" "rep ns2 (Some q) (rotate_right r) Sr" "same_outside Sr ns ns2"
        using rotate_right_rep x(4) unfolding r lr pr by blast
      have l2: "rep ns2 pl l Sl" by (rule rep_frame [OF x(3) q(3)]) (use x(8) in auto)
      have i2: "i < length ns2" "ns2 ! i = ns ! i" using q(3) x(1,7) by (auto simp: same_outside_def)
      have "rep (ns2[i := (ns2 ! i)\<lparr>an_right := Some q\<rparr>]) (Some i) (AvlNode k v l (rotate_right r) h) S"
        unfolding x(5) by (rule rep_join [OF i2(1) l2 q(2)]) (use x i2 in auto)
      moreover have "same_outside S ns (ns2[i := (ns2 ! i)\<lparr>an_right := Some q\<rparr>])"
        by (rule same_outside_trans [OF q(3) same_outside_update [of i S]]) (use x(5) in auto)
      ultimately show ?thesis using that True q(1) i2(1) r by (simp add: node_update_def)
    next
      case False
      then show ?thesis using that [of ns] assms(1) r by simp
    qed
    let ?r = "if balance_factor r > 0 then rotate_right r else r"
    have "?r \<noteq> AvlNil" using r by (auto elim!: rotate_right.elims)
    then obtain k1 v1 l1 r1 h1 where r1: "?r = AvlNode k1 v1 l1 r1 h1" by (cases ?r) auto
    obtain q ns2 where q: "arena_rotate_left ns1 i = Some (q, ns2)" "rep ns2 (Some q) (rotate_left (AvlNode k v l ?r h)) S"
      "same_outside S ns1 ns2"
      using rotate_left_rep ns1(2) unfolding r1 by blast
    have "rebalance (AvlNode k v l r h) = rotate_left (AvlNode k v l ?r h)" using 2 by simp
    moreover have "arena_rebalance ns i = Some (q, ns2)"
      using 2 bf ns1(1) q(1) x(1,2) pr rbf by (simp add: arena_rebalance_def node_at_def)
    ultimately show ?thesis using q same_outside_trans [OF ns1(3) q(3)] by auto
  next
    case 3
    then show ?thesis using assms(1) bf by (simp add: arena_rebalance_def)
  qed
qed

lemma settle_rep:
  assumes "rep ns (Some i) (AvlNode k v l r h) S" and "balanced l" and "balanced r"
  shows "\<exists>j ns'. arena_settle ns i = Some (j, ns') \<and>
    rep ns' (Some j) (rebalance (recompute_height (AvlNode k v l r h))) S \<and> same_outside S ns ns'"
proof -
  obtain pl pr Sl Sr where x: "i < length ns"
    "ns ! i = \<lparr>an_key = k, an_value = v, an_left = pl, an_right = pr, an_height = h\<rparr>"
    "rep ns pl l Sl" "rep ns pr r Sr" "S = insert i (Sl \<union> Sr)" "i \<notin> Sl" "i \<notin> Sr" "Sl \<inter> Sr = {}"
    using assms(1) by (rule rep_some_elim)
  let ?h = "taller (avl_height l) (avl_height r)"
  let ?ns = "ns[i := (ns ! i)\<lparr>an_height := ?h\<rparr>]"
  have e: "arena_recompute_height ns i = Some ?ns" by (rule recompute_rep [OF x(3,4,1)]) (simp_all add: x(2))
  have "rep ?ns (Some i) (AvlNode k v l r ?h) S"
    unfolding x(5) by (rule rep_join [OF x(1,3,4)]) (use x in auto)
  from rebalance_rep [OF this assms(2,3)] obtain j ns' where r: "arena_rebalance ?ns i = Some (j, ns')"
    "rep ns' (Some j) (rebalance (AvlNode k v l r ?h)) S" "same_outside S ?ns ns'" by blast
  have "same_outside S ns ns'"
    by (rule same_outside_trans [OF same_outside_update [of i S] r(3)]) (use x(5) in auto)
  then show ?thesis using e r by (auto simp: arena_settle_def)
qed

lemma find_from_rep: "rep ns p t S \<Longrightarrow> find_from ns p key = Some (avl_find t key)"
proof (induction t arbitrary: p S)
  case AvlNil
  then show ?case by (simp add: find_from.simps)
next
  case (AvlNode k v l r h)
  from AvlNode.prems show ?case
    by (rule rep_node_elim) (subst find_from.simps, use AvlNode.IH in \<open>auto simp: node_at_def\<close>)
qed

lemma take_min_rep:
  assumes "rep ns (Some i) t S" and "balanced t"
  shows "\<exists>q m ns'. take_min ns i = Some ((q, m), ns') \<and> m \<in> S \<and> rep ns' q (fst (take_min_node t)) (S - {m}) \<and>
    an_key (ns' ! m) = node_key (snd (take_min_node t)) \<and> an_value (ns' ! m) = node_value (snd (take_min_node t)) \<and> same_outside S ns ns'"
  using assms
proof (induction t arbitrary: i S ns)
  case (AvlNode k v l r h)
  obtain pl pr Sl Sr where x: "i < length ns"
    "ns ! i = \<lparr>an_key = k, an_value = v, an_left = pl, an_right = pr, an_height = h\<rparr>"
    "rep ns pl l Sl" "rep ns pr r Sr" "S = insert i (Sl \<union> Sr)" "i \<notin> Sl" "i \<notin> Sr" "Sl \<inter> Sr = {}"
    using AvlNode.prems(1) by (rule rep_some_elim)
  show ?case
  proof (cases pl)
    case None
    then have "l = AvlNil" "Sl = {}" using x(3) by auto
    then show ?thesis using x None by (subst take_min.simps) (simp add: node_at_def)
  next
    case (Some j)
    then have "l \<noteq> AvlNil" using x(3) by auto
    have bl: "balanced l" "balanced r" using AvlNode.prems(2) by auto
    obtain q m ns1 where q: "take_min ns j = Some ((q, m), ns1)" "m \<in> Sl" "rep ns1 q (fst (take_min_node l)) (Sl - {m})"
      "an_key (ns1 ! m) = node_key (snd (take_min_node l))" "an_value (ns1 ! m) = node_value (snd (take_min_node l))"
      "same_outside Sl ns ns1"
      using AvlNode.IH(1) [OF x(3) [unfolded Some] bl(1)] by blast
    have r1: "rep ns1 pr r Sr" by (rule rep_frame [OF x(4) q(6)]) (use x(8) in auto)
    have i1: "i < length ns1" "ns1 ! i = ns ! i" using q(6) x(1,6) by (auto simp: same_outside_def)
    let ?ns = "ns1[i := (ns1 ! i)\<lparr>an_left := q\<rparr>]" and ?l = "fst (take_min_node l)"
    have rj: "rep ?ns (Some i) (AvlNode k v ?l r h) (insert i (Sl - {m} \<union> Sr))"
      by (rule rep_join [OF i1(1) q(3) r1]) (use x i1 in auto)
    have "balanced ?l" using balanced_take_min [of l] bl(1) \<open>l \<noteq> AvlNil\<close> by (cases "take_min_node l") auto
    from settle_rep [OF rj this bl(2)] obtain j2 ns2 where s: "arena_settle ?ns i = Some (j2, ns2)"
      "rep ns2 (Some j2) (rebalance (recompute_height (AvlNode k v ?l r h))) (insert i (Sl - {m} \<union> Sr))"
      "same_outside (insert i (Sl - {m} \<union> Sr)) ?ns ns2" by blast
    have m: "m \<noteq> i" "m \<notin> Sr" using q(2) x by auto
    then have "insert i (Sl - {m} \<union> Sr) = S - {m}" using x(5) by auto
    moreover have "ns2 ! m = ns1 ! m" using s(3) m by (auto simp: same_outside_def)
    moreover have out: "same_outside S ns ns2"
    proof (rule same_outside_trans [OF q(6)])
      show "same_outside S ns1 ns2"
        by (rule same_outside_trans [OF same_outside_update [of i "{i}"] s(3)]) (use x(5) in auto)
    qed (use x(5) in auto)
    moreover have "take_min ns i = Some ((Some j2, m), ns2)"
      using x(1,2) Some q(1) i1 s(1) by (subst take_min.simps) (simp add: node_at_def node_update_def)
    moreover have "take_min_node (AvlNode k v l r h) = (rebalance (recompute_height (AvlNode k v ?l r h)), snd (take_min_node l))"
      using \<open>l \<noteq> AvlNil\<close> by (simp add: case_prod_unfold Let_def)
    ultimately show ?thesis using s(2) q x(5) by auto
  qed
qed simp

section \<open>The free nodes\<close>

fun free_list :: "arena_node list \<Rightarrow> nat option \<Rightarrow> nat list \<Rightarrow> bool" where
  "free_list ns p [] \<longleftrightarrow> p = None"
| "free_list ns p (i # is) \<longleftrightarrow> p = Some i \<and> i < length ns \<and> free_list ns (an_left (ns ! i)) is"

text \<open>\<open>pool t A\<close>: the nodes \<open>A\<close> are free, on the free list or never used yet.\<close>

definition pool :: "static_avl \<Rightarrow> nat set \<Rightarrow> bool" where
  "pool t A \<longleftrightarrow> sa_initialized t \<le> length (sa_nodes t) \<and>
     (\<exists>F. free_list (sa_nodes t) (sa_free t) F \<and> distinct F \<and> set F \<subseteq> {..<sa_initialized t} \<and>
        A = set F \<union> {sa_initialized t..<length (sa_nodes t)})"

lemma free_list_frame: "free_list ns p F \<Longrightarrow> same_outside S ns ns' \<Longrightarrow> S \<inter> set F = {} \<Longrightarrow> free_list ns' p F"
proof (induction F arbitrary: p)
  case (Cons i F)
  then show ?case by (simp add: same_outside_def)
qed simp

lemma pool_frame:
  assumes "pool t A" and "same_outside S (sa_nodes t) ns" and "S \<inter> A = {}"
  shows "pool (t\<lparr>sa_nodes := ns\<rparr>) A"
proof -
  obtain F where F: "free_list (sa_nodes t) (sa_free t) F" "distinct F" "set F \<subseteq> {..<sa_initialized t}"
    "A = set F \<union> {sa_initialized t..<length (sa_nodes t)}" "sa_initialized t \<le> length (sa_nodes t)"
    using assms(1) unfolding pool_def by blast
  have "free_list ns (sa_free t) F" by (rule free_list_frame [OF F(1) assms(2)]) (use F(4) assms(3) in auto)
  moreover have "length ns = length (sa_nodes t)" using assms(2) by (simp add: same_outside_def)
  ultimately show ?thesis using F unfolding pool_def by auto
qed

lemma allocate_full: "pool t {} \<Longrightarrow> allocate_node t key val = Some (Inl (), t)"
  unfolding pool_def by (auto simp: allocate_node_def)

lemma allocate_rep:
  assumes "pool t A" and "A \<noteq> {}"
  shows "\<exists>i t'. allocate_node t key val = Some (Inr i, t') \<and> i \<in> A \<and> pool t' (A - {i}) \<and>
    rep (sa_nodes t') (Some i) (AvlNode key val AvlNil AvlNil 1) {i} \<and> same_outside {i} (sa_nodes t) (sa_nodes t') \<and> sa_root t' = sa_root t"
proof -
  obtain F where F: "free_list (sa_nodes t) (sa_free t) F" "distinct F" "set F \<subseteq> {..<sa_initialized t}"
    "A = set F \<union> {sa_initialized t..<length (sa_nodes t)}" "sa_initialized t \<le> length (sa_nodes t)"
    using assms(1) unfolding pool_def by blast
  let ?n = "\<lparr>an_key = key, an_value = val, an_left = None, an_right = None, an_height = 1\<rparr>"
  have rep: "rep ((sa_nodes t)[i := ?n]) (Some i) (AvlNode key val AvlNil AvlNil 1) {i}" if "i < length (sa_nodes t)" for i
    using rep_join [of i "sa_nodes t" None AvlNil "{}" None AvlNil "{}" ?n] that by simp
  show ?thesis
  proof (cases F)
    case Nil
    then have f: "sa_free t = None" and A: "A = {sa_initialized t..<length (sa_nodes t)}" and lt: "sa_initialized t < length (sa_nodes t)"
      using F assms(2) by auto
    let ?t = "t\<lparr>sa_initialized := sa_initialized t + 1, sa_nodes := (sa_nodes t)[sa_initialized t := ?n]\<rparr>"
    have "pool ?t (A - {sa_initialized t})"
      unfolding pool_def by (rule conjI, use lt in simp, rule exI [of _ "[]"]) (use f A in auto)
    moreover have "allocate_node t key val = Some (Inr (sa_initialized t), ?t)" using f lt by (simp add: allocate_node_def node_update_def)
    ultimately show ?thesis using rep [OF lt] A lt by auto
  next
    case (Cons i G)
    then have f: "sa_free t = Some i" and lt: "i < length (sa_nodes t)" and G: "free_list (sa_nodes t) (an_left (sa_nodes t ! i)) G"
      and i: "i \<notin> set G" using F by auto
    let ?t = "t\<lparr>sa_free := an_left (sa_nodes t ! i), sa_nodes := (sa_nodes t)[i := ?n]\<rparr>"
    have "free_list ((sa_nodes t)[i := ?n]) (an_left (sa_nodes t ! i)) G"
      by (rule free_list_frame [OF G same_outside_update [of i "{i}"]]) (use i in auto)
    then have "pool ?t (A - {i})"
      unfolding pool_def using F(2-5) Cons by (intro conjI exI [of _ G]) auto
    moreover have "allocate_node t key val = Some (Inr i, ?t)" using f lt by (simp add: allocate_node_def node_at_def node_update_def)
    ultimately show ?thesis using rep [OF lt] F(4) Cons by auto
  qed
qed

lemma release_rep:
  assumes "pool t A" and "i < length (sa_nodes t)" and "i \<notin> A"
  shows "\<exists>t'. release_node t i = Some t' \<and> pool t' (insert i A) \<and> same_outside {i} (sa_nodes t) (sa_nodes t') \<and> sa_root t' = sa_root t"
proof -
  obtain F where F: "free_list (sa_nodes t) (sa_free t) F" "distinct F" "set F \<subseteq> {..<sa_initialized t}"
    "A = set F \<union> {sa_initialized t..<length (sa_nodes t)}" "sa_initialized t \<le> length (sa_nodes t)"
    using assms(1) unfolding pool_def by blast
  let ?ns = "(sa_nodes t)[i := EMPTY_NODE\<lparr>an_left := sa_free t\<rparr>]" and ?t = "t\<lparr>sa_free := Some i, sa_nodes := (sa_nodes t)[i := EMPTY_NODE\<lparr>an_left := sa_free t\<rparr>]\<rparr>"
  have "free_list ?ns (sa_free t) F"
    by (rule free_list_frame [OF F(1) same_outside_update [of i "{i}"]]) (use assms(3) F(4) in auto)
  then have "free_list ?ns (Some i) (i # F)" using assms(2) by simp
  then have "pool ?t (insert i A)"
    unfolding pool_def using F assms(2,3) by (intro conjI exI [of _ "i # F"]) auto
  moreover have "release_node t i = Some ?t" using assms(2) by (simp add: release_node_def node_update_def)
  ultimately show ?thesis by auto
qed

section \<open>The operations implement those of the tree\<close>

text \<open>Writing a node above two represented subtrees and settling it.\<close>

lemma attach_rep:
  assumes "pool t A" and "i < length (sa_nodes t)" and "rep (sa_nodes t) pl l Sl" and "rep (sa_nodes t) pr r Sr"
    and "i \<notin> Sl" and "i \<notin> Sr" and "Sl \<inter> Sr = {}" and "insert i (Sl \<union> Sr) \<inter> A = {}" and "balanced l" and "balanced r"
    and "n = \<lparr>an_key = k, an_value = v, an_left = pl, an_right = pr, an_height = h\<rparr>"
  obtains j ns where "arena_settle ((sa_nodes t)[i := n]) i = Some (j, ns)"
    "rep ns (Some j) (rebalance (recompute_height (AvlNode k v l r h))) (insert i (Sl \<union> Sr))"
    "same_outside (insert i (Sl \<union> Sr)) (sa_nodes t) ns" "pool (t\<lparr>sa_nodes := ns\<rparr>) A"
proof -
  have "rep ((sa_nodes t)[i := n]) (Some i) (AvlNode k v l r h) (insert i (Sl \<union> Sr))"
    by (rule rep_join [OF assms(2-7,11)])
  from settle_rep [OF this assms(9,10)] obtain j ns where r: "arena_settle ((sa_nodes t)[i := n]) i = Some (j, ns)"
    "rep ns (Some j) (rebalance (recompute_height (AvlNode k v l r h))) (insert i (Sl \<union> Sr))"
    "same_outside (insert i (Sl \<union> Sr)) ((sa_nodes t)[i := n]) ns" by blast
  have "same_outside (insert i (Sl \<union> Sr)) (sa_nodes t) ns"
    by (rule same_outside_trans [OF same_outside_update [of i "{i}"] r(3)]) auto
  then show thesis using that r(1,2) pool_frame [OF assms(1) _ assms(8)] by blast
qed

text \<open>
  \<open>becomes t t' S A q tr\<close>: a call on the subtree of the nodes \<open>S\<close> and the free nodes \<open>A\<close> of \<open>t\<close> left the
  tree \<open>tr\<close> at \<open>q\<close> in \<open>t'\<close> and changed no other node.
\<close>

definition becomes :: "static_avl \<Rightarrow> static_avl \<Rightarrow> nat set \<Rightarrow> nat set \<Rightarrow> nat option \<Rightarrow> avl_tree \<Rightarrow> bool" where
  "becomes t t' S A q tr \<longleftrightarrow> same_outside (S \<union> A) (sa_nodes t) (sa_nodes t') \<and>
     (\<exists>S' A'. rep (sa_nodes t') q tr S' \<and> pool t' A' \<and> S' \<inter> A' = {} \<and> S' \<union> A' = S \<union> A)"

lemma sa_nodes_write: "sa_nodes (t\<lparr>sa_nodes := ns\<rparr>) = ns"
  by simp

lemma becomesI:
  "same_outside (S \<union> A) (sa_nodes t) (sa_nodes t') \<Longrightarrow> rep (sa_nodes t') q tr S' \<Longrightarrow> pool t' A' \<Longrightarrow> S' \<inter> A' = {} \<Longrightarrow>
   S' \<union> A' = S \<union> A \<Longrightarrow> becomes t t' S A q tr"
  unfolding becomes_def by blast

lemma becomes_attach_left:
  assumes "becomes t t1 Sl A q l'" and "i < length (sa_nodes t)" and "i \<notin> A" and "i \<notin> Sl" and "i \<notin> Sr" and "Sl \<inter> Sr = {}"
    and "Sr \<inter> A = {}" and "sa_nodes t ! i = \<lparr>an_key = k, an_value = v, an_left = pl, an_right = pr, an_height = h\<rparr>"
    and "rep (sa_nodes t) pr r Sr" and "balanced l'" and "balanced r"
  obtains ns j ns' where "node_update (sa_nodes t1) i (an_left_update (\<lambda>_. q)) = Some ns" "arena_settle ns i = Some (j, ns')"
    "becomes t (t1\<lparr>sa_nodes := ns'\<rparr>) (insert i (Sl \<union> Sr)) A (Some j) (rebalance (recompute_height (AvlNode k v l' r h)))"
proof -
  obtain S1 A1 where q: "rep (sa_nodes t1) q l' S1" "pool t1 A1" "S1 \<inter> A1 = {}" "S1 \<union> A1 = Sl \<union> A"
    and out: "same_outside (Sl \<union> A) (sa_nodes t) (sa_nodes t1)" using assms(1) unfolding becomes_def by blast
  have i1: "i < length (sa_nodes t1)" "sa_nodes t1 ! i = sa_nodes t ! i"
    using out assms(2-4) by (auto simp: same_outside_def)
  have r1: "rep (sa_nodes t1) pr r Sr" by (rule rep_frame [OF assms(9) out]) (use assms(6,7) in auto)
  have d: "i \<notin> S1" "S1 \<inter> Sr = {}" "insert i (S1 \<union> Sr) \<inter> A1 = {}" using q(3,4) assms(3-7) by auto
  have n: "(sa_nodes t1 ! i)\<lparr>an_left := q\<rparr> = \<lparr>an_key = k, an_value = v, an_left = q, an_right = pr, an_height = h\<rparr>"
    using assms(8) i1(2) by simp
  obtain j ns where s: "arena_settle ((sa_nodes t1)[i := (sa_nodes t1 ! i)\<lparr>an_left := q\<rparr>]) i = Some (j, ns)"
    "rep ns (Some j) (rebalance (recompute_height (AvlNode k v l' r h))) (insert i (S1 \<union> Sr))"
    "same_outside (insert i (S1 \<union> Sr)) (sa_nodes t1) ns" "pool (t1\<lparr>sa_nodes := ns\<rparr>) A1"
    by (rule attach_rep [OF q(2) i1(1) q(1) r1 d(1) assms(5) d(2,3) assms(10,11) n])
  have so: "same_outside (insert i (Sl \<union> Sr) \<union> A) (sa_nodes t) ns"
    by (rule same_outside_trans [OF out s(3)]) (use q(4) in auto)
  have un: "insert i (S1 \<union> Sr) \<union> A1 = insert i (Sl \<union> Sr) \<union> A" using q(4) by auto
  have "becomes t (t1\<lparr>sa_nodes := ns\<rparr>) (insert i (Sl \<union> Sr)) A (Some j) (rebalance (recompute_height (AvlNode k v l' r h)))"
    by (rule becomesI [OF _ _ s(4) d(3) un]) (simp_all only: sa_nodes_write s(2) so)
  from that [OF _ s(1) this] show thesis using i1(1) by (simp add: node_update_def)
qed

lemma becomes_attach_right:
  assumes "becomes t t1 Sr A q r'" and "i < length (sa_nodes t)" and "i \<notin> A" and "i \<notin> Sl" and "i \<notin> Sr" and "Sl \<inter> Sr = {}"
    and "Sl \<inter> A = {}" and "sa_nodes t ! i = \<lparr>an_key = k, an_value = v, an_left = pl, an_right = pr, an_height = h\<rparr>"
    and "rep (sa_nodes t) pl l Sl" and "balanced l" and "balanced r'"
  obtains ns j ns' where "node_update (sa_nodes t1) i (an_right_update (\<lambda>_. q)) = Some ns" "arena_settle ns i = Some (j, ns')"
    "becomes t (t1\<lparr>sa_nodes := ns'\<rparr>) (insert i (Sl \<union> Sr)) A (Some j) (rebalance (recompute_height (AvlNode k v l r' h)))"
proof -
  obtain S1 A1 where q: "rep (sa_nodes t1) q r' S1" "pool t1 A1" "S1 \<inter> A1 = {}" "S1 \<union> A1 = Sr \<union> A"
    and out: "same_outside (Sr \<union> A) (sa_nodes t) (sa_nodes t1)" using assms(1) unfolding becomes_def by blast
  have i1: "i < length (sa_nodes t1)" "sa_nodes t1 ! i = sa_nodes t ! i"
    using out assms(2,3,5) by (auto simp: same_outside_def)
  have l1: "rep (sa_nodes t1) pl l Sl" by (rule rep_frame [OF assms(9) out]) (use assms(6,7) in auto)
  have d: "i \<notin> S1" "Sl \<inter> S1 = {}" "insert i (Sl \<union> S1) \<inter> A1 = {}" using q(3,4) assms(3-7) by auto
  have n: "(sa_nodes t1 ! i)\<lparr>an_right := q\<rparr> = \<lparr>an_key = k, an_value = v, an_left = pl, an_right = q, an_height = h\<rparr>"
    using assms(8) i1(2) by simp
  obtain j ns where s: "arena_settle ((sa_nodes t1)[i := (sa_nodes t1 ! i)\<lparr>an_right := q\<rparr>]) i = Some (j, ns)"
    "rep ns (Some j) (rebalance (recompute_height (AvlNode k v l r' h))) (insert i (Sl \<union> S1))"
    "same_outside (insert i (Sl \<union> S1)) (sa_nodes t1) ns" "pool (t1\<lparr>sa_nodes := ns\<rparr>) A1"
    by (rule attach_rep [OF q(2) i1(1) l1 q(1) assms(4) d(1,2,3) assms(10,11) n])
  have so: "same_outside (insert i (Sl \<union> Sr) \<union> A) (sa_nodes t) ns"
    by (rule same_outside_trans [OF out s(3)]) (use q(4) in auto)
  have un: "insert i (Sl \<union> S1) \<union> A1 = insert i (Sl \<union> Sr) \<union> A" using q(4) by auto
  have "becomes t (t1\<lparr>sa_nodes := ns\<rparr>) (insert i (Sl \<union> Sr)) A (Some j) (rebalance (recompute_height (AvlNode k v l r' h)))"
    by (rule becomesI [OF _ _ s(4) d(3) un]) (simp_all only: sa_nodes_write s(2) so)
  from that [OF _ s(1) this] show thesis using i1(1) by (simp add: node_update_def)
qed

lemma insert_at_leaf:
  assumes "pool t A" and "A \<noteq> {}"
  shows "\<exists>q t'. insert_at t None key val = Some (Inr q, t') \<and> becomes t t' {} A (Some q) (AvlNode key val AvlNil AvlNil 1)"
proof -
  from allocate_rep [OF assms, of key val] obtain i t' where i: "allocate_node t key val = Some (Inr i, t')" "i \<in> A"
    "pool t' (A - {i})" "rep (sa_nodes t') (Some i) (AvlNode key val AvlNil AvlNil 1) {i}"
    "same_outside {i} (sa_nodes t) (sa_nodes t')" by blast
  have "same_outside A (sa_nodes t) (sa_nodes t')" by (rule same_outside_trans [OF i(5) same_outside_refl [of "{}"]]) (use i(2) in auto)
  moreover have "{i} \<inter> (A - {i}) = {}" "{i} \<union> (A - {i}) = {} \<union> A" using i(2) by auto
  ultimately have "becomes t t' {} A (Some i) (AvlNode key val AvlNil AvlNil 1)"
    unfolding becomes_def using i(3,4) by auto
  then show ?thesis using i(1) by (subst insert_at.simps) simp
qed

declare rebalance.simps [simp del] recompute_height.simps [simp del]

lemma insert_at_rep:
  assumes "pool t A" and "rep (sa_nodes t) p tr S" and "S \<inter> A = {}" and "balanced tr"
  shows "if avl_find tr key = None \<and> A = {} then insert_at t p key val = Some (Inl (), t)
    else \<exists>q t'. insert_at t p key val = Some (Inr q, t') \<and> becomes t t' S A (Some q) (insert_node tr key val)"
  using assms
proof (induction tr arbitrary: t p S)
  case AvlNil
  then have p: "p = None" "S = {}" by auto
  show ?case
    using insert_at_leaf [OF AvlNil.prems(1), of key val] AvlNil.prems(1) p allocate_full by (auto simp: insert_at.simps)
next
  case (AvlNode k v l r h)
  obtain i pl pr Sl Sr where x: "p = Some i" "i < length (sa_nodes t)"
    "sa_nodes t ! i = \<lparr>an_key = k, an_value = v, an_left = pl, an_right = pr, an_height = h\<rparr>"
    "rep (sa_nodes t) pl l Sl" "rep (sa_nodes t) pr r Sr" "S = insert i (Sl \<union> Sr)" "i \<notin> Sl" "i \<notin> Sr" "Sl \<inter> Sr = {}"
    using AvlNode.prems(2) by (rule rep_node_elim)
  have A: "i \<notin> A" "Sl \<inter> A = {}" "Sr \<inter> A = {}" using AvlNode.prems(3) x(6) by auto
  have b: "balanced l" "balanced r" "balanced (insert_node l key val)" "balanced (insert_node r key val)"
    using AvlNode.prems(4) balanced_insert_node by auto
  have unf: "insert_at t p key val = (if key < k then insert_at t pl key val \<bind> (\<lambda>(res, t). case res of Inl e \<Rightarrow> Some (Inl e, t)
        | Inr q \<Rightarrow> node_update (sa_nodes t) i (an_left_update (\<lambda>_. Some q)) \<bind> (\<lambda>ns. arena_settle ns i \<bind> (\<lambda>(j, ns). Some (Inr j, t\<lparr>sa_nodes := ns\<rparr>))))
      else if key > k then insert_at t pr key val \<bind> (\<lambda>(res, t). case res of Inl e \<Rightarrow> Some (Inl e, t)
        | Inr q \<Rightarrow> node_update (sa_nodes t) i (an_right_update (\<lambda>_. Some q)) \<bind> (\<lambda>ns. arena_settle ns i \<bind> (\<lambda>(j, ns). Some (Inr j, t\<lparr>sa_nodes := ns\<rparr>))))
      else Some (Inr i, t\<lparr>sa_nodes := (sa_nodes t)[i := (sa_nodes t ! i)\<lparr>an_value := val\<rparr>]\<rparr>))"
    using x(1-3) by (subst insert_at.simps) (simp add: node_at_def node_update_def)
  consider (lt) "key < k" | (gt) "key > k" "\<not> key < k" | (eq) "key = k" by force
  then show ?case
  proof cases
    case lt
    note IH = AvlNode.IH(1) [OF AvlNode.prems(1) x(4) A(2) b(1)]
    show ?thesis
    proof (cases "avl_find l key = None \<and> A = {}")
      case False
      with IH obtain q t1 where q: "insert_at t pl key val = Some (Inr q, t1)" "becomes t t1 Sl A (Some q) (insert_node l key val)" by auto
      obtain ns j ns' where n: "node_update (sa_nodes t1) i (an_left_update (\<lambda>_. Some q)) = Some ns" "arena_settle ns i = Some (j, ns')"
        "becomes t (t1\<lparr>sa_nodes := ns'\<rparr>) S A (Some j) (rebalance (recompute_height (AvlNode k v (insert_node l key val) r h)))"
        using becomes_attach_left [OF q(2) x(2) A(1) x(7,8,9) A(3) x(3,5) b(3,2)] unfolding x(6) by blast
      have "insert_at t p key val = Some (Inr j, t1\<lparr>sa_nodes := ns'\<rparr>)" using lt unf q(1) n(1,2) by simp
      then show ?thesis using False lt n(3) by auto
    next
      case True
      then have "insert_at t p key val = Some (Inl (), t)" using IH lt unf by simp
      then show ?thesis using True lt by auto
    qed
  next
    case gt
    note IH = AvlNode.IH(2) [OF AvlNode.prems(1) x(5) A(3) b(2)]
    show ?thesis
    proof (cases "avl_find r key = None \<and> A = {}")
      case False
      with IH obtain q t1 where q: "insert_at t pr key val = Some (Inr q, t1)" "becomes t t1 Sr A (Some q) (insert_node r key val)" by auto
      obtain ns j ns' where n: "node_update (sa_nodes t1) i (an_right_update (\<lambda>_. Some q)) = Some ns" "arena_settle ns i = Some (j, ns')"
        "becomes t (t1\<lparr>sa_nodes := ns'\<rparr>) S A (Some j) (rebalance (recompute_height (AvlNode k v l (insert_node r key val) h)))"
        using becomes_attach_right [OF q(2) x(2) A(1) x(7,8,9) A(2) x(3,4) b(1,4)] unfolding x(6) by blast
      have "insert_at t p key val = Some (Inr j, t1\<lparr>sa_nodes := ns'\<rparr>)" using gt unf q(1) n(1,2) by simp
      then show ?thesis using False gt n(3) by auto
    next
      case True
      then have "insert_at t p key val = Some (Inl (), t)" using IH gt unf by simp
      then show ?thesis using True gt by auto
    qed
  next
    case eq
    let ?ns = "(sa_nodes t)[i := (sa_nodes t ! i)\<lparr>an_value := val\<rparr>]"
    have "rep ?ns (Some i) (AvlNode k val l r h) S"
      unfolding x(6) by (rule rep_join [OF x(2,4,5,7,8,9)]) (simp add: x(3))
    moreover have "same_outside (S \<union> A) (sa_nodes t) ?ns" using x(6) by simp
    moreover have "pool (t\<lparr>sa_nodes := ?ns\<rparr>) A"
      by (rule pool_frame [OF AvlNode.prems(1) same_outside_update [of i "{i}"]]) (use A(1) in auto)
    ultimately have "becomes t (t\<lparr>sa_nodes := ?ns\<rparr>) S A (Some i) (AvlNode k val l r h)"
      using AvlNode.prems(3) by (intro becomesI [of _ _ _ _ _ _ S A]) simp_all
    then show ?thesis using eq unf by simp
  qed
qed

lemma becomes_refl: "pool t A \<Longrightarrow> rep (sa_nodes t) p tr S \<Longrightarrow> S \<inter> A = {} \<Longrightarrow> becomes t t S A p tr"
  by (rule becomesI) auto

text \<open>Releasing the root of a subtree with at most one child leaves that child.\<close>

lemma release_becomes:
  assumes "pool t A" and "i < length (sa_nodes t)" and "i \<notin> A" and "i \<notin> T" and "T \<inter> A = {}" and "rep (sa_nodes t) q tr T"
  obtains t' where "release_node t i = Some t'" "becomes t t' (insert i T) A q tr"
proof -
  obtain t' where r: "release_node t i = Some t'" "pool t' (insert i A)" "same_outside {i} (sa_nodes t) (sa_nodes t')"
    using release_rep [OF assms(1-3)] by blast
  have "rep (sa_nodes t') q tr T" by (rule rep_frame [OF assms(6) r(3)]) (use assms(4) in auto)
  moreover have "same_outside (insert i T \<union> A) (sa_nodes t) (sa_nodes t')"
    by (rule same_outside_trans [OF r(3) same_outside_refl [of "{}"]]) auto
  ultimately have "becomes t t' (insert i T) A q tr" using r(2) assms(4,5) by (intro becomesI [of _ _ _ _ _ _ T "insert i A"]) auto
  then show thesis using that r(1) by blast
qed

lemma replace_by_successor:
  assumes "pool t A" and "i < length (sa_nodes t)"
    and "sa_nodes t ! i = \<lparr>an_key = k, an_value = v, an_left = pl, an_right = Some pr, an_height = h\<rparr>"
    and "rep (sa_nodes t) pl l Sl" and "rep (sa_nodes t) (Some pr) r Sr" and "i \<notin> Sl" and "i \<notin> Sr" and "Sl \<inter> Sr = {}"
    and "insert i (Sl \<union> Sr) \<inter> A = {}" and "balanced l" and "balanced r" and "take_min_node r = (r', AvlNode ks vs ls rs hs)"
  obtains q m ns1 s ns2 t3 j ns4 where "take_min (sa_nodes t) pr = Some ((q, m), ns1)" "node_at ns1 m = Some s"
    "node_update ns1 i (\<lambda>n. n\<lparr>an_key := an_key s, an_value := an_value s, an_right := q\<rparr>) = Some ns2"
    "release_node (t\<lparr>sa_nodes := ns2\<rparr>) m = Some t3" "arena_settle (sa_nodes t3) i = Some (j, ns4)"
    "becomes t (t3\<lparr>sa_nodes := ns4\<rparr>) (insert i (Sl \<union> Sr)) A (Some j) (rebalance (recompute_height (AvlNode ks vs l r' hs)))"
proof -
  obtain q m ns1 where q: "take_min (sa_nodes t) pr = Some ((q, m), ns1)" "m \<in> Sr" "rep ns1 q r' (Sr - {m})"
    "an_key (ns1 ! m) = ks" "an_value (ns1 ! m) = vs" "same_outside Sr (sa_nodes t) ns1"
    using take_min_rep [OF assms(5,11)] assms(12) by auto
  have len: "length ns1 = length (sa_nodes t)" and i1: "ns1 ! i = sa_nodes t ! i" using q(6) assms(7) by (auto simp: same_outside_def)
  have m: "m < length ns1" "m \<noteq> i" "m \<notin> A" "m \<notin> Sl" using rep_bounds [OF assms(5) q(2)] len q(2) assms(7-9) by auto
  have l1: "rep ns1 pl l Sl" by (rule rep_frame [OF assms(4) q(6)]) (use assms(8) in auto)
  let ?n = "(ns1 ! i)\<lparr>an_key := ks, an_value := vs, an_right := q\<rparr>" and ?T = "insert i (Sl \<union> (Sr - {m}))"
  have r2: "rep (ns1[i := ?n]) (Some i) (AvlNode ks vs l r' h) ?T"
    by (rule rep_join [OF _ l1 q(3)]) (use assms i1 len in auto)
  have out2: "same_outside (insert i Sr) (sa_nodes t) (ns1[i := ?n])"
    by (rule same_outside_trans [OF q(6) same_outside_update [of i "{i}"]]) auto
  have "pool (t\<lparr>sa_nodes := ns1[i := ?n]\<rparr>) A" by (rule pool_frame [OF assms(1) out2]) (use assms(9) in auto)
  from release_rep [OF this, of m] m obtain t3 where t3: "release_node (t\<lparr>sa_nodes := ns1[i := ?n]\<rparr>) m = Some t3"
    "pool t3 (insert m A)" "same_outside {m} (ns1[i := ?n]) (sa_nodes t3)" by auto
  have "rep (sa_nodes t3) (Some i) (AvlNode ks vs l r' h) ?T" by (rule rep_frame [OF r2 t3(3)]) (use m in auto)
  moreover have "balanced r'" using balanced_take_min [OF assms(11,12)] by simp
  ultimately obtain j ns4 where s: "arena_settle (sa_nodes t3) i = Some (j, ns4)"
    "rep ns4 (Some j) (rebalance (recompute_height (AvlNode ks vs l r' h))) ?T" "same_outside ?T (sa_nodes t3) ns4"
    using settle_rep assms(10) by blast
  have out3: "same_outside (insert i (Sl \<union> Sr) \<union> A) (sa_nodes t) (sa_nodes t3)"
    by (rule same_outside_trans [OF out2 t3(3)]) (use q(2) in auto)
  have out4: "same_outside (insert i (Sl \<union> Sr) \<union> A) (sa_nodes t) ns4"
    by (rule same_outside_trans [OF out3 s(3)]) auto
  have p4: "pool (t3\<lparr>sa_nodes := ns4\<rparr>) (insert m A)" by (rule pool_frame [OF t3(2) s(3)]) (use assms(9) m in auto)
  have "becomes t (t3\<lparr>sa_nodes := ns4\<rparr>) (insert i (Sl \<union> Sr)) A (Some j) (rebalance (recompute_height (AvlNode ks vs l r' h)))"
  proof (rule becomesI [OF _ _ p4, of _ _ _ _ _ ?T])
    show "?T \<inter> insert m A = {}" "?T \<union> insert m A = insert i (Sl \<union> Sr) \<union> A" using assms(9) m q(2) by auto
  qed (simp_all only: sa_nodes_write out4 s(2))
  then have "becomes t (t3\<lparr>sa_nodes := ns4\<rparr>) (insert i (Sl \<union> Sr)) A (Some j) (rebalance (recompute_height (AvlNode ks vs l r' hs)))"
    by (simp only: recompute_height.simps)
  moreover have "node_update ns1 i (\<lambda>n. n\<lparr>an_key := an_key (ns1 ! m), an_value := an_value (ns1 ! m), an_right := q\<rparr>) = Some (ns1[i := ?n])"
    using assms(2) len q(4,5) by (simp add: node_update_def)
  ultimately show thesis using that [OF q(1) _ _ t3(1) s(1)] m(1) by (simp add: node_at_def)
qed

text \<open>One level of \<open>remove_at\<close>, unfolded at a node whose record is known.\<close>

lemma remove_at_node:
  assumes "i < length (sa_nodes t)" and "sa_nodes t ! i = \<lparr>an_key = k, an_value = v, an_left = pl, an_right = pr, an_height = h\<rparr>"
  shows "key < k \<Longrightarrow> remove_at t (Some i) key = remove_at t pl key \<bind> (\<lambda>((q, removed), t). if removed = None then Some ((Some i, None), t)
        else node_update (sa_nodes t) i (an_left_update (\<lambda>_. q)) \<bind> (\<lambda>ns. arena_settle ns i \<bind> (\<lambda>(j, ns). Some ((Some j, removed), t\<lparr>sa_nodes := ns\<rparr>))))"
    and "key > k \<Longrightarrow> remove_at t (Some i) key = remove_at t pr key \<bind> (\<lambda>((q, removed), t). if removed = None then Some ((Some i, None), t)
        else node_update (sa_nodes t) i (an_right_update (\<lambda>_. q)) \<bind> (\<lambda>ns. arena_settle ns i \<bind> (\<lambda>(j, ns). Some ((Some j, removed), t\<lparr>sa_nodes := ns\<rparr>))))"
    and "pl = None \<Longrightarrow> remove_at t (Some i) k = release_node t i \<bind> (\<lambda>t. Some ((pr, Some v), t))"
    and "pl \<noteq> None \<Longrightarrow> pr = None \<Longrightarrow> remove_at t (Some i) k = release_node t i \<bind> (\<lambda>t. Some ((pl, Some v), t))"
proof -
  have n: "node_at (sa_nodes t) i = Some \<lparr>an_key = k, an_value = v, an_left = pl, an_right = pr, an_height = h\<rparr>"
    using assms by (simp add: node_at_def)
  note unf = remove_at.simps [of t "Some i"] n option.case(2) Option.bind.bind_lunit arena_node.simps
  show "key < k \<Longrightarrow> remove_at t (Some i) key = remove_at t pl key \<bind> (\<lambda>((q, removed), t). if removed = None then Some ((Some i, None), t)
        else node_update (sa_nodes t) i (an_left_update (\<lambda>_. q)) \<bind> (\<lambda>ns. arena_settle ns i \<bind> (\<lambda>(j, ns). Some ((Some j, removed), t\<lparr>sa_nodes := ns\<rparr>))))"
    by (simp only: unf if_True)
  have "key > k \<Longrightarrow> (key < k) = False" by auto
  then show "key > k \<Longrightarrow> remove_at t (Some i) key = remove_at t pr key \<bind> (\<lambda>((q, removed), t). if removed = None then Some ((Some i, None), t)
        else node_update (sa_nodes t) i (an_right_update (\<lambda>_. q)) \<bind> (\<lambda>ns. arena_settle ns i \<bind> (\<lambda>(j, ns). Some ((Some j, removed), t\<lparr>sa_nodes := ns\<rparr>))))"
    by (simp only: unf if_True if_False)
  show "pl = None \<Longrightarrow> remove_at t (Some i) k = release_node t i \<bind> (\<lambda>t. Some ((pr, Some v), t))"
    by (simp only: unf if_True if_False order.irrefl simp_thms)
  show "pl \<noteq> None \<Longrightarrow> pr = None \<Longrightarrow> remove_at t (Some i) k = release_node t i \<bind> (\<lambda>t. Some ((pl, Some v), t))"
    by (simp only: unf if_True if_False order.irrefl option.case simp_thms)
qed

lemma remove_at_equal:
  assumes "pool t A" and "i < length (sa_nodes t)"
    and n: "sa_nodes t ! i = \<lparr>an_key = k, an_value = v, an_left = pl, an_right = pr, an_height = h\<rparr>"
    and "rep (sa_nodes t) pl l Sl" and "rep (sa_nodes t) pr r Sr" and "i \<notin> Sl" and "i \<notin> Sr" and "Sl \<inter> Sr = {}"
    and "insert i (Sl \<union> Sr) \<inter> A = {}" and "balanced l" and "balanced r"
  shows "\<exists>q t'. remove_at t (Some i) k = Some ((q, Some v), t') \<and>
    becomes t t' (insert i (Sl \<union> Sr)) A q (fst (remove_node (AvlNode k v l r h) k))"
proof (cases "pl = None \<or> pr = None")
  case True
  show ?thesis
  proof (cases "pl = None")
    case True
    then have l: "l = AvlNil" "Sl = {}" using assms(4) by auto
    obtain t' where "release_node t i = Some t'" "becomes t t' (insert i Sr) A pr r"
      by (rule release_becomes [OF assms(1,2) _ assms(7) _ assms(5)]) (use assms(9) in auto)
    then show ?thesis using remove_at_node(3) [OF assms(2) n True] l by simp
  next
    case False
    with \<open>pl = None \<or> pr = None\<close> have pr: "pr = None" by simp
    have "l \<noteq> AvlNil" using False assms(4) by auto
    have r: "r = AvlNil" "Sr = {}" using pr assms(5) by auto
    obtain t' where "release_node t i = Some t'" "becomes t t' (insert i Sl) A pl l"
      by (rule release_becomes [OF assms(1,2) _ assms(6) _ assms(4)]) (use assms(9) in auto)
    then show ?thesis using remove_at_node(4) [OF assms(2) n False pr] r \<open>l \<noteq> AvlNil\<close> by simp
  qed
next
  case False
  then obtain j where pr: "pr = Some j" and pl: "pl \<noteq> None" by auto
  have ne: "l \<noteq> AvlNil" "r \<noteq> AvlNil" using pl pr assms(4,5) by auto
  obtain r' m where tm: "take_min_node r = (r', m)" by force
  then obtain ks vs ls rs hs where m: "m = AvlNode ks vs ls rs hs"
    using balanced_take_min [OF assms(11) tm] ne by (cases m) auto
  obtain q m ns1 s ns2 t3 j2 ns4 where u: "take_min (sa_nodes t) j = Some ((q, m), ns1)" "node_at ns1 m = Some s"
    "node_update ns1 i (\<lambda>n. n\<lparr>an_key := an_key s, an_value := an_value s, an_right := q\<rparr>) = Some ns2"
    "release_node (t\<lparr>sa_nodes := ns2\<rparr>) m = Some t3" "arena_settle (sa_nodes t3) i = Some (j2, ns4)"
    "becomes t (t3\<lparr>sa_nodes := ns4\<rparr>) (insert i (Sl \<union> Sr)) A (Some j2) (rebalance (recompute_height (AvlNode ks vs l r' hs)))"
    by (rule replace_by_successor [OF assms(1,2) n [unfolded pr] assms(4) assms(5) [unfolded pr] assms(6-11) tm [unfolded m]])
  have "remove_at t (Some i) k = Some ((Some j2, Some v), t3\<lparr>sa_nodes := ns4\<rparr>)"
    using assms(2) n pr pl u(1-5) by (subst remove_at.simps) (auto simp: node_at_def [of "sa_nodes t"])
  then show ?thesis using u(6) ne tm m by simp
qed

lemma remove_at_rep:
  assumes "pool t A" and "rep (sa_nodes t) p tr S" and "S \<inter> A = {}" and "balanced tr"
  shows "\<exists>q t'. remove_at t p key = Some ((q, snd (remove_node tr key)), t') \<and> becomes t t' S A q (fst (remove_node tr key)) \<and>
    (snd (remove_node tr key) = None \<longrightarrow> t' = t \<and> q = p)"
  using assms
proof (induction tr arbitrary: t p S)
  case AvlNil
  then show ?case using becomes_refl [OF AvlNil.prems(1-3)] by (simp add: remove_at.simps)
next
  case (AvlNode k v l r h)
  obtain i pl pr Sl Sr where x: "p = Some i" "i < length (sa_nodes t)"
    "sa_nodes t ! i = \<lparr>an_key = k, an_value = v, an_left = pl, an_right = pr, an_height = h\<rparr>"
    "rep (sa_nodes t) pl l Sl" "rep (sa_nodes t) pr r Sr" "S = insert i (Sl \<union> Sr)" "i \<notin> Sl" "i \<notin> Sr" "Sl \<inter> Sr = {}"
    using AvlNode.prems(2) by (rule rep_node_elim)
  have A: "i \<notin> A" "Sl \<inter> A = {}" "Sr \<inter> A = {}" using AvlNode.prems(3) x(6) by auto
  have b: "balanced l" "balanced r" using AvlNode.prems(4) by auto
  obtain l' vl r' vr where rm: "remove_node l key = (l', vl)" "remove_node r key = (r', vr)" by fastforce
  have b': "balanced l'" "balanced r'" using balanced_remove_node [OF b(1) rm(1)] balanced_remove_node [OF b(2) rm(2)] by auto
  note same = becomes_refl [OF AvlNode.prems(1-3)]
  consider (lt) "key < k" | (gt) "key > k" "\<not> key < k" "key \<noteq> k" | (eq) "key = k" by force
  then show ?case
  proof cases
    case lt
    obtain q t1 where q: "remove_at t pl key = Some ((q, vl), t1)" "becomes t t1 Sl A q l'" "vl = None \<longrightarrow> t1 = t"
      using AvlNode.IH(1) [OF AvlNode.prems(1) x(4) A(2) b(1)] rm(1) by auto
    show ?thesis
    proof (cases "vl = None")
      case True
      then show ?thesis using lt q x(1) rm(1) same remove_at_node(1) [OF x(2,3) lt] remove_node_absent [of l key l'] by simp
    next
      case False
      obtain ns j ns' where n: "node_update (sa_nodes t1) i (an_left_update (\<lambda>_. q)) = Some ns" "arena_settle ns i = Some (j, ns')"
        "becomes t (t1\<lparr>sa_nodes := ns'\<rparr>) S A (Some j) (rebalance (recompute_height (AvlNode k v l' r h)))"
        using becomes_attach_left [OF q(2) x(2) A(1) x(7,8,9) A(3) x(3,5) b'(1) b(2)] unfolding x(6) by blast
      then show ?thesis using lt q(1) x(1) rm(1) False remove_at_node(1) [OF x(2,3) lt] by (auto simp: Let_def)
    qed
  next
    case gt
    obtain q t1 where q: "remove_at t pr key = Some ((q, vr), t1)" "becomes t t1 Sr A q r'" "vr = None \<longrightarrow> t1 = t"
      using AvlNode.IH(2) [OF AvlNode.prems(1) x(5) A(3) b(2)] rm(2) by auto
    show ?thesis
    proof (cases "vr = None")
      case True
      then show ?thesis using gt q x(1) rm(2) same remove_at_node(2) [OF x(2,3) gt(1)] remove_node_absent [of r key r'] by simp
    next
      case False
      obtain ns j ns' where n: "node_update (sa_nodes t1) i (an_right_update (\<lambda>_. q)) = Some ns" "arena_settle ns i = Some (j, ns')"
        "becomes t (t1\<lparr>sa_nodes := ns'\<rparr>) S A (Some j) (rebalance (recompute_height (AvlNode k v l r' h)))"
        using becomes_attach_right [OF q(2) x(2) A(1) x(7,8,9) A(2) x(3,4) b(1) b'(2)] unfolding x(6) by blast
      then show ?thesis using gt q(1) x(1) rm(2) False remove_at_node(2) [OF x(2,3) gt(1)] by (auto simp: Let_def)
    qed
  next
    case eq
    have "snd (remove_node (AvlNode k v l r h) k) = Some v"
      by (cases "take_min_node r") (auto split: avl_tree.splits)
    then show ?thesis
      using remove_at_equal [OF AvlNode.prems(1) x(2,3,4,5,7,8,9) _ b] AvlNode.prems(3) x(1,6) eq by auto
  qed
qed

section \<open>The map contract\<close>

text \<open>\<open>static_rep t tr\<close>: the array represents \<open>tr\<close>, and every node belongs to the tree or is free.\<close>

definition static_rep :: "static_avl \<Rightarrow> avl_tree \<Rightarrow> bool" where
  "static_rep t tr \<longleftrightarrow> avl_wf tr \<and>
     (\<exists>S A. rep (sa_nodes t) (sa_root t) tr S \<and> pool t A \<and> S \<inter> A = {} \<and> S \<union> A = {..<length (sa_nodes t)})"

lemma rep_card: "rep ns p t S \<Longrightarrow> finite S \<and> card S = length (inorder t)"
proof (induction t arbitrary: p S)
  case (AvlNode k v l r h)
  from AvlNode.prems obtain i pl pr Sl Sr where x: "rep ns pl l Sl" "rep ns pr r Sr" "S = insert i (Sl \<union> Sr)" "i \<notin> Sl" "i \<notin> Sr" "Sl \<inter> Sr = {}"
    by (rule rep_node_elim)
  have "finite Sl" "card Sl = length (inorder l)" "finite Sr" "card Sr = length (inorder r)" using AvlNode.IH x by auto
  then show ?case using x(3-6) by (simp add: card_Un_disjoint)
qed simp

text \<open>All nodes are in use exactly when the tree has as many bindings as the array has nodes.\<close>

lemma static_rep_full:
  assumes "rep ns p tr S" and "S \<inter> A = {}" and "S \<union> A = {..<n}"
  shows "A = {} \<longleftrightarrow> n \<le> length (inorder tr)"
proof -
  have f: "finite S" "card S = length (inorder tr)" using rep_card [OF assms(1)] by auto
  have "finite A" using assms(3) by (metis finite_Un finite_lessThan)
  then have "card S + card A = n" using card_Un_disjoint [OF f(1) _ assms(2)] assms(3) by simp
  then show ?thesis using f(2) \<open>finite A\<close> by (metis add_0_right card_0_eq le_add1 le_antisym nle_le add_left_cancel)
qed

lemma static_new_rep: "static_rep (static_new n) AvlNil"
proof -
  have "pool (static_new n) {..<n}"
    unfolding pool_def static_new_def by (intro conjI exI [of _ "[]"]) auto
  then show ?thesis unfolding static_rep_def by (simp add: static_new_def avl_wf_def)
qed

lemma becomes_static_rep:
  assumes "becomes t t' S A q tr" and "S \<union> A = {..<length (sa_nodes t)}" and "avl_wf tr"
  shows "static_rep (t'\<lparr>sa_root := q\<rparr>) tr" and "length (sa_nodes t') = length (sa_nodes t)"
proof -
  show len: "length (sa_nodes t') = length (sa_nodes t)" using assms(1) by (simp add: becomes_def same_outside_def)
  obtain S' A' where S: "rep (sa_nodes t') q tr S'" "pool t' A'" "S' \<inter> A' = {}" "S' \<union> A' = S \<union> A"
    using assms(1) unfolding becomes_def by blast
  have "pool (t'\<lparr>sa_root := q\<rparr>) A'" using S(2) by (simp add: pool_def)
  then show "static_rep (t'\<lparr>sa_root := q\<rparr>) tr" using S assms(2,3) len unfolding static_rep_def by auto
qed

lemma static_find_rep: "static_rep t tr \<Longrightarrow> static_find t key = Some (avl_find tr key)"
  unfolding static_rep_def static_find_def using find_from_rep by blast

lemma static_insert_rep:
  assumes "static_rep t tr"
  shows "if avl_find tr key = None \<and> length (sa_nodes t) \<le> length (inorder tr) then static_insert t key val = Some (Inl (), t)
    else \<exists>t'. static_insert t key val = Some (Inr (), t') \<and> static_rep t' (insert_node tr key val) \<and> length (sa_nodes t') = length (sa_nodes t)"
proof -
  obtain S A where x: "rep (sa_nodes t) (sa_root t) tr S" "pool t A" "S \<inter> A = {}" "S \<union> A = {..<length (sa_nodes t)}" and wf: "avl_wf tr"
    using assms unfolding static_rep_def by blast
  have full: "A = {} \<longleftrightarrow> length (sa_nodes t) \<le> length (inorder tr)" by (rule static_rep_full [OF x(1,3,4)])
  have ins: "if avl_find tr key = None \<and> A = {} then insert_at t (sa_root t) key val = Some (Inl (), t)
    else \<exists>q t'. insert_at t (sa_root t) key val = Some (Inr q, t') \<and> becomes t t' S A (Some q) (insert_node tr key val)"
    by (rule insert_at_rep [OF x(2,1,3)]) (use wf in \<open>simp add: avl_wf_def\<close>)
  show ?thesis
  proof (cases "avl_find tr key = None \<and> A = {}")
    case True
    then show ?thesis using ins full by (simp add: static_insert_def)
  next
    case False
    then obtain q t' where q: "insert_at t (sa_root t) key val = Some (Inr q, t')" "becomes t t' S A (Some q) (insert_node tr key val)"
      using ins unfolding if_not_P [OF False] by blast
    show ?thesis using False full q(1) becomes_static_rep [OF q(2) x(4) avl_wf_insert [OF wf]] by (auto simp: static_insert_def)
  qed
qed

lemma static_remove_rep:
  assumes "static_rep t tr"
  shows "\<exists>t'. static_remove t key = Some (snd (remove_node tr key), t') \<and> static_rep t' (fst (remove_node tr key)) \<and>
    length (sa_nodes t') = length (sa_nodes t)"
proof -
  obtain S A where x: "rep (sa_nodes t) (sa_root t) tr S" "pool t A" "S \<inter> A = {}" "S \<union> A = {..<length (sa_nodes t)}" and wf: "avl_wf tr"
    using assms unfolding static_rep_def by blast
  obtain q t' where q: "remove_at t (sa_root t) key = Some ((q, snd (remove_node tr key)), t')" "becomes t t' S A q (fst (remove_node tr key))"
    using remove_at_rep [OF x(2,1,3), of key] wf by (auto simp: avl_wf_def)
  have "avl_wf (fst (remove_node tr key))" using avl_wf_remove [OF wf] by (metis prod.collapse)
  then show ?thesis using becomes_static_rep [OF q(2) x(4)] q(1) by (auto simp: static_remove_def)
qed

lemma avl_find_card:
  assumes "avl_wf t"
  shows "card (dom (avl_find t)) = length (inorder t)"
proof -
  have o: "ordered t" using assms by (simp add: avl_wf_def)
  then have d: "distinct (map fst (inorder t))" by (metis ordered_def sorted_wrt_map strict_sorted_iff)
  have "avl_find t = map_of (inorder t)" by (rule ext) (rule avl_find_inorder [OF o])
  then have "dom (avl_find t) = set (map fst (inorder t))" by (simp add: dom_map_of_conv_image_fst)
  then show ?thesis using distinct_card [OF d] by (simp only: length_map)
qed

text \<open>The array tree as a \<open>word_map\<close>, for every capacity.\<close>

definition static_map_insert :: "static_avl \<Rightarrow> machine_word \<Rightarrow> machine_word \<Rightarrow> unit + static_avl" where
  "static_map_insert t k v = (case static_insert t k v of Some (Inr u, t') \<Rightarrow> Inr t' | _ \<Rightarrow> Inl ())"

definition static_map_find :: "static_avl \<Rightarrow> machine_word \<Rightarrow> machine_word option" where
  "static_map_find t k = Option.bind (static_find t k) id"

definition static_map_remove :: "static_avl \<Rightarrow> machine_word \<Rightarrow> static_avl \<times> machine_word option" where
  "static_map_remove t k = (case static_remove t k of Some (r, t') \<Rightarrow> (t', r) | None \<Rightarrow> (t, None))"

definition static_wf :: "static_avl \<Rightarrow> bool" where
  "static_wf t \<longleftrightarrow> (\<exists>tr. static_rep t tr)"

lemma static_map_find_rep: "static_rep t tr \<Longrightarrow> static_map_find t = avl_find tr"
  by (rule ext) (simp add: static_map_find_def static_find_rep)

lemma static_map_insert_rep:
  assumes "static_rep t tr" and "static_map_insert t k v = Inr t'"
  shows "static_rep t' (insert_node tr k v)"
  using static_insert_rep [OF assms(1), of k v] assms(2) by (auto simp: static_map_insert_def split: if_splits)

lemma static_map_remove_rep:
  assumes "static_rep t tr" and "static_map_remove t k = (t', r)"
  shows "static_rep t' (fst (remove_node tr k)) \<and> r = snd (remove_node tr k)"
  using static_remove_rep [OF assms(1), of k] assms(2) by (auto simp: static_map_remove_def)

lemma static_rep_wf: "static_rep t tr \<Longrightarrow> avl_wf tr"
  by (simp add: static_rep_def)

interpretation static_avl: word_map "static_new n" static_map_insert static_map_find static_map_remove static_wf for n
proof unfold_locales
  show "static_wf (static_new n)" using static_new_rep by (auto simp: static_wf_def)
  show "static_map_find (static_new n) k = None" for k by (simp add: static_map_find_rep [OF static_new_rep])
  fix m k v m' r
  show "static_wf m \<Longrightarrow> static_map_insert m k v = Inr m' \<Longrightarrow> static_wf m'"
    unfolding static_wf_def using static_map_insert_rep by blast
  show "static_wf m \<Longrightarrow> static_map_insert m k v = Inr m' \<Longrightarrow> static_map_find m' = (static_map_find m)(k \<mapsto> v)"
    using static_map_insert_rep static_map_find_rep static_rep_wf avl_find_insert_node by (metis static_wf_def)
  assume r: "static_wf m" "static_map_remove m k = (m', r)"
  then obtain tr where tr: "static_rep m tr" "static_rep m' (fst (remove_node tr k))" "r = snd (remove_node tr k)"
    using static_map_remove_rep by (metis static_wf_def)
  then show "static_wf m'" by (auto simp: static_wf_def)
  show "static_map_find m' = (static_map_find m)(k := None)" "r = static_map_find m k"
    using avl_find_remove_node [OF static_rep_wf [OF tr(1)], of k "fst (remove_node tr k)" "snd (remove_node tr k)"] tr(3)
    by (simp_all add: static_map_find_rep [OF tr(1)] static_map_find_rep [OF tr(2)])
qed

section \<open>Properties\<close>

fun static_run :: "static_avl \<Rightarrow> map_op list \<Rightarrow> (map_answer list \<times> static_avl) option" where
  "static_run t [] = Some ([], t)"
| "static_run t (MapInsert k v # ops) = do {
     (r, t) \<leftarrow> static_insert t k v;
     (answers, t) \<leftarrow> static_run t ops;
     Some (Inserted (r = Inr ()) # answers, t)}"
| "static_run t (MapRemove k # ops) = do {
     (r, t) \<leftarrow> static_remove t k;
     (answers, t) \<leftarrow> static_run t ops;
     Some (Removed r # answers, t)}"

text \<open>The finite map of at most \<open>n\<close> bindings: only a new key can be refused, and only when the map is full.\<close>

fun bounded_run :: "nat \<Rightarrow> (machine_word \<rightharpoonup> machine_word) \<Rightarrow> map_op list \<Rightarrow> map_answer list \<times> (machine_word \<rightharpoonup> machine_word)" where
  "bounded_run n m [] = ([], m)"
| "bounded_run n m (MapInsert k v # ops) =
     (if m k = None \<and> n \<le> card (dom m) then map_prod ((#) (Inserted False)) id (bounded_run n m ops)
      else map_prod ((#) (Inserted True)) id (bounded_run n (m(k \<mapsto> v)) ops))"
| "bounded_run n m (MapRemove k # ops) = map_prod ((#) (Removed (m k))) id (bounded_run n (m(k := None)) ops)"

lemma static_run_refines:
  assumes "static_rep t tr" and "length (sa_nodes t) = n"
  shows "\<exists>answers t' tr'. static_run t ops = Some (answers, t') \<and> static_rep t' tr' \<and> bounded_run n (avl_find tr) ops = (answers, avl_find tr')"
  using assms
proof (induction ops arbitrary: t tr)
  case (Cons op ops)
  have wf: "avl_wf tr" using static_rep_wf [OF Cons.prems(1)] .
  show ?case
  proof (cases op)
    case (MapInsert k v)
    show ?thesis
    proof (cases "avl_find tr k = None \<and> n \<le> card (dom (avl_find tr))")
      case True
      then have "static_insert t k v = Some (Inl (), t)"
        using static_insert_rep [OF Cons.prems(1), of k v] Cons.prems(2) avl_find_card [OF wf] by simp
      then show ?thesis using Cons.IH [OF Cons.prems] True MapInsert by auto
    next
      case False
      then obtain t' where "static_insert t k v = Some (Inr (), t')" "static_rep t' (insert_node tr k v)" "length (sa_nodes t') = n"
        using static_insert_rep [OF Cons.prems(1), of k v] Cons.prems(2) avl_find_card [OF wf] by (auto split: if_splits)
      then show ?thesis
        using Cons.IH [of t' "insert_node tr k v", unfolded avl_find_insert_node [OF wf, of k v]] False MapInsert by (auto simp del: fun_upd_apply)
    qed
  next
    case (MapRemove k)
    obtain t' where t': "static_remove t k = Some (snd (remove_node tr k), t')" "static_rep t' (fst (remove_node tr k))" "length (sa_nodes t') = n"
      using static_remove_rep [OF Cons.prems(1), of k] Cons.prems(2) by auto
    have f: "avl_find (fst (remove_node tr k)) = (avl_find tr)(k := None)" "snd (remove_node tr k) = avl_find tr k"
      using avl_find_remove_node [OF wf] by (metis prod.collapse)+
    show ?thesis using Cons.IH [OF t'(2,3), unfolded f(1)] t'(1) [unfolded f(2)] MapRemove by (auto simp del: fun_upd_apply)
  qed
qed auto

text \<open>
  C29: whatever sequence of insertions and removals is made on a fresh array tree of \<open>n\<close> nodes, no call
  panics or recurses for ever, each call answers like a finite map of at most \<open>n\<close> bindings, and so does a
  lookup afterwards. An insertion is refused exactly when the key is new and all \<open>n\<close> nodes hold a binding,
  so removed nodes are always available again.
\<close>

theorem static_avl_refines_bounded_map:
  "\<exists>answers t. static_run (static_new n) ops = Some (answers, t) \<and>
     fst (bounded_run n Map.empty ops) = answers \<and> (\<forall>k. static_find t k = Some (snd (bounded_run n Map.empty ops) k))"
proof -
  have "avl_find AvlNil = Map.empty" by (rule ext) simp
  then obtain answers t tr where "static_run (static_new n) ops = Some (answers, t)" "static_rep t tr" "bounded_run n Map.empty ops = (answers, avl_find tr)"
    using static_run_refines [OF static_new_rep, of n n ops] by (auto simp: static_new_def)
  then show ?thesis using static_find_rep by force
qed

end
