(* ===== verification/Vm_Space.thy ===== *)
theory Vm_Space imports Static_Avl begin

text \<open>
  The virtual memory bookkeeping of a process (\<open>vm_space.rs\<close>): which frame backs a virtual address, which
  page tables exist, which region had its page tables ready last and which pages have restricted
  permissions. \<open>BootstrapVmSpace\<close> does the same on array trees before the heap exists. The trait
  \<open>VmTracker\<close> is the locale \<open>vm_tracker\<close>, interpreted for both; a call that panics or does not return is
  \<open>None\<close> there.
\<close>

section \<open>Definitions\<close>

definition BOOTSTRAP_VM_FRAME_MAPS :: nat where "BOOTSTRAP_VM_FRAME_MAPS = 2 ^ 14"

definition BOOTSTRAP_VM_PT_MAPS :: nat where "BOOTSTRAP_VM_PT_MAPS = 256"

definition PAGE_TABLE_REGION_SHIFT :: nat where "PAGE_TABLE_REGION_SHIFT = 12 + 9"

definition NO_PAGE_TABLE_REGION :: machine_word where "NO_PAGE_TABLE_REGION = - 1"

definition region_of :: "machine_word \<Rightarrow> machine_word" where
  "region_of va = drop_bit PAGE_TABLE_REGION_SHIFT va"

record bootstrap_vm_space =
  bv_frames :: static_avl
  bv_tables :: static_avl
  bv_region :: machine_word

definition bootstrap_new :: bootstrap_vm_space where
  "bootstrap_new =
     \<lparr>bv_frames = static_new BOOTSTRAP_VM_FRAME_MAPS, bv_tables = static_new BOOTSTRAP_VM_PT_MAPS,
      bv_region = NO_PAGE_TABLE_REGION\<rparr>"

definition bootstrap_record_frame ::
  "bootstrap_vm_space \<Rightarrow> machine_word \<Rightarrow> machine_word \<Rightarrow> ((unit + unit) \<times> bootstrap_vm_space) option" where
  "bootstrap_record_frame b va frame = do {
     (r, frames) \<leftarrow> static_insert (bv_frames b) va frame;
     case r of
       Inl e \<Rightarrow> Some (Inl e, b\<lparr>bv_frames := frames\<rparr>)
     | Inr u \<Rightarrow> Some (Inr (), b\<lparr>bv_frames := frames, bv_region := region_of va\<rparr>)}"

definition bootstrap_record_page_table ::
  "bootstrap_vm_space \<Rightarrow> machine_word \<Rightarrow> machine_word \<Rightarrow> ((unit + unit) \<times> bootstrap_vm_space) option" where
  "bootstrap_record_page_table b va slot = do {
     (r, tables) \<leftarrow> static_insert (bv_tables b) va slot;
     Some (r, b\<lparr>bv_tables := tables\<rparr>)}"

definition bootstrap_find_frame :: "bootstrap_vm_space \<Rightarrow> machine_word \<Rightarrow> machine_word option option" where
  "bootstrap_find_frame b va = static_find (bv_frames b) va"

definition bootstrap_find_page_table_slot :: "bootstrap_vm_space \<Rightarrow> machine_word \<Rightarrow> machine_word option option" where
  "bootstrap_find_page_table_slot b va = static_find (bv_tables b) va"

definition bootstrap_forget_frame ::
  "bootstrap_vm_space \<Rightarrow> machine_word \<Rightarrow> (machine_word option \<times> bootstrap_vm_space) option" where
  "bootstrap_forget_frame b va = do {
     (r, frames) \<leftarrow> static_remove (bv_frames b) va;
     Some (r, b\<lparr>bv_frames := frames\<rparr>)}"

definition bootstrap_page_tables_ready :: "bootstrap_vm_space \<Rightarrow> machine_word \<Rightarrow> bool" where
  "bootstrap_page_tables_ready b va \<longleftrightarrow> bv_region b = region_of va"

record vm_space =
  vm_frames :: avl_tree
  vm_tables :: avl_tree
  vm_region :: machine_word
  vm_permissions :: "machine_word \<rightharpoonup> machine_word"

definition vm_new :: vm_space where
  "vm_new = \<lparr>vm_frames = avl_new, vm_tables = avl_new, vm_region = NO_PAGE_TABLE_REGION, vm_permissions = Map.empty\<rparr>"

definition vm_forget_frame :: "vm_space \<Rightarrow> machine_word \<Rightarrow> machine_word option \<times> vm_space" where
  "vm_forget_frame s va =
     (case avl_remove (vm_frames s) va of
        (frames, r) \<Rightarrow> (r, s\<lparr>vm_permissions := (vm_permissions s)(va := None), vm_frames := frames\<rparr>))"

definition permissions_of :: "vm_space \<Rightarrow> machine_word \<Rightarrow> machine_word" where
  "permissions_of s va = (case vm_permissions s va of Some p \<Rightarrow> p | None \<Rightarrow> 7)"

definition set_permissions :: "vm_space \<Rightarrow> machine_word \<Rightarrow> machine_word \<Rightarrow> vm_space" where
  "set_permissions s va p =
     (if p = 7 then s\<lparr>vm_permissions := (vm_permissions s)(va := None)\<rparr>
      else s\<lparr>vm_permissions := (vm_permissions s)(va \<mapsto> p)\<rparr>)"

definition backed_pages :: "vm_space \<Rightarrow> machine_word \<Rightarrow> machine_word \<Rightarrow> (machine_word \<times> machine_word) list" where
  "backed_pages s lo hi = map (\<lambda>(va, frame). (va, permissions_of s va)) (visit_range (vm_frames s) lo hi)"

definition vm_record_frame :: "vm_space \<Rightarrow> machine_word \<Rightarrow> machine_word \<Rightarrow> (unit + unit) \<times> vm_space" where
  "vm_record_frame s va frame =
     (case avl_insert (vm_frames s) va frame of
        Inl e \<Rightarrow> (Inl e, s)
      | Inr frames \<Rightarrow> (Inr (), s\<lparr>vm_frames := frames, vm_region := region_of va\<rparr>))"

definition vm_record_page_table :: "vm_space \<Rightarrow> machine_word \<Rightarrow> machine_word \<Rightarrow> (unit + unit) \<times> vm_space" where
  "vm_record_page_table s va slot =
     (case avl_insert (vm_tables s) va slot of
        Inl e \<Rightarrow> (Inl e, s)
      | Inr tables \<Rightarrow> (Inr (), s\<lparr>vm_tables := tables\<rparr>))"

definition vm_find_frame :: "vm_space \<Rightarrow> machine_word \<Rightarrow> machine_word option" where
  "vm_find_frame s va = avl_find (vm_frames s) va"

definition vm_find_page_table_slot :: "vm_space \<Rightarrow> machine_word \<Rightarrow> machine_word option" where
  "vm_find_page_table_slot s va = avl_find (vm_tables s) va"

definition vm_page_tables_ready :: "vm_space \<Rightarrow> machine_word \<Rightarrow> bool" where
  "vm_page_tables_ready s va \<longleftrightarrow> vm_region s = region_of va"

section \<open>The trait VmTracker\<close>

datatype vm_call = RecordFrame machine_word machine_word | RecordTable machine_word machine_word | ForgetFrame machine_word

record vm_history =
  vh_frames :: "machine_word \<rightharpoonup> machine_word"
  vh_tables :: "machine_word \<rightharpoonup> machine_word"
  vh_last :: "machine_word option"

text \<open>What a call means: an accepted record binds, forgetting unbinds, the last accepted frame is remembered.\<close>

fun history_step :: "vm_history \<Rightarrow> vm_call \<Rightarrow> bool \<Rightarrow> vm_history" where
  "history_step h (RecordFrame va frame) accepted =
     (if accepted then h\<lparr>vh_frames := (vh_frames h)(va \<mapsto> frame), vh_last := Some va\<rparr> else h)"
| "history_step h (RecordTable va slot) accepted = (if accepted then h\<lparr>vh_tables := (vh_tables h)(va \<mapsto> slot)\<rparr> else h)"
| "history_step h (ForgetFrame va) accepted = h\<lparr>vh_frames := (vh_frames h)(va := None)\<rparr>"

definition history_new :: vm_history where
  "history_new = \<lparr>vh_frames = Map.empty, vh_tables = Map.empty, vh_last = None\<rparr>"

definition history_region :: "vm_history \<Rightarrow> machine_word" where
  "history_region h = (case vh_last h of None \<Rightarrow> NO_PAGE_TABLE_REGION | Some va \<Rightarrow> region_of va)"

text \<open>A sequence of calls on a tracker, given its three mutating operations; the answers say what was accepted.\<close>

fun vm_call_on ::
  "('s \<Rightarrow> machine_word \<Rightarrow> machine_word \<Rightarrow> ((unit + unit) \<times> 's) option) \<Rightarrow>
   ('s \<Rightarrow> machine_word \<Rightarrow> machine_word \<Rightarrow> ((unit + unit) \<times> 's) option) \<Rightarrow>
   ('s \<Rightarrow> machine_word \<Rightarrow> (machine_word option \<times> 's) option) \<Rightarrow> vm_call \<Rightarrow> 's \<Rightarrow> (bool \<times> 's) option" where
  "vm_call_on rf rt ff (RecordFrame va frame) s = map_option (map_prod (\<lambda>r. r = Inr ()) id) (rf s va frame)"
| "vm_call_on rf rt ff (RecordTable va slot) s = map_option (map_prod (\<lambda>r. r = Inr ()) id) (rt s va slot)"
| "vm_call_on rf rt ff (ForgetFrame va) s = map_option (map_prod (\<lambda>r. True) id) (ff s va)"

fun vm_calls_on ::
  "(vm_call \<Rightarrow> 's \<Rightarrow> (bool \<times> 's) option) \<Rightarrow> vm_call list \<Rightarrow> 's \<Rightarrow> (bool list \<times> 's) option" where
  "vm_calls_on step [] s = Some ([], s)"
| "vm_calls_on step (c # cs) s = do {
     (r, s) \<leftarrow> step c s;
     (rs, s) \<leftarrow> vm_calls_on step cs s;
     Some (r # rs, s)}"

definition history_after :: "vm_call list \<Rightarrow> bool list \<Rightarrow> vm_history" where
  "history_after cs rs = fold (\<lambda>(c, r) h. history_step h c r) (zip cs rs) history_new"

text \<open>The marker of \<open>new\<close> is the region of no address, since a region number has 43 bits.\<close>

lemma region_of_neq_none: "region_of va \<noteq> NO_PAGE_TABLE_REGION"
proof
  assume "region_of va = NO_PAGE_TABLE_REGION"
  then have "bit (drop_bit 21 va) 63" by (simp add: region_of_def NO_PAGE_TABLE_REGION_def PAGE_TABLE_REGION_SHIFT_def)
  then show False using bit_imp_le_length [of va 84] by (simp add: bit_drop_bit_eq)
qed

locale vm_tracker =
  fixes new :: 's
    and record_frame :: "'s \<Rightarrow> machine_word \<Rightarrow> machine_word \<Rightarrow> ((unit + unit) \<times> 's) option"
    and record_page_table :: "'s \<Rightarrow> machine_word \<Rightarrow> machine_word \<Rightarrow> ((unit + unit) \<times> 's) option"
    and find_frame :: "'s \<Rightarrow> machine_word \<Rightarrow> machine_word option option"
    and find_page_table_slot :: "'s \<Rightarrow> machine_word \<Rightarrow> machine_word option option"
    and forget_frame :: "'s \<Rightarrow> machine_word \<Rightarrow> (machine_word option \<times> 's) option"
    and page_tables_ready :: "'s \<Rightarrow> machine_word \<Rightarrow> bool"
    and tracks :: "'s \<Rightarrow> vm_history \<Rightarrow> bool"
  assumes new_tracks: "tracks new history_new"
    and record_frame_tracks: "tracks s h \<Longrightarrow>
      \<exists>r s'. record_frame s va frame = Some (r, s') \<and> tracks s' (history_step h (RecordFrame va frame) (r = Inr ()))"
    and record_table_tracks: "tracks s h \<Longrightarrow>
      \<exists>r s'. record_page_table s va slot = Some (r, s') \<and> tracks s' (history_step h (RecordTable va slot) (r = Inr ()))"
    and forget_tracks: "tracks s h \<Longrightarrow>
      \<exists>s'. forget_frame s va = Some (vh_frames h va, s') \<and> tracks s' (history_step h (ForgetFrame va) True)"
    and find_frame_tracks: "tracks s h \<Longrightarrow> find_frame s va = Some (vh_frames h va)"
    and find_table_tracks: "tracks s h \<Longrightarrow> find_page_table_slot s va = Some (vh_tables h va)"
    and ready_tracks: "tracks s h \<Longrightarrow> page_tables_ready s va \<longleftrightarrow> history_region h = region_of va"
begin

lemma call_tracks:
  assumes "tracks s h"
  shows "\<exists>r s'. vm_call_on record_frame record_page_table forget_frame c s = Some (r, s') \<and> tracks s' (history_step h c r)"
proof (cases c)
  case (RecordFrame va frame)
  obtain r s' where "record_frame s va frame = Some (r, s')" "tracks s' (history_step h (RecordFrame va frame) (r = Inr ()))"
    using record_frame_tracks [OF assms, of va frame] by blast
  then show ?thesis unfolding RecordFrame by (intro exI [of _ "r = Inr ()"] exI [of _ s']) (simp del: history_step.simps)
next
  case (RecordTable va slot)
  obtain r s' where "record_page_table s va slot = Some (r, s')" "tracks s' (history_step h (RecordTable va slot) (r = Inr ()))"
    using record_table_tracks [OF assms, of va slot] by blast
  then show ?thesis unfolding RecordTable by (intro exI [of _ "r = Inr ()"] exI [of _ s']) (simp del: history_step.simps)
next
  case (ForgetFrame va)
  obtain s' where "forget_frame s va = Some (vh_frames h va, s')" "tracks s' (history_step h (ForgetFrame va) True)"
    using forget_tracks [OF assms, of va] by blast
  then show ?thesis unfolding ForgetFrame by (intro exI [of _ True] exI [of _ s']) (simp del: history_step.simps)
qed

lemma calls_track:
  assumes "tracks s h"
  shows "\<exists>rs s'. vm_calls_on (vm_call_on record_frame record_page_table forget_frame) cs s = Some (rs, s') \<and> length rs = length cs \<and>
     tracks s' (fold (\<lambda>(c, r) h. history_step h c r) (zip cs rs) h)"
  using assms
proof (induction cs arbitrary: s h)
  case (Cons c cs)
  obtain r s1 where c: "vm_call_on record_frame record_page_table forget_frame c s = Some (r, s1)" "tracks s1 (history_step h c r)"
    using call_tracks [OF Cons.prems] by blast
  from Cons.IH [OF c(2)] obtain rs s' where
    "vm_calls_on (vm_call_on record_frame record_page_table forget_frame) cs s1 = Some (rs, s')" "length rs = length cs"
    "tracks s' (fold (\<lambda>(c, r) h. history_step h c r) (zip cs rs) (history_step h c r))" by blast
  then show ?case using c(1) by (intro exI [of _ "r # rs"] exI [of _ s']) simp
qed simp

text \<open>The client's view: after any calls the answers are those of the history of accepted calls.\<close>

lemma run_answers:
  "\<exists>rs s. vm_calls_on (vm_call_on record_frame record_page_table forget_frame) cs new = Some (rs, s) \<and> length rs = length cs \<and>
     find_frame s va = Some (vh_frames (history_after cs rs) va) \<and>
     find_page_table_slot s va = Some (vh_tables (history_after cs rs) va) \<and>
     (page_tables_ready s va \<longleftrightarrow> (\<exists>last. vh_last (history_after cs rs) = Some last \<and> region_of last = region_of va))"
proof -
  obtain rs s where r: "vm_calls_on (vm_call_on record_frame record_page_table forget_frame) cs new = Some (rs, s)" "length rs = length cs"
    "tracks s (history_after cs rs)" unfolding history_after_def using calls_track [OF new_tracks] by blast
  have "page_tables_ready s va \<longleftrightarrow> (\<exists>last. vh_last (history_after cs rs) = Some last \<and> region_of last = region_of va)"
    using ready_tracks [OF r(3), of va] region_of_neq_none [of va]
    by (auto simp: history_region_def split: option.splits)
  then show ?thesis using r find_frame_tracks [OF r(3)] find_table_tracks [OF r(3)] by blast
qed

end

section \<open>Both trackers\<close>

definition vm_tracks :: "vm_space \<Rightarrow> vm_history \<Rightarrow> bool" where
  "vm_tracks s h \<longleftrightarrow> avl_wf (vm_frames s) \<and> avl_wf (vm_tables s) \<and> avl_find (vm_frames s) = vh_frames h \<and>
     avl_find (vm_tables s) = vh_tables h \<and> vm_region s = history_region h"

definition bootstrap_tracks :: "bootstrap_vm_space \<Rightarrow> vm_history \<Rightarrow> bool" where
  "bootstrap_tracks b h \<longleftrightarrow> static_wf (bv_frames b) \<and> static_wf (bv_tables b) \<and> static_map_find (bv_frames b) = vh_frames h \<and>
     static_map_find (bv_tables b) = vh_tables h \<and> bv_region b = history_region h"

lemma history_region_Some [simp]: "vh_last h = Some va \<Longrightarrow> history_region h = region_of va"
  by (simp add: history_region_def)

lemma history_region_frame [simp]:
  "history_region (h\<lparr>vh_frames := f\<rparr>) = history_region h" "history_region (h\<lparr>vh_tables := f\<rparr>) = history_region h"
  by (simp_all add: history_region_def)

interpretation vm: vm_tracker vm_new "\<lambda>s va frame. Some (vm_record_frame s va frame)" "\<lambda>s va slot. Some (vm_record_page_table s va slot)"
  "\<lambda>s va. Some (vm_find_frame s va)" "\<lambda>s va. Some (vm_find_page_table_slot s va)" "\<lambda>s va. Some (vm_forget_frame s va)"
  vm_page_tables_ready vm_tracks
proof unfold_locales
  show "vm_tracks vm_new history_new"
    using avl.find_new by (auto simp: vm_tracks_def vm_new_def history_new_def avl.invar_new history_region_def)
  fix s h va frame
  assume t: "vm_tracks s h"
  then have wf: "avl_wf (vm_frames s)" "avl_wf (vm_tables s)" by (auto simp: vm_tracks_def)
  show "\<exists>r s'. Some (vm_record_frame s va frame) = Some (r, s') \<and> vm_tracks s' (history_step h (RecordFrame va frame) (r = Inr ()))"
    using t wf by (simp add: vm_record_frame_def vm_tracks_def avl_insert_def avl_wf_insert avl_find_insert_node)
  show "\<exists>r s'. Some (vm_record_page_table s va frame) = Some (r, s') \<and> vm_tracks s' (history_step h (RecordTable va frame) (r = Inr ()))"
    using t wf by (simp add: vm_record_page_table_def vm_tracks_def avl_insert_def avl_wf_insert avl_find_insert_node)
  obtain f r where r: "avl_remove (vm_frames s) va = (f, r)" by force
  note laws = avl.invar_remove [OF wf(1) r] avl.find_remove [OF wf(1) r] avl.remove_result [OF wf(1) r]
  show "\<exists>s'. Some (vm_forget_frame s va) = Some (vh_frames h va, s') \<and> vm_tracks s' (history_step h (ForgetFrame va) True)"
    using t r laws by (simp add: vm_forget_frame_def vm_tracks_def)
  show "Some (vm_find_frame s va) = Some (vh_frames h va)" "Some (vm_find_page_table_slot s va) = Some (vh_tables h va)"
    "vm_page_tables_ready s va = (history_region h = region_of va)"
    using t by (auto simp: vm_tracks_def vm_find_frame_def vm_find_page_table_slot_def vm_page_tables_ready_def)
qed

text \<open>The array tree answers its callers as a \<open>word_map\<close> and never fails to return.\<close>

lemma static_calls:
  assumes "static_wf t"
  shows "static_find t k = Some (static_map_find t k)"
    and "\<exists>r t'. static_insert t k v = Some (r, t') \<and> static_wf t' \<and>
      static_map_find t' = (if r = Inr () then (static_map_find t)(k \<mapsto> v) else static_map_find t)"
    and "\<exists>t'. static_remove t k = Some (static_map_find t k, t') \<and> static_wf t' \<and> static_map_find t' = (static_map_find t)(k := None)"
proof -
  obtain tr where tr: "static_rep t tr" using assms by (auto simp: static_wf_def)
  show "static_find t k = Some (static_map_find t k)" using static_find_rep [OF tr] static_map_find_rep [OF tr] by simp
  show "\<exists>r t'. static_insert t k v = Some (r, t') \<and> static_wf t' \<and>
      static_map_find t' = (if r = Inr () then (static_map_find t)(k \<mapsto> v) else static_map_find t)"
  proof (cases "avl_find tr k = None \<and> length (sa_nodes t) \<le> length (inorder tr)")
    case True
    then show ?thesis using static_insert_rep [OF tr, of k v] assms by auto
  next
    case False
    then obtain t' where i: "static_insert t k v = Some (Inr (), t')" using static_insert_rep [OF tr, of k v] by auto
    then have "static_map_insert t k v = Inr t'" by (simp add: static_map_insert_def)
    then show ?thesis using i static_avl.invar_insert [OF assms] static_avl.find_insert [OF assms] by fastforce
  qed
  obtain r t' where r: "static_remove t k = Some (r, t')" using static_remove_rep [OF tr, of k] by auto
  then have "static_map_remove t k = (t', r)" by (simp add: static_map_remove_def)
  then show "\<exists>t'. static_remove t k = Some (static_map_find t k, t') \<and> static_wf t' \<and> static_map_find t' = (static_map_find t)(k := None)"
    using r static_avl.invar_remove [OF assms] static_avl.find_remove [OF assms] static_avl.remove_result [OF assms] by fastforce
qed

interpretation bootstrap: vm_tracker bootstrap_new bootstrap_record_frame bootstrap_record_page_table
  bootstrap_find_frame bootstrap_find_page_table_slot bootstrap_forget_frame bootstrap_page_tables_ready bootstrap_tracks
proof unfold_locales
  show "bootstrap_tracks bootstrap_new history_new"
    using static_avl.find_new by (auto simp: bootstrap_tracks_def bootstrap_new_def history_new_def static_avl.invar_new history_region_def)
  fix s h va frame
  assume t: "bootstrap_tracks s h"
  then have wf: "static_wf (bv_frames s)" "static_wf (bv_tables s)" by (auto simp: bootstrap_tracks_def)
  obtain r f where f: "static_insert (bv_frames s) va frame = Some (r, f)" "static_wf f"
    "static_map_find f = (if r = Inr () then (static_map_find (bv_frames s))(va \<mapsto> frame) else static_map_find (bv_frames s))"
    using static_calls(2) [OF wf(1)] by blast
  show "\<exists>r s'. bootstrap_record_frame s va frame = Some (r, s') \<and> bootstrap_tracks s' (history_step h (RecordFrame va frame) (r = Inr ()))"
    using f t by (cases r) (auto simp: bootstrap_record_frame_def bootstrap_tracks_def)
  obtain r f where f: "static_insert (bv_tables s) va frame = Some (r, f)" "static_wf f"
    "static_map_find f = (if r = Inr () then (static_map_find (bv_tables s))(va \<mapsto> frame) else static_map_find (bv_tables s))"
    using static_calls(2) [OF wf(2)] by blast
  show "\<exists>r s'. bootstrap_record_page_table s va frame = Some (r, s') \<and> bootstrap_tracks s' (history_step h (RecordTable va frame) (r = Inr ()))"
    using f t by (cases r) (auto simp: bootstrap_record_page_table_def bootstrap_tracks_def)
  obtain f where f: "static_remove (bv_frames s) va = Some (static_map_find (bv_frames s) va, f)" "static_wf f"
    "static_map_find f = (static_map_find (bv_frames s))(va := None)" using static_calls(3) [OF wf(1)] by blast
  show "\<exists>s'. bootstrap_forget_frame s va = Some (vh_frames h va, s') \<and> bootstrap_tracks s' (history_step h (ForgetFrame va) True)"
    using f t by (simp add: bootstrap_forget_frame_def bootstrap_tracks_def)
  show "bootstrap_find_frame s va = Some (vh_frames h va)" "bootstrap_find_page_table_slot s va = Some (vh_tables h va)"
    "bootstrap_page_tables_ready s va = (history_region h = region_of va)"
    using t static_calls(1) [OF wf(1)] static_calls(1) [OF wf(2)]
    by (auto simp: bootstrap_tracks_def bootstrap_find_frame_def bootstrap_find_page_table_slot_def bootstrap_page_tables_ready_def)
qed

section \<open>Properties\<close>

text \<open>
  C30: before the heap exists, the bootstrap tracker never panics or hangs, and after any calls a lookup
  answers with the frame or page table that the last accepted call recorded there and that was not
  forgotten since; \<open>page_tables_ready\<close> holds exactly for the addresses in the 2 MiB region of the last
  frame that was accepted, and for none before the first.
\<close>

theorem bootstrap_answers_history:
  "\<exists>rs s. vm_calls_on (vm_call_on bootstrap_record_frame bootstrap_record_page_table bootstrap_forget_frame) cs bootstrap_new = Some (rs, s) \<and>
     length rs = length cs \<and>
     bootstrap_find_frame s va = Some (vh_frames (history_after cs rs) va) \<and>
     bootstrap_find_page_table_slot s va = Some (vh_tables (history_after cs rs) va) \<and>
     (bootstrap_page_tables_ready s va \<longleftrightarrow>
        (\<exists>last. vh_last (history_after cs rs) = Some last \<and> region_of last = region_of va))"
  by (rule bootstrap.run_answers)

text \<open>Every mutating call of \<open>VmSpace\<close>, and what it means for the frames and permissions of the pages.\<close>

datatype vm_request = Track vm_call | SetPermissions machine_word machine_word

fun vm_apply :: "vm_request \<Rightarrow> vm_space \<Rightarrow> vm_space" where
  "vm_apply (Track (RecordFrame va frame)) s = snd (vm_record_frame s va frame)"
| "vm_apply (Track (RecordTable va slot)) s = snd (vm_record_page_table s va slot)"
| "vm_apply (Track (ForgetFrame va)) s = snd (vm_forget_frame s va)"
| "vm_apply (SetPermissions va p) s = set_permissions s va p"

type_synonym page_view = "(machine_word \<rightharpoonup> machine_word) \<times> (machine_word \<Rightarrow> machine_word)"

fun view_apply :: "vm_request \<Rightarrow> page_view \<Rightarrow> page_view" where
  "view_apply (Track (RecordFrame va frame)) (f, p) = (f(va \<mapsto> frame), p)"
| "view_apply (Track (RecordTable va slot)) v = v"
| "view_apply (Track (ForgetFrame va)) (f, p) = (f(va := None), p(va := 7))"
| "view_apply (SetPermissions va q) (f, p) = (f, p(va := q))"

definition vm_view :: "vm_space \<Rightarrow> page_view" where
  "vm_view s = (vm_find_frame s, permissions_of s)"

lemma vm_apply_view:
  assumes "avl_wf (vm_frames s)"
  shows "vm_view (vm_apply q s) = view_apply q (vm_view s) \<and> avl_wf (vm_frames (vm_apply q s))"
proof -
  consider (1) va frame where "q = Track (RecordFrame va frame)" | (2) va slot where "q = Track (RecordTable va slot)"
    | (3) va where "q = Track (ForgetFrame va)" | (4) va p where "q = SetPermissions va p"
    by (metis vm_call.exhaust vm_request.exhaust)
  then show ?thesis
  proof cases
  case (1 va frame)
  then show ?thesis using assms
    by (auto simp: vm_record_frame_def avl_insert_def vm_view_def vm_find_frame_def [abs_def] avl_find_insert_node avl_wf_insert permissions_of_def [abs_def])
next
  case (2 va slot)
  then show ?thesis using assms
    by (auto simp: vm_record_page_table_def avl_insert_def vm_view_def vm_find_frame_def [abs_def] permissions_of_def [abs_def])
next
  case (3 va)
  obtain f r where r: "avl_remove (vm_frames s) va = (f, r)" by force
  then show ?thesis using 3 avl.find_remove [OF assms r] avl.invar_remove [OF assms r]
    by (auto simp: vm_forget_frame_def vm_view_def vm_find_frame_def [abs_def] permissions_of_def [abs_def] fun_eq_iff)
next
  case (4 va p)
  then show ?thesis using assms
    by (auto simp: set_permissions_def vm_view_def vm_find_frame_def [abs_def] permissions_of_def [abs_def] fun_eq_iff)
  qed
qed

lemma vm_run_view:
  assumes "avl_wf (vm_frames s)"
  shows "vm_view (fold vm_apply qs s) = fold view_apply qs (vm_view s) \<and> avl_wf (vm_frames (fold vm_apply qs s))"
  using assms by (induction qs arbitrary: s) (simp_all add: vm_apply_view)

lemma backed_pages_of_wf:
  assumes "avl_wf (vm_frames s)"
  shows "sorted_wrt (\<lambda>a b. fst a < fst b) (backed_pages s lo hi) \<and>
    set (backed_pages s lo hi) = {(va, permissions_of s va) | va. lo \<le> va \<and> va < hi \<and> vm_find_frame s va \<noteq> None}"
proof
  note vis = visit_range_bindings [OF assms, of lo hi]
  show "sorted_wrt (\<lambda>a b. fst a < fst b) (backed_pages s lo hi)"
    using vis by (simp add: backed_pages_def sorted_wrt_map case_prod_beta)
  have "set (backed_pages s lo hi) = (\<lambda>(va, frame). (va, permissions_of s va)) ` {(k, v). lo \<le> k \<and> k < hi \<and> avl_find (vm_frames s) k = Some v}"
    using vis by (simp add: backed_pages_def)
  also have "\<dots> = {(va, permissions_of s va) | va. lo \<le> va \<and> va < hi \<and> vm_find_frame s va \<noteq> None}"
    by (auto simp: vm_find_frame_def image_iff)
  finally show "set (backed_pages s lo hi) = {(va, permissions_of s va) | va. lo \<le> va \<and> va < hi \<and> vm_find_frame s va \<noteq> None}" .
qed

text \<open>
  C31: whatever was recorded, forgotten and restricted before, \<open>backed_pages\<close> lists exactly the addresses of
  the half-open range that are backed by a frame, in increasing order, each with the permission that was set
  last since its frame was last forgotten and with all permissions when there is none.
\<close>

theorem backed_pages_exact:
  "sorted_wrt (\<lambda>a b. fst a < fst b) (backed_pages (fold vm_apply qs vm_new) lo hi) \<and>
   set (backed_pages (fold vm_apply qs vm_new) lo hi) =
     {(va, snd (fold view_apply qs (Map.empty, \<lambda>_. 7)) va) | va.
        lo \<le> va \<and> va < hi \<and> fst (fold view_apply qs (Map.empty, \<lambda>_. 7)) va \<noteq> None}"
proof -
  let ?s = "fold vm_apply qs vm_new"
  have "vm_view vm_new = (Map.empty, \<lambda>_. 7)"
    by (auto simp: vm_view_def vm_new_def vm_find_frame_def [abs_def] avl_new_def permissions_of_def [abs_def])
  moreover have "avl_wf (vm_frames vm_new)" using avl.invar_new by (simp add: vm_new_def)
  ultimately have view: "vm_view ?s = fold view_apply qs (Map.empty, \<lambda>_. 7)" and wf: "avl_wf (vm_frames ?s)"
    using vm_run_view [of vm_new qs] by auto
  have v: "fst (fold view_apply qs (Map.empty, \<lambda>_. 7)) = vm_find_frame ?s" "snd (fold view_apply qs (Map.empty, \<lambda>_. 7)) = permissions_of ?s"
    unfolding view [symmetric] by (simp_all add: vm_view_def)
  show ?thesis unfolding v by (rule backed_pages_of_wf [OF wf])
qed

end
