(* ===== verification/Hash_Index.thy ===== *)
theory Hash_Index imports Nanami_Prelude "HOL-Library.Monad_Syntax" begin

text \<open>
  The open-addressing hash index of \<open>process/physical_allocations.rs\<close> (\<open>struct Index\<close>): linear probing in a
  table of a power of two of slots, at most half full, with backward-shift deletion instead of tombstones.
  The hash function is a parameter. A probe that does not end and a failed \<open>unwrap\<close> are \<open>None\<close>. The lemmas
  show that the index is a finite map for every hash function and that every loop ends.
\<close>

section \<open>Definitions\<close>

record 'k index =
  ix_slots :: "('k \<times> nat) option list"
  ix_len :: nat

definition index_new :: "'k index" where
  "index_new = \<lparr>ix_slots = [], ix_len = 0\<rparr>"

definition wrapping_sub :: "nat \<Rightarrow> nat \<Rightarrow> nat" where
  "wrapping_sub a b = (a + usize_limit - b) mod usize_limit"

partial_function (option) probe_key :: "('k \<times> nat) option list \<Rightarrow> 'k \<Rightarrow> nat \<Rightarrow> nat option option" where
  "probe_key slots key i =
     (if i < length slots then
        (case slots ! i of
           Some (found, v) \<Rightarrow>
             if found = key then Some (Some i) else probe_key slots key ((i + 1) AND (length slots - 1))
         | None \<Rightarrow> Some None)
      else None)"

definition index_locate :: "('k \<Rightarrow> nat) \<Rightarrow> 'k index \<Rightarrow> 'k \<Rightarrow> nat option option" where
  "index_locate hash ix key =
     (if ix_slots ix = [] then Some None
      else probe_key (ix_slots ix) key (hash key AND (length (ix_slots ix) - 1)))"

definition index_get :: "('k \<Rightarrow> nat) \<Rightarrow> 'k index \<Rightarrow> 'k \<Rightarrow> nat option option" where
  "index_get hash ix key = do {
     found \<leftarrow> index_locate hash ix key;
     case found of
       None \<Rightarrow> Some None
     | Some i \<Rightarrow> (case ix_slots ix ! i of Some (k, v) \<Rightarrow> Some (Some v) | None \<Rightarrow> None)}"

partial_function (option) probe_free :: "('k \<times> nat) option list \<Rightarrow> nat \<Rightarrow> nat option" where
  "probe_free slots i =
     (if i < length slots then
        if slots ! i \<noteq> None then probe_free slots ((i + 1) AND (length slots - 1)) else Some i
      else None)"

text \<open>The tail of \<open>insert\<close>, for a key that is not in the table.\<close>

definition index_place :: "('k \<Rightarrow> nat) \<Rightarrow> 'k index \<Rightarrow> 'k \<Rightarrow> nat \<Rightarrow> 'k index option" where
  "index_place hash ix key val = do {
     i \<leftarrow> probe_free (ix_slots ix) (hash key AND (length (ix_slots ix) - 1));
     Some \<lparr>ix_slots = (ix_slots ix)[i := Some (key, val)], ix_len = ix_len ix + 1\<rparr>}"

text \<open>\<open>entries\<close> is \<open>into_iter().flatten()\<close>.\<close>

fun entries :: "'a option list \<Rightarrow> 'a list" where
  "entries [] = []"
| "entries (None # es) = entries es"
| "entries (Some x # es) = x # entries es"

text \<open>
  Inserting one entry after the other: growing the table inserts the old entries into an empty table of
  twice the size in the same way, and \<open>insert\<close> is the case of one entry.
\<close>

partial_function (option) insert_each :: "('k \<Rightarrow> nat) \<Rightarrow> 'k index \<Rightarrow> ('k \<times> nat) list \<Rightarrow> 'k index option" where
  "insert_each hash ix es =
     (case es of
        [] \<Rightarrow> Some ix
      | (key, val) # rest \<Rightarrow> do {
          found \<leftarrow> index_locate hash ix key;
          ix \<leftarrow> (case found of
              Some i \<Rightarrow> Some (ix\<lparr>ix_slots := (ix_slots ix)[i := Some (key, val)]\<rparr>)
            | None \<Rightarrow> do {
                ix \<leftarrow> (if (ix_len ix + 1) * 2 > length (ix_slots ix)
                  then insert_each hash
                    \<lparr>ix_slots = replicate (max (saturating_mul (length (ix_slots ix)) 2) 16) None, ix_len = 0\<rparr>
                    (entries (ix_slots ix))
                  else Some ix);
                index_place hash ix key val});
          insert_each hash ix rest})"

definition index_insert :: "('k \<Rightarrow> nat) \<Rightarrow> 'k index \<Rightarrow> 'k \<Rightarrow> nat \<Rightarrow> 'k index option" where
  "index_insert hash ix key val = insert_each hash ix [(key, val)]"

partial_function (option) shift_back ::
  "('k \<Rightarrow> nat) \<Rightarrow> ('k \<times> nat) option list \<Rightarrow> nat \<Rightarrow> nat \<Rightarrow> ('k \<times> nat) option list option" where
  "shift_back hash slots hole scan =
     (if scan < length slots then
        (case slots ! scan of
           None \<Rightarrow> Some slots
         | Some (key, v) \<Rightarrow>
             let mask = length slots - 1; ideal = hash key AND mask
             in if wrapping_sub scan ideal AND mask \<ge> wrapping_sub scan hole AND mask
                then shift_back hash (slots[scan := None, hole := slots ! scan]) scan ((scan + 1) AND mask)
                else shift_back hash slots hole ((scan + 1) AND mask))
      else None)"

definition index_remove :: "('k \<Rightarrow> nat) \<Rightarrow> 'k index \<Rightarrow> 'k \<Rightarrow> (nat option \<times> 'k index) option" where
  "index_remove hash ix key = do {
     found \<leftarrow> index_locate hash ix key;
     case found of
       None \<Rightarrow> Some (None, ix)
     | Some hole \<Rightarrow>
         (case ix_slots ix ! hole of
            None \<Rightarrow> None
          | Some (k, val) \<Rightarrow> do {
              slots \<leftarrow> shift_back hash ((ix_slots ix)[hole := None]) hole ((hole + 1) AND (length (ix_slots ix) - 1));
              Some (Some val, \<lparr>ix_slots = slots, ix_len = ix_len ix - 1\<rparr>)})}"

section \<open>The table as a circle\<close>

text \<open>Slots are read at an integer position modulo the size; \<open>lag\<close> is the distance of a position from the ideal slot of a key.\<close>

definition at :: "('k \<times> nat) option list \<Rightarrow> int \<Rightarrow> ('k \<times> nat) option" where
  "at slots j = slots ! nat (j mod int (length slots))"

definition lag :: "('k \<Rightarrow> nat) \<Rightarrow> nat \<Rightarrow> 'k \<Rightarrow> int \<Rightarrow> int" where
  "lag hash n key j = (j - int (hash key)) mod int n"

text \<open>No free slot between the ideal slot of an entry and its slot, except the hole of a removal in progress.\<close>

definition probed :: "('k \<Rightarrow> nat) \<Rightarrow> ('k \<times> nat) option list \<Rightarrow> int set \<Rightarrow> bool" where
  "probed hash slots holes \<longleftrightarrow> (\<forall>j k v d. at slots j = Some (k, v) \<longrightarrow> 1 \<le> d \<longrightarrow> d \<le> lag hash (length slots) k j \<longrightarrow>
     at slots (j - d) \<noteq> None \<or> (j - d) mod int (length slots) \<in> holes)"

definition slots_hold :: "('k \<times> nat) option list \<Rightarrow> ('k \<rightharpoonup> nat) \<Rightarrow> bool" where
  "slots_hold slots m \<longleftrightarrow> (\<forall>k v. m k = Some v \<longleftrightarrow> Some (k, v) \<in> set slots) \<and>
     (\<forall>i j k v w. i < length slots \<longrightarrow> j < length slots \<longrightarrow> slots ! i = Some (k, v) \<longrightarrow> slots ! j = Some (k, w) \<longrightarrow> i = j)"

definition used :: "('k \<times> nat) option list \<Rightarrow> nat set" where
  "used slots = {i. i < length slots \<and> slots ! i \<noteq> None}"

definition pow2_size :: "nat \<Rightarrow> bool" where
  "pow2_size n \<longleftrightarrow> (\<exists>p. 4 \<le> p \<and> p \<le> 62 \<and> n = 2 ^ p)"

lemma and_mask_mod: "pow2_size n \<Longrightarrow> x AND (n - 1) = x mod n"
  by (auto simp: pow2_size_def take_bit_eq_mod [symmetric] take_bit_eq_mask mask_eq_exp_minus_1)

lemma pow2_size_bounds: "pow2_size n \<Longrightarrow> 16 \<le> n \<and> n \<le> 2 ^ 62 \<and> n dvd usize_limit"
proof -
  assume "pow2_size n"
  then obtain p where p: "4 \<le> p" "p \<le> 62" "n = 2 ^ p" by (auto simp: pow2_size_def)
  have "(2::nat) ^ 4 \<le> 2 ^ p" "(2::nat) ^ p \<le> 2 ^ 62" using p by (intro power_increasing; simp)+
  moreover have "(2::nat) ^ p dvd 2 ^ 64" using p by (intro le_imp_power_dvd) simp
  ultimately show ?thesis using p by (simp add: usize_limit_def)
qed

lemma at_nat: "i < length slots \<Longrightarrow> at slots (int i) = slots ! i"
  by (simp add: at_def)

lemma at_mod [simp]: "at slots (j mod int (length slots)) = at slots j"
  by (simp add: at_def)

lemma nat_mod_less: "0 < length slots \<Longrightarrow> nat (j mod int (length slots)) < length slots"
  by (simp add: nat_less_iff)

lemma at_update:
  assumes "i < length slots"
  shows "at (slots[i := x]) j = (if j mod int (length slots) = int i then x else at slots j)"
proof -
  have "0 \<le> j mod int (length slots)" using assms by (intro pos_mod_sign) linarith
  then have "nat (j mod int (length slots)) = i \<longleftrightarrow> j mod int (length slots) = int i" by linarith
  moreover have "nat (j mod int (length slots)) < length slots" using assms by (intro nat_mod_less) linarith
  ultimately show ?thesis by (auto simp: at_def)
qed

lemma at_in_set: "0 < length slots \<Longrightarrow> at slots j \<in> set slots"
  unfolding at_def by (intro nth_mem nat_mod_less)

lemma next_index: "pow2_size n \<Longrightarrow> int ((i + 1) AND (n - 1)) = (int i + 1) mod int n"
  by (simp only: and_mask_mod zmod_int of_nat_add of_nat_1)

lemma first_index_of_hash: "pow2_size n \<Longrightarrow> int (h AND (n - 1)) = int h mod int n"
  by (simp only: and_mask_mod zmod_int)

lemma pow2_length_pos: "pow2_size n \<Longrightarrow> 0 < n"
  using pow2_size_bounds by fastforce

lemma probe_walk:
  assumes size: "pow2_size (length slots)" and "int i = s mod int (length slots)"
    and "\<And>d. d < n \<Longrightarrow> \<exists>k v. at slots (s + int d) = Some (k, v) \<and> k \<noteq> key"
  shows "at slots (s + int n) = None \<Longrightarrow> probe_key slots key i = Some None"
    and "at slots (s + int n) = Some (key, v) \<Longrightarrow> probe_key slots key i = Some (Some (nat ((s + int n) mod int (length slots))))"
    and "at slots (s + int n) = None \<Longrightarrow> probe_free slots i = Some (nat ((s + int n) mod int (length slots)))"
proof -
  let ?N = "int (length slots)"
  have pos: "0 < ?N" using pow2_length_pos [OF size] by simp
  have i: "i < length slots" if "int i = s mod ?N" for i s using that pos pos_mod_bound [OF pos, of s] by linarith
  have cur: "slots ! i = at slots s" if "int i = s mod ?N" for i s
    unfolding at_def using that by (metis nat_int)
  have nxt: "int ((i + 1) AND (length slots - 1)) = (s + 1) mod ?N" if "int i = s mod ?N" for i s
    unfolding next_index [OF size] that by (simp add: mod_simps)
  have "(at slots (s + int n) = None \<longrightarrow> probe_key slots key i = Some None \<and> probe_free slots i = Some (nat ((s + int n) mod ?N))) \<and>
    (at slots (s + int n) = Some (key, v) \<longrightarrow> probe_key slots key i = Some (Some (nat ((s + int n) mod ?N))))"
    using assms(2,3)
  proof (induction n arbitrary: s i)
    case 0
    have e: "nat (s mod ?N) = i" using 0(1) by linarith
    have "at slots s = None \<Longrightarrow> probe_key slots key i = Some None" "at slots s = None \<Longrightarrow> probe_free slots i = Some i"
      "at slots s = Some (key, v) \<Longrightarrow> probe_key slots key i = Some (Some i)"
      using i [OF 0(1)] cur [OF 0(1)] by (simp_all add: probe_key.simps [of slots key i] probe_free.simps [of slots i])
    then show ?case by (simp add: e)
  next
    case (Suc n)
    obtain k w where k: "at slots s = Some (k, w)" "k \<noteq> key" using Suc.prems(2) [of 0] by auto
    have "\<exists>k v. at slots (s + 1 + int d) = Some (k, v) \<and> k \<noteq> key" if "d < n" for d
      using Suc.prems(2) [of "Suc d"] that by (simp add: ac_simps)
    note IH = Suc.IH [OF nxt [OF Suc.prems(1)] this]
    have e: "s + 1 + int n = s + int (Suc n)" by simp
    show ?case using IH i [OF Suc.prems(1)] cur [OF Suc.prems(1)] k
      unfolding e by (auto simp: probe_key.simps [of slots key i] probe_free.simps [of slots i])
  qed
  then show "at slots (s + int n) = None \<Longrightarrow> probe_key slots key i = Some None"
    and "at slots (s + int n) = Some (key, v) \<Longrightarrow> probe_key slots key i = Some (Some (nat ((s + int n) mod int (length slots))))"
    and "at slots (s + int n) = None \<Longrightarrow> probe_free slots i = Some (nat ((s + int n) mod int (length slots)))" by auto
qed

text \<open>A table that is not full has a first free slot from every position.\<close>

lemma first_free:
  assumes "0 < length slots" and "card (used slots) < length slots"
  obtains n where "n < length slots" "at slots (s + int n) = None" "\<And>d. d < n \<Longrightarrow> at slots (s + int d) \<noteq> None"
proof -
  let ?N = "int (length slots)"
  have "used slots \<noteq> {..<length slots}" using assms(2) by (metis card_lessThan nat_neq_iff)
  then obtain e where e: "e < length slots" "slots ! e = None" unfolding used_def by blast
  define m where "m = nat ((int e - s) mod ?N)"
  have pos: "0 < ?N" using assms(1) by simp
  have m: "int m = (int e - s) mod ?N" using pos by (simp add: m_def)
  have "(s + int m) mod ?N = (s + (int e - s)) mod ?N" unfolding m by (rule mod_add_right_eq)
  then have "(s + int m) mod ?N = int e" using e(1) by simp
  then have "at slots (s + int m) = None" using e(2) by (simp add: at_def)
  define n where "n = (LEAST n. at slots (s + int n) = None)"
  have ex: "at slots (s + int n) = None" unfolding n_def by (rule LeastI) (rule \<open>at slots (s + int m) = None\<close>)
  have "n \<le> m" unfolding n_def by (rule Least_le) (rule \<open>at slots (s + int m) = None\<close>)
  moreover have "m < length slots" using pos pos_mod_bound [OF pos, of "int e - s"] by (simp add: m_def nat_less_iff)
  ultimately have "n < length slots" by simp
  moreover have "at slots (s + int d) \<noteq> None" if "d < n" for d using not_less_Least that unfolding n_def by blast
  ultimately show thesis using ex that by blast
qed

lemma probedD:
  "probed hash slots H \<Longrightarrow> at slots j = Some (k, v) \<Longrightarrow> 1 \<le> d \<Longrightarrow> d \<le> lag hash (length slots) k j \<Longrightarrow>
   at slots (j - d) \<noteq> None \<or> (j - d) mod int (length slots) \<in> H"
  unfolding probed_def by blast

lemma holds_at: "slots_hold slots m \<Longrightarrow> 0 < length slots \<Longrightarrow> at slots j = Some (k, v) \<Longrightarrow> m k = Some v"
  unfolding slots_hold_def using at_in_set [of slots j] by metis

lemma holds_unique:
  "slots_hold slots m \<Longrightarrow> i < length slots \<Longrightarrow> j < length slots \<Longrightarrow> slots ! i = Some (k, v) \<Longrightarrow> slots ! j = Some (k, w) \<Longrightarrow> i = j"
  unfolding slots_hold_def by blast

lemma holds_same_position:
  assumes "slots_hold slots m" and "0 < length slots" and "at slots i = Some (k, v)" and "at slots j = Some (k, w)"
  shows "i mod int (length slots) = j mod int (length slots)"
proof -
  have "nat (i mod int (length slots)) = nat (j mod int (length slots))"
    by (rule holds_unique [OF assms(1) nat_mod_less nat_mod_less assms(3) [unfolded at_def] assms(4) [unfolded at_def]]) (rule assms(2))+
  moreover have "0 \<le> i mod int (length slots)" "0 \<le> j mod int (length slots)" using assms(2) by simp_all
  ultimately show ?thesis by linarith
qed

lemma small_mod_eq:
  assumes "(s + a) mod n = (s + b) mod (n::int)" and "0 \<le> a" and "a < n" and "0 \<le> b" and "b < n"
  shows "a = b"
  using assms by (metis add_diff_cancel_left' mod_diff_left_eq mod_pos_pos_trivial)

lemma locate_present:
  assumes size: "pow2_size (length slots)" and m: "slots_hold slots m" and p: "probed hash slots {}" and "m key = Some v"
  obtains i where "probe_key slots key (hash key AND (length slots - 1)) = Some (Some i)" "i < length slots" "slots ! i = Some (key, v)"
proof -
  let ?N = "int (length slots)" and ?s = "int (hash key)"
  have pos: "0 < length slots" by (rule pow2_length_pos [OF size])
  obtain j where j: "j < length slots" "slots ! j = Some (key, v)" using m assms(4) unfolding slots_hold_def by (metis in_set_conv_nth)
  define n where "n = nat ((int j - ?s) mod ?N)"
  have n: "int n = (int j - ?s) mod ?N" "int n < ?N" using pos by (simp_all add: n_def)
  have "(?s + int n) mod ?N = (?s + (int j - ?s)) mod ?N" unfolding n(1) by (rule mod_add_right_eq)
  then have sn: "(?s + int n) mod ?N = int j" using j(1) by simp
  then have a: "at slots (?s + int n) = Some (key, v)" using j(2) by (simp add: at_def)
  have lag: "lag hash (length slots) key (?s + int n) = int n" using n(2) by (simp add: lag_def)
  have walk: "\<exists>k w. at slots (?s + int d) = Some (k, w) \<and> k \<noteq> key" if "d < n" for d
  proof -
    have "at slots (?s + int n - (int n - int d)) \<noteq> None"
      using probedD [OF p a, of "int n - int d"] that lag by auto
    then obtain k w where k: "at slots (?s + int d) = Some (k, w)" by auto
    moreover have "k \<noteq> key"
    proof
      assume "k = key"
      then have "(?s + int d) mod ?N = (?s + int n) mod ?N" using holds_same_position [OF m pos _ a] k by blast
      then have "int d = int n" by (rule small_mod_eq) (use that n(2) in auto)
      then show False using that by simp
    qed
    ultimately show ?thesis by blast
  qed
  have "probe_key slots key (hash key AND (length slots - 1)) = Some (Some (nat ((?s + int n) mod ?N)))"
    by (rule probe_walk(2) [OF size first_index_of_hash [OF size] walk a])
  then show thesis using that [of j] sn j by simp
qed

lemma locate_absent:
  assumes size: "pow2_size (length slots)" and m: "slots_hold slots m" and "card (used slots) < length slots" and "m key = None"
  obtains n where "probe_key slots key (hash key AND (length slots - 1)) = Some None"
    "probe_free slots (hash key AND (length slots - 1)) = Some (nat ((int (hash key) + int n) mod int (length slots)))"
    "n < length slots" "at slots (int (hash key) + int n) = None" "\<And>d. d < n \<Longrightarrow> at slots (int (hash key) + int d) \<noteq> None"
proof -
  let ?s = "int (hash key)"
  have pos: "0 < length slots" by (rule pow2_length_pos [OF size])
  obtain n where n: "n < length slots" "at slots (?s + int n) = None" "\<And>d. d < n \<Longrightarrow> at slots (?s + int d) \<noteq> None"
    using first_free [OF pos assms(3), of ?s] by blast
  have walk: "\<exists>k v. at slots (?s + int d) = Some (k, v) \<and> k \<noteq> key" if "d < n" for d
    using n(3) [OF that] holds_at [OF m pos, of "?s + int d"] assms(4) by fastforce
  show thesis
    using that [OF probe_walk(1) [OF size first_index_of_hash [OF size] walk n(2)] probe_walk(3) [OF size first_index_of_hash [OF size] walk n(2)] n]
    by blast
qed

section \<open>The index represents a finite map\<close>

definition index_rep :: "('k \<Rightarrow> nat) \<Rightarrow> 'k index \<Rightarrow> ('k \<rightharpoonup> nat) \<Rightarrow> bool" where
  "index_rep hash ix m \<longleftrightarrow>
     (if ix_slots ix = [] then ix_len ix = 0 \<and> m = Map.empty
      else pow2_size (length (ix_slots ix)) \<and> slots_hold (ix_slots ix) m \<and> probed hash (ix_slots ix) {} \<and>
        card (used (ix_slots ix)) = ix_len ix \<and> 2 * ix_len ix \<le> length (ix_slots ix))"

lemma index_repD:
  assumes "index_rep hash ix m" and "ix_slots ix \<noteq> []"
  shows "pow2_size (length (ix_slots ix))" "slots_hold (ix_slots ix) m" "probed hash (ix_slots ix) {}"
    "card (used (ix_slots ix)) = ix_len ix" "2 * ix_len ix \<le> length (ix_slots ix)" "card (used (ix_slots ix)) < length (ix_slots ix)"
  using assms pow2_size_bounds [of "length (ix_slots ix)"] by (auto simp: index_rep_def)

lemma locate_rep:
  assumes "index_rep hash ix m"
  shows "\<exists>r. index_locate hash ix key = Some r \<and>
    (case r of None \<Rightarrow> m key = None | Some i \<Rightarrow> i < length (ix_slots ix) \<and> (\<exists>v. ix_slots ix ! i = Some (key, v) \<and> m key = Some v))"
proof (cases "ix_slots ix = []")
  case True
  then show ?thesis using assms by (simp add: index_locate_def index_rep_def)
next
  case False
  note rep = index_repD [OF assms False]
  show ?thesis
  proof (cases "m key")
    case None
    have "probe_key (ix_slots ix) key (hash key AND (length (ix_slots ix) - 1)) = Some None"
      using locate_absent [OF rep(1,2,6) None, of hash] by blast
    then show ?thesis using False None by (simp add: index_locate_def)
  next
    case (Some v)
    obtain i where "probe_key (ix_slots ix) key (hash key AND (length (ix_slots ix) - 1)) = Some (Some i)" "i < length (ix_slots ix)"
      "ix_slots ix ! i = Some (key, v)" using locate_present [OF rep(1,2,3) Some] by blast
    then show ?thesis using False Some by (simp add: index_locate_def)
  qed
qed

lemma get_rep: "index_rep hash ix m \<Longrightarrow> index_get hash ix key = Some (m key)"
  using locate_rep [of hash ix m key] by (auto simp: index_get_def split: option.splits)

subsection \<open>Insertion\<close>

lemma holds_update:
  assumes m: "slots_hold slots m" and i: "i < length slots" and "slots ! i = None \<and> m key = None \<or> (\<exists>w. slots ! i = Some (key, w))"
  shows "slots_hold (slots[i := Some (key, val)]) (m(key \<mapsto> val))"
proof -
  have other: "slots ! j = Some (key, w) \<Longrightarrow> j < length slots \<Longrightarrow> j = i" for j w
    using assms(3) holds_unique [OF m _ i] m unfolding slots_hold_def by (metis nth_mem option.distinct(1))
  have "(m(key \<mapsto> val)) k = Some v \<longleftrightarrow> Some (k, v) \<in> set (slots[i := Some (key, val)])" for k v
  proof (cases "k = key")
    case True
    then show ?thesis using i other by (auto simp: in_set_conv_nth nth_list_update)
  next
    case False
    have "Some (k, v) \<in> set (slots[i := Some (key, val)]) \<longleftrightarrow> Some (k, v) \<in> set slots"
      using False assms(3) i by (auto simp: in_set_conv_nth nth_list_update) (metis option.distinct(1) option.inject prod.inject)+
    then show ?thesis using False m by (simp add: slots_hold_def)
  qed
  moreover have "a = b" if "a < length slots" "b < length slots" "slots[i := Some (key, val)] ! a = Some (k, v)"
    "slots[i := Some (key, val)] ! b = Some (k, w)" for a b k v w
    using that holds_unique [OF m that(1,2), of k v w] other by (auto simp: nth_list_update i split: if_splits)
  ultimately show ?thesis unfolding slots_hold_def by simp
qed

lemma used_update: "i < length slots \<Longrightarrow> used (slots[i := Some e]) = insert i (used slots)"
  by (auto simp: used_def nth_list_update)

lemma finite_used [simp]: "finite (used slots)"
  by (simp add: used_def)

lemma probed_update:
  assumes p: "probed hash slots {}" and i: "i < length slots"
    and "\<And>d. 1 \<le> d \<Longrightarrow> d \<le> lag hash (length slots) key (int i) \<Longrightarrow> at slots (int i - d) \<noteq> None"
  shows "probed hash (slots[i := Some (key, val)]) {}"
  unfolding probed_def
proof (intro allI impI)
  let ?t = "slots[i := Some (key, val)]" and ?N = "int (length slots)"
  fix j k v d
  assume a: "at ?t j = Some (k, v)" "1 \<le> d" "d \<le> lag hash (length ?t) k j"
  have "at slots (j - d) \<noteq> None"
  proof (cases "j mod ?N = int i")
    case True
    then have k: "k = key" using a(1) at_update [OF i] by auto
    have "lag hash (length slots) k j = lag hash (length slots) k (j mod ?N)" by (simp add: lag_def mod_diff_left_eq)
    then have "at slots (int i - d) \<noteq> None" using assms(3) [of d] a(2,3) k True by simp
    moreover have "at slots (int i - d) = at slots (j - d)"
      unfolding True [symmetric] by (simp add: at_def mod_diff_left_eq)
    ultimately show ?thesis by simp
  next
    case False
    then show ?thesis using probedD [OF p, of j k v d] a at_update [OF i] by auto
  qed
  then show "at ?t (j - d) \<noteq> None \<or> (j - d) mod int (length ?t) \<in> {}" using at_update [OF i] by auto
qed

lemma place_rep:
  assumes "index_rep hash ix m" and "ix_slots ix \<noteq> []" and "m key = None" and "2 * (ix_len ix + 1) \<le> length (ix_slots ix)"
  shows "\<exists>ix'. index_place hash ix key val = Some ix' \<and> index_rep hash ix' (m(key \<mapsto> val)) \<and>
    ix_len ix' = ix_len ix + 1 \<and> length (ix_slots ix') = length (ix_slots ix)"
proof -
  let ?sl = "ix_slots ix" and ?N = "int (length (ix_slots ix))" and ?s = "int (hash key)"
  note rep = index_repD [OF assms(1,2)]
  obtain n where n: "probe_free ?sl (hash key AND (length ?sl - 1)) = Some (nat ((?s + int n) mod ?N))"
    "n < length ?sl" "at ?sl (?s + int n) = None" "\<And>d. d < n \<Longrightarrow> at ?sl (?s + int d) \<noteq> None"
    using locate_absent [OF rep(1,2,6) assms(3), of hash] by blast
  define i where "i = nat ((?s + int n) mod ?N)"
  have pos: "0 < length ?sl" using assms(2) by simp
  have i: "i < length ?sl" unfolding i_def by (rule nat_mod_less [OF pos])
  have ii: "int i = (?s + int n) mod ?N" using pos by (simp add: i_def)
  have free: "?sl ! i = None" using n(3) by (simp add: at_def i_def)
  have lag: "lag hash (length ?sl) key (int i) = int n"
    unfolding lag_def ii using n(2) by (simp add: mod_diff_left_eq)
  have "at ?sl (int i - d) \<noteq> None" if "1 \<le> d" "d \<le> int n" for d
  proof -
    have "at ?sl (int i - d) = at ?sl (?s + int (nat (int n - d)))"
      unfolding ii using that by (simp add: at_def mod_diff_left_eq add_diff_eq)
    then show ?thesis using n(4) [of "nat (int n - d)"] that by simp
  qed
  then have p: "probed hash (?sl[i := Some (key, val)]) {}" using probed_update [OF rep(3) i, of key val] lag by simp
  have h: "slots_hold (?sl[i := Some (key, val)]) (m(key \<mapsto> val))" by (rule holds_update [OF rep(2) i]) (use free assms(3) in simp)
  have "card (used (?sl[i := Some (key, val)])) = ix_len ix + 1"
    unfolding used_update [OF i] using rep(4) free by (simp add: used_def)
  then have "index_rep hash \<lparr>ix_slots = ?sl[i := Some (key, val)], ix_len = ix_len ix + 1\<rparr> (m(key \<mapsto> val))"
    unfolding index_rep_def using assms(2,4) rep(1) p h by simp
  then show ?thesis using n(1) by (simp add: index_place_def i_def)
qed

lemma entries_set: "e \<in> set (entries slots) \<longleftrightarrow> Some e \<in> set slots"
  by (induction slots rule: entries.induct) auto

lemma entries_length: "length (entries slots) = card (used slots)"
proof (induction slots rule: rev_induct)
  case (snoc e slots)
  have "used (slots @ [e]) = (if e = None then used slots else insert (length slots) (used slots))"
    by (auto simp: used_def nth_append less_Suc_eq)
  moreover have "length slots \<notin> used slots" by (simp add: used_def)
  moreover have "entries (slots @ [e]) = entries slots @ (case e of None \<Rightarrow> [] | Some x \<Rightarrow> [x])"
    by (induction slots rule: entries.induct) (cases e, simp_all)
  ultimately show ?case using snoc by (cases e) auto
qed (simp add: used_def)

lemma entries_distinct:
  "(\<And>i j k v w. i < length slots \<Longrightarrow> j < length slots \<Longrightarrow> slots ! i = Some (k, v) \<Longrightarrow> slots ! j = Some (k, w) \<Longrightarrow> i = j) \<Longrightarrow>
   distinct (map fst (entries slots))"
proof (induction slots)
  case (Cons e slots)
  have tl: "distinct (map fst (entries slots))"
    by (rule Cons.IH) (use Cons.prems [of "Suc _" "Suc _"] in force)
  show ?case
  proof (cases e)
    case (Some p)
    have "fst p \<notin> fst ` set (entries slots)"
    proof
      assume "fst p \<in> fst ` set (entries slots)"
      then obtain w where "Some (fst p, w) \<in> set slots" by (auto simp: entries_set)
      then obtain j where "j < length slots" "slots ! j = Some (fst p, w)" by (auto simp: in_set_conv_nth)
      then show False using Cons.prems [of 0 "Suc j" "fst p" "snd p" w] Some by simp
    qed
    then show ?thesis using tl Some by simp
  qed (use tl in simp)
qed simp

lemma entries_map:
  assumes "slots_hold slots m"
  shows "map_of (entries slots) = m" and "distinct (map fst (entries slots))"
proof -
  show d: "distinct (map fst (entries slots))" by (rule entries_distinct) (rule holds_unique [OF assms])
  show "map_of (entries slots) = m"
  proof
    fix k
    have "map_of (entries slots) k = Some v \<longleftrightarrow> m k = Some v" for v
      using map_of_eq_Some_iff [OF d] assms by (auto simp: entries_set slots_hold_def)
    then show "map_of (entries slots) k = m k" by (cases "m k"; cases "map_of (entries slots) k") auto
  qed
qed

lemma at_replicate: "0 < n \<Longrightarrow> at (replicate n None) j = None"
  unfolding at_def using nat_mod_less [of "replicate n None" j] by simp

lemma empty_table_rep: "pow2_size n \<Longrightarrow> index_rep hash \<lparr>ix_slots = replicate n None, ix_len = 0\<rparr> Map.empty"
  using pow2_length_pos [of n] by (auto simp: index_rep_def slots_hold_def probed_def used_def at_replicate)

text \<open>Growing never grows again: the old entries fit into half of the new table.\<close>

lemma insert_each_fresh:
  assumes "index_rep hash ix m" and "ix_slots ix \<noteq> []" and "distinct (map fst es)" and "fst ` set es \<inter> dom m = {}"
    and "2 * (ix_len ix + length es) \<le> length (ix_slots ix)"
  shows "\<exists>ix'. insert_each hash ix es = Some ix' \<and> index_rep hash ix' (m ++ map_of es) \<and> ix_len ix' = ix_len ix + length es \<and>
    length (ix_slots ix') = length (ix_slots ix)"
  using assms
proof (induction es arbitrary: ix m)
  case Nil
  then show ?case by (simp add: insert_each.simps)
next
  case (Cons e es)
  obtain key val where e: "e = (key, val)" by force
  have none: "m key = None" using Cons.prems(4) e by auto
  have loc: "index_locate hash ix key = Some None" using locate_rep [OF Cons.prems(1), of key] none by (auto split: option.splits)
  obtain ix1 where ix1: "index_place hash ix key val = Some ix1" "index_rep hash ix1 (m(key \<mapsto> val))" "ix_len ix1 = ix_len ix + 1"
    "length (ix_slots ix1) = length (ix_slots ix)"
    using place_rep [OF Cons.prems(1,2) none, of val] Cons.prems(5) by auto
  have ne: "ix_slots ix1 \<noteq> []" using ix1(4) Cons.prems(2) by (metis length_0_conv)
  have "fst ` set es \<inter> dom (m(key \<mapsto> val)) = {}" using Cons.prems(3,4) e by auto
  from Cons.IH [OF ix1(2) ne _ this] obtain ix' where ix': "insert_each hash ix1 es = Some ix'"
    "index_rep hash ix' (m(key \<mapsto> val) ++ map_of es)" "ix_len ix' = ix_len ix + length (e # es)" "length (ix_slots ix') = length (ix_slots ix)"
    using Cons.prems(3,5) ix1(3,4) by (auto simp del: fun_upd_apply)
  have "map_of es key = None" using Cons.prems(3) e by (simp add: map_of_eq_None_iff)
  then have "m(key \<mapsto> val) ++ map_of es = m ++ map_of (e # es)" using e by (auto simp: map_add_def fun_eq_iff split: option.splits)
  moreover have "\<not> length (ix_slots ix) < (ix_len ix + 1) * 2" using Cons.prems(5) by simp
  ultimately show ?case using ix' ix1(1) loc e by (subst insert_each.simps) simp
qed

lemma grow_rep:
  assumes "index_rep hash ix m" and "ix_len ix < 2 ^ 60" and "length (ix_slots ix) < (ix_len ix + 1) * 2"
  shows "\<exists>ix'. insert_each hash \<lparr>ix_slots = replicate (max (saturating_mul (length (ix_slots ix)) 2) 16) None, ix_len = 0\<rparr>
      (entries (ix_slots ix)) = Some ix' \<and> index_rep hash ix' m \<and> ix_slots ix' \<noteq> [] \<and> ix_len ix' = ix_len ix \<and>
    2 * (ix_len ix + 1) \<le> length (ix_slots ix')"
proof -
  let ?sl = "ix_slots ix" and ?c = "max (saturating_mul (length (ix_slots ix)) 2) 16"
  have small: "saturating_mul (length ?sl) 2 = 2 * length ?sl"
    using assms(2,3) by (subst saturating_mul_small) (simp_all add: usize_limit_def)
  have "pow2_size ?c \<and> 2 * (ix_len ix + 1) \<le> ?c \<and> card (used ?sl) = ix_len ix \<and> distinct (map fst (entries ?sl)) \<and>
      map_of (entries ?sl) = m"
  proof (cases "?sl = []")
    case True
    have "pow2_size 16" unfolding pow2_size_def by (rule exI [of _ 4]) simp
    then show ?thesis using True assms(1) by (simp add: small index_rep_def used_def)
  next
    case False
    note rep = index_repD [OF assms(1) False]
    obtain p where p: "4 \<le> p" "p \<le> 62" "length ?sl = 2 ^ p" using rep(1) by (auto simp: pow2_size_def)
    have "(2::nat) ^ p < 2 ^ 62" using p(3) assms(2,3) by simp
    then have "p < 62" by (rule power_less_imp_less_exp [rotated]) simp
    then have "pow2_size (2 * length ?sl)" unfolding pow2_size_def using p by (intro exI [of _ "Suc p"]) simp
    moreover have "?c = 2 * length ?sl" using pow2_size_bounds [OF rep(1)] by (simp add: small)
    moreover have "ix_len ix + 1 \<le> length ?sl" using rep(5) pow2_size_bounds [OF rep(1)] by linarith
    ultimately show ?thesis using rep(4) entries_map [OF rep(2)] by simp
  qed
  then have c: "pow2_size ?c" "2 * (ix_len ix + 1) \<le> ?c" "card (used ?sl) = ix_len ix" "distinct (map fst (entries ?sl))"
    "map_of (entries ?sl) = m" by blast+
  let ?ix = "\<lparr>ix_slots = replicate ?c None, ix_len = 0\<rparr> :: 'a index"
  have ne: "ix_slots ?ix \<noteq> []" by simp
  obtain ix' where "insert_each hash ?ix (entries ?sl) = Some ix'" "index_rep hash ix' (Map.empty ++ map_of (entries ?sl))"
    "ix_len ix' = ix_len ?ix + length (entries ?sl)" "length (ix_slots ix') = length (ix_slots ?ix)"
    using insert_each_fresh [OF empty_table_rep [OF c(1)] ne c(4)] c(2,3) entries_length [of ?sl] by auto
  then show ?thesis using c(2,3,5) entries_length [of ?sl] ne
    by (intro exI [of _ ix']) (auto simp: simp del: length_0_conv simp flip: length_0_conv)
qed

lemma insert_rep:
  assumes "index_rep hash ix m" and "ix_len ix < 2 ^ 60"
  shows "\<exists>ix'. index_insert hash ix key val = Some ix' \<and> index_rep hash ix' (m(key \<mapsto> val))"
proof -
  obtain r where r: "index_locate hash ix key = Some r" "case r of None \<Rightarrow> m key = None
      | Some i \<Rightarrow> i < length (ix_slots ix) \<and> (\<exists>v. ix_slots ix ! i = Some (key, v) \<and> m key = Some v)"
    using locate_rep [OF assms(1)] by blast
  show ?thesis
  proof (cases r)
    case (Some i)
    then obtain v where i: "i < length (ix_slots ix)" "ix_slots ix ! i = Some (key, v)" using r(2) by auto
    then have ne: "ix_slots ix \<noteq> []" by auto
    note rep = index_repD [OF assms(1) ne]
    have p: "probed hash ((ix_slots ix)[i := Some (key, val)]) {}"
      by (rule probed_update [OF rep(3) i(1)]) (use probedD [OF rep(3), of "int i" key v] at_nat [OF i(1)] i(2) in auto)
    have "used ((ix_slots ix)[i := Some (key, val)]) = used (ix_slots ix)"
      unfolding used_update [OF i(1)] using i by (auto simp: used_def)
    then have "index_rep hash (ix\<lparr>ix_slots := (ix_slots ix)[i := Some (key, val)]\<rparr>) (m(key \<mapsto> val))"
      using ne rep p holds_update [OF rep(2) i(1), of key val] i(2) by (simp add: index_rep_def)
    then show ?thesis using r(1) Some by (simp add: index_insert_def insert_each.simps)
  next
    case None
    then have none: "m key = None" using r(2) by simp
    obtain ix1 where ix1: "(if (ix_len ix + 1) * 2 > length (ix_slots ix)
        then insert_each hash \<lparr>ix_slots = replicate (max (saturating_mul (length (ix_slots ix)) 2) 16) None, ix_len = 0\<rparr> (entries (ix_slots ix))
        else Some ix) = Some ix1" "index_rep hash ix1 m" "ix_slots ix1 \<noteq> []" "ix_len ix1 = ix_len ix" "2 * (ix_len ix1 + 1) \<le> length (ix_slots ix1)"
    proof (cases "(ix_len ix + 1) * 2 > length (ix_slots ix)")
      case True
      then show ?thesis using that grow_rep [OF assms] by auto
    next
      case False
      then show ?thesis using that [of ix] assms(1) by (auto simp del: length_0_conv simp flip: length_0_conv)
    qed
    obtain ix' where "index_place hash ix1 key val = Some ix'" "index_rep hash ix' (m(key \<mapsto> val))" "ix_len ix' = ix_len ix1 + 1"
      using place_rep [OF ix1(2,3) none ix1(5), of val] by blast
    then show ?thesis using r(1) None ix1(1,4) by (simp add: index_insert_def insert_each.simps [of hash _ "[]"] insert_each.simps [of hash ix])
  qed
qed

subsection \<open>Removal\<close>

lemma wrapping_sub_mask:
  assumes "pow2_size n" and "a < n" and "b < n"
  shows "int (wrapping_sub a b AND (n - 1)) = (int a - int b) mod int n"
proof -
  have n: "n dvd usize_limit" "n \<le> 2 ^ 62" using pow2_size_bounds [OF assms(1)] by auto
  have b: "b \<le> a + usize_limit" using assms n(2) by (simp add: usize_limit_def)
  have "wrapping_sub a b AND (n - 1) = (a + usize_limit - b) mod n"
    unfolding and_mask_mod [OF assms(1)] wrapping_sub_def by (rule mod_mod_cancel [OF n(1)])
  also have "int \<dots> = (int a + int usize_limit - int b) mod int n" using b by (simp add: zmod_int of_nat_diff)
  also have "int usize_limit mod int n = 0" using n(1) by (simp add: mod_0_imp_dvd)
  then have "(int a + int usize_limit - int b) mod int n = (int a - int b) mod int n"
    by (metis add.commute add.right_neutral diff_add_eq mod_add_right_eq)
  finally show ?thesis .
qed

lemma lag_mod: "lag hash n k (j mod int n) = lag hash n k j"
  by (simp add: lag_def mod_diff_left_eq)

lemma lag_back:
  assumes "0 \<le> a" and "a \<le> lag hash n k (h + a)" and "0 < n"
  shows "lag hash n k h = lag hash n k (h + a) - a"
proof -
  let ?l = "lag hash n k (h + a)"
  have "?l < int n" unfolding lag_def using assms(3) by (intro pos_mod_bound) simp
  then have "(?l - a) mod int n = ?l - a" using assms(1,2) by (intro mod_pos_pos_trivial) auto
  moreover have "(?l - a) mod int n = lag hash n k h" unfolding lag_def by (simp add: mod_diff_left_eq)
  ultimately show ?thesis by simp
qed

lemma at_shift_cong: "j mod int (length slots) = j' mod int (length slots) \<Longrightarrow> at slots (j - d) = at slots (j' - d)"
  unfolding at_def by (metis mod_diff_left_eq)

text \<open>
  One removal in progress, in offsets from the slot \<open>h\<close> that was emptied: the hole is at \<open>m\<close>, the scan at
  \<open>n\<close>, the first free slot at \<open>e\<close>. No entry between hole and scan reaches back to the hole.
\<close>

definition shifting :: "('k \<Rightarrow> nat) \<Rightarrow> ('k \<times> nat) option list \<Rightarrow> int \<Rightarrow> int \<Rightarrow> int \<Rightarrow> int \<Rightarrow> bool" where
  "shifting hash slots h m n e \<longleftrightarrow> 0 \<le> m \<and> m < n \<and> n \<le> e \<and> e < int (length slots) \<and>
     at slots (h + m) = None \<and> at slots (h + e) = None \<and> (\<forall>t. m < t \<longrightarrow> t < e \<longrightarrow> at slots (h + t) \<noteq> None) \<and>
     probed hash slots {(h + m) mod int (length slots)} \<and>
     (\<forall>t k v. m < t \<longrightarrow> t < n \<longrightarrow> at slots (h + t) = Some (k, v) \<longrightarrow> lag hash (length slots) k (h + t) < t - m)"

lemma shifting_done:
  assumes "shifting hash slots h m e e"
  shows "probed hash slots {}"
  unfolding probed_def
proof (intro allI impI)
  let ?N = "int (length slots)"
  note sh = assms [unfolded shifting_def]
  have p: "probed hash slots {(h + m) mod ?N}" using sh by blast
  fix j k v d
  assume a: "at slots j = Some (k, v)" "1 \<le> d" "d \<le> lag hash (length slots) k j"
  have N: "0 < ?N" using sh by linarith
  have dN: "d < ?N" using a(3) pos_mod_bound [OF N] unfolding lag_def by (meson order.strict_trans1)
  have "at slots (j - d) \<noteq> None"
  proof
    assume none: "at slots (j - d) = None"
    then have "(j - d) mod ?N = (h + m) mod ?N" using probedD [OF p a] by simp
    then have j: "j mod ?N = (h + m + d) mod ?N" by (metis diff_add_cancel mod_add_left_eq)
    then have aj: "at slots (h + m + d) = Some (k, v)" using a(1) by (metis at_def)
    have lagj: "lag hash (length slots) k (h + m + d) = lag hash (length slots) k j" using j lag_mod by metis
    consider "m + d < e" | "m + d = e" | "e < m + d" by linarith
    then show False
    proof cases
      case 1
      have "\<forall>t k v. m < t \<longrightarrow> t < e \<longrightarrow> at slots (h + t) = Some (k, v) \<longrightarrow> lag hash (length slots) k (h + t) < t - m" using sh by blast
      then have "lag hash (length slots) k (h + (m + d)) < m + d - m"
        using 1 a(2) aj [unfolded add.assoc] by (metis less_add_same_cancel1 zero_less_one order.strict_trans2)
      then show False using a(3) lagj by (simp add: add.assoc)
    next
      case 2
      then show False using aj sh by (simp add: add.assoc)
    next
      case 3
      let ?d = "m + d - e"
      have "at slots (h + m + d - ?d) \<noteq> None \<or> (h + m + d - ?d) mod ?N \<in> {(h + m) mod ?N}"
        by (rule probedD [OF p aj]) (use 3 a(2,3) lagj sh in linarith)+
      moreover have "h + m + d - ?d = h + e" by simp
      ultimately have "(h + e) mod ?N = (h + m) mod ?N" using sh by auto
      then have "e = m" by (rule small_mod_eq) (use sh in linarith)+
      then show False using sh by simp
    qed
  qed
  then show "at slots (j - d) \<noteq> None \<or> (j - d) mod ?N \<in> {}" by simp
qed

lemma shifting_skip:
  assumes "shifting hash slots h m n e" and "n < e" and "at slots (h + n) = Some (k, v)" and "lag hash (length slots) k (h + n) < n - m"
  shows "shifting hash slots h m (n + 1) e"
proof -
  have "lag hash (length slots) k' (h + t) < t - m" if "m < t" "t < n + 1" "at slots (h + t) = Some (k', v')" for t k' v'
    using that assms unfolding shifting_def by (cases "t = n") auto
  then show ?thesis using assms(1,2) unfolding shifting_def by auto
qed

lemma shifting_move:
  assumes sh: "shifting hash slots h m n e" and "n < e" and key: "at slots (h + n) = Some (k, v)" and lag: "n - m \<le> lag hash (length slots) k (h + n)"
    and i: "i < length slots" "int i = (h + m) mod int (length slots)" and j: "j < length slots" "int j = (h + n) mod int (length slots)"
  shows "shifting hash (slots[j := None, i := Some (k, v)]) h n (n + 1) e"
proof -
  let ?N = "int (length slots)" and ?t = "slots[j := None, i := Some (k, v)]"
  note b = sh [unfolded shifting_def]
  have N: "0 < ?N" using i(1) by linarith
  have at: "at ?t x = (if x mod ?N = (h + m) mod ?N then Some (k, v) else if x mod ?N = (h + n) mod ?N then None else at slots x)" for x
    using at_update [of i "slots[j := None]"] at_update [of j slots] i j by simp
  have ne: "(h + a) mod ?N \<noteq> (h + c) mod ?N" if "0 \<le> a" "a < ?N" "0 \<le> c" "c < ?N" "a \<noteq> c" for a c
    using small_mod_eq [of h a ?N c] that by blast
  have lo: "0 \<le> m" "m < n" "n < e" "e < ?N" using b assms(2) by auto
  have "probed hash ?t {(h + n) mod ?N}"
    unfolding probed_def
  proof (intro allI impI)
    fix x k' v' d
    assume a: "at ?t x = Some (k', v')" "1 \<le> d" "d \<le> lag hash (length ?t) k' x"
    have dN: "d < ?N" using a(3) pos_mod_bound [OF N] unfolding lag_def by (metis length_list_update order.strict_trans1)
    show "at ?t (x - d) \<noteq> None \<or> (x - d) mod int (length ?t) \<in> {(h + n) mod ?N}"
    proof (cases "x mod ?N = (h + m) mod ?N")
      case True
      then have k': "k' = k" using a(1) at by simp
      have "lag hash (length slots) k x = lag hash (length slots) k (h + m)" using True lag_mod by metis
      also have "\<dots> = lag hash (length slots) k (h + n) - (n - m)"
        using lag_back [of "n - m" hash "length slots" k "h + m"] lag lo N by simp
      finally have "d + (n - m) \<le> lag hash (length slots) k (h + n)" using a(3) k' by simp
      then have "at slots (h + n - (d + (n - m))) \<noteq> None \<or> (h + n - (d + (n - m))) mod ?N = (h + m) mod ?N"
        using probedD [OF _ key, of hash "{(h + m) mod ?N}" "d + (n - m)"] b a(2) lo by auto
      moreover have "h + n - (d + (n - m)) = h + m - d" by simp
      moreover have "(h + m - d) mod ?N \<noteq> (h + m) mod ?N"
      proof
        assume "(h + m - d) mod ?N = (h + m) mod ?N"
        then have "d = 0" by (intro small_mod_eq [of "h + m - d" d ?N 0]) (use a(2) dN N in simp_all)
        then show False using a(2) by simp
      qed
      ultimately have "at slots (h + m - d) \<noteq> None" by simp
      then have "at slots (x - d) \<noteq> None" using at_shift_cong [OF True] by simp
      then show ?thesis using at [of "x - d"] by auto
    next
      case False
      then have "at slots x = Some (k', v')" using a(1) at by (auto split: if_splits)
      then have "at slots (x - d) \<noteq> None \<or> (x - d) mod ?N = (h + m) mod ?N"
        using probedD [of hash slots "{(h + m) mod ?N}" x k' v' d] b a(2,3) by auto
      then show ?thesis using at [of "x - d"] by auto
    qed
  qed
  moreover have "at ?t (h + n) = None" "at ?t (h + e) = None" using at ne [of n m] ne [of e m] b lo by auto
  moreover have "at ?t (h + t) \<noteq> None" if "n < t" "t < e" for t
    using at [of "h + t"] ne [of t m] ne [of t n] b lo that by auto
  ultimately show ?thesis unfolding shifting_def using lo by auto
qed

lemma holds_move:
  assumes m: "slots_hold slots m" and "i < length slots" and "j < length slots" and "slots ! i = None" and "slots ! j = Some e"
  shows "slots_hold (slots[j := None, i := Some e]) m" and "card (used (slots[j := None, i := Some e])) = card (used slots)"
proof -
  let ?t = "slots[j := None, i := Some e]"
  have ij: "i \<noteq> j" using assms(4,5) by auto
  have nth: "?t ! x = (if x = i then Some e else if x = j then None else slots ! x)" if "x < length slots" for x
    using that assms(2,3) by (simp add: nth_list_update)
  define f where "f x = (if x = i then j else x)" for x
  have orig: "f x < length slots \<and> slots ! f x = Some y" if "x < length slots" "?t ! x = Some y" for x y
    using that nth [OF that(1)] assms by (auto simp: f_def split: if_splits)
  have "Some y \<in> set ?t \<longleftrightarrow> Some y \<in> set slots" for y
  proof
    assume "Some y \<in> set ?t"
    then show "Some y \<in> set slots" using orig by (metis in_set_conv_nth length_list_update)
  next
    assume "Some y \<in> set slots"
    then obtain x where x: "x < length slots" "slots ! x = Some y" by (auto simp: in_set_conv_nth)
    have "?t ! (if x = j then i else x) = Some y" using x assms nth ij by (cases "x = j") auto
    then show "Some y \<in> set ?t" using x(1) assms(2) by (metis length_list_update nth_mem)
  qed
  moreover have "x = y" if "x < length slots" "y < length slots" "?t ! x = Some (k, v)" "?t ! y = Some (k, w)" for x y k v w
  proof -
    have "f x = f y" using holds_unique [OF m] orig that by blast
    moreover have "x \<noteq> j" "y \<noteq> j" using that nth ij by auto
    ultimately show ?thesis by (auto simp: f_def split: if_splits)
  qed
  ultimately show "slots_hold ?t m" using m unfolding slots_hold_def by simp
  have "x \<in> used ?t \<longleftrightarrow> x \<in> insert i (used slots - {j})" for x
    using nth [of x] assms(2,3) ij by (cases "x < length slots") (simp_all add: used_def)
  then have "used ?t = insert i (used slots - {j})" by blast
  moreover have "j \<in> used slots" "i \<notin> used slots" using assms by (auto simp: used_def)
  ultimately show "card (used ?t) = card (used slots)" using card_Suc_Diff1 [of "used slots" j] by simp
qed

lemma shift_back_rep:
  assumes "pow2_size (length slots)" and "shifting hash slots h m n e" and "slots_hold slots mp"
    and "int hole = (h + m) mod int (length slots)" and "int scan = (h + n) mod int (length slots)"
  shows "\<exists>slots'. shift_back hash slots hole scan = Some slots' \<and> length slots' = length slots \<and> probed hash slots' {} \<and>
    slots_hold slots' mp \<and> card (used slots') = card (used slots)"
  using assms
proof (induction "nat (e - n)" arbitrary: slots m n hole scan)
  case 0
  have ne: "n = e" using 0(1,3) unfolding shifting_def by linarith
  have N: "0 < int (length slots)" using pow2_length_pos [OF 0(2)] by simp
  have "scan < length slots" using 0(6) pos_mod_bound [OF N, of "h + n"] by linarith
  moreover have "slots ! scan = at slots (h + n)" unfolding at_def using 0(6) by (metis nat_int)
  ultimately have "shift_back hash slots hole scan = Some slots" using 0(3) ne by (simp add: shifting_def shift_back.simps)
  then show ?case using shifting_done [of hash slots h m e] 0(3,4) ne by simp
next
  case (Suc x)
  let ?N = "int (length slots)"
  note b = Suc.prems(2) [unfolded shifting_def]
  have N: "0 < ?N" using pow2_length_pos [OF Suc.prems(1)] by simp
  have idx: "scan < length slots" "hole < length slots"
    using Suc.prems(4,5) pos_mod_bound [OF N, of "h + n"] pos_mod_bound [OF N, of "h + m"] by linarith+
  have nth: "slots ! scan = at slots (h + n)" "slots ! hole = at slots (h + m)" unfolding at_def using Suc.prems(4,5) by (metis nat_int)+
  have "n < e" using Suc.hyps(2) by linarith
  then obtain k v where k: "at slots (h + n) = Some (k, v)" using b by fastforce
  let ?ideal = "hash k AND (length slots - 1)"
  have ideal: "?ideal < length slots" using first_index_of_hash [OF Suc.prems(1), of "hash k"] pos_mod_bound [OF N, of "int (hash k)"] by linarith
  have l1: "int (wrapping_sub scan ?ideal AND (length slots - 1)) = lag hash (length slots) k (h + n)"
    by (subst wrapping_sub_mask [OF Suc.prems(1) idx(1) ideal]) (simp only: first_index_of_hash [OF Suc.prems(1)] Suc.prems(5) lag_def mod_diff_eq)
  have "int (wrapping_sub scan hole AND (length slots - 1)) = (h + n - (h + m)) mod ?N"
    unfolding wrapping_sub_mask [OF Suc.prems(1) idx] Suc.prems(4,5) by (rule mod_diff_eq)
  also have "\<dots> = n - m" using b by (simp add: mod_pos_pos_trivial)
  finally have l2: "int (wrapping_sub scan hole AND (length slots - 1)) = n - m" .
  have test: "wrapping_sub scan ?ideal AND (length slots - 1) \<ge> wrapping_sub scan hole AND (length slots - 1) \<longleftrightarrow>
      n - m \<le> lag hash (length slots) k (h + n)" using l1 l2 by linarith
  have nxt: "int ((scan + 1) AND (length slots - 1)) = (h + (n + 1)) mod ?N"
    unfolding next_index [OF Suc.prems(1)] Suc.prems(5) by (simp add: mod_add_left_eq add.assoc)
  have fuel: "x = nat (e - (n + 1))" using Suc.hyps(2) by linarith
  show ?case
  proof (cases "n - m \<le> lag hash (length slots) k (h + n)")
    case True
    let ?t = "slots[scan := None, hole := Some (k, v)]"
    have sh: "shifting hash ?t h n (n + 1) e"
      by (rule shifting_move [OF Suc.prems(2) \<open>n < e\<close> k True idx(2) Suc.prems(4) idx(1) Suc.prems(5)])
    have none: "slots ! hole = None" using nth b by simp
    have some: "slots ! scan = Some (k, v)" using nth k by simp
    note mv = holds_move [OF Suc.prems(3) idx(2,1) none some]
    have "shift_back hash slots hole scan = shift_back hash ?t scan ((scan + 1) AND (length slots - 1))"
      using idx(1) some True test by (subst shift_back.simps) (simp add: Let_def)
    moreover obtain s' where "shift_back hash ?t scan ((scan + 1) AND (length slots - 1)) = Some s'" "length s' = length ?t"
      "probed hash s' {}" "slots_hold s' mp" "card (used s') = card (used ?t)"
      using Suc.hyps(1) [OF fuel _ sh mv(1)] Suc.prems(1,5) nxt by auto
    ultimately show ?thesis using mv(2) by auto
  next
    case False
    have "shift_back hash slots hole scan = shift_back hash slots hole ((scan + 1) AND (length slots - 1))"
      using idx(1) nth k False test by (subst shift_back.simps) (simp add: Let_def)
    then show ?thesis
      using Suc.hyps(1) [OF fuel Suc.prems(1) shifting_skip [OF Suc.prems(2) \<open>n < e\<close> k] Suc.prems(3,4) nxt] False by auto
  qed
qed

lemma holds_clear:
  assumes m: "slots_hold slots m" and i: "i < length slots" and "slots ! i = Some (key, v)"
  shows "slots_hold (slots[i := None]) (m(key := None))" and "card (used (slots[i := None])) = card (used slots) - 1"
proof -
  have "(m(key := None)) k = Some w \<longleftrightarrow> Some (k, w) \<in> set (slots[i := None])" for k w
  proof
    assume "(m(key := None)) k = Some w"
    then have k: "k \<noteq> key" "Some (k, w) \<in> set slots" using m by (auto simp: slots_hold_def split: if_splits)
    then obtain j where "j < length slots" "slots ! j = Some (k, w)" by (auto simp: in_set_conv_nth)
    then show "Some (k, w) \<in> set (slots[i := None])" using k(1) assms(3) by (metis length_list_update nth_list_update_neq nth_mem option.inject prod.inject)
  next
    assume "Some (k, w) \<in> set (slots[i := None])"
    then obtain j where j': "j < length slots" "slots[i := None] ! j = Some (k, w)" by (auto simp: in_set_conv_nth)
    then have "j \<noteq> i" using i by auto
    then have j: "j < length slots" "j \<noteq> i" "slots ! j = Some (k, w)" using j' by simp_all
    then have "k \<noteq> key" using holds_unique [OF m j(1) i j(3)] assms(3) by auto
    then show "(m(key := None)) k = Some w" using j m unfolding slots_hold_def by (metis fun_upd_other nth_mem)
  qed
  moreover have "a = b" if "a < length slots" "b < length slots" "slots[i := None] ! a = Some (k, x)" "slots[i := None] ! b = Some (k, y)" for a b k x y
    using that holds_unique [OF m that(1,2), of k x y] i by (auto simp: nth_list_update split: if_splits)
  ultimately show "slots_hold (slots[i := None]) (m(key := None))" unfolding slots_hold_def by simp
  have "used (slots[i := None]) = used slots - {i}" using i by (auto simp: used_def nth_list_update split: if_splits)
  then show "card (used (slots[i := None])) = card (used slots) - 1" using i assms(3) by (simp add: used_def)
qed

lemma remove_rep:
  assumes "index_rep hash ix m"
  shows "\<exists>ix'. index_remove hash ix key = Some (m key, ix') \<and> index_rep hash ix' (m(key := None))"
proof -
  obtain r where r: "index_locate hash ix key = Some r" "case r of None \<Rightarrow> m key = None
      | Some i \<Rightarrow> i < length (ix_slots ix) \<and> (\<exists>v. ix_slots ix ! i = Some (key, v) \<and> m key = Some v)"
    using locate_rep [OF assms] by blast
  show ?thesis
  proof (cases r)
    case None
    then have "m(key := None) = m" using r(2) by auto
    then show ?thesis using r None assms by (simp add: index_remove_def)
  next
    case (Some i)
    let ?sl = "ix_slots ix" and ?N = "int (length (ix_slots ix))"
    obtain v where i: "i < length ?sl" "?sl ! i = Some (key, v)" "m key = Some v" using r(2) Some by auto
    then have ne: "?sl \<noteq> []" by auto
    note rep = index_repD [OF assms ne]
    let ?t = "?sl[i := None]"
    note cl = holds_clear [OF rep(2) i(1,2)]
    obtain q where q: "q < length ?sl" "at ?sl (int i + 1 + int q) = None" "\<And>d. d < q \<Longrightarrow> at ?sl (int i + 1 + int d) \<noteq> None"
      using first_free [OF _ rep(6), of "int i + 1"] ne by auto
    have q1: "int q + 1 < ?N"
    proof (rule ccontr)
      assume "\<not> int q + 1 < ?N"
      then have eq: "int i + 1 + int q = int i + ?N" using q(1) by linarith
      have "(int i + 1 + int q) mod ?N = int i" unfolding eq using i(1) by simp
      then have "at ?sl (int i + 1 + int q) = ?sl ! i" by (simp only: at_def nat_int)
      then show False using q(2) i(2) by simp
    qed
    have at: "at ?t x = (if x mod ?N = int i then None else at ?sl x)" for x using at_update [OF i(1)] .
    have away: "(int i + c) mod ?N \<noteq> int i" if "0 < c" "c < ?N" for c
      using small_mod_eq [of "int i" c ?N 0] that i(1) ne by auto
    have "shifting hash ?t (int i) 0 1 (int q + 1)"
      unfolding shifting_def
    proof (intro conjI allI impI)
      show "probed hash ?t {(int i + 0) mod int (length ?t)}"
        using rep(3) at i(1) unfolding probed_def by auto
      show "at ?t (int i + t) \<noteq> None" if "0 < t" "t < int q + 1" for t
        using q(3) [of "nat (t - 1)"] that at [of "int i + t"] away [of t] q1 by auto
      show "at ?t (int i + (int q + 1)) = None" using q(2) at [of "int i + (int q + 1)"] by (simp add: algebra_simps)
    qed (use at [of "int i"] i(1) q1 in auto)
    moreover have "int i = (int i + 0) mod int (length ?t)" using i(1) by simp
    moreover have "int ((i + 1) AND (length ?sl - 1)) = (int i + 1) mod int (length ?t)" using next_index [OF rep(1)] by simp
    ultimately obtain s' where s': "shift_back hash ?t i ((i + 1) AND (length ?sl - 1)) = Some s'" "length s' = length ?sl"
      "probed hash s' {}" "slots_hold s' (m(key := None))" "card (used s') = card (used ?sl) - 1"
      using shift_back_rep [of ?t hash "int i" 0 1 "int q + 1" "m(key := None)" i "(i + 1) AND (length ?sl - 1)"] rep(1) cl by auto
    have "index_rep hash \<lparr>ix_slots = s', ix_len = ix_len ix - 1\<rparr> (m(key := None))"
      using s' rep ne by (auto simp: index_rep_def simp del: length_0_conv simp flip: length_0_conv)
    then show ?thesis using r(1) Some i s'(1) by (simp add: index_remove_def)
  qed
qed

lemma count_rep:
  assumes "index_rep hash ix m"
  shows "finite (dom m) \<and> ix_len ix = card (dom m)"
proof (cases "ix_slots ix = []")
  case True
  then show ?thesis using assms by (simp add: index_rep_def)
next
  case False
  note rep = index_repD [OF assms False]
  have "dom m = set (map fst (entries (ix_slots ix)))"
    using entries_map(1) [OF rep(2)] by (metis dom_map_of_conv_image_fst set_map)
  then show ?thesis
    using distinct_card [OF entries_map(2) [OF rep(2)]] entries_length [of "ix_slots ix"] rep(4) by (simp only: length_map) simp
qed

section \<open>The contract\<close>

text \<open>
  What a client of the index relies on. The bound only keeps the table's size below the machine's
  address space: with fewer than \<open>2 ^ 60\<close> entries every call returns.
\<close>

locale key_index =
  fixes new :: 'i
    and get :: "'i \<Rightarrow> 'k \<Rightarrow> nat option option"
    and insert :: "'i \<Rightarrow> 'k \<Rightarrow> nat \<Rightarrow> 'i option"
    and remove :: "'i \<Rightarrow> 'k \<Rightarrow> (nat option \<times> 'i) option"
    and stands_for :: "'i \<Rightarrow> ('k \<rightharpoonup> nat) \<Rightarrow> bool"
    and entry_count :: "'i \<Rightarrow> nat"
  assumes new_stands: "stands_for new Map.empty"
    and count_stands: "stands_for ix m \<Longrightarrow> finite (dom m) \<and> entry_count ix = card (dom m)"
    and get_stands: "stands_for ix m \<Longrightarrow> get ix k = Some (m k)"
    and insert_stands: "stands_for ix m \<Longrightarrow> entry_count ix < 2 ^ 60 \<Longrightarrow>
      \<exists>ix'. insert ix k v = Some ix' \<and> stands_for ix' (m(k \<mapsto> v))"
    and remove_stands: "stands_for ix m \<Longrightarrow>
      \<exists>ix'. remove ix k = Some (m k, ix') \<and> stands_for ix' (m(k := None))"
begin

lemma new_count: "entry_count new = 0"
  using count_stands [OF new_stands] by simp

lemma insert_count: "stands_for ix m \<Longrightarrow> stands_for ix' (m(k \<mapsto> v)) \<Longrightarrow> entry_count ix' \<le> entry_count ix + 1"
  using count_stands [of ix m] count_stands [of ix' "m(k \<mapsto> v)"] by (simp add: card_insert_if)

lemma remove_count: "stands_for ix m \<Longrightarrow> stands_for ix' (m(k := None)) \<Longrightarrow> entry_count ix' \<le> entry_count ix"
  using count_stands [of ix m] count_stands [of ix' "m(k := None)"] by (simp add: card_mono)

lemma insert_then_get: "stands_for ix m \<Longrightarrow> entry_count ix < 2 ^ 60 \<Longrightarrow> insert ix k v = Some ix' \<Longrightarrow> get ix' k' = Some ((m(k \<mapsto> v)) k')"
  using insert_stands [of ix m k v] get_stands by force

lemma remove_then_get: "stands_for ix m \<Longrightarrow> remove ix k = Some (r, ix') \<Longrightarrow> r = m k \<and> get ix' k' = Some ((m(k := None)) k')"
  using remove_stands [of ix m k] get_stands by force

end

interpretation index: key_index index_new "index_get hash" "index_insert hash" "index_remove hash" "index_rep hash" ix_len for hash
proof unfold_locales
  show "index_rep hash index_new Map.empty" by (simp add: index_new_def index_rep_def)
qed (rule count_rep get_rep insert_rep remove_rep; assumption)+

section \<open>Properties\<close>

datatype 'k index_op = IndexInsert 'k nat | IndexRemove 'k

fun index_run :: "('k \<Rightarrow> nat) \<Rightarrow> 'k index \<Rightarrow> 'k index_op list \<Rightarrow> (nat option list \<times> 'k index) option" where
  "index_run hash ix [] = Some ([], ix)"
| "index_run hash ix (IndexInsert k v # ops) = do { ix \<leftarrow> index_insert hash ix k v; index_run hash ix ops }"
| "index_run hash ix (IndexRemove k # ops) = do {
     (r, ix) \<leftarrow> index_remove hash ix k;
     (rs, ix) \<leftarrow> index_run hash ix ops;
     Some (r # rs, ix)}"

fun finite_map_run :: "('k \<rightharpoonup> nat) \<Rightarrow> 'k index_op list \<Rightarrow> nat option list \<times> ('k \<rightharpoonup> nat)" where
  "finite_map_run m [] = ([], m)"
| "finite_map_run m (IndexInsert k v # ops) = finite_map_run (m(k \<mapsto> v)) ops"
| "finite_map_run m (IndexRemove k # ops) = map_prod ((#) (m k)) id (finite_map_run (m(k := None)) ops)"

lemma index_run_rep:
  assumes "index_rep hash ix m" and "ix_len ix + length ops < 2 ^ 60"
  shows "\<exists>rs ix'. index_run hash ix ops = Some (rs, ix') \<and> fst (finite_map_run m ops) = rs \<and> index_rep hash ix' (snd (finite_map_run m ops))"
  using assms
proof (induction ops arbitrary: ix m)
  case (Cons op ops)
  show ?case
  proof (cases op)
    case (IndexInsert k v)
    obtain ix1 where ix1: "index_insert hash ix k v = Some ix1" "index_rep hash ix1 (m(k \<mapsto> v))"
      using index.insert_stands [OF Cons.prems(1), of k v] Cons.prems(2) by auto
    note le = index.insert_count [OF Cons.prems(1) ix1(2)]
    show ?thesis using Cons.IH [OF ix1(2)] ix1(1) le Cons.prems(2) IndexInsert by (auto simp del: fun_upd_apply)
  next
    case (IndexRemove k)
    obtain ix1 where ix1: "index_remove hash ix k = Some (m k, ix1)" "index_rep hash ix1 (m(k := None))"
      using index.remove_stands [OF Cons.prems(1), of k] by auto
    note le = index.remove_count [OF Cons.prems(1) ix1(2)]
    show ?thesis using Cons.IH [OF ix1(2)] ix1(1) le Cons.prems(2) IndexRemove by (auto simp del: fun_upd_apply)
  qed
qed simp

text \<open>
  C32: for every hash function, however badly its values collide, the index answers any sequence of
  insertions and removals like a finite map: every probe, growth and backward shift ends, removals return the
  removed value, and a lookup afterwards finds exactly the keys that are bound, with their last value.
\<close>

theorem hash_index_refines_map:
  assumes "length ops < 2 ^ 60"
  shows "\<exists>rs ix. index_run hash index_new ops = Some (rs, ix) \<and> fst (finite_map_run Map.empty ops) = rs \<and>
    (\<forall>k. index_get hash ix k = Some (snd (finite_map_run Map.empty ops) k))"
proof -
  have "ix_len (index_new :: 'a index) + length ops < 2 ^ 60" using assms by (simp add: index.new_count)
  then obtain rs ix where r: "index_run hash index_new ops = Some (rs, ix)" "fst (finite_map_run Map.empty ops) = rs"
    "index_rep hash ix (snd (finite_map_run Map.empty ops))"
    using index_run_rep [OF index.new_stands, of ops hash] by blast
  show ?thesis using r(1,2) index.get_stands [OF r(3)] by (intro exI [of _ rs] exI [of _ ix]) simp
qed

theorem hash_index_refines_map_witness:
  "\<exists>rs ix. index_run (\<lambda>_. 15) index_new [IndexInsert (1::nat) 10, IndexInsert 2 20, IndexInsert 3 30, IndexRemove 1] = Some (rs, ix) \<and>
     rs = [Some 10] \<and> index_get (\<lambda>_. 15) ix 3 = Some (Some 30) \<and> index_get (\<lambda>_. 15) ix 1 = Some None"
proof -
  let ?ops = "[IndexInsert (1::nat) 10, IndexInsert 2 20, IndexInsert 3 30, IndexRemove 1]"
  have "length ?ops < 2 ^ 60" by simp
  from hash_index_refines_map [OF this, of "\<lambda>_. 15"] obtain rs ix where
    "index_run (\<lambda>_. 15) index_new ?ops = Some (rs, ix)" "fst (finite_map_run Map.empty ?ops) = rs"
    "\<And>k. index_get (\<lambda>_. 15) ix k = Some (snd (finite_map_run Map.empty ?ops) k)" by blast
  then show ?thesis by simp
qed

end
