(* ===== verification/Physical_Allocations.thy ===== *)
theory Physical_Allocations imports Hash_Index begin

text \<open>
  The physical allocations of all processes (\<open>process/physical_allocations.rs\<close>): one linked list of nodes
  per process through a shared vector, a free list for recycled nodes, a hash index from process identifiers
  to list heads and one that counts the references to each physical range. An index out of range, a failed
  \<open>expect\<close> and a loop that does not end are \<open>None\<close>. The second part shows that the structure behaves like
  one list of (process, allocation) pairs.
\<close>

section \<open>Definitions\<close>

record process_allocation =
  pa_base_va :: machine_word
  pa_start_slot :: machine_word
  pa_base_page :: machine_word
  pa_page_count :: machine_word

record alloc_node =
  al_allocation :: process_allocation
  al_next :: "nat option"

record physical_allocations =
  pl_by_pid :: "machine_word index"
  pl_references :: "(machine_word \<times> machine_word) index"
  pl_nodes :: "alloc_node list"
  pl_free :: "nat option"

definition allocations_new :: physical_allocations where
  "allocations_new = \<lparr>pl_by_pid = index_new, pl_references = index_new, pl_nodes = [], pl_free = None\<rparr>"

definition mix :: "machine_word \<Rightarrow> machine_word" where
  "mix value0 =
     (let value1 = value0 XOR drop_bit 30 value0;
          value2 = value1 * 0xbf58476d1ce4e5b9;
          value3 = value2 XOR drop_bit 27 value2;
          value4 = value3 * 0x94d049bb133111eb
      in value4 XOR drop_bit 31 value4)"

definition hash_pid :: "machine_word \<Rightarrow> nat" where
  "hash_pid pid = unat (mix pid)"

definition hash_range :: "machine_word \<times> machine_word \<Rightarrow> nat" where
  "hash_range r = unat (mix (fst r + snd r * 0x9e3779b97f4a7c15))"

definition range_key :: "process_allocation \<Rightarrow> machine_word \<times> machine_word" where
  "range_key a = (pa_base_page a, pa_page_count a)"

definition get_node :: "alloc_node list \<Rightarrow> nat \<Rightarrow> alloc_node option" where
  "get_node ns i = (if i < length ns then Some (ns ! i) else None)"

definition allocations_insert :: "physical_allocations \<Rightarrow> machine_word \<Rightarrow> process_allocation \<Rightarrow> physical_allocations option" where
  "allocations_insert s pid a = do {
     found \<leftarrow> index_get hash_range (pl_references s) (range_key a);
     references \<leftarrow> index_insert hash_range (pl_references s) (range_key a) ((case found of Some c \<Rightarrow> c | None \<Rightarrow> 0) + 1);
     head \<leftarrow> index_get hash_pid (pl_by_pid s) pid;
     (i, nodes, free) \<leftarrow> (case pl_free s of
         Some free \<Rightarrow> do {
           n \<leftarrow> get_node (pl_nodes s) free;
           Some (free, (pl_nodes s)[free := \<lparr>al_allocation = a, al_next = head\<rparr>], al_next n)}
       | None \<Rightarrow> Some (length (pl_nodes s), pl_nodes s @ [\<lparr>al_allocation = a, al_next = head\<rparr>], None));
     by_pid \<leftarrow> index_insert hash_pid (pl_by_pid s) pid i;
     Some \<lparr>pl_by_pid = by_pid, pl_references = references, pl_nodes = nodes, pl_free = free\<rparr>}"

partial_function (option) chain_allocations :: "alloc_node list \<Rightarrow> nat option \<Rightarrow> process_allocation list option" where
  "chain_allocations ns next =
     (case next of
        None \<Rightarrow> Some []
      | Some i \<Rightarrow> do {
          n \<leftarrow> get_node ns i;
          rest \<leftarrow> chain_allocations ns (al_next n);
          Some (al_allocation n # rest)})"

definition for_pid :: "physical_allocations \<Rightarrow> machine_word \<Rightarrow> process_allocation list option" where
  "for_pid s pid = do {
     next \<leftarrow> index_get hash_pid (pl_by_pid s) pid;
     chain_allocations (pl_nodes s) next}"

definition reference_count :: "physical_allocations \<Rightarrow> process_allocation \<Rightarrow> nat option" where
  "reference_count s a = do {
     found \<leftarrow> index_get hash_range (pl_references s) (range_key a);
     Some (case found of Some c \<Rightarrow> c | None \<Rightarrow> 0)}"

definition allocations_find ::
  "physical_allocations \<Rightarrow> machine_word \<Rightarrow> machine_word \<Rightarrow> machine_word \<Rightarrow> process_allocation option option" where
  "allocations_find s pid va pages = do {
     as \<leftarrow> for_pid s pid;
     Some (List.find (\<lambda>a. pa_base_va a = va \<and> pa_page_count a = pages) as)}"

definition recycle :: "physical_allocations \<Rightarrow> nat \<Rightarrow> ((process_allocation \<times> bool) \<times> physical_allocations) option" where
  "recycle s i = do {
     n \<leftarrow> get_node (pl_nodes s) i;
     found \<leftarrow> index_get hash_range (pl_references s) (range_key (al_allocation n));
     cnt \<leftarrow> found;
     references \<leftarrow> (if cnt = 1 then map_option snd (index_remove hash_range (pl_references s) (range_key (al_allocation n)))
       else index_insert hash_range (pl_references s) (range_key (al_allocation n)) (cnt - 1));
     Some ((al_allocation n, cnt = 1),
       s\<lparr>pl_references := references, pl_nodes := (pl_nodes s)[i := n\<lparr>al_next := pl_free s\<rparr>], pl_free := Some i\<rparr>)}"

text \<open>The loop of \<open>take\<close>, with the node before the current one.\<close>

partial_function (option) take_from ::
  "physical_allocations \<Rightarrow> machine_word \<Rightarrow> machine_word \<Rightarrow> machine_word \<Rightarrow> nat option \<Rightarrow> nat option \<Rightarrow>
   ((process_allocation \<times> bool) option \<times> physical_allocations) option" where
  "take_from s pid va pages previous next =
     (case next of
        None \<Rightarrow> Some (None, s)
      | Some i \<Rightarrow> do {
          n \<leftarrow> get_node (pl_nodes s) i;
          if pa_base_va (al_allocation n) = va \<and> pa_page_count (al_allocation n) = pages then do {
            s \<leftarrow> (case previous of
                Some p \<Rightarrow> do {
                  q \<leftarrow> get_node (pl_nodes s) p;
                  Some (s\<lparr>pl_nodes := (pl_nodes s)[p := q\<lparr>al_next := al_next n\<rparr>]\<rparr>)}
              | None \<Rightarrow>
                  (case al_next n of
                     Some head \<Rightarrow> do {
                       by_pid \<leftarrow> index_insert hash_pid (pl_by_pid s) pid head;
                       Some (s\<lparr>pl_by_pid := by_pid\<rparr>)}
                   | None \<Rightarrow> do {
                       (r, by_pid) \<leftarrow> index_remove hash_pid (pl_by_pid s) pid;
                       Some (s\<lparr>pl_by_pid := by_pid\<rparr>)}));
            (r, s) \<leftarrow> recycle s i;
            Some (Some r, s)}
          else take_from s pid va pages (Some i) (al_next n)})"

definition allocations_take ::
  "physical_allocations \<Rightarrow> machine_word \<Rightarrow> machine_word \<Rightarrow> machine_word \<Rightarrow>
   ((process_allocation \<times> bool) option \<times> physical_allocations) option" where
  "allocations_take s pid va pages = do {
     next \<leftarrow> index_get hash_pid (pl_by_pid s) pid;
     take_from s pid va pages None next}"

text \<open>The calls of the closure \<open>removed\<close>, in order.\<close>

partial_function (option) recycle_chain ::
  "physical_allocations \<Rightarrow> nat option \<Rightarrow> ((process_allocation \<times> bool) list \<times> physical_allocations) option" where
  "recycle_chain s next =
     (case next of
        None \<Rightarrow> Some ([], s)
      | Some i \<Rightarrow> do {
          n \<leftarrow> get_node (pl_nodes s) i;
          (r, s) \<leftarrow> recycle s i;
          (rs, s) \<leftarrow> recycle_chain s (al_next n);
          Some (r # rs, s)})"

definition remove_pid :: "physical_allocations \<Rightarrow> machine_word \<Rightarrow> ((process_allocation \<times> bool) list \<times> physical_allocations) option" where
  "remove_pid s pid = do {
     (next, by_pid) \<leftarrow> index_remove hash_pid (pl_by_pid s) pid;
     recycle_chain (s\<lparr>pl_by_pid := by_pid\<rparr>) next}"

section \<open>The invariant\<close>

text \<open>
  \<open>chain ns p is\<close>: following the links from \<open>p\<close> visits the nodes \<open>is\<close>. The entries \<open>es\<close> pair a process with
  a node, newest first; \<open>loose\<close> are nodes already taken out of a list and not recycled yet, and \<open>F\<close> is the
  free list.
\<close>

fun chain :: "alloc_node list \<Rightarrow> nat option \<Rightarrow> nat list \<Rightarrow> bool" where
  "chain ns p [] \<longleftrightarrow> p = None"
| "chain ns p (i # is) \<longleftrightarrow> p = Some i \<and> i < length ns \<and> chain ns (al_next (ns ! i)) is"

definition nodes_of :: "machine_word \<Rightarrow> (machine_word \<times> nat) list \<Rightarrow> nat list" where
  "nodes_of pid es = map snd (filter (\<lambda>e. fst e = pid) es)"

definition users :: "alloc_node list \<Rightarrow> machine_word \<times> machine_word \<Rightarrow> nat list \<Rightarrow> nat" where
  "users ns k is = length (filter (\<lambda>i. range_key (al_allocation (ns ! i)) = k) is)"

definition some_count :: "nat \<Rightarrow> nat option" where
  "some_count c = (if c = 0 then None else Some c)"

definition alloc_inv :: "physical_allocations \<Rightarrow> (machine_word \<times> nat) list \<Rightarrow> nat list \<Rightarrow> nat list \<Rightarrow> bool" where
  "alloc_inv s es loose F \<longleftrightarrow>
     distinct (map snd es @ loose @ F) \<and> set (map snd es @ loose @ F) = {..<length (pl_nodes s)} \<and>
     (\<exists>bp. index_rep hash_pid (pl_by_pid s) bp \<and> (\<forall>pid. chain (pl_nodes s) (bp pid) (nodes_of pid es))) \<and>
     chain (pl_nodes s) (pl_free s) F \<and>
     index_rep hash_range (pl_references s) (\<lambda>k. some_count (users (pl_nodes s) k (map snd es @ loose)))"

lemma chain_cong: "(\<And>i. i \<in> set is \<Longrightarrow> al_next (ns' ! i) = al_next (ns ! i)) \<Longrightarrow> length ns \<le> length ns' \<Longrightarrow> chain ns p is \<Longrightarrow> chain ns' p is"
  by (induction "is" arbitrary: p) auto

lemma chain_update: "i \<notin> set is \<Longrightarrow> chain ns p is \<Longrightarrow> chain (ns[i := n]) p is"
  by (rule chain_cong [of _ _ ns]) (metis nth_list_update_neq, simp_all)

lemma chain_allocations_rep: "chain ns p is \<Longrightarrow> chain_allocations ns p = Some (map (\<lambda>i. al_allocation (ns ! i)) is)"
  by (induction "is" arbitrary: p) (simp_all add: chain_allocations.simps get_node_def)

lemma users_cong: "(\<And>i. i \<in> set is \<Longrightarrow> al_allocation (ns' ! i) = al_allocation (ns ! i)) \<Longrightarrow> users ns' k is = users ns k is"
  unfolding users_def by (rule arg_cong [where f = length], rule filter_cong) auto

lemma allocation_update: "al_allocation n = al_allocation (ns ! i) \<Longrightarrow> al_allocation (ns[i := n] ! x) = al_allocation (ns ! x)"
  by (cases "x = i"; cases "i < length ns") (auto simp: not_less list_update_beyond)

lemma users_simps [simp]:
  "users ns k [] = 0" "users ns k (i # is) = (if range_key (al_allocation (ns ! i)) = k then 1 else 0) + users ns k is"
  "users ns k (is @ js) = users ns k is + users ns k js"
  by (simp_all add: users_def)

lemma alloc_invD:
  assumes "alloc_inv s es loose F"
  shows "distinct (map snd es @ loose @ F)" "set (map snd es @ loose @ F) = {..<length (pl_nodes s)}"
    "chain (pl_nodes s) (pl_free s) F" "length (map snd es @ loose @ F) = length (pl_nodes s)"
    "index_rep hash_range (pl_references s) (\<lambda>k. some_count (users (pl_nodes s) k (map snd es @ loose)))"
    "\<exists>bp. index_rep hash_pid (pl_by_pid s) bp \<and> (\<forall>pid. chain (pl_nodes s) (bp pid) (nodes_of pid es))"
proof -
  show d: "distinct (map snd es @ loose @ F)" and u: "set (map snd es @ loose @ F) = {..<length (pl_nodes s)}"
    and "chain (pl_nodes s) (pl_free s) F"
    and "index_rep hash_range (pl_references s) (\<lambda>k. some_count (users (pl_nodes s) k (map snd es @ loose)))"
    and "\<exists>bp. index_rep hash_pid (pl_by_pid s) bp \<and> (\<forall>pid. chain (pl_nodes s) (bp pid) (nodes_of pid es))"
    using assms unfolding alloc_inv_def by blast+
  show "length (map snd es @ loose @ F) = length (pl_nodes s)" using distinct_card [OF d] unfolding u by simp
qed

lemma card_dom_le:
  assumes "dom m \<subseteq> f ` set xs"
  shows "card (dom m) \<le> length xs"
  by (meson assms card_image_le card_length card_mono finite_imageI finite_set le_trans)

lemma references_small: "alloc_inv s es loose F \<Longrightarrow> ix_len (pl_references s) \<le> length (pl_nodes s)"
proof -
  assume inv: "alloc_inv s es loose F"
  let ?ns = "pl_nodes s" and ?live = "map snd es @ loose"
  have "dom (\<lambda>k. some_count (users ?ns k ?live)) \<subseteq> (\<lambda>i. range_key (al_allocation (?ns ! i))) ` set ?live"
  proof
    fix k
    assume "k \<in> dom (\<lambda>k. some_count (users ?ns k ?live))"
    then have "filter (\<lambda>i. range_key (al_allocation (?ns ! i)) = k) ?live \<noteq> []"
      by (auto simp: some_count_def users_def simp del: filter_append split: if_splits)
    then obtain i where "i \<in> set ?live" "range_key (al_allocation (?ns ! i)) = k" unfolding filter_empty_conv by blast
    then show "k \<in> (\<lambda>i. range_key (al_allocation (?ns ! i))) ` set ?live" by blast
  qed
  then have "card (dom (\<lambda>k. some_count (users ?ns k ?live))) \<le> length ?live" by (rule card_dom_le)
  then show ?thesis using index.count_stands [OF alloc_invD(5) [OF inv]] alloc_invD(4) [OF inv] by simp
qed

lemma by_pid_small:
  assumes "alloc_inv s es loose F" and "index_rep hash_pid (pl_by_pid s) bp" and "\<forall>pid. chain (pl_nodes s) (bp pid) (nodes_of pid es)"
  shows "ix_len (pl_by_pid s) \<le> length (pl_nodes s)"
proof -
  have "pid \<in> fst ` set es" if "bp pid = Some i" for pid i
  proof (rule ccontr)
    assume "pid \<notin> fst ` set es"
    then have "nodes_of pid es = []" by (auto simp: nodes_of_def filter_empty_conv)
    then show False using assms(3) that by (metis chain.simps(1) option.distinct(1))
  qed
  then have "card (dom bp) \<le> length es" by (intro card_dom_le [of bp fst es]) auto
  then show ?thesis using index.count_stands [OF assms(2)] alloc_invD(4) [OF assms(1)] by simp
qed

subsection \<open>Recycling a node\<close>

lemma some_count_Suc [simp]: "some_count (Suc c) = Some (Suc c)"
  by (simp add: some_count_def)

lemma recycle_inv:
  assumes inv: "alloc_inv s es (i # loose) F" and small: "length (pl_nodes s) < 2 ^ 60"
  obtains s' where
    "recycle s i = Some ((al_allocation (pl_nodes s ! i),
       users (pl_nodes s) (range_key (al_allocation (pl_nodes s ! i))) (map snd es @ loose) = 0), s')"
    "alloc_inv s' es loose (i # F)" "length (pl_nodes s') = length (pl_nodes s)"
    "\<And>j. al_allocation (pl_nodes s' ! j) = al_allocation (pl_nodes s ! j)" "\<And>j. j \<noteq> i \<Longrightarrow> pl_nodes s' ! j = pl_nodes s ! j"
proof -
  let ?ns = "pl_nodes s" and ?a = "al_allocation (pl_nodes s ! i)" and ?live = "map snd es @ loose"
  let ?k = "range_key ?a" and ?c = "users (pl_nodes s) (range_key (al_allocation (pl_nodes s ! i))) (map snd es @ loose)"
  let ?ns' = "?ns[i := (?ns ! i)\<lparr>al_next := pl_free s\<rparr>]"
  note D = alloc_invD [OF inv]
  have i: "i < length ?ns" using D(2) by auto
  have i': "i \<notin> set (map snd es)" "i \<notin> set loose" "i \<notin> set F" using D(1) by auto
  let ?rf = "\<lambda>k. some_count (users ?ns k (map snd es @ i # loose))" and ?rf' = "\<lambda>k. some_count (users ?ns k ?live)"
  have rfk: "?rf ?k = Some (Suc ?c)" by simp
  have upd: "?rf' = (if ?c = 0 then ?rf(?k := None) else ?rf(?k \<mapsto> ?c))"
    by (rule ext) (auto simp: some_count_def)
  obtain refs where refs: "(if Suc ?c = 1 then map_option snd (index_remove hash_range (pl_references s) ?k)
      else index_insert hash_range (pl_references s) ?k (Suc ?c - 1)) = Some refs" "index_rep hash_range refs ?rf'"
  proof (cases "?c = 0")
    case True
    obtain r where "index_remove hash_range (pl_references s) ?k = Some (?rf ?k, r)" "index_rep hash_range r (?rf(?k := None))"
      using index.remove_stands [OF D(5), of ?k] by blast
    then show ?thesis using that [of r] True upd by (simp del: users_simps)
  next
    case False
    have "ix_len (pl_references s) < 2 ^ 60" using references_small [OF inv] small by linarith
    then obtain r where "index_insert hash_range (pl_references s) ?k ?c = Some r" "index_rep hash_range r (?rf(?k \<mapsto> ?c))"
      using index.insert_stands [OF D(5), of ?k ?c] by blast
    then show ?thesis using that [of r] False upd by (simp del: users_simps)
  qed
  let ?s = "s\<lparr>pl_references := refs, pl_nodes := ?ns', pl_free := Some i\<rparr>"
  have alloc: "al_allocation (?ns' ! j) = al_allocation (?ns ! j)" for j by (rule allocation_update) simp
  obtain bp where bp: "index_rep hash_pid (pl_by_pid s) bp" "\<And>pid. chain ?ns (bp pid) (nodes_of pid es)" using D(6) by blast
  have "i \<notin> set (nodes_of pid es)" for pid using i'(1) by (auto simp: nodes_of_def)
  then have "chain ?ns' (bp pid) (nodes_of pid es)" for pid using bp(2) by (intro chain_update)
  moreover have "chain ?ns' (Some i) (i # F)" using D(3) i i'(3) chain_update by simp
  moreover have "users ?ns' k ?live = users ?ns k ?live" for k by (rule users_cong) (rule alloc)
  ultimately have "alloc_inv ?s es loose (i # F)"
    unfolding alloc_inv_def using D(1,2) bp(1) refs(2) by (auto simp del: users_simps chain.simps)
  moreover have "recycle s i = Some ((?a, ?c = 0), ?s)"
    using i refs(1) index.get_stands [OF D(5), of ?k] rfk by (simp add: recycle_def get_node_def del: users_simps)
  ultimately show thesis using that alloc by simp
qed

subsection \<open>Insertion\<close>

definition log_of :: "alloc_node list \<Rightarrow> (machine_word \<times> nat) list \<Rightarrow> (machine_word \<times> process_allocation) list" where
  "log_of ns es = map (\<lambda>(pid, i). (pid, al_allocation (ns ! i))) es"

lemma log_of_cong: "(\<And>i. i \<in> set (map snd es) \<Longrightarrow> al_allocation (ns' ! i) = al_allocation (ns ! i)) \<Longrightarrow> log_of ns' es = log_of ns es"
  by (force simp: log_of_def)

lemma nodes_of_Cons [simp]: "nodes_of pid (e # es) = (if fst e = pid then snd e # nodes_of pid es else nodes_of pid es)"
  by (simp add: nodes_of_def)

lemma nodes_of_subset: "set (nodes_of pid es) \<subseteq> set (map snd es)"
  by (auto simp: nodes_of_def)

text \<open>Linking the node \<open>i\<close>, in use by no list, in front of the list of a process.\<close>

lemma link_inv:
  assumes "distinct (i # map snd es @ F)" and "set (i # map snd es @ F) = {..<length ns}" and "ns ! i = \<lparr>al_allocation = a, al_next = bp pid\<rparr>"
    and "chain ns free F" and "\<And>p. chain ns (bp p) (nodes_of p es)"
    and "index_rep hash_pid by_pid (bp(pid \<mapsto> i))" and "index_rep hash_range refs (\<lambda>k. some_count (users ns k (i # map snd es)))"
  shows "alloc_inv \<lparr>pl_by_pid = by_pid, pl_references = refs, pl_nodes = ns, pl_free = free\<rparr> ((pid, i) # es) [] F"
proof -
  have i: "i < length ns" using assms(2) by (metis lessThan_iff list.set_intros(1))
  have "chain ns ((bp(pid \<mapsto> i)) p) (nodes_of p ((pid, i) # es))" for p using assms(3,5) i by simp
  then show ?thesis
    unfolding alloc_inv_def using assms(1,2,4,6,7) by (intro conjI exI [of _ "bp(pid \<mapsto> i)"]) (simp_all del: users_simps nodes_of_Cons)
qed

lemma insert_inv:
  assumes inv: "alloc_inv s es [] F" and small: "length (pl_nodes s) < 2 ^ 60"
  obtains s' i F' where "allocations_insert s pid a = Some s'" "alloc_inv s' ((pid, i) # es) [] F'"
    "log_of (pl_nodes s') ((pid, i) # es) = (pid, a) # log_of (pl_nodes s) es" "length (pl_nodes s') = max (length (pl_nodes s)) (length es + 1)"
proof -
  let ?ns = "pl_nodes s" and ?k = "range_key a"
  note D = alloc_invD [OF inv]
  obtain bp where bp: "index_rep hash_pid (pl_by_pid s) bp" "\<And>pid. chain ?ns (bp pid) (nodes_of pid es)" using D(6) by blast
  let ?rf = "\<lambda>k. some_count (users ?ns k (map snd es @ []))" and ?c = "users ?ns ?k (map snd es)"
  have cnt: "(case ?rf ?k of Some c \<Rightarrow> c | None \<Rightarrow> 0) = ?c" by (simp add: some_count_def)
  have "ix_len (pl_references s) < 2 ^ 60" "ix_len (pl_by_pid s) < 2 ^ 60"
    using references_small [OF inv] by_pid_small [OF inv bp(1)] bp(2) small by (auto intro: le_less_trans)
  then obtain refs by_pid where refs: "index_insert hash_range (pl_references s) ?k (?c + 1) = Some refs" "index_rep hash_range refs (?rf(?k \<mapsto> ?c + 1))"
    and by_pid: "\<And>i. index_insert hash_pid (pl_by_pid s) pid i = Some (by_pid i)" "\<And>i. index_rep hash_pid (by_pid i) (bp(pid \<mapsto> i))"
    using index.insert_stands [OF D(5), of ?k "?c + 1"] index.insert_stands [OF bp(1), of pid] by metis
  let ?n = "\<lparr>al_allocation = a, al_next = bp pid\<rparr>"
  have refs': "index_rep hash_range refs (\<lambda>k. some_count (users ns k (i # map snd es)))"
    if "ns ! i = ?n" "\<And>j. j \<in> set (map snd es) \<Longrightarrow> ns ! j = ?ns ! j" for ns i
  proof -
    have "users ns k (map snd es) = users ?ns k (map snd es)" for k by (rule users_cong) (simp add: that(2))
    then have "(\<lambda>k. some_count (users ns k (i # map snd es))) = ?rf(?k \<mapsto> ?c + 1)" using that(1) by (auto simp: some_count_def)
    then show ?thesis using refs(2) by simp
  qed
  have log: "log_of ns ((pid, i) # es) = (pid, a) # log_of ?ns es"
    if "ns ! i = ?n" "\<And>j. j \<in> set (map snd es) \<Longrightarrow> ns ! j = ?ns ! j" for ns i
    using log_of_cong [of es ns ?ns] that by (auto simp: log_of_def)
  show thesis
  proof (cases F)
    case Nil
    let ?m = "?ns @ [?n]" and ?i = "length ?ns"
    have old: "?m ! j = ?ns ! j" if "j \<in> set (map snd es)" for j using that D(2) Nil by (auto simp: nth_append)
    have len: "length es = length ?ns" using D(4) Nil by simp
    have ch: "chain ?m (bp p) (nodes_of p es)" for p
      by (rule chain_cong [OF _ _ bp(2)]) (simp_all add: old [OF subsetD [OF nodes_of_subset]])
    have "alloc_inv \<lparr>pl_by_pid = by_pid ?i, pl_references = refs, pl_nodes = ?m, pl_free = None\<rparr> ((pid, ?i) # es) [] []"
      by (rule link_inv [OF _ _ _ _ ch by_pid(2) refs']) (use D(1,2) Nil old in \<open>auto simp: lessThan_Suc\<close>)
    moreover have "allocations_insert s pid a = Some \<lparr>pl_by_pid = by_pid ?i, pl_references = refs, pl_nodes = ?m, pl_free = None\<rparr>"
      using D(3) Nil refs(1) by_pid(1) index.get_stands [OF D(5), of ?k] index.get_stands [OF bp(1), of pid] cnt
      by (simp add: allocations_insert_def del: users_simps)
    ultimately show thesis using that log [of ?m ?i] old len by simp
  next
    case (Cons f F')
    let ?m = "?ns[f := ?n]"
    have f: "f < length ?ns" "f \<notin> set (map snd es)" "f \<notin> set F'" "pl_free s = Some f" "chain ?ns (al_next (?ns ! f)) F'"
      using D(1,2,3) Cons by auto
    have old: "?m ! j = ?ns ! j" if "j \<in> set (map snd es)" for j using that f(2) by (metis nth_list_update_neq)
    have ch: "chain ?m (bp p) (nodes_of p es)" for p
      by (rule chain_update [OF _ bp(2)]) (use f(2) nodes_of_subset [of p es] in auto)
    have len: "length es + 1 \<le> length ?ns" using D(4) Cons by simp
    have "alloc_inv \<lparr>pl_by_pid = by_pid f, pl_references = refs, pl_nodes = ?m, pl_free = al_next (?ns ! f)\<rparr> ((pid, f) # es) [] F'"
      by (rule link_inv [OF _ _ _ chain_update [OF f(3,5)] ch by_pid(2) refs']) (use D(1,2) Cons f old in auto)
    moreover have "allocations_insert s pid a =
        Some \<lparr>pl_by_pid = by_pid f, pl_references = refs, pl_nodes = ?m, pl_free = al_next (?ns ! f)\<rparr>"
      using f refs(1) by_pid(1) index.get_stands [OF D(5), of ?k] index.get_stands [OF bp(1), of pid] cnt
      by (simp add: allocations_insert_def get_node_def del: users_simps)
    ultimately show thesis using that log [of ?m f] old len f(1) by simp
  qed
qed

subsection \<open>Taking one allocation\<close>

definition wanted :: "alloc_node list \<Rightarrow> machine_word \<Rightarrow> machine_word \<Rightarrow> nat \<Rightarrow> bool" where
  "wanted ns va pages i \<longleftrightarrow> pa_base_va (al_allocation (ns ! i)) = va \<and> pa_page_count (al_allocation (ns ! i)) = pages"

lemma take_from_miss:
  "chain (pl_nodes s) p is \<Longrightarrow> \<forall>i \<in> set is. \<not> wanted (pl_nodes s) va pages i \<Longrightarrow> take_from s pid va pages prev p = Some (None, s)"
proof (induction "is" arbitrary: prev p)
  case (Cons i "is")
  then show ?case by (subst take_from.simps) (auto simp: get_node_def wanted_def)
qed (simp add: take_from.simps)

text \<open>The statements of \<open>take\<close> that unlink the node it found.\<close>

definition unlink :: "physical_allocations \<Rightarrow> machine_word \<Rightarrow> nat option \<Rightarrow> nat option \<Rightarrow> physical_allocations option" where
  "unlink s pid previous next =
     (case previous of
        Some p \<Rightarrow> do {
          q \<leftarrow> get_node (pl_nodes s) p;
          Some (s\<lparr>pl_nodes := (pl_nodes s)[p := q\<lparr>al_next := next\<rparr>]\<rparr>)}
      | None \<Rightarrow>
          (case next of
             Some head \<Rightarrow> do {
               by_pid \<leftarrow> index_insert hash_pid (pl_by_pid s) pid head;
               Some (s\<lparr>pl_by_pid := by_pid\<rparr>)}
           | None \<Rightarrow> do {
               (r, by_pid) \<leftarrow> index_remove hash_pid (pl_by_pid s) pid;
               Some (s\<lparr>pl_by_pid := by_pid\<rparr>)}))"

lemma take_from_hit:
  assumes "chain (pl_nodes s) p (bs @ i # as)" and "\<forall>b \<in> set bs. \<not> wanted (pl_nodes s) va pages b" and "wanted (pl_nodes s) va pages i"
  shows "take_from s pid va pages prev p = do {
     s \<leftarrow> unlink s pid (if bs = [] then prev else Some (last bs)) (al_next (pl_nodes s ! i));
     (r, s) \<leftarrow> recycle s i;
     Some (Some r, s)}"
  using assms
proof (induction bs arbitrary: prev p)
  case Nil
  then show ?case by (subst take_from.simps) (auto simp: get_node_def wanted_def unlink_def)
next
  case (Cons b bs)
  have "take_from s pid va pages prev p = take_from s pid va pages (Some b) (al_next (pl_nodes s ! b))"
    using Cons.prems by (subst take_from.simps) (auto simp: get_node_def wanted_def)
  then show ?case using Cons.IH [of "al_next (pl_nodes s ! b)" "Some b"] Cons.prems by simp
qed

lemma chain_skip:
  assumes "chain ns p (bs @ i # as)" and "distinct (bs @ i # as)"
  shows "if bs = [] then chain ns (al_next (ns ! i)) as
    else chain (ns[last bs := (ns ! last bs)\<lparr>al_next := al_next (ns ! i)\<rparr>]) p (bs @ as)"
  using assms
proof (induction bs arbitrary: p)
  case (Cons b bs)
  let ?m = "ns[last (b # bs) := (ns ! last (b # bs))\<lparr>al_next := al_next (ns ! i)\<rparr>]"
  have b: "p = Some b" "b < length ns" "chain ns (al_next (ns ! b)) (bs @ i # as)" using Cons.prems(1) by auto
  show ?case
  proof (cases "bs = []")
    case True
    have "chain (ns[b := (ns ! b)\<lparr>al_next := al_next (ns ! i)\<rparr>]) (al_next (ns ! i)) as"
      by (rule chain_update) (use Cons.prems b True in auto)
    then show ?thesis using True b by simp
  next
    case False
    have "b \<noteq> last bs" using Cons.prems(2) False by auto
    then show ?thesis using False b Cons.IH [OF b(3)] Cons.prems(2) by simp
  qed
qed simp

lemma nodes_of_disjoint:
  assumes "distinct (map snd es)" and "p \<noteq> q"
  shows "set (nodes_of p es) \<inter> set (nodes_of q es) = {}"
proof -
  have "a = b" if "(a, i) \<in> set es" "(b, i) \<in> set es" for a b i
    using inj_onD [of snd "set es" "(a, i)" "(b, i)"] assms(1) that by (simp add: distinct_map)
  then show ?thesis using assms(2) by (fastforce simp: nodes_of_def)
qed

lemma unlink_head:
  assumes "index_rep hash_pid (pl_by_pid s) bp" and "ix_len (pl_by_pid s) < 2 ^ 60"
  shows "\<exists>b. unlink s pid None n = Some (s\<lparr>pl_by_pid := b\<rparr>) \<and> index_rep hash_pid b (bp(pid := n))"
proof (cases n)
  case None
  obtain b where "index_remove hash_pid (pl_by_pid s) pid = Some (bp pid, b)" "index_rep hash_pid b (bp(pid := None))"
    using index.remove_stands [OF assms(1)] by blast
  then show ?thesis using None by (intro exI [of _ b]) (simp add: unlink_def)
next
  case (Some head)
  obtain b where "index_insert hash_pid (pl_by_pid s) pid head = Some b" "index_rep hash_pid b (bp(pid \<mapsto> head))"
    using index.insert_stands [OF assms] by blast
  then show ?thesis using Some by (intro exI [of _ b]) (simp add: unlink_def)
qed

lemma unlink_inv:
  assumes inv: "alloc_inv s (xs @ (pid, i) # ys) [] F" and small: "length (pl_nodes s) < 2 ^ 60"
  defines "bs \<equiv> nodes_of pid xs"
  obtains s' where "unlink s pid (if bs = [] then None else Some (last bs)) (al_next (pl_nodes s ! i)) = Some s'"
    "alloc_inv s' (xs @ ys) [i] F" "length (pl_nodes s') = length (pl_nodes s)"
    "\<And>j. al_allocation (pl_nodes s' ! j) = al_allocation (pl_nodes s ! j)"
proof -
  let ?es = "xs @ (pid, i) # ys" and ?ns = "pl_nodes s" and ?as = "nodes_of pid ys"
  note D = alloc_invD [OF inv]
  obtain bp where bp: "index_rep hash_pid (pl_by_pid s) bp" "\<And>p. chain ?ns (bp p) (nodes_of p ?es)" using D(6) by blast
  have ch: "chain ?ns (bp pid) (bs @ i # ?as)" using bp(2) [of pid] by (simp add: nodes_of_def bs_def)
  have dm: "distinct (map snd ?es)" using D(1) by (metis distinct_append)
  then have "distinct (nodes_of pid ?es)" unfolding nodes_of_def by (rule distinct_map_filter)
  then have d: "distinct (bs @ i # ?as)" by (simp add: nodes_of_def bs_def)
  have other: "nodes_of p ?es = nodes_of p (xs @ ys)" if "p \<noteq> pid" for p using that by (simp add: nodes_of_def)
  have mine: "nodes_of pid (xs @ ys) = bs @ ?as" by (simp add: nodes_of_def bs_def)
  have part: "distinct (map snd (xs @ ys) @ [i] @ F)" "set (map snd (xs @ ys) @ [i] @ F) = {..<length ?ns}" using D(1,2) by auto
  have perm: "users ns k (map snd (xs @ ys) @ [i]) = users ns k (map snd ?es @ [])" for ns k by simp
  have fin: "alloc_inv \<lparr>pl_by_pid = b, pl_references = pl_references s, pl_nodes = m, pl_free = pl_free s\<rparr> (xs @ ys) [i] F"
    if "index_rep hash_pid b bp'" "\<And>p. chain m (bp' p) (nodes_of p (xs @ ys))" "length m = length ?ns"
      "\<And>j. al_allocation (m ! j) = al_allocation (?ns ! j)" "chain m (pl_free s) F" for b bp' m
  proof -
    have "users m k js = users ?ns k js" for k js by (rule users_cong) (rule that(4))
    then show ?thesis unfolding alloc_inv_def using part that(1,2,3,5) D(5) perm by (auto simp del: users_simps)
  qed
  show thesis
  proof (cases "bs = []")
    case True
    let ?n = "al_next (?ns ! i)"
    have head: "chain ?ns ?n (nodes_of pid (xs @ ys))" using chain_skip [OF ch d] True mine by simp
    have "ix_len (pl_by_pid s) < 2 ^ 60" using by_pid_small [OF inv bp(1)] bp(2) small by (meson le_less_trans)
    then obtain b where b: "unlink s pid None ?n = Some (s\<lparr>pl_by_pid := b\<rparr>)" "index_rep hash_pid b (bp(pid := ?n))"
      using unlink_head [OF bp(1)] by blast
    have "chain ?ns ((bp(pid := ?n)) p) (nodes_of p (xs @ ys))" for p using head bp(2) [of p] other [of p] by auto
    from fin [OF b(2) this] show thesis using that [of "s\<lparr>pl_by_pid := b\<rparr>"] True b(1) D(3) by (cases s) auto
  next
    case False
    let ?l = "last bs" and ?m = "?ns[last bs := (?ns ! last bs)\<lparr>al_next := al_next (?ns ! i)\<rparr>]"
    have l: "?l \<in> set (map snd ?es)" "?l \<in> set bs" using False nodes_of_subset [of pid xs] last_in_set [OF False] by (auto simp: bs_def)
    have lp: "?l \<in> set (nodes_of pid ?es)" using l(2) by (simp add: nodes_of_def bs_def)
    from l have ll: "?l < length ?ns" using D(2) by (metis Un_iff lessThan_iff set_append)
    have "?l \<notin> set F" using D(1) l by auto
    have "chain ?m (bp p) (nodes_of p (xs @ ys))" for p
    proof (cases "p = pid")
      case True
      then show ?thesis using chain_skip [OF ch d] False mine by simp
    next
      case p: False
      then have "?l \<notin> set (nodes_of p ?es)" using nodes_of_disjoint [OF dm p] lp by blast
      from chain_update [OF this bp(2)] show ?thesis using other [OF p] by simp
    qed
    moreover have "chain ?m (pl_free s) F" using chain_update [OF \<open>?l \<notin> set F\<close> D(3)] .
    ultimately have "alloc_inv \<lparr>pl_by_pid = pl_by_pid s, pl_references = pl_references s, pl_nodes = ?m, pl_free = pl_free s\<rparr> (xs @ ys) [i] F"
      by (intro fin [OF bp(1)]) (auto intro: allocation_update)
    then have "alloc_inv (s\<lparr>pl_nodes := ?m\<rparr>) (xs @ ys) [i] F" by (cases s) simp
    moreover have "al_allocation (?m ! j) = al_allocation (?ns ! j)" for j by (rule allocation_update) simp
    moreover have "unlink s pid (Some ?l) (al_next (?ns ! i)) = Some (s\<lparr>pl_nodes := ?m\<rparr>)" using ll by (simp add: unlink_def get_node_def)
    ultimately show thesis using that [of "s\<lparr>pl_nodes := ?m\<rparr>"] False by simp
  qed
qed

subsection \<open>The abstract operations\<close>

type_synonym allocation_log = "(machine_word \<times> process_allocation) list"

definition log_users :: "allocation_log \<Rightarrow> machine_word \<times> machine_word \<Rightarrow> nat" where
  "log_users log k = length (filter (\<lambda>e. range_key (snd e) = k) log)"

definition log_of_pid :: "allocation_log \<Rightarrow> machine_word \<Rightarrow> process_allocation list" where
  "log_of_pid log pid = map snd (filter (\<lambda>e. fst e = pid) log)"

definition matches :: "machine_word \<Rightarrow> machine_word \<Rightarrow> process_allocation \<Rightarrow> bool" where
  "matches va pages a \<longleftrightarrow> pa_base_va a = va \<and> pa_page_count a = pages"

text \<open>The newest matching allocation of the process is taken out; it was the last user of its range if no entry is left for the range.\<close>

fun log_take :: "machine_word \<Rightarrow> machine_word \<Rightarrow> machine_word \<Rightarrow> allocation_log \<Rightarrow> process_allocation option \<times> allocation_log" where
  "log_take pid va pages [] = (None, [])"
| "log_take pid va pages ((p, a) # log) =
     (if p = pid \<and> matches va pages a then (Some a, log) else map_prod id ((#) (p, a)) (log_take pid va pages log))"

fun last_uses :: "process_allocation list \<Rightarrow> allocation_log \<Rightarrow> (process_allocation \<times> bool) list" where
  "last_uses [] log = []"
| "last_uses (a # as) log = (a, log_users log (range_key a) = 0 \<and> range_key a \<notin> range_key ` set as) # last_uses as log"

lemma users_log: "users ns k (map snd es) = log_users (log_of ns es) k"
  by (induction es) (auto simp: log_users_def log_of_def)

lemma log_take_miss:
  "\<forall>e \<in> set es. \<not> (fst e = pid \<and> wanted ns va pages (snd e)) \<Longrightarrow> log_take pid va pages (log_of ns es) = (None, log_of ns es)"
  by (induction es) (auto simp: log_of_def wanted_def matches_def)

lemma log_take_hit:
  "\<forall>e \<in> set xs. \<not> (fst e = pid \<and> wanted ns va pages (snd e)) \<Longrightarrow> wanted ns va pages i \<Longrightarrow>
   log_take pid va pages (log_of ns (xs @ (pid, i) # ys)) = (Some (al_allocation (ns ! i)), log_of ns (xs @ ys))"
  by (induction xs) (auto simp: log_of_def wanted_def matches_def)

lemma take_inv:
  assumes inv: "alloc_inv s es [] F" and small: "length (pl_nodes s) < 2 ^ 60"
    and lt: "log_take pid va pages (log_of (pl_nodes s) es) = (r, log')"
  obtains s' es' F' where "allocations_take s pid va pages = Some (map_option (\<lambda>a. (a, log_users log' (range_key a) = 0)) r, s')"
    "alloc_inv s' es' [] F'" "log_of (pl_nodes s') es' = log'" "length (pl_nodes s') = length (pl_nodes s)"
proof -
  let ?ns = "pl_nodes s"
  obtain bp where bp: "index_rep hash_pid (pl_by_pid s) bp" "\<And>p. chain ?ns (bp p) (nodes_of p es)" using alloc_invD(6) [OF inv] by blast
  have get: "index_get hash_pid (pl_by_pid s) pid = Some (bp pid)" by (rule index.get_stands [OF bp(1)])
  show thesis
  proof (cases "\<exists>e \<in> set es. fst e = pid \<and> wanted ?ns va pages (snd e)")
    case False
    then have "r = None" "log' = log_of ?ns es"
      using lt log_take_miss [of es pid ?ns va pages] by auto
    moreover have "take_from s pid va pages None (bp pid) = Some (None, s)"
      by (rule take_from_miss [OF bp(2)]) (use False in \<open>auto simp: nodes_of_def\<close>)
    ultimately show thesis using that inv get by (simp add: allocations_take_def)
  next
    case True
    then obtain xs i ys where es: "es = xs @ (pid, i) # ys" "wanted ?ns va pages i"
      and first: "\<forall>e \<in> set xs. \<not> (fst e = pid \<and> wanted ?ns va pages (snd e))"
      using split_list_first_prop [OF True] by (metis prod.collapse)
    have r: "r = Some (al_allocation (?ns ! i))" "log' = log_of ?ns (xs @ ys)"
      using lt log_take_hit [OF first es(2)] unfolding es(1) by auto
    obtain s1 where s1: "unlink s pid (if nodes_of pid xs = [] then None else Some (last (nodes_of pid xs))) (al_next (?ns ! i)) = Some s1"
      "alloc_inv s1 (xs @ ys) [i] F" "length (pl_nodes s1) = length ?ns" "\<And>j. al_allocation (pl_nodes s1 ! j) = al_allocation (?ns ! j)"
      using unlink_inv [OF inv [unfolded es(1)] small] by blast
    have log1: "log_of (pl_nodes s1) (xs @ ys) = log'" using r(2) log_of_cong [of "xs @ ys" "pl_nodes s1" ?ns] s1(4) by simp
    obtain s2 where s2: "recycle s1 i = Some ((al_allocation (pl_nodes s1 ! i),
        users (pl_nodes s1) (range_key (al_allocation (pl_nodes s1 ! i))) (map snd (xs @ ys) @ []) = 0), s2)"
      "alloc_inv s2 (xs @ ys) [] (i # F)" "length (pl_nodes s2) = length (pl_nodes s1)"
      "\<And>j. al_allocation (pl_nodes s2 ! j) = al_allocation (pl_nodes s1 ! j)"
      using recycle_inv [OF s1(2)] small s1(3) by (metis append_Nil2)
    have ch: "chain ?ns (bp pid) (nodes_of pid xs @ i # nodes_of pid ys)" using bp(2) [of pid] by (simp add: es(1) nodes_of_def)
    have no: "\<forall>b \<in> set (nodes_of pid xs). \<not> wanted ?ns va pages b" using first by (auto simp: nodes_of_def)
    have "users (pl_nodes s1) k (map snd (xs @ ys) @ []) = log_users log' k" for k using users_log [of "pl_nodes s1" k "xs @ ys"] log1 by simp
    then have "take_from s pid va pages None (bp pid) = Some (Some (al_allocation (?ns ! i), log_users log' (range_key (al_allocation (?ns ! i))) = 0), s2)"
      using take_from_hit [OF ch no es(2), of pid None] s1(1) s2(1) s1(4) by (simp del: users_simps)
    moreover have "log_of (pl_nodes s2) (xs @ ys) = log'" using log1 log_of_cong [of "xs @ ys" "pl_nodes s2" "pl_nodes s1"] s2(4) by simp
    ultimately show thesis using that [of s2 "xs @ ys" "i # F"] r(1) get s2(2,3) s1(3) by (simp add: allocations_take_def)
  qed
qed

subsection \<open>Removing a process\<close>

lemma recycle_chain_inv:
  assumes "alloc_inv s es loose F" and "chain (pl_nodes s) p loose" and "length (pl_nodes s) < 2 ^ 60"
  shows "\<exists>s' F'. recycle_chain s p = Some (last_uses (map (\<lambda>i. al_allocation (pl_nodes s ! i)) loose) (log_of (pl_nodes s) es), s') \<and>
    alloc_inv s' es [] F' \<and> log_of (pl_nodes s') es = log_of (pl_nodes s) es \<and> length (pl_nodes s') = length (pl_nodes s)"
  using assms
proof (induction loose arbitrary: s p F)
  case Nil
  then show ?case by (simp add: recycle_chain.simps) blast
next
  case (Cons i loose)
  let ?a = "al_allocation (pl_nodes s ! i)"
  have i: "p = Some i" "i < length (pl_nodes s)" "chain (pl_nodes s) (al_next (pl_nodes s ! i)) loose" using Cons.prems(2) by auto
  obtain s1 where s1: "recycle s i = Some ((?a, users (pl_nodes s) (range_key ?a) (map snd es @ loose) = 0), s1)"
    "alloc_inv s1 es loose (i # F)" "length (pl_nodes s1) = length (pl_nodes s)"
    "\<And>j. al_allocation (pl_nodes s1 ! j) = al_allocation (pl_nodes s ! j)" "\<And>j. j \<noteq> i \<Longrightarrow> pl_nodes s1 ! j = pl_nodes s ! j"
    using recycle_inv [OF Cons.prems(1,3)] by blast
  have "i \<notin> set loose" using alloc_invD(1) [OF Cons.prems(1)] by auto
  then have ch: "chain (pl_nodes s1) (al_next (pl_nodes s ! i)) loose"
    by (intro chain_cong [OF _ _ i(3)]) (metis s1(5), simp add: s1(3))
  have log: "log_of (pl_nodes s1) es = log_of (pl_nodes s) es" by (rule log_of_cong) (rule s1(4))
  obtain s' F' where s': "recycle_chain s1 (al_next (pl_nodes s ! i)) =
      Some (last_uses (map (\<lambda>i. al_allocation (pl_nodes s1 ! i)) loose) (log_of (pl_nodes s1) es), s')"
    "alloc_inv s' es [] F'" "log_of (pl_nodes s') es = log_of (pl_nodes s1) es" "length (pl_nodes s') = length (pl_nodes s1)"
    using Cons.IH [OF s1(2) ch] Cons.prems(3) s1(3) by auto
  have "users (pl_nodes s) k loose = 0 \<longleftrightarrow> k \<notin> range_key ` set (map (\<lambda>i. al_allocation (pl_nodes s ! i)) loose)" for k
    by (auto simp: users_def filter_empty_conv)
  then have flag: "users (pl_nodes s) (range_key ?a) (map snd es @ loose) = 0 \<longleftrightarrow>
      log_users (log_of (pl_nodes s) es) (range_key ?a) = 0 \<and> range_key ?a \<notin> range_key ` set (map (\<lambda>i. al_allocation (pl_nodes s ! i)) loose)"
    by (simp add: users_log)
  have "recycle_chain s p = Some (last_uses (map (\<lambda>i. al_allocation (pl_nodes s ! i)) (i # loose)) (log_of (pl_nodes s) es), s')"
    using i(1,2) s1(1) s'(1) flag log s1(4) by (subst recycle_chain.simps) (simp add: get_node_def del: users_simps)
  then show ?case using s'(2-4) log s1(3) by auto
qed

lemma distinct_split:
  assumes "distinct (map snd es)"
  shows "distinct (map snd (filter (\<lambda>e. \<not> P e) es) @ map snd (filter P es))" and "set (map snd (filter (\<lambda>e. \<not> P e) es) @ map snd (filter P es)) = set (map snd es)"
proof -
  have inj: "inj_on snd (set es)" using assms by (simp add: distinct_map)
  have "snd ` {e \<in> set es. \<not> P e} \<inter> snd ` {e \<in> set es. P e} = {}" using inj by (auto simp: inj_on_def)
  then show "distinct (map snd (filter (\<lambda>e. \<not> P e) es) @ map snd (filter P es))" using assms by (simp add: distinct_map_filter)
  show "set (map snd (filter (\<lambda>e. \<not> P e) es) @ map snd (filter P es)) = set (map snd es)" by auto
qed

lemma remove_pid_inv:
  fixes pid :: machine_word
  assumes inv: "alloc_inv s es [] F" and small: "length (pl_nodes s) < 2 ^ 60"
  defines "es' \<equiv> filter (\<lambda>e. fst e \<noteq> pid) es"
  obtains s' F' where "remove_pid s pid = Some (last_uses (log_of_pid (log_of (pl_nodes s) es) pid) (filter (\<lambda>e. fst e \<noteq> pid) (log_of (pl_nodes s) es)), s')"
    "alloc_inv s' es' [] F'" "log_of (pl_nodes s') es' = filter (\<lambda>e. fst e \<noteq> pid) (log_of (pl_nodes s) es)" "length (pl_nodes s') = length (pl_nodes s)"
proof -
  let ?ns = "pl_nodes s" and ?loose = "nodes_of pid es"
  note D = alloc_invD [OF inv]
  obtain bp where bp: "index_rep hash_pid (pl_by_pid s) bp" "\<And>p. chain ?ns (bp p) (nodes_of p es)" using D(6) by blast
  obtain b where b: "index_remove hash_pid (pl_by_pid s) pid = Some (bp pid, b)" "index_rep hash_pid b (bp(pid := None))"
    using index.remove_stands [OF bp(1)] by blast
  have perm: "users ?ns k (map snd es' @ ?loose) = users ?ns k (map snd es @ [])" for k
    unfolding es'_def nodes_of_def by (induction es) auto
  have mset: "set (map snd es' @ ?loose) = set (map snd es)" "distinct (map snd es' @ ?loose)"
    using distinct_split [of es "\<lambda>e. fst e = pid"] D(1) by (auto simp: es'_def nodes_of_def)
  have ch: "chain ?ns ((bp(pid := None)) p) (nodes_of p es')" for p
  proof (cases "p = pid")
    case True
    then show ?thesis by (simp add: nodes_of_def es'_def)
  next
    case False
    then have "filter (\<lambda>e. fst e = p) es' = filter (\<lambda>e. fst e = p) es" unfolding es'_def filter_filter by (intro filter_cong) auto
    then show ?thesis using bp(2) [of p] False by (simp add: nodes_of_def)
  qed
  have "alloc_inv (s\<lparr>pl_by_pid := b\<rparr>) es' ?loose F"
    unfolding alloc_inv_def
  proof (intro conjI exI [of _ "bp(pid := None)"] allI)
    have "set (map snd es' @ ?loose @ F) = set (map snd es @ [] @ F)" using mset(1) by auto
    then show "set (map snd es' @ ?loose @ F) = {..<length (pl_nodes (s\<lparr>pl_by_pid := b\<rparr>))}" using D(2) by simp
    show "distinct (map snd es' @ ?loose @ F)" using D(1) mset by auto
    show "index_rep hash_range (pl_references (s\<lparr>pl_by_pid := b\<rparr>))
        (\<lambda>k. some_count (users (pl_nodes (s\<lparr>pl_by_pid := b\<rparr>)) k (map snd es' @ ?loose)))"
      using D(5) perm by simp
  qed (use b(2) ch D(3) in simp_all)
  moreover have "log_of ?ns es' = filter (\<lambda>e. fst e \<noteq> pid) (log_of ?ns es)" "map (\<lambda>i. al_allocation (?ns ! i)) ?loose = log_of_pid (log_of ?ns es) pid"
    unfolding es'_def log_of_def log_of_pid_def nodes_of_def by (induction es) auto
  ultimately show thesis
    using recycle_chain_inv [of "s\<lparr>pl_by_pid := b\<rparr>" es' ?loose F "bp pid"] bp(2) [of pid] small b(1) that by (auto simp: remove_pid_def)
qed

section \<open>Properties\<close>

datatype allocation_request =
    InsertAllocation machine_word process_allocation
  | TakeAllocation machine_word machine_word machine_word
  | RemoveProcess machine_word

fun allocation_step :: "allocation_request \<Rightarrow> physical_allocations \<Rightarrow> ((process_allocation \<times> bool) list \<times> physical_allocations) option" where
  "allocation_step (InsertAllocation pid a) s = map_option (Pair []) (allocations_insert s pid a)"
| "allocation_step (TakeAllocation pid va pages) s =
     map_option (map_prod (\<lambda>r. case r of Some x \<Rightarrow> [x] | None \<Rightarrow> []) id) (allocations_take s pid va pages)"
| "allocation_step (RemoveProcess pid) s = remove_pid s pid"

fun log_step :: "allocation_request \<Rightarrow> allocation_log \<Rightarrow> (process_allocation \<times> bool) list \<times> allocation_log" where
  "log_step (InsertAllocation pid a) log = ([], (pid, a) # log)"
| "log_step (TakeAllocation pid va pages) log =
     (case log_take pid va pages log of
        (Some a, log') \<Rightarrow> ([(a, log_users log' (range_key a) = 0)], log') | (None, log') \<Rightarrow> ([], log'))"
| "log_step (RemoveProcess pid) log =
     (let log' = filter (\<lambda>e. fst e \<noteq> pid) log in (last_uses (log_of_pid log pid) log', log'))"

fun allocation_run ::
  "allocation_request list \<Rightarrow> physical_allocations \<Rightarrow> ((process_allocation \<times> bool) list list \<times> physical_allocations) option" where
  "allocation_run [] s = Some ([], s)"
| "allocation_run (q # qs) s = do {
     (r, s) \<leftarrow> allocation_step q s;
     (rs, s) \<leftarrow> allocation_run qs s;
     Some (r # rs, s)}"

text \<open>The log after the requests, the answers, and the largest number of allocations that existed at once.\<close>

fun log_run :: "allocation_request list \<Rightarrow> allocation_log \<Rightarrow> nat \<Rightarrow> (process_allocation \<times> bool) list list \<times> allocation_log \<times> nat" where
  "log_run [] log peak = ([], log, peak)"
| "log_run (q # qs) log peak =
     (case log_step q log of (r, log') \<Rightarrow> map_prod ((#) r) id (log_run qs log' (max peak (length log'))))"

lemma allocation_step_inv:
  assumes inv: "alloc_inv s es [] F" and small: "length (pl_nodes s) < 2 ^ 60"
  shows "\<exists>r s' es' F'. allocation_step q s = Some (r, s') \<and> log_step q (log_of (pl_nodes s) es) = (r, log_of (pl_nodes s') es') \<and>
    alloc_inv s' es' [] F' \<and> length (pl_nodes s') = max (length (pl_nodes s)) (length es')"
proof -
  have le: "length es' \<le> length (pl_nodes s')" if "alloc_inv s' es' [] F'" for s' es' F'
    using alloc_invD(4) [OF that] by simp
  show ?thesis
  proof (cases q)
    case (InsertAllocation pid a)
    obtain s' i F' where "allocations_insert s pid a = Some s'" "alloc_inv s' ((pid, i) # es) [] F'"
      "log_of (pl_nodes s') ((pid, i) # es) = (pid, a) # log_of (pl_nodes s) es" "length (pl_nodes s') = max (length (pl_nodes s)) (length es + 1)"
      by (rule insert_inv [OF inv small])
    then show ?thesis using InsertAllocation by (intro exI [of _ "[]"] exI [of _ s'] exI [of _ "(pid, i) # es"] exI [of _ F']) simp
  next
    case (TakeAllocation pid va pages)
    obtain r log' where lt: "log_take pid va pages (log_of (pl_nodes s) es) = (r, log')" by force
    obtain s' es' F' where t: "allocations_take s pid va pages = Some (map_option (\<lambda>a. (a, log_users log' (range_key a) = 0)) r, s')"
      "alloc_inv s' es' [] F'" "log_of (pl_nodes s') es' = log'" "length (pl_nodes s') = length (pl_nodes s)"
      by (rule take_inv [OF inv small lt])
    then show ?thesis using TakeAllocation lt le [OF t(2)] by (cases r) auto
  next
    case (RemoveProcess pid)
    obtain s' F' where "remove_pid s pid = Some (last_uses (log_of_pid (log_of (pl_nodes s) es) pid) (filter (\<lambda>e. fst e \<noteq> pid) (log_of (pl_nodes s) es)), s')"
      "alloc_inv s' (filter (\<lambda>e. fst e \<noteq> pid) es) [] F'"
      "log_of (pl_nodes s') (filter (\<lambda>e. fst e \<noteq> pid) es) = filter (\<lambda>e. fst e \<noteq> pid) (log_of (pl_nodes s) es)"
      "length (pl_nodes s') = length (pl_nodes s)"
      by (rule remove_pid_inv [OF inv small])
    moreover from this le have "length (filter (\<lambda>e. fst e \<noteq> pid) es) \<le> length (pl_nodes s)" by metis
    ultimately show ?thesis using RemoveProcess
      by (intro exI [of _ "last_uses (log_of_pid (log_of (pl_nodes s) es) pid) (filter (\<lambda>e. fst e \<noteq> pid) (log_of (pl_nodes s) es))"]
        exI [of _ s'] exI [of _ "filter (\<lambda>e. fst e \<noteq> pid) es"] exI [of _ F']) (simp add: Let_def)
  qed
qed

lemma log_step_length: "log_step q log = (r, log') \<Longrightarrow> length log' \<le> length log + 1"
proof (cases q)
  case (TakeAllocation pid va pages)
  have "length (snd (log_take pid va pages log)) \<le> length log" by (induction log) (auto split: prod.splits)
  then show "log_step q log = (r, log') \<Longrightarrow> length log' \<le> length log + 1" using TakeAllocation by (auto split: prod.splits option.splits)
qed (auto simp: Let_def intro: le_SucI length_filter_le)

lemma allocation_run_inv:
  assumes "alloc_inv s es [] F" and "length (pl_nodes s) + length qs < 2 ^ 60"
  shows "\<exists>rs s' es' F'. allocation_run qs s = Some (rs, s') \<and>
    log_run qs (log_of (pl_nodes s) es) (length (pl_nodes s)) = (rs, log_of (pl_nodes s') es', length (pl_nodes s')) \<and> alloc_inv s' es' [] F'"
  using assms
proof (induction qs arbitrary: s es F)
  case (Cons q qs)
  obtain r s1 es1 F1 where 1: "allocation_step q s = Some (r, s1)" "log_step q (log_of (pl_nodes s) es) = (r, log_of (pl_nodes s1) es1)"
    "alloc_inv s1 es1 [] F1" "length (pl_nodes s1) = max (length (pl_nodes s)) (length es1)"
    using allocation_step_inv [OF Cons.prems(1), of q] Cons.prems(2) by fastforce
  have len: "length (log_of ns es) = length es" for ns es by (simp add: log_of_def)
  have "length es \<le> length (pl_nodes s)" using alloc_invD(4) [OF Cons.prems(1)] by simp
  then have "length (pl_nodes s1) + length qs < 2 ^ 60"
    using log_step_length [OF 1(2)] 1(4) Cons.prems(2) by (auto simp: len)
  then obtain rs s' es' F' where "allocation_run qs s1 = Some (rs, s')" "alloc_inv s' es' [] F'"
    "log_run qs (log_of (pl_nodes s1) es1) (length (pl_nodes s1)) = (rs, log_of (pl_nodes s') es', length (pl_nodes s'))"
    using Cons.IH [OF 1(3)] by blast
  then show ?case using 1(1,2) by (intro exI [of _ "r # rs"] exI [of _ s'] exI [of _ es'] exI [of _ F']) (simp add: len 1(4))
qed auto

lemma allocations_new_inv: "alloc_inv allocations_new [] [] []"
  using index.new_stands [of hash_pid] index.new_stands [of hash_range]
  by (auto simp: alloc_inv_def allocations_new_def nodes_of_def users_def some_count_def)

lemma queries_inv:
  assumes "alloc_inv s es [] F"
  shows "for_pid s pid = Some (log_of_pid (log_of (pl_nodes s) es) pid)"
    and "reference_count s a = Some (log_users (log_of (pl_nodes s) es) (range_key a))"
    and "allocations_find s pid va pages = Some (fst (log_take pid va pages (log_of (pl_nodes s) es)))"
proof -
  obtain bp where bp: "index_rep hash_pid (pl_by_pid s) bp" "\<And>p. chain (pl_nodes s) (bp p) (nodes_of p es)" using alloc_invD(6) [OF assms] by blast
  have "map (\<lambda>i. al_allocation (pl_nodes s ! i)) (nodes_of pid es) = log_of_pid (log_of (pl_nodes s) es) pid"
    unfolding log_of_def log_of_pid_def nodes_of_def by (induction es) auto
  then show 1: "for_pid s pid = Some (log_of_pid (log_of (pl_nodes s) es) pid)"
    using index.get_stands [OF bp(1), of pid] chain_allocations_rep [OF bp(2) [of pid]] by (simp add: for_pid_def)
  show "reference_count s a = Some (log_users (log_of (pl_nodes s) es) (range_key a))"
    using index.get_stands [OF alloc_invD(5) [OF assms], of "range_key a"] by (simp add: reference_count_def some_count_def users_log)
  have "List.find (\<lambda>a. pa_base_va a = va \<and> pa_page_count a = pages) (log_of_pid log pid) = fst (log_take pid va pages log)" for log
    by (induction log) (auto simp: log_of_pid_def matches_def split: prod.splits)
  then show "allocations_find s pid va pages = Some (fst (log_take pid va pages (log_of (pl_nodes s) es)))"
    using 1 by (simp add: allocations_find_def)
qed

text \<open>
  C33: The physical allocation table behaves like one list of (process, allocation) pairs, whatever its hash
  tables and free list do. Starting empty, any sequence of fewer than 2^60 insertions, removals of one
  allocation and removals of a process returns without a panic and gives the same answers as the list:
  taking an allocation and removing a process report each allocation together with whether it was the last
  use of its physical range. Afterwards \<open>for_pid\<close> lists the process's allocations newest first, \<open>count\<close> is the
  number of users of a range over all processes, \<open>find\<close> returns the newest match, and the vector holds exactly
  as many nodes as there ever were allocations at once, so recycled nodes are always reused.
\<close>

theorem allocations_refine_log:
  assumes "length qs < 2 ^ 60"
  shows "\<exists>rs s log peak. allocation_run qs allocations_new = Some (rs, s) \<and> log_run qs [] 0 = (rs, log, peak) \<and>
    length (pl_nodes s) = peak \<and> (\<forall>pid. for_pid s pid = Some (log_of_pid log pid)) \<and>
    (\<forall>a. reference_count s a = Some (log_users log (range_key a))) \<and>
    (\<forall>pid va pages. allocations_find s pid va pages = Some (fst (log_take pid va pages log)))"
proof -
  obtain rs s es F where "allocation_run qs allocations_new = Some (rs, s)" "alloc_inv s es [] F"
    "log_run qs (log_of (pl_nodes allocations_new) []) (length (pl_nodes allocations_new)) = (rs, log_of (pl_nodes s) es, length (pl_nodes s))"
    using allocation_run_inv [OF allocations_new_inv, of qs] assms by (auto simp: allocations_new_def)
  then show ?thesis using queries_inv
    by (intro exI [of _ rs] exI [of _ s] exI [of _ "log_of (pl_nodes s) es"] exI [of _ "length (pl_nodes s)"]) (simp add: allocations_new_def log_of_def)
qed

theorem allocations_refine_log_witness:
  "\<exists>a b s. a = \<lparr>pa_base_va = 4096, pa_start_slot = 1, pa_base_page = 7, pa_page_count = 2\<rparr> \<and>
    b = \<lparr>pa_base_va = 8192, pa_start_slot = 3, pa_base_page = 7, pa_page_count = 2\<rparr> \<and>
    allocation_run [InsertAllocation 1 a, InsertAllocation 2 b, TakeAllocation 1 4096 2, InsertAllocation 3 a,
      RemoveProcess 2, RemoveProcess 3] allocations_new
      = Some ([[], [], [(a, False)], [], [(b, False)], [(a, True)]], s) \<and>
    length (pl_nodes s) = 2 \<and> for_pid s 3 = Some []"
proof -
  let ?a = "\<lparr>pa_base_va = 4096, pa_start_slot = 1, pa_base_page = 7, pa_page_count = 2\<rparr>"
  let ?b = "\<lparr>pa_base_va = 8192, pa_start_slot = 3, pa_base_page = 7, pa_page_count = 2\<rparr>"
  let ?qs = "[InsertAllocation 1 ?a, InsertAllocation 2 ?b, TakeAllocation 1 4096 2, InsertAllocation 3 ?a, RemoveProcess 2, RemoveProcess 3]"
  have 1: "log_run ?qs [] 0 = ([[], [], [(?a, False)], [], [(?b, False)], [(?a, True)]], [], 2)"
    by (simp add: matches_def log_users_def range_key_def log_of_pid_def Let_def) auto
  have small: "length ?qs < 2 ^ 60" by simp
  obtain rs s log peak where 2: "allocation_run ?qs allocations_new = Some (rs, s)" "log_run ?qs [] 0 = (rs, log, peak)"
    "length (pl_nodes s) = peak" "for_pid s 3 = Some (log_of_pid log 3)"
    using allocations_refine_log [of ?qs, OF small] by blast
  have 3: "rs = [[], [], [(?a, False)], [], [(?b, False)], [(?a, True)]]" "log = []" "peak = 2"
    using 2(2) unfolding 1 by (simp_all only: prod.inject)
  show ?thesis
    using 2(1,3,4) unfolding 3 by (intro exI [of _ ?a] exI [of _ ?b] exI [of _ s] conjI refl) (simp_all only: log_of_pid_def filter.simps list.map)
qed

end
