(* ===== verification/Elf_Loader.thy ===== *)
theory Elf_Loader
  imports Nanami_Prelude "HOL-Library.Monad_Syntax"
begin

text \<open>
  The ELF64 parser (\<open>elf_loader.rs\<close>). An image is a list of bytes; offsets and sizes are \<open>usize\<close> values as
  natural numbers with the wrap-around of unchecked arithmetic. \<open>None\<close> is a panic (an index or a slice out of
  range), \<open>Some (Inl e)\<close> an error. The second part gives a reference parser that works with lists and
  unbounded numbers and shows that the code computes the same on every image.
\<close>

section \<open>Definitions\<close>

type_synonym byte = "8 word"
type_synonym 'a outcome = "'a cap_result option"

text \<open>The \<open>?\<close> operator.\<close>

fun attempt :: "'a outcome \<Rightarrow> ('a \<Rightarrow> 'b outcome) \<Rightarrow> 'b outcome" where
  "attempt None f = None"
| "attempt (Some (Inl e)) f = Some (Inl e)"
| "attempt (Some (Inr x)) f = f x"

datatype target_arch = X86_64 | AArch64

definition ELF64_HEADER_SIZE :: nat where "ELF64_HEADER_SIZE = 64"
definition ELF64_PHDR_SIZE :: nat where "ELF64_PHDR_SIZE = 56"
definition ELF64_SHDR_SIZE :: nat where "ELF64_SHDR_SIZE = 64"
definition ELF64_SYM_SIZE :: nat where "ELF64_SYM_SIZE = 24"
definition ET_DYN :: nat where "ET_DYN = 3"
definition PT_LOAD :: nat where "PT_LOAD = 1"
definition SHT_SYMTAB :: nat where "SHT_SYMTAB = 2"
definition SHT_DYNSYM :: nat where "SHT_DYNSYM = 11"
definition MAX_LOAD_SEGMENTS :: nat where "MAX_LOAD_SEGMENTS = 16"
definition DYNAMIC_IMAGE_LOAD_BIAS :: nat where "DYNAMIC_IMAGE_LOAD_BIAS = 0x400000"

fun ELF_MACHINE :: "target_arch \<Rightarrow> nat" where
  "ELF_MACHINE X86_64 = 0x3e"
| "ELF_MACHINE AArch64 = 0xb7"

definition IPC_BUFFER_SYMBOL :: "byte list" where
  "IPC_BUFFER_SYMBOL = map (\<lambda>c. of_nat (of_char c)) ''__ipc_buffer_start''"

record load_segment =
  ls_offset :: nat
  ls_virtual_address :: nat
  ls_file_size :: nat
  ls_memory_size :: nat

record elf_image =
  ei_entry_point :: nat
  ei_segments :: "load_segment list"
  ei_segment_count :: nat
  ei_ipc_buffer_start :: "nat option"

definition no_segment :: load_segment where
  "no_segment = \<lparr>ls_offset = 0, ls_virtual_address = 0, ls_file_size = 0, ls_memory_size = 0\<rparr>"

definition elf_image_empty :: elf_image where
  "elf_image_empty = \<lparr>ei_entry_point = 0, ei_segments = replicate MAX_LOAD_SEGMENTS no_segment,
     ei_segment_count = 0, ei_ipc_buffer_start = None\<rparr>"

definition byte_at :: "byte list \<Rightarrow> nat \<Rightarrow> byte option" where
  "byte_at data i = (if i < length data then Some (data ! i) else None)"

definition slice :: "'a list \<Rightarrow> nat \<Rightarrow> nat \<Rightarrow> 'a list option" where
  "slice data from to = (if from \<le> to \<and> to \<le> length data then Some (take (to - from) (drop from data)) else None)"

fun from_le_bytes :: "byte list \<Rightarrow> nat" where
  "from_le_bytes [] = 0"
| "from_le_bytes (b # bs) = unat b + 256 * from_le_bytes bs"

definition past_end :: "nat option \<Rightarrow> nat \<Rightarrow> bool" where
  "past_end end len = (case end of None \<Rightarrow> True | Some e \<Rightarrow> e > len)"

definition ok_or :: "'a option \<Rightarrow> capability_error \<Rightarrow> 'a outcome" where
  "ok_or r e = Some (case r of Some x \<Rightarrow> Inr x | None \<Rightarrow> Inl e)"

definition read_u16 :: "byte list \<Rightarrow> nat \<Rightarrow> nat outcome" where
  "read_u16 data offset =
     (if past_end (checked_add offset 2) (length data) then Some (Inl InvalidArgument)
      else do {
        b0 \<leftarrow> byte_at data offset;
        b1 \<leftarrow> byte_at data (wrapping_add offset 1);
        Some (Inr (from_le_bytes [b0, b1]))})"

definition read_u32 :: "byte list \<Rightarrow> nat \<Rightarrow> nat outcome" where
  "read_u32 data offset =
     (if past_end (checked_add offset 4) (length data) then Some (Inl InvalidArgument)
      else do {
        b0 \<leftarrow> byte_at data offset;
        b1 \<leftarrow> byte_at data (wrapping_add offset 1);
        b2 \<leftarrow> byte_at data (wrapping_add offset 2);
        b3 \<leftarrow> byte_at data (wrapping_add offset 3);
        Some (Inr (from_le_bytes [b0, b1, b2, b3]))})"

definition read_u64 :: "byte list \<Rightarrow> nat \<Rightarrow> nat outcome" where
  "read_u64 data offset =
     (if past_end (checked_add offset 8) (length data) then Some (Inl InvalidArgument)
      else do {
        b0 \<leftarrow> byte_at data offset;
        b1 \<leftarrow> byte_at data (wrapping_add offset 1);
        b2 \<leftarrow> byte_at data (wrapping_add offset 2);
        b3 \<leftarrow> byte_at data (wrapping_add offset 3);
        b4 \<leftarrow> byte_at data (wrapping_add offset 4);
        b5 \<leftarrow> byte_at data (wrapping_add offset 5);
        b6 \<leftarrow> byte_at data (wrapping_add offset 6);
        b7 \<leftarrow> byte_at data (wrapping_add offset 7);
        Some (Inr (from_le_bytes [b0, b1, b2, b3, b4, b5, b6, b7]))})"

definition checked_table :: "nat \<Rightarrow> nat \<Rightarrow> nat \<Rightarrow> nat \<Rightarrow> unit outcome" where
  "checked_table offset cnt stride len =
     attempt (ok_or (Option.bind (checked_mul cnt stride) (checked_add offset)) InvalidArgument) (\<lambda>end.
     if end > len then Some (Inl InvalidArgument) else Some (Inr ()))"

function read_cstr_from :: "byte list \<Rightarrow> nat \<Rightarrow> byte list" where
  "read_cstr_from data i =
     (if i < length data then if data ! i = 0 then take i data else read_cstr_from data (i + 1) else data)"
  by auto
termination by (relation "measure (\<lambda>(data, i). length data - i)") auto

definition read_cstr :: "byte list \<Rightarrow> byte list" where
  "read_cstr data = read_cstr_from data 0"

text \<open>The loop over the symbols of one table.\<close>

function find_in_symbols ::
  "byte list \<Rightarrow> byte list \<Rightarrow> nat \<Rightarrow> nat \<Rightarrow> nat \<Rightarrow> nat \<Rightarrow> nat \<Rightarrow> nat \<Rightarrow> nat option outcome" where
  "find_in_symbols img target_name sym_offset sym_entsize str_offset str_size sym_count i =
     (if i < sym_count then
        let sym_base = wrapping_add sym_offset (wrapping_mul i sym_entsize) in
        if wrapping_add sym_base ELF64_SYM_SIZE > length img then Some (Inl InvalidArgument)
        else attempt (read_u32 img sym_base) (\<lambda>name_offset.
          if name_offset \<ge> str_size
          then find_in_symbols img target_name sym_offset sym_entsize str_offset str_size sym_count (i + 1)
          else do {
            bytes \<leftarrow> slice img (wrapping_add str_offset name_offset) (wrapping_add str_offset str_size);
            if read_cstr bytes = target_name
            then attempt (read_u64 img (wrapping_add sym_base 8)) (\<lambda>val. Some (Inr (Some val)))
            else find_in_symbols img target_name sym_offset sym_entsize str_offset str_size sym_count (i + 1)})
      else Some (Inr None))"
  by auto
termination by (relation "measure (\<lambda>(img, target_name, sym_offset, sym_entsize, str_offset, str_size, sym_count, i). sym_count - i)") auto

text \<open>The loop over the sections.\<close>

function find_in_sections :: "byte list \<Rightarrow> nat \<Rightarrow> nat \<Rightarrow> nat \<Rightarrow> byte list \<Rightarrow> nat \<Rightarrow> nat option outcome" where
  "find_in_sections img shoff shentsize shnum target_name section_index =
     (if section_index < shnum then
        let sh_base = wrapping_add shoff (wrapping_mul section_index shentsize) in
        if wrapping_add sh_base ELF64_SHDR_SIZE > length img then Some (Inl InvalidArgument)
        else attempt (read_u32 img (wrapping_add sh_base 4)) (\<lambda>sh_type.
          if sh_type \<noteq> SHT_SYMTAB \<and> sh_type \<noteq> SHT_DYNSYM
          then find_in_sections img shoff shentsize shnum target_name (section_index + 1)
          else
            attempt (read_u64 img (wrapping_add sh_base 24)) (\<lambda>sym_offset.
            attempt (read_u64 img (wrapping_add sh_base 32)) (\<lambda>sym_size.
            attempt (read_u64 img (wrapping_add sh_base 56)) (\<lambda>sym_entsize.
            attempt (read_u32 img (wrapping_add sh_base 40)) (\<lambda>linked_strtab_index.
            if sym_offset \<ge> length img \<or> past_end (checked_add sym_offset sym_size) (length img) \<or>
               sym_entsize < ELF64_SYM_SIZE \<or> linked_strtab_index \<ge> shnum
            then Some (Inl InvalidArgument)
            else
              let str_sh_base = wrapping_add shoff (wrapping_mul linked_strtab_index shentsize) in
              if wrapping_add str_sh_base ELF64_SHDR_SIZE > length img then Some (Inl InvalidArgument)
              else
                attempt (read_u64 img (wrapping_add str_sh_base 24)) (\<lambda>str_offset.
                attempt (read_u64 img (wrapping_add str_sh_base 32)) (\<lambda>str_size.
                if str_offset \<ge> length img \<or> past_end (checked_add str_offset str_size) (length img)
                then Some (Inl InvalidArgument)
                else
                  attempt (find_in_symbols img target_name sym_offset sym_entsize str_offset str_size
                    (sym_size div sym_entsize) 0) (\<lambda>found.
                  case found of
                    Some val \<Rightarrow> Some (Inr (Some val))
                  | None \<Rightarrow> find_in_sections img shoff shentsize shnum target_name (section_index + 1)))))))))
      else Some (Inr None))"
  by auto
termination by (relation "measure (\<lambda>(img, shoff, shentsize, shnum, target_name, section_index). shnum - section_index)") auto

definition find_symbol_value :: "byte list \<Rightarrow> nat \<Rightarrow> nat \<Rightarrow> nat \<Rightarrow> byte list \<Rightarrow> nat option outcome" where
  "find_symbol_value img shoff shentsize shnum target_name =
     attempt (checked_table shoff shnum shentsize (length img)) (\<lambda>_.
     find_in_sections img shoff shentsize shnum target_name 0)"

text \<open>\<open>.map(|value| value.checked_add(bias).ok_or(..)).transpose()\<close>.\<close>

definition biased :: "nat option \<Rightarrow> nat \<Rightarrow> nat option outcome" where
  "biased found bias =
     (case found of
        None \<Rightarrow> Some (Inr None)
      | Some val \<Rightarrow> attempt (ok_or (checked_add val bias) InvalidArgument) (\<lambda>v. Some (Inr (Some v))))"

definition symbol_value :: "byte list \<Rightarrow> byte list \<Rightarrow> nat option outcome" where
  "symbol_value img name =
     (if length img < ELF64_HEADER_SIZE then Some (Inl InvalidArgument)
      else
        attempt (read_u16 img 16) (\<lambda>elf_type.
        let bias = (if elf_type = ET_DYN then DYNAMIC_IMAGE_LOAD_BIAS else 0) in
        attempt (read_u64 img 40) (\<lambda>offset.
        attempt (read_u16 img 58) (\<lambda>stride.
        attempt (read_u16 img 60) (\<lambda>cnt.
        if stride < ELF64_SHDR_SIZE \<or> cnt = 0 then Some (Inr None)
        else attempt (find_symbol_value img offset stride cnt name) (\<lambda>found. biased found bias))))))"

definition add_segment :: "elf_image \<Rightarrow> load_segment \<Rightarrow> elf_image option" where
  "add_segment out s =
     (if ei_segment_count out < length (ei_segments out)
      then Some (out\<lparr>ei_segments := (ei_segments out)[ei_segment_count out := s], ei_segment_count := ei_segment_count out + 1\<rparr>)
      else None)"

text \<open>The loop over the program headers.\<close>

function load_segments :: "byte list \<Rightarrow> bool \<Rightarrow> nat \<Rightarrow> nat \<Rightarrow> nat \<Rightarrow> nat \<Rightarrow> nat \<Rightarrow> elf_image \<Rightarrow> elf_image outcome" where
  "load_segments img require_full_image load_bias phoff phentsize phnum i out =
     (if i < phnum then
        let base = wrapping_add phoff (wrapping_mul i phentsize) in
        if wrapping_add base ELF64_PHDR_SIZE > length img then Some (Inl InvalidArgument)
        else attempt (read_u32 img base) (\<lambda>p_type.
          if p_type = PT_LOAD then
            if ei_segment_count out \<ge> MAX_LOAD_SEGMENTS then Some (Inl InvalidArgument)
            else
              attempt (read_u64 img (wrapping_add base 8)) (\<lambda>offset.
              attempt (read_u64 img (wrapping_add base 16)) (\<lambda>p_vaddr.
              attempt (ok_or (checked_add p_vaddr load_bias) InvalidArgument) (\<lambda>vaddr.
              attempt (read_u64 img (wrapping_add base 32)) (\<lambda>filesz.
              attempt (read_u64 img (wrapping_add base 40)) (\<lambda>memsz.
              if memsz < filesz then Some (Inl InvalidArgument)
              else
                attempt (ok_or (checked_add vaddr memsz) InvalidArgument) (\<lambda>_.
                attempt (ok_or (checked_add offset filesz) InvalidArgument) (\<lambda>segment_file_end.
                if require_full_image \<and> segment_file_end > length img then Some (Inl InvalidArgument)
                else do {
                  out \<leftarrow> add_segment out
                    \<lparr>ls_offset = offset, ls_virtual_address = vaddr, ls_file_size = filesz, ls_memory_size = memsz\<rparr>;
                  load_segments img require_full_image load_bias phoff phentsize phnum (i + 1) out})))))))
          else load_segments img require_full_image load_bias phoff phentsize phnum (i + 1) out)
      else Some (Inr out))"
  by auto
termination by (relation "measure (\<lambda>(img, require_full_image, load_bias, phoff, phentsize, phnum, i, out). phnum - i)") auto

definition magic_ok :: "byte list \<Rightarrow> bool option" where
  "magic_ok img = do {
     b0 \<leftarrow> byte_at img 0; b1 \<leftarrow> byte_at img 1; b2 \<leftarrow> byte_at img 2; b3 \<leftarrow> byte_at img 3;
     b4 \<leftarrow> byte_at img 4; b5 \<leftarrow> byte_at img 5;
     Some (\<not> (b0 \<noteq> 0x7f \<or> b1 \<noteq> 0x45 \<or> b2 \<noteq> 0x4c \<or> b3 \<noteq> 0x46) \<and> \<not> (b4 \<noteq> 2 \<or> b5 \<noteq> 1))}"

definition parse_elf64_impl :: "target_arch \<Rightarrow> byte list \<Rightarrow> bool \<Rightarrow> elf_image outcome" where
  "parse_elf64_impl arch img require_full_image =
     (if length img < ELF64_HEADER_SIZE then Some (Inl InvalidArgument)
      else do {
        magic \<leftarrow> magic_ok img;
        if \<not> magic then Some (Inl InvalidArgument)
        else
          attempt (read_u16 img 18) (\<lambda>machine.
          if machine \<noteq> ELF_MACHINE arch then Some (Inl InvalidArgument)
          else
            attempt (read_u16 img 16) (\<lambda>elf_type.
            let load_bias = (if elf_type = ET_DYN then DYNAMIC_IMAGE_LOAD_BIAS else 0) in
            attempt (read_u64 img 24) (\<lambda>e_entry.
            attempt (ok_or (checked_add e_entry load_bias) InvalidArgument) (\<lambda>entry.
            attempt (read_u64 img 32) (\<lambda>phoff.
            attempt (read_u64 img 40) (\<lambda>shoff.
            attempt (read_u16 img 54) (\<lambda>phentsize.
            attempt (read_u16 img 56) (\<lambda>phnum.
            attempt (read_u16 img 58) (\<lambda>shentsize.
            attempt (read_u16 img 60) (\<lambda>shnum.
            if phentsize < ELF64_PHDR_SIZE then Some (Inl InvalidArgument)
            else if phoff \<ge> length img then Some (Inl InvalidArgument)
            else
              attempt (checked_table phoff phnum phentsize (length img)) (\<lambda>_.
              attempt (load_segments img require_full_image load_bias phoff phentsize phnum 0
                (elf_image_empty\<lparr>ei_entry_point := entry\<rparr>)) (\<lambda>out.
              if ei_segment_count out = 0 then Some (Inl InvalidArgument)
              else if require_full_image \<and> shoff < length img \<and> shentsize \<ge> ELF64_SHDR_SIZE \<and> shnum > 0 then
                attempt (find_symbol_value img shoff shentsize shnum IPC_BUFFER_SYMBOL) (\<lambda>found.
                attempt (biased found load_bias) (\<lambda>start. Some (Inr (out\<lparr>ei_ipc_buffer_start := start\<rparr>))))
              else Some (Inr out)))))))))))))})"

definition parse_elf64 :: "target_arch \<Rightarrow> byte list \<Rightarrow> elf_image outcome" where
  "parse_elf64 arch img = parse_elf64_impl arch img True"

definition parse_elf64_header :: "target_arch \<Rightarrow> byte list \<Rightarrow> elf_image outcome" where
  "parse_elf64_header arch img = parse_elf64_impl arch img False"

declare read_cstr_from.simps [simp del] find_in_symbols.simps [simp del] find_in_sections.simps [simp del] load_segments.simps [simp del]

section \<open>The reference parser\<close>

text \<open>The little-endian field of \<open>n\<close> bytes at an offset, and the headers as the tails of the image they start.\<close>

definition field :: "nat \<Rightarrow> byte list \<Rightarrow> nat \<Rightarrow> nat" where
  "field n data off = from_le_bytes (take n (drop off data))"

definition headers :: "byte list \<Rightarrow> nat \<Rightarrow> nat \<Rightarrow> nat \<Rightarrow> byte list list" where
  "headers img off stride n = map (\<lambda>i. drop (off + i * stride) img) [0..<n]"

definition header_bias :: "byte list \<Rightarrow> nat" where
  "header_bias img = (if field 2 img 16 = ET_DYN then DYNAMIC_IMAGE_LOAD_BIAS else 0)"

definition elf_header_ok :: "target_arch \<Rightarrow> byte list \<Rightarrow> bool" where
  "elf_header_ok arch img \<longleftrightarrow>
     64 \<le> length img \<and> take 6 img = [0x7f, 0x45, 0x4c, 0x46, 2, 1] \<and> field 2 img 18 = ELF_MACHINE arch \<and>
     field 8 img 24 + header_bias img < 2 ^ 64 \<and> 56 \<le> field 2 img 54 \<and> field 8 img 32 < length img \<and>
     field 8 img 32 + field 2 img 56 * field 2 img 54 \<le> length img"

definition segment_of :: "nat \<Rightarrow> byte list \<Rightarrow> load_segment" where
  "segment_of bias h = \<lparr>ls_offset = field 8 h 8, ls_virtual_address = field 8 h 16 + bias,
     ls_file_size = field 8 h 32, ls_memory_size = field 8 h 40\<rparr>"

definition loadable :: "byte list \<Rightarrow> load_segment list" where
  "loadable img = map (segment_of (header_bias img))
     (filter (\<lambda>h. field 4 h 0 = PT_LOAD) (headers img (field 8 img 32) (field 2 img 54) (field 2 img 56)))"

definition segment_fits :: "bool \<Rightarrow> nat \<Rightarrow> load_segment \<Rightarrow> bool" where
  "segment_fits full len s \<longleftrightarrow> ls_file_size s \<le> ls_memory_size s \<and> ls_virtual_address s + ls_memory_size s < 2 ^ 64 \<and>
     ls_offset s + ls_file_size s < 2 ^ 64 \<and> (full \<longrightarrow> ls_offset s + ls_file_size s \<le> len)"

definition symbol_name :: "byte list \<Rightarrow> byte list \<Rightarrow> nat \<Rightarrow> byte list" where
  "symbol_name img str n = takeWhile (\<lambda>b. b \<noteq> 0) (take (field 8 str 32 - n) (drop (field 8 str 24 + n) img))"

definition table_symbol :: "byte list \<Rightarrow> byte list \<Rightarrow> byte list \<Rightarrow> byte list \<Rightarrow> nat option" where
  "table_symbol img name h str = map_option (\<lambda>s. field 8 s 8)
     (List.find (\<lambda>s. field 4 s 0 < field 8 str 32 \<and> symbol_name img str (field 4 s 0) = name)
       (headers img (field 8 h 24) (field 8 h 56) (field 8 h 32 div field 8 h 56)))"

definition area_ok :: "byte list \<Rightarrow> byte list \<Rightarrow> bool" where
  "area_ok img h \<longleftrightarrow> field 8 h 24 < length img \<and> field 8 h 24 + field 8 h 32 \<le> length img"

definition symtab_ok :: "byte list \<Rightarrow> byte list list \<Rightarrow> byte list \<Rightarrow> bool" where
  "symtab_ok img hs h \<longleftrightarrow> area_ok img h \<and> 24 \<le> field 8 h 56 \<and> field 4 h 40 < length hs \<and> area_ok img (hs ! field 4 h 40)"

fun lookup_sections :: "byte list \<Rightarrow> byte list list \<Rightarrow> byte list \<Rightarrow> byte list list \<Rightarrow> nat option cap_result" where
  "lookup_sections img all name [] = Inr None"
| "lookup_sections img all name (h # hs) =
     (if field 4 h 4 \<noteq> SHT_SYMTAB \<and> field 4 h 4 \<noteq> SHT_DYNSYM then lookup_sections img all name hs
      else if \<not> symtab_ok img all h then Inl InvalidArgument
      else case table_symbol img name h (all ! field 4 h 40) of
          Some v \<Rightarrow> Inr (Some v)
        | None \<Rightarrow> lookup_sections img all name hs)"

definition find_symbol_spec :: "byte list \<Rightarrow> nat \<Rightarrow> nat \<Rightarrow> nat \<Rightarrow> byte list \<Rightarrow> nat option cap_result" where
  "find_symbol_spec img off stride n name =
     (if off + n * stride \<le> length img
      then lookup_sections img (headers img off stride n) name (headers img off stride n) else Inl InvalidArgument)"

fun relocated :: "nat \<Rightarrow> nat option cap_result \<Rightarrow> nat option cap_result" where
  "relocated bias (Inr (Some v)) = (if v + bias < 2 ^ 64 then Inr (Some (v + bias)) else Inl InvalidArgument)"
| "relocated bias r = r"

definition elf_symbol_spec :: "byte list \<Rightarrow> byte list \<Rightarrow> nat option cap_result" where
  "elf_symbol_spec img name =
     (if length img < 64 then Inl InvalidArgument
      else if field 2 img 58 < 64 \<or> field 2 img 60 = 0 then Inr None
      else relocated (header_bias img) (find_symbol_spec img (field 8 img 40) (field 2 img 58) (field 2 img 60) name))"

definition loaded :: "nat \<Rightarrow> load_segment list \<Rightarrow> elf_image" where
  "loaded entry segs = \<lparr>ei_entry_point = entry, ei_segments = segs @ replicate (16 - length segs) no_segment,
     ei_segment_count = length segs, ei_ipc_buffer_start = None\<rparr>"

definition elf_spec :: "target_arch \<Rightarrow> bool \<Rightarrow> byte list \<Rightarrow> elf_image cap_result" where
  "elf_spec arch full img =
     (let segs = loadable img; out = loaded (field 8 img 24 + header_bias img) segs in
      if \<not> elf_header_ok arch img \<or> length segs > 16 \<or> segs = [] \<or> \<not> list_all (segment_fits full (length img)) segs
      then Inl InvalidArgument
      else if full \<and> field 8 img 40 < length img
      then map_sum id (\<lambda>start. out\<lparr>ei_ipc_buffer_start := start\<rparr>) (elf_symbol_spec img IPC_BUFFER_SYMBOL)
      else Inr out)"

section \<open>The code computes the reference\<close>

lemma take_drop_bytes: "off + n \<le> length data \<Longrightarrow> take n (drop off data) = map (\<lambda>k. data ! (off + k)) [0..<n]"
  by (intro nth_equalityI) auto

lemma past_end_eq: "length data < 2 ^ 63 \<Longrightarrow> past_end (checked_add a b) (length data) \<longleftrightarrow> length data < a + b"
  by (auto simp: past_end_def checked_add_def usize_limit_def)

lemma read_u16_eq:
  assumes "length data < 2 ^ 63"
  shows "read_u16 data off = Some (if off + 2 \<le> length data then Inr (field 2 data off) else Inl InvalidArgument)"
proof (cases "off + 2 \<le> length data")
  case True
  then have w: "wrapping_add off k = off + k" if "k < 2" for k using assms that by (intro wrapping_add_small) (simp add: usize_limit_def)
  have "take 2 (drop off data) = [data ! off, data ! (off + 1)]" using True by (simp add: take_drop_bytes upt_rec eval_nat_numeral)
  then show ?thesis using True by (simp add: read_u16_def past_end_eq [OF assms] byte_at_def field_def w)
qed (simp add: read_u16_def past_end_eq [OF assms])

lemma read_u32_eq:
  assumes "length data < 2 ^ 63"
  shows "read_u32 data off = Some (if off + 4 \<le> length data then Inr (field 4 data off) else Inl InvalidArgument)"
proof (cases "off + 4 \<le> length data")
  case True
  then have w: "wrapping_add off k = off + k" if "k < 4" for k using assms that by (intro wrapping_add_small) (simp add: usize_limit_def)
  have "take 4 (drop off data) = [data ! off, data ! (off + 1), data ! (off + 2), data ! (off + 3)]"
    using True by (simp add: take_drop_bytes upt_rec eval_nat_numeral)
  then show ?thesis using True by (simp add: read_u32_def past_end_eq [OF assms] byte_at_def field_def w)
qed (simp add: read_u32_def past_end_eq [OF assms])

lemma read_u64_eq:
  assumes "length data < 2 ^ 63"
  shows "read_u64 data off = Some (if off + 8 \<le> length data then Inr (field 8 data off) else Inl InvalidArgument)"
proof (cases "off + 8 \<le> length data")
  case True
  then have w: "wrapping_add off k = off + k" if "k < 8" for k using assms that by (intro wrapping_add_small) (simp add: usize_limit_def)
  have "take 8 (drop off data) = [data ! off, data ! (off + 1), data ! (off + 2), data ! (off + 3),
      data ! (off + 4), data ! (off + 5), data ! (off + 6), data ! (off + 7)]"
    using True by (simp add: take_drop_bytes upt_rec eval_nat_numeral)
  then show ?thesis using True by (simp add: read_u64_def past_end_eq [OF assms] byte_at_def field_def w)
qed (simp add: read_u64_def past_end_eq [OF assms])

lemmas read_eqs = read_u16_eq read_u32_eq read_u64_eq

lemma field_drop [simp]: "field n (drop b data) k = field n data (b + k)"
  by (simp add: field_def add.commute)

lemma from_le_bytes_bound: "from_le_bytes bs < 256 ^ length bs"
proof (induction bs)
  case (Cons b bs)
  have "unat b < 256" using unsigned_less [of b] by simp
  then show ?case using Cons by simp
qed simp

lemma field_bound: "field n data off < 256 ^ n"
proof -
  have "from_le_bytes (take n (drop off data)) < 256 ^ length (take n (drop off data))" by (rule from_le_bytes_bound)
  also have "\<dots> \<le> 256 ^ n" by (rule power_increasing) auto
  finally show ?thesis by (simp add: field_def)
qed

lemma field_bounds: "field 2 data off < 2 ^ 16" "field 4 data off < 2 ^ 32" "field 8 data off < 2 ^ 64"
  using field_bound [of 2 data off] field_bound [of 4 data off] field_bound [of 8 data off] by simp_all

lemma read_cstr_from_eq: "i \<le> length data \<Longrightarrow> 0 \<notin> set (take i data) \<Longrightarrow> read_cstr_from data i = takeWhile (\<lambda>b. b \<noteq> 0) data"
proof (induction "length data - i" arbitrary: i)
  case 0
  then have "takeWhile (\<lambda>b. b \<noteq> 0) data = data" unfolding takeWhile_eq_all_conv by auto
  moreover have "read_cstr_from data i = data" using 0(1) by (subst read_cstr_from.simps) simp
  ultimately show ?case by (simp only:)
next
  case (Suc n)
  then have i: "i < length data" "n = length data - (i + 1)" by auto
  have tw: "takeWhile (\<lambda>b. b \<noteq> 0) data = take i data @ takeWhile (\<lambda>b. b \<noteq> 0) (drop i data)"
    using Suc.prems(2) takeWhile_append2 [of "take i data" "\<lambda>b. b \<noteq> 0" "drop i data"] by fastforce
  have dr: "drop i data = data ! i # drop (Suc i) data" using i(1) by (rule Cons_nth_drop_Suc [symmetric])
  show ?case
  proof (cases "data ! i = 0")
    case True
    then show ?thesis using i(1) by (subst read_cstr_from.simps) (simp add: tw dr)
  next
    case False
    then have "0 \<notin> set (take (i + 1) data)" using Suc.prems(2) i(1) by (auto simp: take_Suc_conv_app_nth)
    then show ?thesis using Suc.hyps(1) [OF i(2)] i(1) False by (subst read_cstr_from.simps) simp
  qed
qed

lemma read_cstr_eq: "read_cstr data = takeWhile (\<lambda>b. b \<noteq> 0) data"
  unfolding read_cstr_def by (rule read_cstr_from_eq) simp_all

lemma checked_table_eq:
  "length img < 2 ^ 63 \<Longrightarrow> checked_table off n stride (length img) = Some (if off + n * stride \<le> length img then Inr () else Inl InvalidArgument)"
  by (auto simp: checked_table_def ok_or_def checked_mul_def checked_add_def usize_limit_def)

lemma headers_simps:
  "length (headers img off stride n) = n" "k < n \<Longrightarrow> headers img off stride n ! k = drop (off + k * stride) img"
  by (simp_all add: headers_def)

text \<open>An entry of a table that lies in the image lies in it, so no offset into it wraps around.\<close>

lemma table_entry:
  assumes "length img < 2 ^ 63" and "off + n * stride \<le> length img" and "i < n" and "w \<le> stride"
  shows "wrapping_add off (wrapping_mul i stride) = off + i * stride" and "off + i * stride + w \<le> length img"
    and "k \<le> 64 \<Longrightarrow> wrapping_add (off + i * stride) k = off + i * stride + k"
proof -
  have "(i + 1) * stride \<le> n * stride" using assms(3) by (intro mult_le_mono1) simp
  then have le: "off + i * stride + stride \<le> length img" using assms(2) by simp
  then show "off + i * stride + w \<le> length img" using assms(4) by simp
  have "i * stride < usize_limit" "off + i * stride < usize_limit" using le assms(1) by (simp_all add: usize_limit_def)
  then show "wrapping_add off (wrapping_mul i stride) = off + i * stride" by simp
  show "k \<le> 64 \<Longrightarrow> wrapping_add (off + i * stride) k = off + i * stride + k"
    using le assms(1) by (intro wrapping_add_small) (simp add: usize_limit_def)
qed

lemma load_segments_eq:
  assumes img: "length img < 2 ^ 63" "phoff + phnum * phentsize \<le> length img" "56 \<le> phentsize"
  shows "i \<le> phnum \<Longrightarrow> length pre \<le> 16 \<Longrightarrow> load_segments img full bias phoff phentsize phnum i (loaded entry pre) =
    Some (let segs = map (segment_of bias) (filter (\<lambda>h. field 4 h 0 = PT_LOAD) (map (\<lambda>i. drop (phoff + i * phentsize) img) [i..<phnum])) in
      if length (pre @ segs) \<le> 16 \<and> list_all (segment_fits full (length img)) segs then Inr (loaded entry (pre @ segs)) else Inl InvalidArgument)"
proof (induction "phnum - i" arbitrary: i pre)
  case 0
  then show ?case by (subst load_segments.simps) (simp add: Let_def)
next
  case (Suc m)
  then have i: "i < phnum" "m = phnum - (i + 1)" by auto
  let ?b = "phoff + i * phentsize" and ?s = "segment_of bias (drop (phoff + i * phentsize) img)"
  note te = table_entry [OF img(1,2) i(1) img(3)] and rd = read_u32_eq [OF img(1)] read_u64_eq [OF img(1)]
  have rest: "[i..<phnum] = i # [i + 1..<phnum]" using i(1) by (simp add: upt_conv_Cons)
  note IH = Suc.hyps(1) [OF i(2), unfolded Let_def]
  note unfold = load_segments.simps [of img full bias phoff phentsize phnum i]
  show ?case
  proof (cases "field 4 img ?b = PT_LOAD")
    case False
    then show ?thesis using i(1) te(2) IH [of pre] Suc.prems(2) by (simp add: unfold te(1,3) rest rd ELF64_PHDR_SIZE_def Let_def)
  next
    case True
    have add: "add_segment (loaded entry pre) ?s = Some (loaded entry (pre @ [?s]))" if "length pre < 16"
      using that by (auto simp: add_segment_def loaded_def list_update_append Suc_diff_Suc [symmetric])
    have step: "load_segments img full bias phoff phentsize phnum i (loaded entry pre) =
      (if 16 \<le> length pre \<or> \<not> segment_fits full (length img) ?s then Some (Inl InvalidArgument)
       else load_segments img full bias phoff phentsize phnum (i + 1) (loaded entry (pre @ [?s])))"
      using True i(1) te(2) add
      by (auto simp: unfold te(1,3) rd ELF64_PHDR_SIZE_def MAX_LOAD_SEGMENTS_def Let_def ok_or_def checked_add_def usize_limit_def
        segment_fits_def segment_of_def loaded_def)
    show ?thesis using True i(1) IH [of "pre @ [?s]"] Suc.prems(2) by (auto simp: step rest Let_def)
  qed
qed

lemma find_in_symbols_eq:
  assumes img: "length img < 2 ^ 63" "off + n * stride \<le> length img" "24 \<le> stride" and str: "field 8 str 24 + field 8 str 32 \<le> length img"
  shows "i \<le> n \<Longrightarrow> find_in_symbols img name off stride (field 8 str 24) (field 8 str 32) n i =
    Some (Inr (map_option (\<lambda>s. field 8 s 8)
      (List.find (\<lambda>s. field 4 s 0 < field 8 str 32 \<and> symbol_name img str (field 4 s 0) = name) (map (\<lambda>i. drop (off + i * stride) img) [i..<n]))))"
proof (induction "n - i" arbitrary: i)
  case 0
  then show ?case by (subst find_in_symbols.simps) simp
next
  case (Suc m)
  then have i: "i < n" "m = n - (i + 1)" by auto
  let ?b = "off + i * stride" and ?o = "field 8 str 24" and ?l = "field 8 str 32"
  note te = table_entry [OF img(1,2) i(1) img(3)] and rd = read_u32_eq [OF img(1)] read_u64_eq [OF img(1)]
  have rest: "[i..<n] = i # [i + 1..<n]" using i(1) by (simp add: upt_conv_Cons)
  have str_add: "wrapping_add ?o k = ?o + k" if "k \<le> ?l" for k
    using that str img(1) by (intro wrapping_add_small) (simp add: usize_limit_def)
  have sl: "slice img (wrapping_add ?o k) (wrapping_add ?o ?l) = Some (take (?l - k) (drop (?o + k) img))" if "k < ?l" for k
    using that str by (simp add: slice_def str_add)
  show ?case using i(1) te(2) Suc.hyps(1) [OF i(2)] sl
    by (simp add: find_in_symbols.simps [of img name off stride ?o ?l n i] te(1,3) rest rd ELF64_SYM_SIZE_def Let_def read_cstr_eq symbol_name_def not_less)
qed

lemma find_in_sections_eq:
  assumes img: "length img < 2 ^ 63" "off + n * stride \<le> length img" "64 \<le> stride"
  shows "i \<le> n \<Longrightarrow> find_in_sections img off stride n name i =
    Some (lookup_sections img (headers img off stride n) name (map (\<lambda>i. drop (off + i * stride) img) [i..<n]))"
proof (induction "n - i" arbitrary: i)
  case 0
  then show ?case by (subst find_in_sections.simps) simp
next
  case (Suc m)
  then have i: "i < n" "m = n - (i + 1)" by auto
  let ?h = "drop (off + i * stride) img" and ?hs = "headers img off stride n"
  let ?k = "field 4 ?h 40"
  note te = table_entry [OF img(1,2) i(1) img(3)] and rd = read_u32_eq [OF img(1)] read_u64_eq [OF img(1)] and pe = past_end_eq [OF img(1)]
  have rest: "[i..<n] = i # [i + 1..<n]" using i(1) by (simp add: upt_conv_Cons)
  note IH = Suc.hyps(1) [OF i(2)] and unfold = find_in_sections.simps [of img off stride n name i]
  show ?case
  proof (cases "field 8 ?h 24 < length img \<and> field 8 ?h 24 + field 8 ?h 32 \<le> length img \<and> 24 \<le> field 8 ?h 56 \<and> ?k < n")
    case False
    then show ?thesis using i(1) te(2) IH
      by (auto simp: unfold te(1,3) rest rd pe ELF64_SHDR_SIZE_def ELF64_SYM_SIZE_def Let_def symtab_ok_def area_ok_def headers_simps)
  next
    case True
    let ?str = "drop (off + ?k * stride) img"
    note tk = table_entry [OF img(1,2), of ?k, OF _ img(3)]
    have syms: "field 8 ?h 24 + field 8 ?h 32 div field 8 ?h 56 * field 8 ?h 56 \<le> length img"
      by (rule order.trans [OF add_left_mono [OF div_times_less_eq_dividend]]) (use True in simp)
    have sym: "find_in_symbols img name (field 8 ?h 24) (field 8 ?h 56) (field 8 ?str 24) (field 8 ?str 32) (field 8 ?h 32 div field 8 ?h 56) 0 =
        Some (Inr (table_symbol img name ?h ?str))" if "area_ok img ?str"
      using find_in_symbols_eq [OF img(1) syms, of ?str 0 name] that True by (simp add: table_symbol_def headers_def area_ok_def)
    show ?thesis using i(1) te(2) IH True tk sym
      by (auto simp: unfold te(1,3) rest rd pe ELF64_SHDR_SIZE_def ELF64_SYM_SIZE_def Let_def symtab_ok_def area_ok_def headers_simps split: option.splits)
  qed
qed

lemma find_symbol_value_eq:
  "length img < 2 ^ 63 \<Longrightarrow> 64 \<le> stride \<Longrightarrow> find_symbol_value img off stride n name = Some (find_symbol_spec img off stride n name)"
  using find_in_sections_eq [of img off n stride 0 name]
  by (auto simp: find_symbol_value_def find_symbol_spec_def checked_table_eq headers_def)

lemma biased_eq: "attempt (Some r) (\<lambda>found. biased found bias) = Some (relocated bias r)"
  by (cases "(bias, r)" rule: relocated.cases) (auto simp: biased_def ok_or_def checked_add_def usize_limit_def)

lemma symbol_value_eq: "length img < 2 ^ 63 \<Longrightarrow> symbol_value img name = Some (elf_symbol_spec img name)"
  by (simp add: symbol_value_def elf_symbol_spec_def read_eqs ELF64_HEADER_SIZE_def ELF64_SHDR_SIZE_def header_bias_def Let_def
    find_symbol_value_eq biased_eq not_less)

lemma magic_ok_eq: "64 \<le> length img \<Longrightarrow> magic_ok img = Some (take 6 img = [0x7f, 0x45, 0x4c, 0x46, 2, 1])"
  using take_drop_bytes [of 0 6 img] by (auto simp: magic_ok_def byte_at_def upt_rec eval_nat_numeral)

lemma attempt_map: "attempt (Some r) (\<lambda>x. Some (Inr (f x))) = Some (map_sum id f r)"
  by (cases r) simp_all

lemma attempt_assoc: "attempt m (\<lambda>x. attempt (f x) g) = attempt (attempt m f) g"
  by (cases "(m, f)" rule: attempt.cases) simp_all

lemma ipc_buffer_eq:
  fixes out :: elf_image
  assumes "length img < 2 ^ 63" and "64 \<le> length img" and "64 \<le> field 2 img 58" and "0 < field 2 img 60"
  shows "attempt (find_symbol_value img (field 8 img 40) (field 2 img 58) (field 2 img 60) IPC_BUFFER_SYMBOL) (\<lambda>found.
      attempt (biased found (header_bias img)) (\<lambda>start. Some (Inr (out\<lparr>ei_ipc_buffer_start := start\<rparr>)))) =
      Some (map_sum id (\<lambda>start. out\<lparr>ei_ipc_buffer_start := start\<rparr>) (elf_symbol_spec img IPC_BUFFER_SYMBOL))"
  using assms(2-4) by (simp add: attempt_assoc find_symbol_value_eq [OF assms(1,3)] biased_eq attempt_map elf_symbol_spec_def)

lemma parse_elf64_impl_eq:
  assumes "length img < 2 ^ 63"
  shows "parse_elf64_impl arch img full = Some (elf_spec arch full img)"
proof (cases "64 \<le> length img")
  case len: True
  note rd = read_u16_eq [OF assms] read_u64_eq [OF assms]
  let ?segs = "loadable img" and ?entry = "field 8 img 24 + header_bias img"
  have segs: "load_segments img full (header_bias img) (field 8 img 32) (field 2 img 54) (field 2 img 56) 0 (loaded ?entry []) =
      Some (if length ?segs \<le> 16 \<and> list_all (segment_fits full (length img)) ?segs then Inr (loaded ?entry ?segs) else Inl InvalidArgument)"
    if "elf_header_ok arch img"
    using load_segments_eq [OF assms, of "field 8 img 32" "field 2 img 56" "field 2 img 54" 0 "[]" full "header_bias img" ?entry] that
    by (simp add: elf_header_ok_def loadable_def headers_def Let_def)
  have empty: "elf_image_empty\<lparr>ei_entry_point := e\<rparr> = loaded e []" for e
    by (simp add: elf_image_empty_def loaded_def MAX_LOAD_SEGMENTS_def)
  have none: "(loaded e ss)\<lparr>ei_ipc_buffer_start := None\<rparr> = loaded e ss" and cnt: "ei_segment_count (loaded e ss) = length ss" for e ss
    by (simp_all add: loaded_def)
  define tail where "tail = (\<lambda>out :: elf_image.
    if ei_segment_count out = 0 then Some (Inl InvalidArgument)
    else if full \<and> field 8 img 40 < length img \<and> field 2 img 58 \<ge> ELF64_SHDR_SIZE \<and> field 2 img 60 > 0 then
      attempt (find_symbol_value img (field 8 img 40) (field 2 img 58) (field 2 img 60) IPC_BUFFER_SYMBOL) (\<lambda>found.
      attempt (biased found (header_bias img)) (\<lambda>start. Some (Inr (out\<lparr>ei_ipc_buffer_start := start\<rparr>))))
    else Some (Inr out))"
  have tail: "tail out = (if ei_segment_count out = 0 then Some (Inl InvalidArgument)
      else if full \<and> field 8 img 40 < length img \<and> 64 \<le> field 2 img 58 \<and> 0 < field 2 img 60
      then Some (map_sum id (\<lambda>start. out\<lparr>ei_ipc_buffer_start := start\<rparr>) (elf_symbol_spec img IPC_BUFFER_SYMBOL))
      else Some (Inr out))" for out
    using ipc_buffer_eq [OF assms len] by (simp add: tail_def ELF64_SHDR_SIZE_def)
  have "parse_elf64_impl arch img full =
      (if take 6 img \<noteq> [0x7f, 0x45, 0x4c, 0x46, 2, 1] then Some (Inl InvalidArgument)
       else if field 2 img 18 \<noteq> ELF_MACHINE arch then Some (Inl InvalidArgument)
       else attempt (ok_or (checked_add (field 8 img 24) (header_bias img)) InvalidArgument) (\<lambda>entry.
         if field 2 img 54 < 56 then Some (Inl InvalidArgument)
         else if length img \<le> field 8 img 32 then Some (Inl InvalidArgument)
         else if field 8 img 32 + field 2 img 56 * field 2 img 54 \<le> length img
         then attempt (load_segments img full (header_bias img) (field 8 img 32) (field 2 img 54) (field 2 img 56) 0 (loaded entry [])) tail
         else Some (Inl InvalidArgument)))"
    using len unfolding parse_elf64_impl_def Let_def tail_def header_bias_def
    by (simp add: rd magic_ok_eq checked_table_eq [OF assms] empty ELF64_HEADER_SIZE_def ELF64_PHDR_SIZE_def if_distrib [of "\<lambda>r. attempt (Some r) f" for f]
      cong: if_cong split del: if_split)
  also have "\<dots> = (if elf_header_ok arch img then attempt (load_segments img full (header_bias img) (field 8 img 32) (field 2 img 54)
      (field 2 img 56) 0 (loaded ?entry [])) tail else Some (Inl InvalidArgument))"
    using len by (auto simp: elf_header_ok_def ok_or_def checked_add_def usize_limit_def)
  finally show ?thesis using segs len by (auto simp: elf_spec_def Let_def cnt none elf_symbol_spec_def not_less tail)
next
  case False
  then show ?thesis by (simp add: parse_elf64_impl_def elf_spec_def elf_header_ok_def ELF64_HEADER_SIZE_def Let_def)
qed

section \<open>Properties\<close>

text \<open>
  C34: On every byte string (a slice never exceeds 2^63 - 1 bytes) the ELF parser and the symbol lookup return,
  without a panic and without arithmetic that wraps around, exactly what the reference parser computes with
  lists and unbounded numbers: the load segments are the relocated PT_LOAD headers in file order, at least one
  and at most 16, and the IPC buffer symbol comes from the first symbol table that names it, unless a malformed
  table precedes it. Every other input is refused with \<open>InvalidArgument\<close>.
\<close>

theorem elf_parser_equals_reference:
  assumes "length img < 2 ^ 63"
  shows "parse_elf64 arch img = Some (elf_spec arch True img) \<and> parse_elf64_header arch img = Some (elf_spec arch False img) \<and>
    symbol_value img name = Some (elf_symbol_spec img name)"
  using assms by (simp add: parse_elf64_def parse_elf64_header_def parse_elf64_impl_eq symbol_value_eq)

text \<open>A position independent image of 120 bytes with one segment and no section headers.\<close>

definition sample_image :: "byte list" where
  "sample_image =
     [127, 69, 76, 70, 2, 1, 1, 0, 0, 0, 0, 0, 0, 0, 0, 0, 3, 0, 62, 0, 1, 0, 0, 0, 0, 16, 0, 0, 0, 0,
      0, 0, 64, 0, 0, 0, 0, 0, 0, 0, 0, 0, 0, 0, 0, 0, 0, 0, 0, 0, 0, 0, 64, 0, 56, 0, 1, 0, 0, 0,
      0, 0, 0, 0, 1, 0, 0, 0, 5, 0, 0, 0, 0, 0, 0, 0, 0, 0, 0, 0, 0, 16, 0, 0, 0, 0, 0, 0, 0, 0,
      0, 0, 0, 0, 0, 0, 120, 0, 0, 0, 0, 0, 0, 0, 0, 32, 0, 0, 0, 0, 0, 0, 0, 0, 0, 0, 0, 0, 0, 0]"

definition sample_segment :: load_segment where
  "sample_segment = \<lparr>ls_offset = 0, ls_virtual_address = 0x401000, ls_file_size = 120, ls_memory_size = 8192\<rparr>"

lemma sample_fields:
  "field 2 sample_image 16 = 3" "field 2 sample_image 18 = 0x3e" "field 8 sample_image 24 = 0x1000" "field 8 sample_image 32 = 64"
  "field 2 sample_image 54 = 56" "field 2 sample_image 56 = 1" "field 2 sample_image 58 = 0" "length sample_image = 120"
  "field 4 sample_image 64 = 1" "field 8 sample_image 72 = 0" "field 8 sample_image 80 = 0x1000"
  "field 8 sample_image 96 = 120" "field 8 sample_image 104 = 8192" "take 6 sample_image = [0x7f, 0x45, 0x4c, 0x46, 2, 1]"
  by (simp_all add: sample_image_def field_def)

lemma sample_spec:
  "elf_spec X86_64 full sample_image = Inr (loaded 0x401000 [sample_segment])" "elf_symbol_spec sample_image name = Inr None"
proof -
  have bias: "header_bias sample_image = 0x400000"
    by (simp add: header_bias_def sample_fields ET_DYN_def DYNAMIC_IMAGE_LOAD_BIAS_def)
  have "loadable sample_image = [sample_segment]"
    by (simp add: loadable_def headers_def sample_fields segment_of_def bias PT_LOAD_def sample_segment_def)
  moreover show sym: "elf_symbol_spec sample_image name = Inr None" for name by (simp add: elf_symbol_spec_def sample_fields)
  ultimately show "elf_spec X86_64 full sample_image = Inr (loaded 0x401000 [sample_segment])"
    by (simp add: elf_spec_def elf_header_ok_def sample_fields bias sym Let_def segment_fits_def sample_segment_def loaded_def)
qed

theorem elf_parser_equals_reference_witness:
  "parse_elf64 X86_64 sample_image = Some (Inr \<lparr>ei_entry_point = 0x401000, ei_segments = sample_segment # replicate 15 no_segment,
     ei_segment_count = 1, ei_ipc_buffer_start = None\<rparr>) \<and> symbol_value sample_image IPC_BUFFER_SYMBOL = Some (Inr None)"
proof -
  have "length sample_image < 2 ^ 63" by (simp add: sample_fields)
  from elf_parser_equals_reference [OF this, of X86_64 IPC_BUFFER_SYMBOL] show ?thesis by (simp add: sample_spec loaded_def)
qed

text \<open>
  C35: What a loader may rely on after a successful parse: between 1 and 16 segments; the bytes of each lie in
  the image; its memory is at least as large as its bytes and ends below 2^64; the unused entries of the
  segment array are empty.
\<close>

theorem parsed_segments_in_image:
  assumes "length img < 2 ^ 63" and "parse_elf64 arch img = Some (Inr out)"
  shows "0 < ei_segment_count out \<and> ei_segment_count out \<le> 16 \<and> length (ei_segments out) = 16 \<and>
    (\<forall>s \<in> set (take (ei_segment_count out) (ei_segments out)). ls_offset s + ls_file_size s \<le> length img \<and>
      ls_file_size s \<le> ls_memory_size s \<and> ls_virtual_address s + ls_memory_size s < 2 ^ 64) \<and>
    set (drop (ei_segment_count out) (ei_segments out)) \<subseteq> {no_segment}"
proof -
  have spec: "elf_spec arch True img = Inr out" using assms by (simp add: parse_elf64_def parse_elf64_impl_eq)
  obtain segs where segs: "length segs \<le> 16" "segs \<noteq> []" "list_all (segment_fits True (length img)) segs"
    "ei_segments out = segs @ replicate (16 - length segs) no_segment" "ei_segment_count out = length segs"
    using spec by (cases "elf_symbol_spec img IPC_BUFFER_SYMBOL") (auto simp: elf_spec_def Let_def loaded_def not_less split: if_splits)
  then show ?thesis by (auto simp: list_all_iff segment_fits_def)
qed

theorem parsed_segments_in_image_witness:
  "\<exists>out. parse_elf64 X86_64 sample_image = Some (Inr out) \<and> ei_segments out ! 0 = sample_segment \<and> ei_segment_count out = 1 \<and>
    ls_offset sample_segment + ls_file_size sample_segment \<le> length sample_image"
proof -
  have "length sample_image < 2 ^ 63" "parse_elf64 X86_64 sample_image = Some (Inr (loaded 0x401000 [sample_segment]))"
    by (simp_all add: parse_elf64_def parse_elf64_impl_eq sample_fields sample_spec)
  from parsed_segments_in_image [OF this] this show ?thesis by (simp add: loaded_def)
qed

text \<open>
  C36: The header parser needs only the front of a file. On a prefix that contains the file header and the
  program headers it gives the same result as on the whole image, and where the full parser accepts the image
  the header parser returns the same entry point and segments, without the IPC buffer symbol.
\<close>

theorem header_parse_of_prefix:
  assumes "length img < 2 ^ 63" and "64 \<le> n" and "field 8 img 32 < n" and "field 8 img 32 + field 2 img 56 * field 2 img 54 \<le> n"
    and "n \<le> length img"
  shows "parse_elf64_header arch (take n img) = parse_elf64_header arch img \<and>
    (\<forall>out. parse_elf64 arch img = Some (Inr out) \<longrightarrow> parse_elf64_header arch (take n img) = Some (Inr (out\<lparr>ei_ipc_buffer_start := None\<rparr>)))"
proof -
  have fld: "field w (take n img) k = field w img k" if "k + w \<le> n" for w k
  proof -
    have "take w (drop k (take n img)) = take w (drop k img)" using that by (simp add: drop_take min_def)
    then show ?thesis by (simp add: field_def)
  qed
  have bias: "header_bias (take n img) = header_bias img" using assms(2) by (simp add: header_bias_def fld)
  have ok: "elf_header_ok arch (take n img) \<longleftrightarrow> elf_header_ok arch img"
    using assms by (simp add: elf_header_ok_def fld bias)
  have seg: "loadable (take n img) = loadable img" if "elf_header_ok arch img"
  proof -
    let ?o = "field 8 img 32" and ?st = "field 2 img 54" and ?m = "field 2 img 56"
    have in_n: "?o + i * ?st + 56 \<le> n" if "i < ?m" for i
      using table_entry(2) [of "take n img" ?o ?m ?st i 56] that assms \<open>elf_header_ok arch img\<close> by (simp add: elf_header_ok_def)
    have "segment_of b (drop (?o + i * ?st) (take n img)) = segment_of b (drop (?o + i * ?st) img) \<and>
        field 4 (drop (?o + i * ?st) (take n img)) 0 = field 4 (drop (?o + i * ?st) img) 0" if "i < ?m" for b i
      using in_n [OF that] by (simp add: segment_of_def fld)
    note agree = this
    have "map (segment_of b) (filter (\<lambda>h. field 4 h 0 = PT_LOAD) (headers (take n img) ?o ?st ?m)) =
        map (segment_of b) (filter (\<lambda>h. field 4 h 0 = PT_LOAD) (headers img ?o ?st ?m))" for b
      unfolding headers_def filter_map o_def map_map
    proof (rule map_cong)
      show "filter (\<lambda>i. field 4 (drop (?o + i * ?st) (take n img)) 0 = PT_LOAD) [0..<?m] = filter (\<lambda>i. field 4 (drop (?o + i * ?st) img) 0 = PT_LOAD) [0..<?m]"
        using agree by (intro filter_cong) simp_all
    qed (use agree in simp)
    then show ?thesis using assms(2) by (simp add: loadable_def bias fld)
  qed
  have "segment_fits False (length (take n img)) = segment_fits False (length img)" by (simp add: segment_fits_def fun_eq_iff)
  then have "elf_spec arch False (take n img) = elf_spec arch False img"
    using assms(2) ok seg by (simp add: elf_spec_def Let_def bias fld del: length_take)
  moreover have "elf_spec arch False img = Inr (out\<lparr>ei_ipc_buffer_start := None\<rparr>)" if "elf_spec arch True img = Inr out" for out
    using that by (cases "elf_symbol_spec img IPC_BUFFER_SYMBOL")
      (auto simp: elf_spec_def Let_def loaded_def segment_fits_def list_all_iff split: if_splits)
  ultimately show ?thesis using assms(1,5) by (simp add: parse_elf64_def parse_elf64_header_def parse_elf64_impl_eq)
qed

theorem header_parse_of_prefix_witness:
  "parse_elf64_header X86_64 (take 120 (sample_image @ [1, 2, 3])) = parse_elf64_header X86_64 (sample_image @ [1, 2, 3])"
proof -
  let ?img = "sample_image @ [1, 2, 3]"
  have "field 8 ?img 32 = 64" "field 2 ?img 56 = 1" "field 2 ?img 54 = 56" "length ?img = 123"
    by (simp_all add: sample_image_def field_def)
  then show ?thesis using header_parse_of_prefix [of ?img 120 X86_64] by simp
qed

end
