(* ===== verification/Cpio.thy ===== *)
theory Cpio
  imports Elf_Loader
begin

text \<open>
  The reader of the initial archive (\<open>cpio.rs\<close>): a walk over the entries of a newc archive that calls a closure
  for each of them, and the lookup of an image by name; and the writer of the build tool (\<open>xtask/src/cpio.rs\<close>). Names
  are UTF-8 byte strings. In the reader \<open>None\<close> is a panic or a walk that does not end. The writer's vector may grow
  without bound.
\<close>

section \<open>Definitions\<close>

definition NEWC_HEADER_SIZE :: nat where "NEWC_HEADER_SIZE = 110"

record cpio_entry =
  ce_name :: "byte list"
  ce_data :: "byte list"

definition ascii :: "string \<Rightarrow> byte list" where
  "ascii s = map (\<lambda>c. of_nat (of_char c)) s"

text \<open>The well-formed byte sequences of \<open>str::from_utf8\<close>.\<close>

definition continuation :: "byte \<Rightarrow> bool" where
  "continuation b \<longleftrightarrow> 0x80 \<le> b \<and> b \<le> 0xBF"

fun utf8_valid :: "byte list \<Rightarrow> bool" where
  "utf8_valid [] = True"
| "utf8_valid (a # bs) =
     (if a < 0x80 then utf8_valid bs
      else case bs of
          [] \<Rightarrow> False
        | b # cs \<Rightarrow>
            if 0xC2 \<le> a \<and> a \<le> 0xDF then continuation b \<and> utf8_valid cs
            else case cs of
                [] \<Rightarrow> False
              | c # ds \<Rightarrow>
                  if a = 0xE0 then 0xA0 \<le> b \<and> b \<le> 0xBF \<and> continuation c \<and> utf8_valid ds
                  else if a = 0xED then 0x80 \<le> b \<and> b \<le> 0x9F \<and> continuation c \<and> utf8_valid ds
                  else if 0xE1 \<le> a \<and> a \<le> 0xEF then continuation b \<and> continuation c \<and> utf8_valid ds
                  else case ds of
                      [] \<Rightarrow> False
                    | d # es \<Rightarrow>
                        if a = 0xF0 then 0x90 \<le> b \<and> b \<le> 0xBF \<and> continuation c \<and> continuation d \<and> utf8_valid es
                        else if a = 0xF4 then 0x80 \<le> b \<and> b \<le> 0x8F \<and> continuation c \<and> continuation d \<and> utf8_valid es
                        else if 0xF1 \<le> a \<and> a \<le> 0xF3 then continuation b \<and> continuation c \<and> continuation d \<and> utf8_valid es
                        else False)"

text \<open>\<open>strip_prefix\<close>, \<open>strip_suffix\<close> and \<open>rsplit(c).next()\<close>.\<close>

definition strip_prefix :: "'a list \<Rightarrow> 'a list \<Rightarrow> 'a list option" where
  "strip_prefix p xs = (if take (length p) xs = p then Some (drop (length p) xs) else None)"

definition strip_suffix :: "'a list \<Rightarrow> 'a list \<Rightarrow> 'a list option" where
  "strip_suffix p xs =
     (if length p \<le> length xs \<and> drop (length xs - length p) xs = p then Some (take (length xs - length p) xs) else None)"

definition last_component :: "'a \<Rightarrow> 'a list \<Rightarrow> 'a list" where
  "last_component c xs = rev (takeWhile (\<lambda>x. x \<noteq> c) (rev xs))"

definition normalize_name :: "byte list \<Rightarrow> byte list" where
  "normalize_name name =
     (case strip_prefix (ascii ''./'') name of
        Some rest \<Rightarrow> rest
      | None \<Rightarrow> (case strip_prefix (ascii ''/'') name of Some rest \<Rightarrow> rest | None \<Rightarrow> name))"

definition image_stem :: "byte list \<Rightarrow> byte list" where
  "image_stem name = (case strip_suffix (ascii ''.elf'') name of Some stem \<Rightarrow> stem | None \<Rightarrow> name)"

definition align4 :: "nat \<Rightarrow> nat" where
  "align4 n = (wrapping_add n 3 AND (usize_limit - 4))"

definition hex_digit :: "byte \<Rightarrow> nat option" where
  "hex_digit c =
     (if 0x30 \<le> c \<and> c \<le> 0x39 then Some (unat (c - 0x30))
      else if 0x61 \<le> c \<and> c \<le> 0x66 then Some (unat (c - 0x61 + 10))
      else if 0x41 \<le> c \<and> c \<le> 0x46 then Some (unat (c - 0x41 + 10))
      else None)"

fun parse_hex_from :: "32 word \<Rightarrow> byte list \<Rightarrow> 32 word cap_result" where
  "parse_hex_from out [] = Inr out"
| "parse_hex_from out (c # cs) =
     (case hex_digit c of
        None \<Rightarrow> Inl InvalidArgument
      | Some d \<Rightarrow> parse_hex_from (push_bit 4 out OR of_nat d) cs)"

definition parse_hex_u32 :: "byte list \<Rightarrow> 32 word cap_result" where
  "parse_hex_u32 digits = parse_hex_from 0 digits"

text \<open>The body of the loop up to the call of the closure: an error, the trailer, or an entry and where the next one is.\<close>

definition read_newc :: "byte list \<Rightarrow> nat \<Rightarrow> (cpio_entry \<times> nat) option outcome" where
  "read_newc archive offset = do {
     header \<leftarrow> slice archive offset (wrapping_add offset NEWC_HEADER_SIZE);
     magic \<leftarrow> slice header 0 6;
     if magic \<noteq> ascii ''070701'' \<and> magic \<noteq> ascii ''070702'' then Some (Inl InvalidArgument)
     else do {
       file_field \<leftarrow> slice header 54 62;
       attempt (Some (parse_hex_u32 file_field)) (\<lambda>file_size. do {
         name_field \<leftarrow> slice header 94 102;
         attempt (Some (parse_hex_u32 name_field)) (\<lambda>name_size.
           if name_size = 0 then Some (Inl InvalidArgument)
           else
             let name_start = wrapping_add offset NEWC_HEADER_SIZE
             in attempt (ok_or (checked_add name_start (unat name_size)) InvalidArgument) (\<lambda>name_end.
               if name_end > length archive then Some (Inl InvalidArgument)
               else do {
                 name \<leftarrow> slice archive name_start (name_end - 1);
                 if \<not> utf8_valid name then Some (Inl InvalidArgument)
                 else
                   let data_start = align4 name_end
                   in attempt (ok_or (checked_add data_start (unat file_size)) InvalidArgument) (\<lambda>data_end.
                     if data_end > length archive then Some (Inl InvalidArgument)
                     else if name = ascii ''TRAILER!!!'' then Some (Inr None)
                     else do {
                       data \<leftarrow> slice archive data_start data_end;
                       Some (Inr (Some (\<lparr>ce_name = name, ce_data = data\<rparr>, align4 data_end)))})}))})}}"

partial_function (option) newc_walk ::
  "byte list \<Rightarrow> (cpio_entry \<Rightarrow> 's \<Rightarrow> unit cap_result \<times> 's) \<Rightarrow> nat \<Rightarrow> 's \<Rightarrow> (unit cap_result \<times> 's) option" where
  "newc_walk archive f offset s =
     (if wrapping_add offset NEWC_HEADER_SIZE \<le> length archive then do {
        r \<leftarrow> read_newc archive offset;
        (case r of
           Inl e \<Rightarrow> Some (Inl e, s)
         | Inr None \<Rightarrow> Some (Inr (), s)
         | Inr (Some (entry, next_offset)) \<Rightarrow>
             (case f entry s of
                (Inl e, s') \<Rightarrow> Some (Inl e, s')
              | (Inr u, s') \<Rightarrow> newc_walk archive f next_offset s'))}
      else Some (Inl InvalidArgument, s))"

definition for_each_newc_entry ::
  "byte list \<Rightarrow> (cpio_entry \<Rightarrow> 's \<Rightarrow> unit cap_result \<times> 's) \<Rightarrow> 's \<Rightarrow> (unit cap_result \<times> 's) option" where
  "for_each_newc_entry archive f s = newc_walk archive f 0 s"

definition image_matches :: "byte list \<Rightarrow> byte list \<Rightarrow> bool" where
  "image_matches requested entry_name =
     (let requested = normalize_name requested;
          name = normalize_name entry_name
      in if 0x2F \<in> set requested then image_stem name = image_stem requested
         else image_stem (last_component 0x2F name) = image_stem requested)"

definition find_image :: "byte list \<Rightarrow> byte list \<Rightarrow> cpio_entry outcome" where
  "find_image archive requested =
     (case for_each_newc_entry archive
         (\<lambda>entry found.
            if image_matches requested (ce_name entry)
            then if found \<noteq> None then (Inl InvalidArgument, found) else (Inr (), Some entry)
            else (Inr (), found)) None of
        None \<Rightarrow> None
      | Some (Inl e, found) \<Rightarrow> Some (Inl e)
      | Some (Inr u, found) \<Rightarrow> ok_or found InvalidArgument)"

text \<open>
  The writer of the archive (\<open>xtask/src/cpio.rs\<close>). A file is its name, its mode and its contents; \<open>hex_field 8\<close> is the
  format \<open>{value:08x}\<close> of a \<open>u32\<close>.
\<close>

type_synonym archive_file = "byte list \<times> 32 word \<times> byte list"

definition hex_char :: "nat \<Rightarrow> byte" where
  "hex_char d = (if d < 10 then of_nat (0x30 + d) else of_nat (0x61 + d - 10))"

fun hex_field :: "nat \<Rightarrow> nat \<Rightarrow> byte list" where
  "hex_field 0 n = []"
| "hex_field (Suc k) n = hex_field k (n div 16) @ [hex_char (n mod 16)]"

definition div_ceil :: "nat \<Rightarrow> nat \<Rightarrow> nat" where
  "div_ceil a b = (if a mod b = 0 then a div b else a div b + 1)"

text \<open>\<open>out.resize(out.len().div_ceil(k) * k, 0)\<close>.\<close>

definition resize_to :: "nat \<Rightarrow> byte list \<Rightarrow> byte list" where
  "resize_to k out = (let len = div_ceil (length out) k * k in take len out @ replicate (len - length out) 0)"

definition newc_entry :: "byte list \<Rightarrow> 32 word \<Rightarrow> byte list \<Rightarrow> 32 word \<Rightarrow> byte list \<Rightarrow> string + byte list" where
  "newc_entry out inode name mode data =
     (if 0 \<notin> set name \<and> length data \<le> 2 ^ 32 - 1 \<and> length name < 2 ^ 32 - 1 then
        let fields = [inode, mode, 0, 0, 1, 0, of_nat (length data), 0, 0, 0, 0, of_nat (length name) + 1, 0];
            out = out @ ascii ''070701'' @ concat (map (\<lambda>f. hex_field 8 (unat f)) fields);
            out = resize_to 4 (out @ name @ [0])
        in Inr (resize_to 4 (out @ data))
      else Inl ''newc entry is invalid or too large'')"

fun archive_entries :: "byte list \<Rightarrow> nat \<Rightarrow> archive_file list \<Rightarrow> string + byte list" where
  "archive_entries bytes i [] = Inr bytes"
| "archive_entries bytes i ((name, mode, data) # entries) =
     (case newc_entry bytes (of_nat i + 1) name mode data of
        Inl e \<Rightarrow> Inl e
      | Inr bytes' \<Rightarrow> archive_entries bytes' (i + 1) entries)"

definition newc_archive :: "archive_file list \<Rightarrow> string + byte list" where
  "newc_archive entries =
     (case archive_entries [] 0 entries of
        Inl e \<Rightarrow> Inl e
      | Inr bytes \<Rightarrow>
          (case newc_entry bytes 0 (ascii ''TRAILER!!!'') 0 [] of
             Inl e \<Rightarrow> Inl e
           | Inr bytes' \<Rightarrow> Inr (resize_to 512 bytes')))"

section \<open>The walk ends\<close>

lemma align4_eq:
  assumes "n + 3 < 2 ^ 64"
  shows "align4 n = (n + 3) div 4 * 4" and "n \<le> align4 n" and "align4 n \<le> n + 3"
proof -
  have "wrapping_add n 3 = n + 3" "usize_limit - 4 = 2 ^ 64 - 2 ^ 2" using assms by (simp_all add: usize_limit_def)
  then show eq: "align4 n = (n + 3) div 4 * 4" using and_high_bits [OF assms, of 2] by (simp add: align4_def)
  show "n \<le> align4 n" "align4 n \<le> n + 3" unfolding eq using div_mult_mod_eq [of "n + 3" 4] mod_less_divisor [of 4 "n + 3"] by linarith+
qed

lemma slice_ok [simp]: "from \<le> to \<Longrightarrow> to \<le> length data \<Longrightarrow> slice data from to = Some (take (to - from) (drop from data))"
  by (simp add: slice_def)

lemma read_newc_returns:
  assumes len: "length archive < 2 ^ 63" and off: "offset \<le> length archive + 3" "wrapping_add offset NEWC_HEADER_SIZE \<le> length archive"
  shows "\<exists>r. read_newc archive offset = Some r \<and>
    (\<forall>e nxt. r = Inr (Some (e, nxt)) \<longrightarrow> offset < nxt \<and> nxt \<le> length archive + 3 \<and> (\<exists>a b. slice archive a b = Some (ce_data e)))"
proof -
  let ?s = "offset + 110"
  have w: "wrapping_add offset NEWC_HEADER_SIZE = ?s" using len off(1) by (simp add: NEWC_HEADER_SIZE_def usize_limit_def)
  then have s: "?s \<le> length archive" using off(2) by simp
  have small: "?s + unat n < 2 ^ 64" for n :: "32 word"
  proof -
    have "unat n < 2 ^ 32" using unsigned_less [of n] by simp
    then show ?thesis using s len by simp
  qed
  obtain header where h: "slice archive offset ?s = Some header" "length header = 110" using s by (simp add: slice_def)
  have sl: "\<exists>x. slice header a b = Some x" if "a \<le> b" "b \<le> 110" for a b using that h(2) by (simp add: slice_def)
  obtain magic ff nf where f: "slice header 0 6 = Some magic" "slice header 54 62 = Some ff" "slice header 94 102 = Some nf"
    using sl [of 0 6] sl [of 54 62] sl [of 94 102] by auto
  show ?thesis
  proof (cases "(magic \<noteq> ascii ''070701'' \<and> magic \<noteq> ascii ''070702'') \<or> (\<exists>e. parse_hex_u32 ff = Inl e) \<or> (\<exists>e. parse_hex_u32 nf = Inl e) \<or> parse_hex_u32 nf = Inr 0")
    case True
    then show ?thesis using h f w by (cases "parse_hex_u32 ff"; cases "parse_hex_u32 nf") (auto simp: read_newc_def)
  next
    case False
    then obtain fs ns where p: "magic = ascii ''070701'' \<or> magic = ascii ''070702''" "parse_hex_u32 ff = Inr fs" "parse_hex_u32 nf = Inr ns" "ns \<noteq> 0"
      by (cases "parse_hex_u32 ff"; cases "parse_hex_u32 nf") auto
    have pos: "0 < unat ns" using p(4) by (simp add: unat_gt_0)
    let ?ne = "?s + unat ns"
    let ?ds = "align4 ?ne"
    show ?thesis
    proof (cases "?ne \<le> length archive \<and> utf8_valid (take (unat ns - 1) (drop ?s archive))")
      case False
      then show ?thesis using h f w p small [of ns] pos by (auto simp: read_newc_def Let_def ok_or_def checked_add_def usize_limit_def)
    next
      case ne: True
      have ds: "?ne \<le> ?ds" "?ds \<le> ?ne + 3" using align4_eq(2,3) [of ?ne] ne len by simp_all
      have "unat fs < 2 ^ 32" using unsigned_less [of fs] by simp
      then have de: "?ds + unat fs < 2 ^ 64" using ds ne len by simp
      show ?thesis
      proof (cases "?ds + unat fs \<le> length archive")
        case True
        have al: "?ds + unat fs \<le> align4 (?ds + unat fs)" "align4 (?ds + unat fs) \<le> ?ds + unat fs + 3" using align4_eq(2,3) [of "?ds + unat fs"] True len by simp_all
        have sd: "slice archive ?ds (?ds + unat fs) = Some (take (unat fs) (drop ?ds archive))" using True by simp
        have "read_newc archive offset = Some (Inr (if take (unat ns - 1) (drop ?s archive) = ascii ''TRAILER!!!'' then None
          else Some (\<lparr>ce_name = take (unat ns - 1) (drop ?s archive), ce_data = take (unat fs) (drop ?ds archive)\<rparr>, align4 (?ds + unat fs))))"
          using h f w p small [of ns] pos ne de True by (auto simp: read_newc_def Let_def ok_or_def checked_add_def usize_limit_def)
        moreover have "offset < align4 (?ds + unat fs)" "align4 (?ds + unat fs) \<le> length archive + 3" using al ds True by linarith+
        ultimately show ?thesis using sd by (simp split: if_split) blast
      next
        case False
        then show ?thesis using h f w p small [of ns] pos ne de by (auto simp: read_newc_def Let_def ok_or_def checked_add_def usize_limit_def)
      qed
    qed
  qed
qed

lemma walk_returns:
  assumes "length archive < 2 ^ 63" and "offset \<le> length archive + 3"
  shows "newc_walk archive f offset s \<noteq> None"
  using assms(2)
proof (induction "length archive + 4 - offset" arbitrary: offset s rule: less_induct)
  case less
  show ?case
  proof (cases "wrapping_add offset NEWC_HEADER_SIZE \<le> length archive")
    case False
    then show ?thesis by (simp add: newc_walk.simps)
  next
    case True
    obtain r where r: "read_newc archive offset = Some r" "\<And>e nxt. r = Inr (Some (e, nxt)) \<Longrightarrow> offset < nxt \<and> nxt \<le> length archive + 3"
      using read_newc_returns [OF assms(1) less.prems True] by blast
    have "newc_walk archive f nxt s' \<noteq> None" if "r = Inr (Some (e, nxt))" for e nxt s'
      using r(2) [OF that] by (intro less.hyps) auto
    then show ?thesis using True r(1) by (subst newc_walk.simps) (auto split: sum.splits option.splits prod.splits)
  qed
qed

lemma find_image_returns: "length archive < 2 ^ 63 \<Longrightarrow> find_image archive requested \<noteq> None"
  using walk_returns [of archive 0] by (simp add: find_image_def for_each_newc_entry_def ok_or_def split: option.splits sum.splits prod.splits)

section \<open>Archives that were written\<close>

lemma ascii_length [simp]: "length (ascii s) = length s"
  by (simp add: ascii_def)

text \<open>What the writer appends for one file when it stands at an aligned offset.\<close>

definition padding :: "nat \<Rightarrow> byte list" where
  "padding n = replicate ((4 - n mod 4) mod 4) 0"

definition newc_header :: "32 word \<Rightarrow> 32 word \<Rightarrow> nat \<Rightarrow> nat \<Rightarrow> byte list" where
  "newc_header inode mode file_size name_size =
     ascii ''070701'' @ concat (map (hex_field 8) [unat inode, unat mode, 0, 0, 1, 0, file_size, 0, 0, 0, 0, name_size, 0])"

definition newc_record :: "32 word \<Rightarrow> 32 word \<Rightarrow> cpio_entry \<Rightarrow> byte list" where
  "newc_record inode mode e =
     newc_header inode mode (length (ce_data e)) (length (ce_name e) + 1) @ ce_name e @ [0] @ padding (110 + length (ce_name e) + 1) @
     ce_data e @ padding (length (ce_data e))"

lemma hex_field_length [simp]: "length (hex_field k n) = k"
  by (induction k arbitrary: n) simp_all

lemma hex_digit_char: "d < 16 \<Longrightarrow> hex_digit (hex_char d) = Some d"
proof -
  have "\<forall>d \<in> set [0..<16]. hex_digit (hex_char d) = Some d" by code_simp
  then show "d < 16 \<Longrightarrow> hex_digit (hex_char d) = Some d" by simp
qed

lemma shift_in_digit:
  assumes "d < 16"
  shows "push_bit 4 (of_nat n :: 32 word) OR of_nat d = of_nat (16 * n + d)"
proof -
  have "(of_nat d :: 32 word) < 2 ^ 4" using assms by (simp add: word_less_nat_alt unat_of_nat)
  then have "i < 4" if "bit (of_nat d :: 32 word) i" for i using that by (rule word_less_exp_bit)
  then have "push_bit 4 (of_nat n :: 32 word) OR of_nat d = push_bit 4 (of_nat n) + of_nat d"
    by (intro disjunctive_add [symmetric]) (auto simp: bit_push_bit_iff not_le [symmetric])
  then show ?thesis by (simp add: push_bit_eq_mult mult.commute)
qed

lemma parse_hex_field: "parse_hex_from (of_nat a) (hex_field k n @ rest) = parse_hex_from (of_nat (a * 16 ^ k + n mod 16 ^ k)) rest"
proof (induction k arbitrary: n rest)
  case (Suc k)
  have "n mod 16 ^ Suc k = 16 * (n div 16 mod 16 ^ k) + n mod 16" by (simp add: mod_mult2_eq)
  moreover have "16 * (a * 16 ^ k + n div 16 mod 16 ^ k) + n mod 16 = a * 16 ^ Suc k + (16 * (n div 16 mod 16 ^ k) + n mod 16)"
    by (simp add: algebra_simps)
  ultimately show ?case using Suc.IH [of "n div 16" "hex_char (n mod 16) # rest"] hex_digit_char [of "n mod 16"]
    by (simp add: shift_in_digit algebra_simps del: of_nat_add of_nat_mult)
qed simp

lemma parse_hex_u32_field: "n < 2 ^ 32 \<Longrightarrow> parse_hex_u32 (hex_field 8 n) = Inr (of_nat n)"
  using parse_hex_field [of 0 8 n "[]"] by (simp add: parse_hex_u32_def)

lemma newc_header_fields:
  "length (newc_header i m f n) = 110" "take 6 (newc_header i m f n) = ascii ''070701''"
  "take 8 (drop 54 (newc_header i m f n)) = hex_field 8 f" "take 8 (drop 94 (newc_header i m f n)) = hex_field 8 n"
  by (simp_all add: newc_header_def ascii_def)

lemma padding_length: "n + length (padding n) = (n + 3) div 4 * 4"
proof -
  obtain q r where n: "n = 4 * q + r" "r < 4" by (metis mult_div_mod_eq mod_less_divisor zero_less_numeral)
  then have m: "n mod 4 = r" by simp
  consider "r = 0" | "r = 1" | "r = 2" | "r = 3" using n(2) by linarith
  then show ?thesis
  proof cases
    case 1
    then show ?thesis unfolding padding_def m by (simp add: n(1))
  next
    case 2
    then show ?thesis unfolding padding_def m by (simp add: n(1))
  next
    case 3
    then have "(n + 3) div 4 = q + 1" using n(1) by linarith
    then show ?thesis unfolding padding_def m using 3 n(1) by simp
  next
    case 4
    then have "(n + 3) div 4 = q + 1" using n(1) by linarith
    then show ?thesis unfolding padding_def m using 4 n(1) by simp
  qed
qed

lemma padded_length: "n + 3 < 2 ^ 64 \<Longrightarrow> align4 n = n + length (padding n)"
  by (simp add: align4_eq(1) padding_length)

definition entry_writable :: "cpio_entry \<Rightarrow> bool" where
  "entry_writable e \<longleftrightarrow> utf8_valid (ce_name e) \<and> length (ce_name e) + 1 < 2 ^ 32 \<and> length (ce_data e) < 2 ^ 32"

text \<open>Reading a record that was written at an aligned offset.\<close>

lemma read_newc_record:
  assumes e: "entry_writable e" and off: "4 dvd length pre" and len: "length (pre @ newc_record i m e @ post) < 2 ^ 63"
  shows "read_newc (pre @ newc_record i m e @ post) (length pre) =
    Some (Inr (if ce_name e = ascii ''TRAILER!!!'' then None else Some (\<lparr>ce_name = ce_name e, ce_data = ce_data e\<rparr>, length pre + length (newc_record i m e))))"
    and "4 dvd length (pre @ newc_record i m e)" and "110 \<le> length (newc_record i m e)"
proof -
  let ?n = "ce_name e" and ?d = "ce_data e" and ?a = "pre @ newc_record i m e @ post"
  let ?h = "newc_header i m (length ?d) (length ?n + 1)" and ?p = "padding (110 + length ?n + 1)" and ?q = "padding (length ?d)"
  have rec: "newc_record i m e = ?h @ ?n @ [0] @ ?p @ ?d @ ?q" by (simp add: newc_record_def)
  obtain k where k: "length pre = 4 * k" using off by (auto elim: dvdE)
  have lp: "110 + length ?n + 1 + length ?p = (110 + length ?n + 1 + 3) div 4 * 4" by (rule padding_length)
  have lq: "length ?d + length ?q = (length ?d + 3) div 4 * 4" by (rule padding_length)
  have lr: "length (newc_record i m e) = 110 + length ?n + 1 + length ?p + (length ?d + length ?q)" by (simp add: rec newc_header_fields)
  show "4 dvd length (pre @ newc_record i m e)" unfolding length_append lr lp lq k by simp
  show "110 \<le> length (newc_record i m e)" using lr by simp
  have shift: "(4 * k + x) div 4 * 4 = 4 * k + x div 4 * 4" for x by simp
  let ?ne = "length pre + 110 + (length ?n + 1)"
  have lim: "?ne + 3 < 2 ^ 64" "?ne + length ?p + length ?d + 3 < 2 ^ 64" using len lr by simp_all
  have "?ne + 3 = 4 * k + (110 + length ?n + 1 + 3)" using k by simp
  with align4_eq(1) [OF lim(1)] have "align4 ?ne = (4 * k + (110 + length ?n + 1 + 3)) div 4 * 4" by (simp only:)
  then have ds: "align4 ?ne = ?ne + length ?p" unfolding shift using lp k by simp
  let ?de = "?ne + length ?p + length ?d"
  obtain j where j: "?ne + length ?p = 4 * j" using ds align4_eq(1) [OF lim(1)] by (metis mult.commute)
  then have "?de + 3 = 4 * j + (length ?d + 3)" by simp
  with align4_eq(1) [OF lim(2)] have "align4 ?de = (4 * j + (length ?d + 3)) div 4 * 4" by (simp only:)
  then have de: "align4 ?de = length pre + length (newc_record i m e)" unfolding shift using lq j lr by simp
  have h: "length ?h = 110" "take 6 ?h = ascii ''070701''" "take 8 (drop 54 ?h) = hex_field 8 (length ?d)" "take 8 (drop 94 ?h) = hex_field 8 (length ?n + 1)"
    by (rule newc_header_fields)+
  have w: "wrapping_add (length pre) NEWC_HEADER_SIZE = length pre + 110" using len lr by (simp add: NEWC_HEADER_SIZE_def usize_limit_def)
  have sl: "slice ?a (length pre) (length pre + 110) = Some ?h" "slice ?h 0 6 = Some (ascii ''070701'')"
    "slice ?h 54 62 = Some (hex_field 8 (length ?d))" "slice ?h 94 102 = Some (hex_field 8 (length ?n + 1))"
    "slice ?a (length pre + 110) (?ne - 1) = Some ?n" "slice ?a (?ne + length ?p) ?de = Some ?d"
    using h by (simp_all add: slice_def rec)
  have hx: "parse_hex_u32 (hex_field 8 (length ?d)) = Inr (of_nat (length ?d))" "parse_hex_u32 (hex_field 8 (length ?n + 1)) = Inr (of_nat (length ?n + 1))"
    by (rule parse_hex_u32_field; use e in \<open>simp add: entry_writable_def\<close>)+
  have un: "unat (of_nat (length ?d) :: 32 word) = length ?d" "unat (of_nat (length ?n + 1) :: 32 word) = length ?n + 1"
    using e by (simp_all add: entry_writable_def unat_of_nat take_bit_nat_eq_self del: of_nat_add of_nat_Suc)
  have nz: "(of_nat (length ?n + 1) :: 32 word) \<noteq> 0" using un(2) by (metis add_is_0 unsigned_0 zero_neq_one)
  have le: "?ne \<le> length ?a" "?de \<le> length ?a" "?ne < usize_limit" "?de < usize_limit" using len lr by (simp_all add: usize_limit_def)
  have u: "utf8_valid ?n" using e by (simp add: entry_writable_def)
  show "read_newc ?a (length pre) =
    Some (Inr (if ?n = ascii ''TRAILER!!!'' then None else Some (\<lparr>ce_name = ?n, ce_data = ?d\<rparr>, length pre + length (newc_record i m e))))"
    unfolding read_newc_def w sl Option.bind.bind_lunit hx attempt.simps Let_def un checked_add_def ok_or_def
    using nz le u sl(5,6) ds de by (simp del: slice_ok length_append)
qed

fun run_entries :: "(cpio_entry \<Rightarrow> 's \<Rightarrow> unit cap_result \<times> 's) \<Rightarrow> cpio_entry list \<Rightarrow> 's \<Rightarrow> unit cap_result \<times> 's" where
  "run_entries f [] s = (Inr (), s)"
| "run_entries f (e # es) s = (case f e s of (Inl x, s') \<Rightarrow> (Inl x, s') | (Inr u, s') \<Rightarrow> run_entries f es s')"

text \<open>The writer appends such records, the trailer and zeros.\<close>

lemma resize_to_4: "resize_to 4 out = out @ padding (length out)"
proof -
  obtain q r where n: "length out = 4 * q + r" "r < 4" by (metis mult_div_mod_eq mod_less_divisor zero_less_numeral)
  then have "r = 0 \<or> r = 1 \<or> r = 2 \<or> r = 3" by linarith
  then show ?thesis using n(1) by (auto simp: resize_to_def div_ceil_def padding_def Let_def)
qed

lemma resize_to_append: "0 < k \<Longrightarrow> \<exists>zeros. resize_to k out = out @ zeros \<and> length zeros < k"
proof -
  assume k: "0 < k"
  have eq: "length out = length out div k * k + length out mod k" by simp
  have "length out \<le> div_ceil (length out) k * k \<and> div_ceil (length out) k * k < length out + k"
  proof (cases "length out mod k = 0")
    case True
    then show ?thesis using eq k by (simp add: div_ceil_def)
  next
    case False
    then have "div_ceil (length out) k * k = length out div k * k + k" by (simp add: div_ceil_def)
    then show ?thesis using eq False mod_less_divisor [OF k, of "length out"] by linarith
  qed
  then show ?thesis by (auto simp: resize_to_def Let_def)
qed

lemma padding_shift: "4 dvd a \<Longrightarrow> padding (a + n) = padding n"
  by (auto simp: padding_def elim: dvdE)

lemma newc_entry_record:
  assumes off: "4 dvd length out" and eq: "newc_entry out i name m data = Inr out'"
  shows "out' = out @ newc_record i m \<lparr>ce_name = name, ce_data = data\<rparr>" and "length name + 1 < 2 ^ 32" and "length data < 2 ^ 32"
proof -
  show n: "length name + 1 < 2 ^ 32" and d: "length data < 2 ^ 32" using eq by (auto simp: newc_entry_def split: if_splits)
  let ?h = "newc_header i m (length data) (length name + 1)" and ?p = "padding (110 + length name + 1)"
  have sn: "of_nat (length name) + 1 = (of_nat (length name + 1) :: 32 word)" by simp
  have un: "unat (of_nat (length data) :: 32 word) = length data" "unat (of_nat (length name) + 1 :: 32 word) = length name + 1"
    using n d by (simp_all add: unat_of_nat take_bit_nat_eq_self sn del: of_nat_add of_nat_Suc)
  have h: "ascii ''070701'' @ concat (map (\<lambda>f. hex_field 8 (unat f)) [i, m, 0, 0, 1, 0, of_nat (length data), 0, 0, 0, 0, of_nat (length name) + 1, 0]) = ?h"
    unfolding newc_header_def by (simp add: un del: hex_field.simps)
  have p: "padding (length (out @ ?h @ name @ [0])) = ?p"
    using padding_shift [OF off, of "110 + length name + 1"] by (simp add: newc_header_fields add.assoc)
  have "4 dvd 110 + length name + 1 + length ?p" unfolding padding_length by simp
  moreover have "length (out @ ?h @ name @ [0] @ ?p) = length out + (110 + length name + 1 + length ?p)" by (simp add: newc_header_fields)
  ultimately have "4 dvd length (out @ ?h @ name @ [0] @ ?p)" using off by (simp only: dvd_add)
  from padding_shift [OF this, of "length data"] have q: "padding (length ((out @ ?h @ name @ [0] @ ?p) @ data)) = padding (length data)"
    by (simp only: length_append)
  have "out' = resize_to 4 (resize_to 4 ((out @ ?h) @ name @ [0]) @ data)"
    using eq unfolding newc_entry_def h Let_def by (simp split: if_splits)
  also have "resize_to 4 ((out @ ?h) @ name @ [0]) = out @ ?h @ name @ [0] @ ?p" unfolding resize_to_4 using p by simp
  finally show "out' = out @ newc_record i m \<lparr>ce_name = name, ce_data = data\<rparr>"
    unfolding resize_to_4 q by (simp add: newc_record_def)
qed

lemma newc_entry_accepts:
  "0 \<notin> set name \<Longrightarrow> length data < 2 ^ 32 \<Longrightarrow> length name + 1 < 2 ^ 32 \<Longrightarrow> \<exists>out'. newc_entry out i name m data = Inr out'"
  by (simp add: newc_entry_def Let_def)

definition entry_of :: "archive_file \<Rightarrow> cpio_entry" where
  "entry_of file = \<lparr>ce_name = fst file, ce_data = snd (snd file)\<rparr>"

fun written :: "nat \<Rightarrow> archive_file list \<Rightarrow> byte list" where
  "written i [] = []"
| "written i (file # files) = newc_record (of_nat i + 1) (fst (snd file)) (entry_of file) @ written (i + 1) files"

lemma record_length: "4 dvd length (newc_record i m e)"
proof -
  have "4 dvd 110 + length (ce_name e) + 1 + length (padding (110 + length (ce_name e) + 1))" "4 dvd length (ce_data e) + length (padding (length (ce_data e)))"
    unfolding padding_length by simp_all
  moreover have "length (newc_record i m e) =
      (110 + length (ce_name e) + 1 + length (padding (110 + length (ce_name e) + 1))) + (length (ce_data e) + length (padding (length (ce_data e))))"
    by (simp add: newc_record_def newc_header_fields)
  ultimately show ?thesis by (simp only: dvd_add)
qed

lemma archive_entries_written:
  "archive_entries out i files = Inr out' \<Longrightarrow> 4 dvd length out \<Longrightarrow>
   out' = out @ written i files \<and> 4 dvd length out' \<and> (\<forall>file \<in> set files. length (fst file) + 1 < 2 ^ 32 \<and> length (snd (snd file)) < 2 ^ 32)"
proof (induction out i files arbitrary: out' rule: archive_entries.induct)
  case (2 out i name mode data files)
  obtain out1 where o: "newc_entry out (of_nat i + 1) name mode data = Inr out1" using 2(2) by (cases "newc_entry out (of_nat i + 1) name mode data") auto
  note r = newc_entry_record [OF 2(3) o]
  have "4 dvd length out1" using r(1) 2(3) record_length by simp
  then show ?case using 2(1) [OF o, of out'] 2(2) o r by (auto simp: entry_of_def)
qed simp

lemma walk_written:
  assumes "\<forall>file \<in> set files. entry_writable (entry_of file)" and "4 dvd length pre"
    and "length (pre @ written i files @ newc_record 0 0 \<lparr>ce_name = ascii ''TRAILER!!!'', ce_data = []\<rparr> @ post) < 2 ^ 63"
  shows "newc_walk (pre @ written i files @ newc_record 0 0 \<lparr>ce_name = ascii ''TRAILER!!!'', ce_data = []\<rparr> @ post) f (length pre) s =
    Some (run_entries f (map entry_of (takeWhile (\<lambda>file. fst file \<noteq> ascii ''TRAILER!!!'') files)) s)"
  using assms
proof (induction files arbitrary: i pre s)
  case Nil
  let ?e = "\<lparr>ce_name = ascii ''TRAILER!!!'', ce_data = []\<rparr>"
  have "utf8_valid (ascii ''TRAILER!!!'')" by code_simp
  then have e: "entry_writable ?e" by (simp add: entry_writable_def)
  have len: "length (pre @ newc_record 0 0 ?e @ post) < 2 ^ 63" using Nil.prems(3) by simp
  note r = read_newc_record [OF e Nil.prems(2) len]
  have "wrapping_add (length pre) NEWC_HEADER_SIZE \<le> length (pre @ newc_record 0 0 ?e @ post)"
    using len r(3) by (simp add: NEWC_HEADER_SIZE_def usize_limit_def)
  then show ?case using r(1) by (subst newc_walk.simps) simp
next
  case (Cons x files)
  let ?e = "entry_of x" and ?t = "\<lparr>ce_name = ascii ''TRAILER!!!'', ce_data = []\<rparr>"
  let ?r = "newc_record (of_nat i + 1) (fst (snd x)) ?e" and ?post = "written (i + 1) files @ newc_record 0 0 ?t @ post"
  have e: "entry_writable ?e" using Cons.prems(1) by simp
  have len: "length (pre @ ?r @ ?post) < 2 ^ 63" using Cons.prems(3) by simp
  note r = read_newc_record [OF e Cons.prems(2) len]
  have w: "wrapping_add (length pre) NEWC_HEADER_SIZE \<le> length (pre @ ?r @ ?post)"
    using len r(3) by (simp add: NEWC_HEADER_SIZE_def usize_limit_def)
  have IH: "newc_walk (pre @ ?r @ ?post) f (length pre + length ?r) s' =
      Some (run_entries f (map entry_of (takeWhile (\<lambda>file. fst file \<noteq> ascii ''TRAILER!!!'') files)) s')" for s'
    using Cons.IH [of "pre @ ?r" "i + 1" s'] Cons.prems(1) r(2) len by simp
  have eq: "pre @ written i (x # files) @ newc_record 0 0 ?t @ post = pre @ ?r @ ?post" by simp
  show ?case
  proof (cases "fst x = ascii ''TRAILER!!!''")
    case True
    then have "read_newc (pre @ ?r @ ?post) (length pre) = Some (Inr None)" using r(1) by (simp add: entry_of_def)
    then show ?thesis unfolding eq using w True by (subst newc_walk.simps) simp
  next
    case False
    then have "read_newc (pre @ ?r @ ?post) (length pre) = Some (Inr (Some (?e, length pre + length ?r)))" using r(1) by (simp add: entry_of_def)
    then show ?thesis unfolding eq
      by (subst newc_walk.simps) (simp only: w if_True Option.bind.bind_lunit sum.case option.case prod.case IH takeWhile.simps False not_False_eq_True list.map run_entries.simps split: prod.split sum.split, simp)
  qed
qed

lemma archive_accepts:
  assumes "\<forall>file \<in> set files. 0 \<notin> set (fst file) \<and> length (fst file) + 1 < 2 ^ 32 \<and> length (snd (snd file)) < 2 ^ 32"
  shows "\<exists>bytes. newc_archive files = Inr bytes"
proof -
  have "\<exists>out'. archive_entries out i files = Inr out'" for out i using assms
  proof (induction files arbitrary: out i)
    case (Cons x files)
    obtain name mode data where x: "x = (name, mode, data)" by (cases x) auto
    obtain out' where "newc_entry out (of_nat i + 1) name mode data = Inr out'"
      using newc_entry_accepts [of name data out "of_nat i + 1" mode] Cons.prems x by auto
    then show ?case using Cons.IH [of out' "i + 1"] Cons.prems x by simp
  qed simp
  then obtain out where "archive_entries [] 0 files = Inr out" by blast
  moreover obtain out' where "newc_entry out 0 (ascii ''TRAILER!!!'') 0 [] = Inr out'"
    using newc_entry_accepts [of "ascii ''TRAILER!!!''" "[]" out 0 0] by (auto simp: ascii_def)
  ultimately show ?thesis by (simp add: newc_archive_def)
qed

lemma archive_shape:
  assumes "newc_archive files = Inr bytes"
  shows "\<exists>zeros. bytes = written 0 files @ newc_record 0 0 \<lparr>ce_name = ascii ''TRAILER!!!'', ce_data = []\<rparr> @ zeros \<and> length zeros < 512"
    and "\<forall>file \<in> set files. length (fst file) + 1 < 2 ^ 32 \<and> length (snd (snd file)) < 2 ^ 32"
proof -
  obtain out out' where o: "archive_entries [] 0 files = Inr out" "newc_entry out 0 (ascii ''TRAILER!!!'') 0 [] = Inr out'" "bytes = resize_to 512 out'"
    using assms by (auto simp: newc_archive_def split: sum.splits)
  note out = archive_entries_written [OF o(1)]
  obtain zeros where "resize_to 512 out' = out' @ zeros" "length zeros < 512" using resize_to_append [of 512 out'] by auto
  then show "\<exists>zeros. bytes = written 0 files @ newc_record 0 0 \<lparr>ce_name = ascii ''TRAILER!!!'', ce_data = []\<rparr> @ zeros \<and> length zeros < 512"
    using o(3) newc_entry_record(1) [OF _ o(2)] out by auto
  show "\<forall>file \<in> set files. length (fst file) + 1 < 2 ^ 32 \<and> length (snd (snd file)) < 2 ^ 32" using out by simp
qed

lemma walk_archive:
  assumes "newc_archive files = Inr bytes" and "\<forall>file \<in> set files. utf8_valid (fst file)" and "length bytes < 2 ^ 63"
  shows "for_each_newc_entry bytes f s = Some (run_entries f (map entry_of (takeWhile (\<lambda>file. fst file \<noteq> ascii ''TRAILER!!!'') files)) s)"
proof -
  obtain zeros where bytes: "bytes = [] @ written 0 files @ newc_record 0 0 \<lparr>ce_name = ascii ''TRAILER!!!'', ce_data = []\<rparr> @ zeros"
    using archive_shape(1) [OF assms(1)] by auto
  have "\<forall>file \<in> set files. entry_writable (entry_of file)"
    using archive_shape(2) [OF assms(1)] assms(2) by (auto simp: entry_writable_def entry_of_def)
  from walk_written [OF this, of "[]" 0 zeros f s] show ?thesis
    using assms(3) unfolding for_each_newc_entry_def bytes by simp
qed

lemma run_collect: "run_entries (\<lambda>entry es. (Inr (), es @ [entry])) es acc = (Inr (), acc @ es)"
  by (induction es arbitrary: acc) simp_all

section \<open>Which file a name selects\<close>

text \<open>
  A path spells the file \<open>base\<close> in the directory \<open>dir\<close>, which is empty or ends with a slash: an optional \<open>./\<close> or
  \<open>/\<close>, the directory, the base name without a slash, and an optional \<open>.elf\<close>. A request selects a file with the same
  base name in the same directory; a request without a directory selects it in any directory.
\<close>

definition spells :: "byte list \<Rightarrow> byte list \<Rightarrow> byte list \<Rightarrow> bool" where
  "spells path dir base \<longleftrightarrow>
     (\<exists>lead \<in> {[], ascii ''./'', ascii ''/''}. \<exists>ext \<in> {[], ascii ''.elf''}.
        path = lead @ dir @ base @ ext \<and> (dir = [] \<or> last dir = 0x2F) \<and> 0x2F \<notin> set base \<and>
        (lead = [] \<longrightarrow> \<not> (\<exists>rest. path = ascii ''./'' @ rest \<or> path = ascii ''/'' @ rest)) \<and>
        (ext = [] \<longrightarrow> \<not> (\<exists>stem. base = stem @ ascii ''.elf'')))"

definition selects :: "byte list \<Rightarrow> byte list \<Rightarrow> bool" where
  "selects requested name \<longleftrightarrow>
     (\<exists>dir base dir'. spells requested dir base \<and> spells name dir' base \<and> (dir = [] \<or> dir' = dir))"

definition directory :: "'a \<Rightarrow> 'a list \<Rightarrow> 'a list" where
  "directory c xs = rev (dropWhile (\<lambda>x. x \<noteq> c) (rev xs))"

lemma directory_split: "directory c xs @ last_component c xs = xs"
  using takeWhile_dropWhile_id [of "\<lambda>x. x \<noteq> c" "rev xs"] by (simp add: directory_def last_component_def flip: rev_append)

lemma directory_props: "directory c xs = [] \<or> last (directory c xs) = c" "c \<notin> set (last_component c xs)"
  using hd_dropWhile [of "\<lambda>x. x \<noteq> c" "rev xs"]
  by (auto simp: directory_def last_component_def last_rev dest: set_takeWhileD)

lemma directory_unique:
  assumes "dir = [] \<or> last dir = c" and "c \<notin> set base"
  shows "directory c (dir @ base) = dir" and "last_component c (dir @ base) = base"
proof -
  have 1: "takeWhile (\<lambda>x. x \<noteq> c) (rev base @ rev dir) = rev base @ takeWhile (\<lambda>x. x \<noteq> c) (rev dir)"
    "dropWhile (\<lambda>x. x \<noteq> c) (rev base @ rev dir) = dropWhile (\<lambda>x. x \<noteq> c) (rev dir)"
    using assms(2) by (auto intro: takeWhile_append2 dropWhile_append2)
  have "rev dir = [] \<or> hd (rev dir) = c" using assms(1) by (auto simp: hd_rev)
  then have "takeWhile (\<lambda>x. x \<noteq> c) (rev dir) = [] \<and> dropWhile (\<lambda>x. x \<noteq> c) (rev dir) = rev dir" by (cases "rev dir") auto
  then show "directory c (dir @ base) = dir" "last_component c (dir @ base) = base" using 1 by (simp_all add: directory_def last_component_def)
qed

lemma strip_prefix_iff: "strip_prefix p xs = Some ys \<longleftrightarrow> xs = p @ ys" "strip_prefix p xs = None \<longleftrightarrow> \<not> (\<exists>ys. xs = p @ ys)"
  by (auto simp: strip_prefix_def) (metis append_take_drop_id)+

lemma strip_suffix_iff: "strip_suffix p xs = Some ys \<longleftrightarrow> xs = ys @ p" "strip_suffix p xs = None \<longleftrightarrow> \<not> (\<exists>ys. xs = ys @ p)"
  by (auto simp: strip_suffix_def) (metis append_take_drop_id)+

lemma normalize_iff:
  "normalize_name path = rest \<longleftrightarrow> path = ascii ''./'' @ rest \<or> path = ascii ''/'' @ rest \<or>
     path = rest \<and> \<not> (\<exists>r. path = ascii ''./'' @ r \<or> path = ascii ''/'' @ r)"
proof -
  have "ascii ''./'' @ a \<noteq> ascii ''/'' @ b" for a b by (simp add: ascii_def)
  then show ?thesis unfolding normalize_name_def by (auto simp: strip_prefix_iff split: option.split)
qed

lemma stem_iff: "image_stem name = stem \<longleftrightarrow> name = stem @ ascii ''.elf'' \<or> name = stem \<and> \<not> (\<exists>s. name = s @ ascii ''.elf'')"
  unfolding image_stem_def by (auto simp: strip_suffix_iff split: option.split)

lemma spells_iff:
  "spells path dir base \<longleftrightarrow> dir = directory 0x2F (normalize_name path) \<and> base = image_stem (last_component 0x2F (normalize_name path))"
proof -
  let ?q = "normalize_name path"
  have spell: "spells path dir base \<longleftrightarrow> (\<exists>ext \<in> {[], ascii ''.elf''}. ?q = dir @ base @ ext \<and>
      (dir = [] \<or> last dir = 0x2F) \<and> 0x2F \<notin> set base \<and> (ext = [] \<longrightarrow> \<not> (\<exists>stem. base = stem @ ascii ''.elf'')))"
    unfolding spells_def normalize_iff by (auto simp: ascii_def)
  show ?thesis
  proof
    assume "spells path dir base"
    then obtain ext where ext: "ext \<in> {[], ascii ''.elf''}" "?q = dir @ base @ ext" "dir = [] \<or> last dir = 0x2F" "0x2F \<notin> set (base @ ext)"
        "ext = [] \<longrightarrow> \<not> (\<exists>stem. base = stem @ ascii ''.elf'')"
      unfolding spell by (auto simp: ascii_def)
    then show "dir = directory 0x2F ?q \<and> base = image_stem (last_component 0x2F ?q)"
      using directory_unique [OF ext(3,4)] stem_iff [of "base @ ext" base] by auto
  next
    assume eq: "dir = directory 0x2F ?q \<and> base = image_stem (last_component 0x2F ?q)"
    then have dir: "dir = [] \<or> last dir = 0x2F" using directory_props(1) [of "0x2F" ?q] by simp
    obtain ext where ext: "ext \<in> {[], ascii ''.elf''}" "last_component 0x2F ?q = base @ ext" "ext = [] \<longrightarrow> \<not> (\<exists>stem. base = stem @ ascii ''.elf'')"
      using eq stem_iff [of "last_component 0x2F ?q" base] by (auto simp: ascii_def)
    have "?q = dir @ base @ ext" "0x2F \<notin> set base"
      using ext(2) eq directory_split [of "0x2F" ?q] directory_props(2) [of "0x2F" ?q] by (metis, metis Un_iff set_append)
    then show "spells path dir base" unfolding spell using ext dir by blast
  qed
qed

lemma stem_split: "image_stem path = directory 0x2F path @ image_stem (last_component 0x2F path)"
proof -
  let ?d = "directory 0x2F path" and ?l = "last_component 0x2F path"
  have no: "\<not> (\<exists>s. ?l = s @ ascii ''.elf'') \<Longrightarrow> path \<noteq> y @ ascii ''.elf''" for y
  proof
    assume none: "\<not> (\<exists>s. ?l = s @ ascii ''.elf'')" and "path = y @ ascii ''.elf''"
    then have "y @ ascii ''.elf'' = ?d @ ?l" using directory_split [of "0x2F" path] by simp
    then obtain us where us: "y @ us = ?d" "ascii ''.elf'' = us @ ?l" "us \<noteq> []"
      using none unfolding append_eq_append_conv2 by (metis append_Nil append_Nil2)
    then have "last us = 0x2F" using directory_props(1) [of "0x2F" path] by (metis append_is_Nil_conv last_appendR)
    then have "0x2F \<in> set (ascii ''.elf'')" using us(2,3) by (metis Un_iff last_in_set set_append)
    then show False by (simp add: ascii_def)
  qed
  show ?thesis unfolding stem_iff using no directory_split [of "0x2F" path] stem_iff [of ?l "image_stem ?l"] by (metis append.assoc)
qed

lemma image_matches_selects: "image_matches requested name = selects requested name"
proof -
  let ?r = "normalize_name requested" and ?n = "normalize_name name"
  have slash: "0x2F \<in> set ?r \<longleftrightarrow> directory 0x2F ?r \<noteq> []"
    using directory_split [of "0x2F" ?r] directory_props [of "0x2F" ?r] by (metis append_Nil last_in_set Un_iff set_append)
  have base: "0x2F \<notin> set (image_stem (last_component 0x2F p))" for p
    using stem_iff [of "last_component 0x2F p"] directory_props(2) [of "0x2F" p] by (metis Un_iff set_append)
  have stem: "image_stem ?n = image_stem ?r \<longleftrightarrow>
      directory 0x2F ?n = directory 0x2F ?r \<and> image_stem (last_component 0x2F ?n) = image_stem (last_component 0x2F ?r)"
    using directory_unique [OF directory_props(1) base, of ?n ?n] directory_unique [OF directory_props(1) base, of ?r ?r]
    unfolding stem_split [of ?n] stem_split [of ?r] by metis
  have bare: "image_stem (last_component 0x2F ?r) = image_stem ?r" if "directory 0x2F ?r = []"
    using directory_split [of "0x2F" ?r] that by simp
  show ?thesis unfolding image_matches_def selects_def spells_iff Let_def using slash stem bare by (auto split: if_split)
qed

lemma run_find:
  "run_entries (\<lambda>entry found.
      if image_matches requested (ce_name entry)
      then if found \<noteq> None then (Inl InvalidArgument, found) else (Inr (), Some entry)
      else (Inr (), found)) es found =
    (case (found, filter (\<lambda>e. image_matches requested (ce_name e)) es) of
       (found, []) \<Rightarrow> (Inr (), found)
     | (None, [e]) \<Rightarrow> (Inr (), Some e)
     | (None, e # e' # es) \<Rightarrow> (Inl InvalidArgument, Some e)
     | (Some x, e # es) \<Rightarrow> (Inl InvalidArgument, Some x))"
  by (induction es arbitrary: found) (auto split: option.splits list.splits)

text \<open>
  C37: The archive that the build writes (\<open>xtask\<close>) is read back by Alpha. The reader visits exactly the files that were
  written, in their order, up to one that is itself named \<open>TRAILER!!!\<close>, with their names and contents. Looking up an
  image returns the one file that the requested path selects, namely the file of that base name in that directory,
  or in any directory when the request names none, with or without a leading \<open>./\<close> or \<open>/\<close> and a final \<open>.elf\<close>; it
  returns an error when the path selects none or several. On any other slice, which has fewer than \<open>2 ^ 63\<close> bytes,
  the lookup returns as well: no index is out of range and the walk ends. The names are UTF-8 as every \<open>String\<close> is.
\<close>

theorem find_image_unique:
  assumes "newc_archive files = Inr bytes" and "\<forall>file \<in> set files. utf8_valid (fst file)" and "length bytes < 2 ^ 63"
    and "listed = takeWhile (\<lambda>file. fst file \<noteq> ascii ''TRAILER!!!'') files" and "length other < 2 ^ 63"
  shows "for_each_newc_entry bytes (\<lambda>entry visited. (Inr (), visited @ [entry])) [] =
      Some (Inr (), map (\<lambda>(name, mode, data). \<lparr>ce_name = name, ce_data = data\<rparr>) listed) \<and>
    find_image bytes requested =
      Some (case filter (\<lambda>file. selects requested (fst file)) listed of
          [(name, mode, data)] \<Rightarrow> Inr \<lparr>ce_name = name, ce_data = data\<rparr> | _ \<Rightarrow> Inl InvalidArgument) \<and>
    find_image other requested \<noteq> None"
proof (intro conjI)
  note walk = walk_archive [OF assms(1-3), folded assms(4)]
  have entry: "entry_of = (\<lambda>(name, mode, data). \<lparr>ce_name = name, ce_data = data\<rparr>)" by (auto simp: entry_of_def)
  show "for_each_newc_entry bytes (\<lambda>entry visited. (Inr (), visited @ [entry])) [] =
      Some (Inr (), map (\<lambda>(name, mode, data). \<lparr>ce_name = name, ce_data = data\<rparr>) listed)"
    unfolding walk run_collect entry by simp
  have f: "filter (\<lambda>e. image_matches requested (ce_name e)) (map entry_of listed) = map entry_of (filter (\<lambda>file. selects requested (fst file)) listed)"
    by (simp add: filter_map comp_def image_matches_selects entry_of_def)
  show "find_image bytes requested =
      Some (case filter (\<lambda>file. selects requested (fst file)) listed of
          [(name, mode, data)] \<Rightarrow> Inr \<lparr>ce_name = name, ce_data = data\<rparr> | _ \<Rightarrow> Inl InvalidArgument)"
    unfolding find_image_def walk run_find f by (auto simp: ok_or_def entry split: list.split)
  show "find_image other requested \<noteq> None" by (rule find_image_returns [OF assms(5)])
qed

text \<open>A small archive.\<close>

definition demo_files :: "archive_file list" where
  "demo_files = [(ascii ''./bin/shell.elf'', 33261, [1, 2, 3]), (ascii ''motd'', 33188, [])]"

lemma demo_archive: "\<exists>bytes. newc_archive demo_files = Inr bytes \<and> length bytes < 2 ^ 63"
proof -
  obtain bytes where b: "newc_archive demo_files = Inr bytes"
    using archive_accepts [of demo_files] by (auto simp: demo_files_def ascii_def)
  then obtain zeros where "bytes = written 0 demo_files @ newc_record 0 0 \<lparr>ce_name = ascii ''TRAILER!!!'', ce_data = []\<rparr> @ zeros" "length zeros < 512"
    using archive_shape(1) by blast
  then have "length bytes < 2 ^ 63" by (simp add: demo_files_def newc_record_def newc_header_fields padding_def entry_of_def)
  then show ?thesis using b by blast
qed

theorem find_image_unique_witness:
  "\<exists>bytes. newc_archive demo_files = Inr bytes \<and>
     find_image bytes (ascii ''shell'') = Some (Inr \<lparr>ce_name = ascii ''./bin/shell.elf'', ce_data = [1, 2, 3]\<rparr>)"
proof -
  obtain bytes where b: "newc_archive demo_files = Inr bytes" "length bytes < 2 ^ 63" using demo_archive by blast
  have u: "\<forall>file \<in> set demo_files. utf8_valid (fst file)" by code_simp
  have l: "demo_files = takeWhile (\<lambda>file. fst file \<noteq> ascii ''TRAILER!!!'') demo_files" by code_simp
  have "image_matches (ascii ''shell'') (ascii ''./bin/shell.elf'')" "\<not> image_matches (ascii ''shell'') (ascii ''motd'')" by code_simp+
  then have f: "filter (\<lambda>file. selects (ascii ''shell'') (fst file)) demo_files = [(ascii ''./bin/shell.elf'', 33261, [1, 2, 3])]"
    by (simp add: demo_files_def image_matches_selects)
  show ?thesis using b(1) find_image_unique [OF b(1) u b(2) l, of "[]" "ascii ''shell''"] unfolding f by simp
qed

end
