(* ===== verification/Process_Image.thy ===== *)
theory Process_Image
  imports Elf_Loader
begin

text \<open>
  The memory layout of a process image: what the handlers that create a process and that replace its image
  (\<open>alpha/process_requests.rs\<close>) compute from a parsed ELF file before they call the process manager, namely the
  number of frame slots that the image and the stack take and the start of the heap. The lemma at the end bounds
  both for every image, whatever addresses its segments claim.
\<close>

section \<open>Definitions\<close>

definition USER_STACK_PAGES :: nat where "USER_STACK_PAGES = 64"
definition USER_ANONYMOUS_MAP_BASE :: nat where "USER_ANONYMOUS_MAP_BASE = 0x10000000"
definition USER_HEAP_LIMIT :: nat where "USER_HEAP_LIMIT = 0x70000000"
definition IMAGE_PAGE_SIZE :: nat where "IMAGE_PAGE_SIZE = 4096"

text \<open>\<open>!(align - 1)\<close> is \<open>usize_limit - align\<close>.\<close>

definition align_down :: "nat \<Rightarrow> nat \<Rightarrow> nat" where
  "align_down n align = (n AND (usize_limit - align))"

definition align_up :: "nat \<Rightarrow> nat \<Rightarrow> nat" where
  "align_up n align = (((n + align - 1) mod usize_limit) AND (usize_limit - align))"

text \<open>The loop over the segments, from its index \<open>i\<close> on; an index out of range is a panic.\<close>

function image_span :: "elf_image \<Rightarrow> nat \<Rightarrow> nat \<Rightarrow> nat \<Rightarrow> (nat \<times> nat) option" where
  "image_span elf i image_base image_end =
     (if i < ei_segment_count elf then
        if i < length (ei_segments elf) then
          let seg = ei_segments elf ! i
          in if ls_memory_size seg \<noteq> 0
             then image_span elf (i + 1)
               (min image_base (align_down (ls_virtual_address seg) IMAGE_PAGE_SIZE))
               (max image_end (align_up (wrapping_add (ls_virtual_address seg) (ls_memory_size seg)) IMAGE_PAGE_SIZE))
             else image_span elf (i + 1) image_base image_end
        else None
      else Some (image_base, image_end))"
  by pat_completeness auto
termination
  by (relation "measure (\<lambda>(elf, i, image_base, image_end). ei_segment_count elf - i)") auto

declare image_span.simps [simp del]

text \<open>The number of frames of the image and the stack, and the start of the heap.\<close>

definition process_layout :: "elf_image \<Rightarrow> (nat \<times> nat) outcome" where
  "process_layout elf = do {
     (image_base, image_end) \<leftarrow> image_span elf 0 (usize_limit - 1) 0;
     if image_base = usize_limit - 1 \<or> image_end \<le> image_base then Some (Inl InvalidArgument)
     else
       let image_pages = (image_end - image_base) div IMAGE_PAGE_SIZE;
           total_frames = wrapping_add image_pages USER_STACK_PAGES;
           heap_base = align_up (max image_end USER_ANONYMOUS_MAP_BASE) IMAGE_PAGE_SIZE
       in Some (Inr (total_frames, heap_base))}"

section \<open>Bounds\<close>

lemma align_up_page: "4096 dvd align_up n IMAGE_PAGE_SIZE" "align_up n IMAGE_PAGE_SIZE < 2 ^ 64"
proof -
  have "n + 4096 - 1 = n + 4095" by simp
  then have "align_up n IMAGE_PAGE_SIZE = (n + 4095) mod usize_limit div 2 ^ 12 * 2 ^ 12"
    unfolding align_up_def IMAGE_PAGE_SIZE_def using and_high_bits [of "(n + 4095) mod usize_limit" 12] by (simp add: usize_limit_def add.commute)
  moreover have "(n + 4095) mod usize_limit < 2 ^ 64" by (simp add: usize_limit_def)
  moreover have "x div 2 ^ 12 * 2 ^ 12 \<le> x" for x :: nat by (rule div_times_less_eq_dividend)
  ultimately show "4096 dvd align_up n IMAGE_PAGE_SIZE" "align_up n IMAGE_PAGE_SIZE < 2 ^ 64" by (auto intro: le_less_trans)
qed

lemma image_span_bound:
  "image_span elf i image_base image_end = Some (b, e) \<Longrightarrow> image_end < 2 ^ 64 \<Longrightarrow> e < 2 ^ 64"
proof (induction elf i image_base image_end rule: image_span.induct)
  case (1 elf i image_base image_end)
  then show ?case using align_up_page(2) by (subst (asm) image_span.simps) (auto simp: Let_def split: if_splits)
qed

text \<open>The frames of an image are fewer than \<open>2 ^ 53\<close>, the pages of the address space and the stack.\<close>

lemma process_layout_bound:
  assumes "process_layout elf = Some (Inr (total_frames, heap_base))"
  shows "total_frames < 2 ^ 53" and "4096 dvd heap_base" and "heap_base < 2 ^ 64"
proof -
  obtain b e where be: "image_span elf 0 (usize_limit - 1) 0 = Some (b, e)"
    and eq: "total_frames = wrapping_add ((e - b) div 4096) 64" "heap_base = align_up (max e USER_ANONYMOUS_MAP_BASE) IMAGE_PAGE_SIZE"
    using assms by (auto simp: process_layout_def Let_def IMAGE_PAGE_SIZE_def USER_STACK_PAGES_def split: bind_splits if_splits)
  have "e < 2 ^ 64" using image_span_bound [OF be] by simp
  then have "(e - b) div 4096 < 2 ^ 52" by (simp add: less_mult_imp_div_less)
  then show "total_frames < 2 ^ 53" by (simp add: eq(1) usize_limit_def)
  show "4096 dvd heap_base" "heap_base < 2 ^ 64" unfolding eq(2) by (rule align_up_page)+
qed

end
