(* ===== verification/Root_Slots.thy ===== *)
theory Root_Slots
  imports Nanami_Prelude
begin

text \<open>
  Provenance of the capability slots in a process's root (\<open>process/root_slots.rs\<close>): a kind of two bits for each
  of 256 slots, packed into eight 64-bit words. The capability operations passed to
  \<open>install_notification_alias\<close> are functions on an arbitrary world.
\<close>

section \<open>Definitions\<close>

definition install_notification_alias ::
  "bool \<Rightarrow> ('w \<Rightarrow> unit cap_result \<times> 'w) \<Rightarrow> ('w \<Rightarrow> unit cap_result \<times> 'w) \<Rightarrow> 'w \<Rightarrow> unit cap_result \<times> 'w" where
  "install_notification_alias known_notification copy remove w =
     (case copy w of
        (Inr u, w) \<Rightarrow> (Inr (), w)
      | (Inl e, w) \<Rightarrow>
          if \<not> known_notification then (Inl PermissionDenied, w)
          else (case remove w of
              (Inl e, w) \<Rightarrow> (Inl e, w)
            | (Inr u, w) \<Rightarrow> copy w))"

record root_slot_types =
  rt_slots :: "64 word list"

definition root_empty :: root_slot_types where
  "root_empty = \<lparr>rt_slots = replicate 8 0\<rparr>"

definition set_kind :: "nat \<Rightarrow> 64 word \<Rightarrow> root_slot_types \<Rightarrow> root_slot_types" where
  "set_kind slot kind t =
     (if slot < 256 then
        let shift = 2 * (slot mod 32)
        in t\<lparr>rt_slots := (rt_slots t)[slot div 32 :=
             (rt_slots t ! (slot div 32) AND NOT (push_bit shift 3)) OR push_bit shift kind]\<rparr>
      else t)"

definition kind_of :: "root_slot_types \<Rightarrow> nat \<Rightarrow> 64 word" where
  "kind_of t slot = (if slot \<ge> 256 then 0 else drop_bit (2 * (slot mod 32)) (rt_slots t ! (slot div 32)) AND 3)"

definition root_clear :: "nat \<Rightarrow> root_slot_types \<Rightarrow> root_slot_types" where
  "root_clear slot t = set_kind slot 0 t"

definition root_notification :: "nat \<Rightarrow> root_slot_types \<Rightarrow> root_slot_types" where
  "root_notification slot t = set_kind slot 1 t"

definition root_ipc :: "nat \<Rightarrow> root_slot_types \<Rightarrow> root_slot_types" where
  "root_ipc slot t = set_kind slot 2 t"

definition root_other :: "nat \<Rightarrow> root_slot_types \<Rightarrow> root_slot_types" where
  "root_other slot t = set_kind slot 3 t"

definition is_notification :: "root_slot_types \<Rightarrow> nat \<Rightarrow> bool" where
  "is_notification t slot \<longleftrightarrow> kind_of t slot = 1"

definition is_ipc :: "root_slot_types \<Rightarrow> nat \<Rightarrow> bool" where
  "is_ipc t slot \<longleftrightarrow> kind_of t slot = 2"

definition occupied :: "root_slot_types \<Rightarrow> nat \<Rightarrow> bool" where
  "occupied t slot \<longleftrightarrow> kind_of t slot \<noteq> 0"

definition root_native :: root_slot_types where
  "root_native = root_ipc 20 (root_notification 21 (fold root_other [1..<8] root_empty))"

section \<open>The packed kinds as a function\<close>

lemma kind_set:
  assumes "length (rt_slots t) = 8" and "kind < 4"
  shows "kind_of (set_kind slot kind t) slot' = (if slot' = slot \<and> slot < 256 then kind else kind_of t slot')"
    and "length (rt_slots (set_kind slot kind t)) = 8"
proof -
  show "length (rt_slots (set_kind slot kind t)) = 8" using assms(1) by (simp add: set_kind_def Let_def)
  have k: "kind AND 3 = kind" using assms(2) less_mask_eq [of kind 2] by (simp add: mask_eq_exp_minus_1)
  have k_bit: "\<not> bit kind n" if "2 \<le> n" for n using word_less_exp_bit [of kind 2 n] assms(2) that by auto
  have three: "bit (3 :: int) n \<longleftrightarrow> n < 2" "bit (3 :: 64 word) n \<longleftrightarrow> n < 2" for n
    using bit_mask_iff [of 2 n, where 'a = int] bit_mask_iff [of 2 n, where 'a = "64 word"] by (auto simp: mask_eq_exp_minus_1)
  show "kind_of (set_kind slot kind t) slot' = (if slot' = slot \<and> slot < 256 then kind else kind_of t slot')"
  proof (cases "slot < 256 \<and> slot' < 256 \<and> slot' div 32 = slot div 32")
    case False
    then show ?thesis using assms(1) by (auto simp: kind_of_def set_kind_def Let_def)
  next
    case True
    let ?w = "rt_slots t ! (slot div 32)" and ?s = "2 * (slot mod 32)" and ?s' = "2 * (slot' mod 32)"
    let ?v = "(?w AND NOT (push_bit ?s 3)) OR push_bit ?s kind"
    have len: "slot div 32 < 8" using True by auto
    have "drop_bit ?s' ?v AND 3 = (if slot' = slot then kind else drop_bit ?s' ?w AND 3)"
    proof (cases "slot' = slot")
      case eq: True
      have "?s < 63" by simp
      then have "bit (drop_bit ?s ?v AND 3) n = bit kind n" for n
        using k_bit [of n] by (cases "n < 2") (simp_all add: bit_simps three)
      then have "drop_bit ?s ?v AND 3 = kind" by (intro bit_eqI) blast
      then show ?thesis using eq by simp
    next
      case neq: False
      then have "slot mod 32 \<noteq> slot' mod 32" using True by (metis div_mult_mod_eq)
      then have far: "?s' + n < ?s \<or> ?s + 2 \<le> ?s' + n" if "n < 2" for n using that by auto
      have "bit (drop_bit ?s' ?v AND 3) n = bit (drop_bit ?s' ?w AND 3) n" for n
      proof (cases "n < 2")
        case n: True
        then have "\<not> bit kind (?s' + n - ?s)" if "?s \<le> ?s' + n" using far [OF n] that by (intro k_bit) linarith
        then show ?thesis using far [OF n] by (auto simp: bit_simps three)
      qed (simp add: bit_simps three)
      then have "drop_bit ?s' ?v AND 3 = drop_bit ?s' ?w AND 3" by (intro bit_eqI) blast
      then show ?thesis using neq by simp
    qed
    then show ?thesis using True len assms(1) by (simp add: kind_of_def set_kind_def Let_def)
  qed
qed

section \<open>Properties\<close>

datatype slot_kind = NoSlot | NotificationSlot | IpcSlot | OtherSlot

fun kind_word :: "slot_kind \<Rightarrow> 64 word" where
  "kind_word NoSlot = 0"
| "kind_word NotificationSlot = 1"
| "kind_word IpcSlot = 2"
| "kind_word OtherSlot = 3"

datatype slot_call = ClearSlot nat | NotificationAt nat | IpcAt nat | OtherAt nat

fun slot_step :: "slot_call \<Rightarrow> root_slot_types \<Rightarrow> root_slot_types" where
  "slot_step (ClearSlot slot) t = root_clear slot t"
| "slot_step (NotificationAt slot) t = root_notification slot t"
| "slot_step (IpcAt slot) t = root_ipc slot t"
| "slot_step (OtherAt slot) t = root_other slot t"

fun slot_effect :: "slot_call \<Rightarrow> (nat \<Rightarrow> slot_kind) \<Rightarrow> nat \<Rightarrow> slot_kind" where
  "slot_effect (ClearSlot slot) m = m(slot := NoSlot)"
| "slot_effect (NotificationAt slot) m = m(slot := NotificationSlot)"
| "slot_effect (IpcAt slot) m = m(slot := IpcSlot)"
| "slot_effect (OtherAt slot) m = m(slot := OtherSlot)"

definition native_kinds :: "nat \<Rightarrow> slot_kind" where
  "native_kinds slot = (if slot = 21 then NotificationSlot else if slot = 20 then IpcSlot
     else if 1 \<le> slot \<and> slot < 8 then OtherSlot else NoSlot)"

definition types_of :: "root_slot_types \<Rightarrow> (nat \<Rightarrow> slot_kind) \<Rightarrow> bool" where
  "types_of t m \<longleftrightarrow> length (rt_slots t) = 8 \<and> (\<forall>slot < 256. kind_of t slot = kind_word (m slot))"

lemma slot_step_types: "types_of t m \<Longrightarrow> types_of (slot_step c t) (slot_effect c m)"
  by (cases c) (auto simp: types_of_def kind_set root_clear_def root_notification_def root_ipc_def root_other_def)

lemma slot_steps_types: "types_of t m \<Longrightarrow> types_of (fold slot_step cs t) (fold slot_effect cs m)"
  by (induction cs arbitrary: t m) (auto intro: slot_step_types)

lemma native_types: "types_of root_native native_kinds"
proof -
  have "types_of root_empty (\<lambda>_. NoSlot)" by (auto simp: types_of_def root_empty_def kind_of_def)
  then have "types_of (fold slot_step (map OtherAt [1..<8] @ [NotificationAt 21, IpcAt 20]) root_empty)
      (fold slot_effect (map OtherAt [1..<8] @ [NotificationAt 21, IpcAt 20]) (\<lambda>_. NoSlot))"
    by (rule slot_steps_types)
  moreover have "(\<lambda>x. slot_step (OtherAt x)) = root_other" by (simp add: fun_eq_iff)
  then have "fold slot_step (map OtherAt [1..<8] @ [NotificationAt 21, IpcAt 20]) root_empty = root_native"
    by (simp add: root_native_def fold_map o_def)
  moreover have "fold slot_effect (map OtherAt [1..<8] @ [NotificationAt 21, IpcAt 20]) (\<lambda>_. NoSlot) = native_kinds"
    by (auto simp: native_kinds_def fun_eq_iff upt_rec)
  ultimately show ?thesis by simp
qed

text \<open>
  C38: The packed root slot table behaves like a function from slots to kinds. From the native layout, after any
  sequence of recordings and clearings, each of the 256 slots has exactly the kind recorded last, whatever
  happened to its neighbours in the same word; a slot beyond the table is always empty; and the three queries
  agree with the kind.
\<close>

theorem root_slots_refine_kinds:
  "let t = fold slot_step cs root_native; m = fold slot_effect cs native_kinds in
    is_notification t slot = (slot < 256 \<and> m slot = NotificationSlot) \<and> is_ipc t slot = (slot < 256 \<and> m slot = IpcSlot) \<and>
    occupied t slot = (slot < 256 \<and> m slot \<noteq> NoSlot)"
proof -
  let ?t = "fold slot_step cs root_native" and ?m = "fold slot_effect cs native_kinds"
  have "types_of ?t ?m" by (rule slot_steps_types [OF native_types])
  then have "kind_of ?t slot = (if slot < 256 then kind_word (?m slot) else 0)" by (auto simp: types_of_def kind_of_def)
  then show ?thesis by (cases "?m slot") (auto simp: is_notification_def is_ipc_def occupied_def Let_def)
qed

end
