(* ===== verification/Free_Ranges.thy ===== *)
theory Free_Ranges
  imports Nanami_Prelude "HOL-Library.Monad_Syntax" "HOL-Library.Product_Lexorder"
begin

text \<open>
  The free ranges of \<open>process/shared_memory.rs\<close>: a range is a start and a count, kept in address order for
  coalescing and in size order for best fit. \<open>BTreeMap\<close> and \<open>BTreeSet\<close> are sorted lists. A failed \<open>unwrap\<close>
  and a loop that does not end are \<open>None\<close>; the \<open>debug_assert\<close> lines are not part of a release build.
\<close>

section \<open>Ordered collections\<close>

definition btree_insert :: "nat \<Rightarrow> 'a \<Rightarrow> (nat \<times> 'a) list \<Rightarrow> (nat \<times> 'a) list" where
  "btree_insert k v m = takeWhile (\<lambda>e. fst e < k) m @ (k, v) # dropWhile (\<lambda>e. fst e \<le> k) m"

definition btree_remove :: "nat \<Rightarrow> (nat \<times> 'a) list \<Rightarrow> (nat \<times> 'a) list" where
  "btree_remove k m = filter (\<lambda>e. fst e \<noteq> k) m"

text \<open>\<open>range(..k).next_back()\<close> and \<open>range(k..).next()\<close>.\<close>

definition btree_below :: "nat \<Rightarrow> (nat \<times> 'a) list \<Rightarrow> (nat \<times> 'a) option" where
  "btree_below k m = (case rev (takeWhile (\<lambda>e. fst e < k) m) of [] \<Rightarrow> None | e # es \<Rightarrow> Some e)"

definition btree_from :: "nat \<Rightarrow> (nat \<times> 'a) list \<Rightarrow> (nat \<times> 'a) option" where
  "btree_from k m = (case dropWhile (\<lambda>e. fst e < k) m of [] \<Rightarrow> None | e # es \<Rightarrow> Some e)"

definition bset_insert :: "'a::linorder \<Rightarrow> 'a list \<Rightarrow> 'a list" where
  "bset_insert x s = takeWhile (\<lambda>y. y < x) s @ x # dropWhile (\<lambda>y. y \<le> x) s"

section \<open>Free ranges\<close>

record free_ranges =
  fr_by_address :: "(nat \<times> nat) list"
  fr_by_size :: "(nat \<times> nat) list"

definition fr_default :: free_ranges where
  "fr_default = \<lparr>fr_by_address = [], fr_by_size = []\<rparr>"

definition fr_find :: "free_ranges \<Rightarrow> nat \<Rightarrow> nat option" where
  "fr_find fr cnt = map_option snd (List.find (\<lambda>e. (cnt, 0) \<le> e) (fr_by_size fr))"

definition fr_remove :: "free_ranges \<Rightarrow> nat \<Rightarrow> (nat \<times> free_ranges) option" where
  "fr_remove fr start = do {
     cnt \<leftarrow> map_of (fr_by_address fr) start;
     Some (cnt, \<lparr>fr_by_address = btree_remove start (fr_by_address fr), fr_by_size = filter (\<lambda>e. e \<noteq> (cnt, start)) (fr_by_size fr)\<rparr>)}"

text \<open>The two merges of \<open>insert\<close>, with the range before and with the range after.\<close>

definition merge_below :: "free_ranges \<Rightarrow> nat \<Rightarrow> nat \<Rightarrow> (free_ranges \<times> nat \<times> nat) option" where
  "merge_below fr start cnt =
     (case btree_below start (fr_by_address fr) of
        Some (previous, len) \<Rightarrow>
          if wrapping_add previous len = start then do {
            (c, fr) \<leftarrow> fr_remove fr previous;
            Some (fr, previous, wrapping_add cnt len)}
          else Some (fr, start, cnt)
      | None \<Rightarrow> Some (fr, start, cnt))"

definition merge_above :: "free_ranges \<Rightarrow> nat \<Rightarrow> nat \<Rightarrow> (free_ranges \<times> nat) option" where
  "merge_above fr start cnt =
     (case btree_from start (fr_by_address fr) of
        Some (following, len) \<Rightarrow>
          if wrapping_add start cnt = following then do {
            (c, fr) \<leftarrow> fr_remove fr following;
            Some (fr, wrapping_add cnt len)}
          else Some (fr, cnt)
      | None \<Rightarrow> Some (fr, cnt))"

definition fr_insert :: "free_ranges \<Rightarrow> nat \<Rightarrow> nat \<Rightarrow> free_ranges option" where
  "fr_insert fr start cnt = do {
     (fr, start, cnt) \<leftarrow> merge_below fr start cnt;
     (fr, cnt) \<leftarrow> merge_above fr start cnt;
     Some \<lparr>fr_by_address = btree_insert start cnt (fr_by_address fr), fr_by_size = bset_insert (cnt, start) (fr_by_size fr)\<rparr>}"

definition fr_take :: "free_ranges \<Rightarrow> nat \<Rightarrow> nat \<Rightarrow> free_ranges option" where
  "fr_take fr start cnt = do {
     (len, fr) \<leftarrow> fr_remove fr start;
     if len > cnt then fr_insert fr (wrapping_add start cnt) (len - cnt) else Some fr}"

partial_function (option) exclude_loop :: "free_ranges \<Rightarrow> nat \<Rightarrow> nat \<Rightarrow> free_ranges option" where
  "exclude_loop fr start end_of =
     (case btree_below end_of (fr_by_address fr) of
        None \<Rightarrow> Some fr
      | Some (base, len) \<Rightarrow>
          let range_end = wrapping_add base len in
          if range_end \<le> start then Some fr
          else do {
            (c, fr) \<leftarrow> fr_remove fr base;
            fr \<leftarrow> (if range_end > end_of then fr_insert fr end_of (range_end - end_of) else Some fr);
            fr \<leftarrow> (if base < start then fr_insert fr base (start - base) else Some fr);
            exclude_loop fr start end_of})"

definition fr_exclude :: "free_ranges \<Rightarrow> nat \<Rightarrow> nat \<Rightarrow> free_ranges option" where
  "fr_exclude fr start cnt = exclude_loop fr start (wrapping_add start cnt)"

section \<open>The ranges as a set of units\<close>

text \<open>
  Well-formed ranges are in ascending order, not empty and not adjacent: between two ranges there is at least
  one unit that is not free. Both orders hold the same ranges.
\<close>

definition apart :: "nat \<times> nat \<Rightarrow> nat \<times> nat \<Rightarrow> bool" where
  "apart a b \<longleftrightarrow> fst a + snd a < fst b"

definition ranges_ok :: "(nat \<times> nat) list \<Rightarrow> bool" where
  "ranges_ok rs \<longleftrightarrow> sorted_wrt apart rs \<and> (\<forall>r \<in> set rs. 0 < snd r \<and> fst r + snd r < usize_limit)"

definition fr_inv :: "free_ranges \<Rightarrow> bool" where
  "fr_inv fr \<longleftrightarrow> ranges_ok (fr_by_address fr) \<and> sorted_wrt (<) (fr_by_size fr) \<and> set (fr_by_size fr) = prod.swap ` set (fr_by_address fr)"

definition covers :: "(nat \<times> nat) list \<Rightarrow> nat set" where
  "covers rs = (\<Union>(s, c) \<in> set rs. {s..<s + c})"

definition units :: "free_ranges \<Rightarrow> nat set" where
  "units fr = covers (fr_by_address fr)"

lemma covers_simps [simp]:
  "covers [] = {}" "covers (r # rs) = {fst r..<fst r + snd r} \<union> covers rs" "covers (rs @ rs') = covers rs \<union> covers rs'"
  by (auto simp: covers_def)

lemma fr_default_inv [simp]: "fr_inv fr_default" "units fr_default = {}"
  by (simp_all add: fr_default_def fr_inv_def units_def ranges_ok_def)

lemma bset_insert_sorted:
  fixes x :: "'a::linorder"
  assumes "sorted_wrt (<) s"
  shows "sorted_wrt (<) (bset_insert x s)" and "set (bset_insert x s) = insert x (set s)"
proof -
  have "sorted_wrt (<) (bset_insert x s) \<and> set (bset_insert x s) = insert x (set s)"
    using assms
  proof (induction s)
    case (Cons y s)
    have IH: "sorted_wrt (<) (bset_insert x s)" "set (bset_insert x s) = insert x (set s)" using Cons by simp_all
    consider "y < x" | "y = x" | "x < y" by (rule linorder_cases)
    then show ?case
    proof cases
      case 1
      then have "bset_insert x (y # s) = y # bset_insert x s" by (simp add: bset_insert_def)
      then show ?thesis using IH Cons.prems 1 by auto
    next
      case 2
      have "dropWhile (\<lambda>y. y \<le> x) s = s" using Cons.prems 2 by (cases s) (auto simp: not_le)
      then have "bset_insert x (y # s) = y # s" using 2 by (simp add: bset_insert_def)
      then show ?thesis using Cons.prems 2 by simp
    next
      case 3
      then have "bset_insert x (y # s) = x # y # s" by (auto simp: bset_insert_def)
      then show ?thesis using Cons.prems 3 by auto
    qed
  qed (simp add: bset_insert_def)
  then show "sorted_wrt (<) (bset_insert x s)" "set (bset_insert x s) = insert x (set s)" by simp_all
qed

text \<open>A position in the address order splits the ranges into those that start before it and the others.\<close>

lemma key_split:
  fixes rs :: "(nat \<times> 'a) list"
  assumes "sorted_wrt (\<lambda>a b. fst a < fst b) rs"
  obtains xs ys where "rs = xs @ ys" "\<forall>e \<in> set xs. fst e < k" "\<forall>e \<in> set ys. k \<le> fst e"
proof
  show "rs = takeWhile (\<lambda>e. fst e < k) rs @ dropWhile (\<lambda>e. fst e < k) rs" by simp
  show "\<forall>e \<in> set (takeWhile (\<lambda>e. fst e < k) rs). fst e < k" by (auto dest: set_takeWhileD)
  show "\<forall>e \<in> set (dropWhile (\<lambda>e. fst e < k) rs). k \<le> fst e"
    using assms
  proof (induction rs)
    case (Cons r rs)
    then show ?case by (cases "fst r < k") (auto simp: not_less)
  qed simp
qed

lemma split_at:
  assumes "sorted_wrt apart rs"
  obtains xs ys where "rs = xs @ ys" "\<forall>e \<in> set xs. fst e < k" "\<forall>e \<in> set ys. k \<le> fst e"
proof -
  have "sorted_wrt (\<lambda>a b. fst a < fst b) rs" using assms by (rule sorted_wrt_mono_rel [rotated]) (simp add: apart_def)
  then show thesis using that by (rule key_split)
qed

lemma btree_split:
  assumes "\<forall>e \<in> set xs. fst e < k" and "\<forall>e \<in> set ys. k \<le> fst e"
  shows "btree_below k (xs @ ys) = (if xs = [] then None else Some (last xs))"
    and "btree_from k (xs @ ys) = (if ys = [] then None else Some (hd ys))"
    and "\<forall>e \<in> set ys. k < fst e \<Longrightarrow> btree_insert k v (xs @ ys) = xs @ (k, v) # ys"
proof -
  have t: "takeWhile (\<lambda>e. fst e < k) (xs @ ys) = xs"
    using assms by (cases ys) (auto simp: takeWhile_tail not_less takeWhile_append2)
  moreover have d: "dropWhile (\<lambda>e. fst e < k) (xs @ ys) = ys"
    using assms by (cases ys) (auto simp: dropWhile_append2 not_less)
  ultimately show "btree_below k (xs @ ys) = (if xs = [] then None else Some (last xs))"
    "btree_from k (xs @ ys) = (if ys = [] then None else Some (hd ys))"
    by (cases xs rule: rev_cases; simp add: btree_below_def btree_from_def split: list.split)+
  show "btree_insert k v (xs @ ys) = xs @ (k, v) # ys" if "\<forall>e \<in> set ys. k < fst e"
  proof -
    have "dropWhile (\<lambda>e. fst e \<le> k) (xs @ ys) = ys"
      using assms(1) that by (cases ys) (auto simp: dropWhile_append2 less_imp_le not_le)
    then show ?thesis using t by (simp add: btree_insert_def)
  qed
qed

lemma ranges_ok_append:
  "ranges_ok (xs @ ys) \<longleftrightarrow> ranges_ok xs \<and> ranges_ok ys \<and> (\<forall>a \<in> set xs. \<forall>b \<in> set ys. apart a b)"
  "ranges_ok (r # ys) \<longleftrightarrow> 0 < snd r \<and> fst r + snd r < usize_limit \<and> (\<forall>b \<in> set ys. apart r b) \<and> ranges_ok ys"
  "ranges_ok []"
  by (auto simp: ranges_ok_def sorted_wrt_append)

lemma fr_remove_inv:
  assumes "fr_inv fr" and "fr_by_address fr = xs @ (s, c) # ys"
  obtains fr' where "fr_remove fr s = Some (c, fr')" "fr_inv fr'" "fr_by_address fr' = xs @ ys"
proof -
  have ok: "ranges_ok (xs @ (s, c) # ys)" using assms by (simp add: fr_inv_def)
  then have ne: "fst e \<noteq> s" if "e \<in> set xs \<union> set ys" for e
    using that by (auto simp: ranges_ok_append apart_def)
  then have "s \<notin> fst ` set xs" by auto
  then have mo: "map_of (xs @ (s, c) # ys) s = Some c" by (simp add: map_add_Some_iff map_of_eq_None_iff)
  have rm: "btree_remove s (xs @ (s, c) # ys) = xs @ ys" using ne by (simp add: btree_remove_def)
  let ?fr = "\<lparr>fr_by_address = xs @ ys, fr_by_size = filter (\<lambda>e. e \<noteq> (c, s)) (fr_by_size fr)\<rparr>"
  have "set (filter (\<lambda>e. e \<noteq> (c, s)) (fr_by_size fr)) = prod.swap ` set (xs @ ys)"
    using assms ne [of "(s, c)"] by (auto simp: fr_inv_def)
  then have "fr_inv ?fr" using assms(1) ok by (auto simp: fr_inv_def ranges_ok_append intro: sorted_wrt_filter)
  then show thesis using that [of ?fr] mo rm by (simp add: fr_remove_def assms(2))
qed

lemma fr_place_inv:
  assumes "fr_inv fr" and "fr_by_address fr = xs @ ys" and ok: "ranges_ok (xs @ (s, c) # ys)"
  defines "fr' \<equiv> \<lparr>fr_by_address = btree_insert s c (fr_by_address fr), fr_by_size = bset_insert (c, s) (fr_by_size fr)\<rparr>"
  shows "fr_inv fr'" and "fr_by_address fr' = xs @ (s, c) # ys"
proof -
  have "\<forall>e \<in> set xs. fst e < s" "\<forall>e \<in> set ys. s < fst e" using ok by (auto simp: ranges_ok_append apart_def)
  then show *: "fr_by_address fr' = xs @ (s, c) # ys"
    unfolding fr'_def assms(2) by (simp add: btree_split(3) less_imp_le)
  show "fr_inv fr'" unfolding fr_inv_def * using ok assms(1,2) bset_insert_sorted [of "fr_by_size fr" "(c, s)"]
    by (auto simp: fr'_def fr_inv_def)
qed

lemma fr_merge_below_inv:
  assumes inv: "fr_inv fr" and rs: "fr_by_address fr = xs @ ys" and c: "0 < c" "s + c < usize_limit"
    and xs: "\<forall>e \<in> set xs. fst e + snd e \<le> s" and ys: "\<forall>e \<in> set ys. s \<le> fst e"
  obtains fr' xs' s' c' where "merge_below fr s c = Some (fr', s', c')" "fr_inv fr'" "fr_by_address fr' = xs' @ ys"
    "s' + c' = s + c" "s' \<le> s" "\<forall>e \<in> set xs'. fst e + snd e < s'" "covers xs' \<union> {s'..<s' + c'} = covers xs \<union> {s..<s + c}"
proof -
  have ok: "ranges_ok (xs @ ys)" using inv rs by (simp add: fr_inv_def)
  have pos: "0 < snd e" if "e \<in> set xs" for e using ok that by (simp add: ranges_ok_def)
  have lt: "\<forall>e \<in> set xs. fst e < s"
  proof
    fix e assume "e \<in> set xs"
    then have "fst e + snd e \<le> s" "0 < snd e" using xs pos by blast+
    then show "fst e < s" by simp
  qed
  note sp = btree_split(1) [OF lt ys]
  show thesis
  proof (cases xs rule: rev_cases)
    case Nil
    then show thesis using that [of fr s c "[]"] inv rs sp by (simp add: merge_below_def)
  next
    case (snoc zs r)
    obtain p l where r: "r = (p, l)" by force
    have pl: "p + l \<le> s" "0 < l" "\<forall>e \<in> set zs. fst e + snd e < p" using xs snoc r ok by (auto simp: ranges_ok_append apart_def)
    then have w: "wrapping_add p l = p + l" "wrapping_add c l = c + l" using c(2) by simp_all
    have low: "btree_below s (xs @ ys) = Some (p, l)" using sp snoc r by simp
    show thesis
    proof (cases "p + l = s")
      case True
      obtain fr' where "fr_remove fr p = Some (l, fr')" "fr_inv fr'" "fr_by_address fr' = zs @ ys"
        using fr_remove_inv [OF inv, of zs p l ys] rs snoc r by auto
      moreover have "covers zs \<union> {p..<p + (c + l)} = covers xs \<union> {s..<s + c}" using snoc r True by auto
      ultimately show thesis using that [of fr' p "c + l" zs] pl True by (simp add: merge_below_def rs low w)
    next
      case False
      then have "\<forall>e \<in> set xs. fst e + snd e < s" using pl snoc r by fastforce
      then show thesis using that [of fr s c xs] inv rs False by (simp add: merge_below_def rs low w)
    qed
  qed
qed

lemma fr_merge_above_inv:
  assumes inv: "fr_inv fr" and rs: "fr_by_address fr = xs @ ys" and c: "0 < c" "s + c < usize_limit"
    and xs: "\<forall>e \<in> set xs. fst e < s" and ys: "\<forall>e \<in> set ys. s + c \<le> fst e"
  obtains fr' ys' c' where "merge_above fr s c = Some (fr', c')" "fr_inv fr'" "fr_by_address fr' = xs @ ys'"
    "s + c' < usize_limit" "c \<le> c'" "\<forall>e \<in> set ys'. s + c' < fst e" "{s..<s + c'} \<union> covers ys' = {s..<s + c} \<union> covers ys"
proof -
  have ok: "ranges_ok (xs @ ys)" using inv rs by (simp add: fr_inv_def)
  have ge: "\<forall>e \<in> set ys. s \<le> fst e" using ys by auto
  note sp = btree_split(2) [OF xs ge]
  show thesis
  proof (cases ys)
    case Nil
    then show thesis using that [of fr c "[]"] inv rs sp c by (simp add: merge_above_def)
  next
    case (Cons r zs)
    obtain n l where r: "r = (n, l)" by force
    have nl: "s + c \<le> n" "0 < l" "n + l < usize_limit" "\<forall>e \<in> set zs. n + l < fst e"
      using ys Cons r ok by (auto simp: ranges_ok_append apart_def)
    have above: "btree_from s (xs @ ys) = Some (n, l)" using sp Cons r by simp
    show thesis
    proof (cases "s + c = n")
      case True
      then have w: "wrapping_add s c = n" "wrapping_add c l = c + l" using c(2) nl(3) by simp_all
      obtain fr' where "fr_remove fr n = Some (l, fr')" "fr_inv fr'" "fr_by_address fr' = xs @ zs"
        using fr_remove_inv [OF inv, of xs n l zs] rs Cons r by auto
      moreover have "{s..<s + (c + l)} \<union> covers zs = {s..<s + c} \<union> covers ys" using Cons r True by auto
      ultimately show thesis using that [of fr' "c + l" zs] nl True by (auto simp: merge_above_def rs above w add.assoc)
    next
      case False
      then have "\<forall>e \<in> set ys. s + c < fst e" using nl Cons r by fastforce
      then show thesis using that [of fr c ys] inv rs False c(2) by (simp add: merge_above_def rs above)
    qed
  qed
qed

text \<open>Inserting a range between two others: it merges with a neighbour it touches.\<close>

lemma fr_insert_inv:
  assumes inv: "fr_inv fr" and rs: "fr_by_address fr = xs @ ys" and c: "0 < c" "s + c < usize_limit"
    and xs: "\<forall>e \<in> set xs. fst e + snd e \<le> s" and ys: "\<forall>e \<in> set ys. s + c \<le> fst e"
  obtains fr' where "fr_insert fr s c = Some fr'" "fr_inv fr'" "units fr' = units fr \<union> {s..<s + c}"
proof -
  have ge: "\<forall>e \<in> set ys. s \<le> fst e" using ys by auto
  obtain fr1 xs1 s1 c1 where 1: "merge_below fr s c = Some (fr1, s1, c1)" "fr_inv fr1" "fr_by_address fr1 = xs1 @ ys"
    "s1 + c1 = s + c" "s1 \<le> s" "\<forall>e \<in> set xs1. fst e + snd e < s1" "covers xs1 \<union> {s1..<s1 + c1} = covers xs \<union> {s..<s + c}"
    by (rule fr_merge_below_inv [OF inv rs c xs ge])
  have lt: "\<forall>e \<in> set xs1. fst e < s1" using 1(6) by auto
  have c1: "0 < c1" "s1 + c1 < usize_limit" "\<forall>e \<in> set ys. s1 + c1 \<le> fst e" using 1(4,5) c ys by auto
  obtain fr2 ys2 c2 where 2: "merge_above fr1 s1 c1 = Some (fr2, c2)" "fr_inv fr2" "fr_by_address fr2 = xs1 @ ys2"
    "s1 + c2 < usize_limit" "c1 \<le> c2" "\<forall>e \<in> set ys2. s1 + c2 < fst e" "{s1..<s1 + c2} \<union> covers ys2 = {s1..<s1 + c1} \<union> covers ys"
    by (rule fr_merge_above_inv [OF 1(2,3) c1(1,2) lt c1(3)])
  have "ranges_ok (xs1 @ ys2)" using 2(2,3) by (simp add: fr_inv_def)
  then have "ranges_ok (xs1 @ (s1, c2) # ys2)" using 1(6) 2(4-6) c1(1) by (auto simp: ranges_ok_append apart_def)
  from fr_place_inv [OF 2(2,3) this] show thesis using 1(1,7) 2(1,7) that rs by (auto simp: fr_insert_def units_def)
qed

lemma fr_insert_disjoint:
  assumes inv: "fr_inv fr" and c: "0 < c" "s + c < usize_limit" and "units fr \<inter> {s..<s + c} = {}"
  obtains fr' where "fr_insert fr s c = Some fr'" "fr_inv fr'" "units fr' = units fr \<union> {s..<s + c}"
proof -
  have ok: "ranges_ok (fr_by_address fr)" using inv by (simp add: fr_inv_def)
  then have "sorted_wrt apart (fr_by_address fr)" by (simp add: ranges_ok_def)
  then obtain xs ys where rs: "fr_by_address fr = xs @ ys" "\<forall>e \<in> set xs. fst e < s" "\<forall>e \<in> set ys. s \<le> fst e"
    by (rule split_at)
  have dj: "{fst e..<fst e + snd e} \<inter> {s..<s + c} = {}" "0 < snd e" if "e \<in> set (xs @ ys)" for e
  proof -
    have "{fst e..<fst e + snd e} \<subseteq> units fr" using that by (auto simp: units_def rs(1) covers_def)
    then show "{fst e..<fst e + snd e} \<inter> {s..<s + c} = {}" using assms(4) by blast
    show "0 < snd e" using ok that unfolding rs(1) ranges_ok_def by blast
  qed
  have "\<forall>e \<in> set xs. fst e + snd e \<le> s"
  proof (intro ballI leI notI)
    fix e assume e: "e \<in> set xs" "s < fst e + snd e"
    then have "s \<in> {fst e..<fst e + snd e} \<inter> {s..<s + c}" using rs(2) c(1) by auto
    then show False using dj(1) [of e] e(1) by auto
  qed
  moreover have "\<forall>e \<in> set ys. s + c \<le> fst e"
  proof (intro ballI leI notI)
    fix e assume e: "e \<in> set ys" "fst e < s + c"
    then have "fst e \<in> {fst e..<fst e + snd e} \<inter> {s..<s + c}" using rs(3) dj(2) [of e] by auto
    then show False using dj(1) [of e] e(1) by auto
  qed
  ultimately show thesis using fr_insert_inv [OF inv rs(1) c] that by blast
qed

lemma fr_take_inv:
  assumes inv: "fr_inv fr" and r: "(s, l) \<in> set (fr_by_address fr)" and c: "0 < c" "c \<le> l"
  obtains fr' where "fr_take fr s c = Some fr'" "fr_inv fr'" "units fr' = units fr - {s..<s + c}"
proof -
  obtain xs ys where rs: "fr_by_address fr = xs @ (s, l) # ys" using r by (auto dest: split_list)
  then have ok: "ranges_ok (xs @ (s, l) # ys)" using inv by (simp add: fr_inv_def)
  obtain fr1 where 1: "fr_remove fr s = Some (l, fr1)" "fr_inv fr1" "fr_by_address fr1 = xs @ ys"
    by (rule fr_remove_inv [OF inv rs])
  have xs: "\<forall>e \<in> set xs. fst e + snd e < s" and ys: "\<forall>e \<in> set ys. s + l < fst e" using ok by (auto simp: ranges_ok_append apart_def)
  have u: "units fr - {s..<s + c} = units fr1 \<union> {s + c..<s + l}"
    using xs ys c by (fastforce simp: units_def rs 1(3) covers_def)
  show thesis
  proof (cases "c < l")
    case True
    have w: "wrapping_add s c = s + c" using ok c by (simp add: ranges_ok_append)
    obtain fr' where "fr_insert fr1 (s + c) (l - c) = Some fr'" "fr_inv fr'" "units fr' = units fr1 \<union> {s + c..<s + c + (l - c)}"
      by (rule fr_insert_inv [OF 1(2,3), of "l - c" "s + c"]) (use True ok xs ys in \<open>fastforce simp: ranges_ok_append\<close>)+
    then show thesis using that True 1(1) w u by (simp add: fr_take_def)
  next
    case False
    then show thesis using that [of fr1] 1 c u by (simp add: fr_take_def)
  qed
qed

text \<open>One turn of the loop of \<open>exclude\<close> on the last range before the end: what is left of it on both sides is inserted again.\<close>

lemma exclude_step:
  assumes inv: "fr_inv fr" and rs: "fr_by_address fr = zs @ (p, l) # ys" and b: "a \<le> b" "b < usize_limit" "p < b" "a < p + l"
  obtains fr1 fr2 fr3 where "fr_remove fr p = Some (l, fr1)"
    "(if p + l > b then fr_insert fr1 b (p + l - b) else Some fr1) = Some fr2"
    "(if p < a then fr_insert fr2 p (a - p) else Some fr2) = Some fr3"
    "fr_inv fr3" "units fr3 = units fr - {p..<p + l} \<inter> {a..<b}"
proof -
  have ok: "ranges_ok (zs @ (p, l) # ys)" using inv rs by (simp add: fr_inv_def)
  then have pl: "0 < l" "p + l < usize_limit" "\<forall>e \<in> set zs. fst e + snd e < p" "\<forall>e \<in> set ys. p + l < fst e"
    by (auto simp: ranges_ok_append apart_def)
  obtain fr1 where 1: "fr_remove fr p = Some (l, fr1)" "fr_inv fr1" "fr_by_address fr1 = zs @ ys" by (rule fr_remove_inv [OF inv rs])
  have u: "units fr = units fr1 \<union> {p..<p + l}" by (auto simp: units_def rs 1(3))
  have dj: "units fr1 \<inter> {p..<p + l} = {}" using pl(3,4) by (fastforce simp: units_def 1(3) covers_def)
  obtain fr2 where 2: "(if p + l > b then fr_insert fr1 b (p + l - b) else Some fr1) = Some fr2" "fr_inv fr2"
    "units fr2 = units fr1 \<union> {b..<p + l}"
  proof (cases "p + l > b")
    case True
    have "units fr1 \<inter> {b..<b + (p + l - b)} = {}" using dj b(3) True by auto
    then show thesis using fr_insert_disjoint [OF 1(2), of "p + l - b" b] True pl(2) that by auto
  qed (use 1(2) that [of fr1] in simp)
  obtain fr3 where 3: "(if p < a then fr_insert fr2 p (a - p) else Some fr2) = Some fr3" "fr_inv fr3"
    "units fr3 = units fr2 \<union> {p..<a}"
  proof (cases "p < a")
    case True
    have "units fr2 \<inter> {p..<p + (a - p)} = {}" using dj b(1,4) True unfolding 2(3) by auto
    then show thesis using fr_insert_disjoint [OF 2(2), of "a - p" p] True b that by auto
  qed (use 2(2) that [of fr2] in simp)
  have "units fr3 = units fr - {p..<p + l} \<inter> {a..<b}" unfolding 3(3) 2(3) u using dj b by auto
  then show thesis using that 1(1) 2(1) 3(1,2) by blast
qed

lemma fr_exclude_loop_inv:
  assumes "fr_inv fr" and "a < b" and "b < usize_limit"
  shows "\<exists>fr'. exclude_loop fr a b = Some fr' \<and> fr_inv fr' \<and> units fr' = units fr - {a..<b}"
  using assms(1)
proof (induction "card (units fr \<inter> {a..<b})" arbitrary: fr rule: less_induct)
  case less
  have ok: "ranges_ok (fr_by_address fr)" using less.prems by (simp add: fr_inv_def)
  then obtain xs ys where rs: "fr_by_address fr = xs @ ys" "\<forall>e \<in> set xs. fst e < b" "\<forall>e \<in> set ys. b \<le> fst e"
    unfolding ranges_ok_def by (metis split_at)
  note low = btree_split(1) [OF rs(2,3)]
  show ?case
  proof (cases "\<exists>zs p l. xs = zs @ [(p, l)] \<and> a < p + l")
    case False
    have "units fr \<inter> {a..<b} = {}" "xs = [] \<or> fst (last xs) + snd (last xs) \<le> a \<and> fst (last xs) + snd (last xs) < usize_limit"
    proof -
      have "fst e + snd e \<le> a" if "e \<in> set xs" for e
        using False that ok rs(1) by (cases xs rule: rev_cases) (fastforce simp: ranges_ok_append apart_def not_less)+
      then show "units fr \<inter> {a..<b} = {}" using rs by (fastforce simp: units_def covers_def)
      show "xs = [] \<or> fst (last xs) + snd (last xs) \<le> a \<and> fst (last xs) + snd (last xs) < usize_limit"
        using False ok rs(1) by (cases xs rule: rev_cases) (auto simp: ranges_ok_append not_less)
    qed
    then show ?thesis using less.prems low rs(1) by (intro exI [of _ fr]) (auto simp: exclude_loop.simps split: prod.splits)
  next
    case True
    then obtain zs p l where x: "xs = zs @ [(p, l)]" "a < p + l" by blast
    then have p: "p < b" "0 < l" "p + l < usize_limit" using rs ok by (auto simp: ranges_ok_append)
    obtain fr1 fr2 fr3 where 1: "fr_remove fr p = Some (l, fr1)" "(if p + l > b then fr_insert fr1 b (p + l - b) else Some fr1) = Some fr2"
      "(if p < a then fr_insert fr2 p (a - p) else Some fr2) = Some fr3" "fr_inv fr3" "units fr3 = units fr - {p..<p + l} \<inter> {a..<b}"
      using exclude_step [OF less.prems, of zs p l ys a b] rs(1) x assms(2,3) p(1) by auto
    have "max a p \<in> units fr \<inter> {a..<b}" using rs(1) x p assms(2) by (auto simp: units_def)
    moreover have "max a p \<notin> units fr - {p..<p + l} \<inter> {a..<b}" using x p assms(2) by auto
    ultimately have "units fr3 \<inter> {a..<b} \<subset> units fr \<inter> {a..<b}" unfolding 1(5) by blast
    then have "card (units fr3 \<inter> {a..<b}) < card (units fr \<inter> {a..<b})" by (intro psubset_card_mono) auto
    then obtain fr' where "exclude_loop fr3 a b = Some fr'" "fr_inv fr'" "units fr' = units fr3 - {a..<b}"
      using less.hyps 1(4) by blast
    moreover have "exclude_loop fr a b = exclude_loop fr3 a b"
    proof -
      have "exclude_loop fr a b = do {
          fr \<leftarrow> (if wrapping_add p l > b then fr_insert fr1 b (wrapping_add p l - b) else Some fr1);
          fr \<leftarrow> (if p < a then fr_insert fr p (a - p) else Some fr);
          exclude_loop fr a b}"
        using 1(1) low rs(1) x p(3) by (subst exclude_loop.simps) (simp add: Let_def split del: if_split)
      then show ?thesis unfolding wrapping_add_small [OF p(3)] 1(2) bind.bind_lunit 1(3) .
    qed
    moreover have "units fr3 - {a..<b} = units fr - {a..<b}" unfolding 1(5) by blast
    ultimately show ?thesis by metis
  qed
qed

lemma fr_exclude_inv:
  assumes "fr_inv fr" and "0 < c" and "s + c < usize_limit"
  obtains fr' where "fr_exclude fr s c = Some fr'" "fr_inv fr'" "units fr' = units fr - {s..<s + c}"
  using fr_exclude_loop_inv [OF assms(1), of s "s + c"] assms(2,3) by (auto simp: fr_exclude_def)

lemma fr_find_inv:
  assumes "fr_inv fr"
  shows "fr_find fr c = Some s \<Longrightarrow> \<exists>l. (s, l) \<in> set (fr_by_address fr) \<and> c \<le> l \<and> (\<forall>r \<in> set (fr_by_address fr). c \<le> snd r \<longrightarrow> l \<le> snd r)"
    and "fr_find fr c = None \<Longrightarrow> \<forall>r \<in> set (fr_by_address fr). snd r < c"
proof -
  have set: "set (fr_by_size fr) = prod.swap ` set (fr_by_address fr)" and sorted: "sorted_wrt (<) (fr_by_size fr)"
    using assms by (simp_all add: fr_inv_def)
  have le: "(c, 0) \<le> (l, s) \<longleftrightarrow> c \<le> l" for l s :: nat by (auto simp: less_eq_prod_def)
  show "\<forall>r \<in> set (fr_by_address fr). snd r < c" if "fr_find fr c = None"
  proof
    fix r assume "r \<in> set (fr_by_address fr)"
    then have "prod.swap r \<in> set (fr_by_size fr)" using set by simp
    moreover have "List.find (\<lambda>e. (c, 0) \<le> e) (fr_by_size fr) = None" using that by (simp add: fr_find_def)
    ultimately have "\<not> (c, 0) \<le> prod.swap r" unfolding find_None_iff by blast
    then show "snd r < c" by (cases r) (simp add: le)
  qed
  assume "fr_find fr c = Some s"
  then obtain l where "List.find (\<lambda>e. (c, 0) \<le> e) (fr_by_size fr) = Some (l, s)" by (auto simp: fr_find_def)
  then obtain i where i: "i < length (fr_by_size fr)" "fr_by_size fr ! i = (l, s)" "(c, 0) \<le> (l, s)" "\<forall>j<i. \<not> (c, 0) \<le> fr_by_size fr ! j"
    unfolding find_Some_iff by metis
  have "(s, l) \<in> set (fr_by_address fr)" using set i(1,2) by (metis (mono_tags, lifting) imageE nth_mem prod.swap_def swap_simp swap_swap)
  moreover have "l \<le> snd r" if "r \<in> set (fr_by_address fr)" "c \<le> snd r" for r
  proof -
    have "prod.swap r \<in> set (fr_by_size fr)" using set that(1) by simp
    then obtain j where j: "j < length (fr_by_size fr)" "fr_by_size fr ! j = prod.swap r" by (auto simp: in_set_conv_nth)
    have "\<not> j < i" using i(4) j(2) that(2) by (cases r) (auto simp: le)
    then have "fr_by_size fr ! i \<le> fr_by_size fr ! j" using sorted j(1) by (cases "i = j") (auto simp: sorted_wrt_iff_nth_less less_imp_le)
    then show ?thesis using i(2) j(2) by (cases r) (auto simp: less_eq_prod_def)
  qed
  ultimately show "\<exists>l. (s, l) \<in> set (fr_by_address fr) \<and> c \<le> l \<and> (\<forall>r \<in> set (fr_by_address fr). c \<le> snd r \<longrightarrow> l \<le> snd r)"
    using i(3) by (auto simp: le)
qed

text \<open>Because ranges never touch, a run of free units lies in one range.\<close>

lemma run_in_range:
  assumes "ranges_ok rs" and "0 < c" and "{s..<s + c} \<subseteq> covers rs"
  shows "\<exists>r \<in> set rs. {s..<s + c} \<subseteq> {fst r..<fst r + snd r}"
  using assms(2,3)
proof (induction c)
  case (Suc c)
  show ?case
  proof (cases "c = 0")
    case True
    then have "s \<in> covers rs" using Suc.prems by auto
    then obtain r where "r \<in> set rs" "s \<in> {fst r..<fst r + snd r}" by (auto simp: covers_def)
    then show ?thesis using True by (intro bexI [of _ r]) auto
  next
    case False
    have "{s..<s + c} \<subseteq> {s..<s + Suc c}" by auto
    with Suc False obtain r where r: "r \<in> set rs" "{s..<s + c} \<subseteq> {fst r..<fst r + snd r}" by (meson neq0_conv subset_trans)
    have "s + c \<in> covers rs" using Suc.prems(2) by auto
    then obtain r' where r': "r' \<in> set rs" "s + c \<in> {fst r'..<fst r' + snd r'}" by (auto simp: covers_def)
    have last: "s + c - 1 \<in> {fst r..<fst r + snd r}" using r(2) False by auto
    have "r = r' \<or> apart r r' \<or> apart r' r" using assms(1) r(1) r'(1)
      by (metis in_set_conv_nth linorder_neqE_nat ranges_ok_def sorted_wrt_iff_nth_less)
    then have "r = r'" using r'(2) last False by (auto simp: apart_def)
    then show ?thesis using r r' by (intro bexI [of _ r]) auto
  qed
qed simp

text \<open>
  An empty exclusion strictly inside a free range takes the range out and puts its two halves back, which merge
  again: the loop goes round for ever.
\<close>

lemma exclude_round:
  assumes inv: "fr_inv fr" and a: "0 < a" "a - 1 \<in> units fr" "a \<in> units fr"
  obtains p l fr1 fr2 fr3 where "btree_below a (fr_by_address fr) = Some (p, l)" "\<not> wrapping_add p l \<le> a" "fr_remove fr p = Some (l, fr1)"
    "(if wrapping_add p l > a then fr_insert fr1 a (wrapping_add p l - a) else Some fr1) = Some fr2"
    "(if p < a then fr_insert fr2 p (a - p) else Some fr2) = Some fr3" "fr_inv fr3" "units fr3 = units fr"
proof -
  have ok: "ranges_ok (fr_by_address fr)" using inv by (simp add: fr_inv_def)
  have "{a - 1..<a - 1 + 2} = {a - 1, a}" using a(1) by auto
  then have "{a - 1..<a - 1 + 2} \<subseteq> covers (fr_by_address fr)" using a by (simp add: units_def)
  then obtain r where r: "r \<in> set (fr_by_address fr)" "{a - 1..<a - 1 + 2} \<subseteq> {fst r..<fst r + snd r}"
    using run_in_range [OF ok, of 2 "a - 1"] by auto
  obtain p l where pl: "r = (p, l)" by force
  have "a - 1 \<in> {p..<p + l}" "a \<in> {p..<p + l}" using r(2) pl \<open>{a - 1..<a - 1 + 2} = {a - 1, a}\<close> by auto
  then have lt: "p < a" "a < p + l" using a(1) by auto
  obtain xs ys where rs: "fr_by_address fr = xs @ (p, l) # ys" using r(1) pl by (auto dest: split_list)
  have o: "\<forall>e \<in> set xs. fst e + snd e < p" "\<forall>e \<in> set ys. p + l < fst e" "p + l < usize_limit" using ok rs by (auto simp: ranges_ok_append apart_def)
  have "\<forall>e \<in> set (xs @ [(p, l)]). fst e < a" "\<forall>e \<in> set ys. a \<le> fst e" using o lt by auto
  from btree_split(1) [OF this] have below: "btree_below a (fr_by_address fr) = Some (p, l)" by (simp add: rs)
  obtain fr1 fr2 fr3 where "fr_remove fr p = Some (l, fr1)" "(if p + l > a then fr_insert fr1 a (p + l - a) else Some fr1) = Some fr2"
    "(if p < a then fr_insert fr2 p (a - p) else Some fr2) = Some fr3" "fr_inv fr3" "units fr3 = units fr"
    using exclude_step [OF inv rs order_refl _ lt] lt o(3) by auto
  then show thesis using that [OF below, of fr1 fr2 fr3] lt o(3) by simp
qed

lemma exclude_diverges:
  assumes "exclude_loop fr a b = Some fr'"
  shows "\<not> (fr_inv fr \<and> a = b \<and> 0 < a \<and> a - 1 \<in> units fr \<and> a \<in> units fr)"
proof (rule exclude_loop.raw_induct [OF _ assms])
  fix loop and fr fr' :: free_ranges and a b :: nat
  assume IH: "\<And>fr a b fr'. loop fr a b = Some fr' \<Longrightarrow> \<not> (fr_inv fr \<and> a = b \<and> 0 < a \<and> a - 1 \<in> units fr \<and> a \<in> units fr)"
    and body: "(case btree_below b (fr_by_address fr) of
        None \<Rightarrow> Some fr
      | Some (base, len) \<Rightarrow>
          let range_end = wrapping_add base len in
          if range_end \<le> a then Some fr
          else do {
            (c, fr) \<leftarrow> fr_remove fr base;
            fr \<leftarrow> (if range_end > b then fr_insert fr b (range_end - b) else Some fr);
            fr \<leftarrow> (if base < a then fr_insert fr base (a - base) else Some fr);
            loop fr a b}) = Some fr'"
  show "\<not> (fr_inv fr \<and> a = b \<and> 0 < a \<and> a - 1 \<in> units fr \<and> a \<in> units fr)"
  proof
    assume *: "fr_inv fr \<and> a = b \<and> 0 < a \<and> a - 1 \<in> units fr \<and> a \<in> units fr"
    then have b: "b = a" by simp
    obtain p l fr1 fr2 fr3 where r: "btree_below a (fr_by_address fr) = Some (p, l)" "\<not> wrapping_add p l \<le> a" "fr_remove fr p = Some (l, fr1)"
      "(if wrapping_add p l > a then fr_insert fr1 a (wrapping_add p l - a) else Some fr1) = Some fr2"
      "(if p < a then fr_insert fr2 p (a - p) else Some fr2) = Some fr3" "fr_inv fr3" "units fr3 = units fr"
      using exclude_round [of fr a] * by metis
    have "loop fr3 a a = Some fr'"
      using body unfolding b r(1) option.case prod.case Let_def by (simp only: r(2,3,4,5) if_False prod.case Option.bind.bind_lunit)
    then show False using IH [of fr3 a a fr'] * r(6,7) by metis
  qed
qed

lemma exclude_nothing:
  assumes inv: "fr_inv fr" and "\<not> (0 < a \<and> a - 1 \<in> units fr \<and> a \<in> units fr)"
  shows "exclude_loop fr a a = Some fr"
proof -
  have ok: "ranges_ok (fr_by_address fr)" using inv by (simp add: fr_inv_def)
  then obtain xs ys where rs: "fr_by_address fr = xs @ ys" "\<forall>e \<in> set xs. fst e < a" "\<forall>e \<in> set ys. a \<le> fst e"
    unfolding ranges_ok_def by (metis split_at)
  have "fst e + snd e \<le> a \<and> fst e + snd e < usize_limit" if "e \<in> set xs" for e
  proof -
    have "{fst e..<fst e + snd e} \<subseteq> units fr" using that by (auto simp: units_def rs(1) covers_def)
    moreover have "fst e < a" "fst e + snd e < usize_limit" using that rs ok by (auto simp: ranges_ok_def)
    moreover have "a - 1 \<in> {fst e..<fst e + snd e}" "a \<in> {fst e..<fst e + snd e}" if "a < fst e + snd e" using that \<open>fst e < a\<close> by auto
    moreover have "0 < a" using \<open>fst e < a\<close> by simp
    ultimately show ?thesis using assms(2) by (meson not_le_imp_less subsetD)
  qed
  then show ?thesis using btree_split(1) [OF rs(2,3)] rs(1) by (cases xs rule: rev_cases) (auto simp: exclude_loop.simps split: prod.splits)
qed

lemma fr_best_fit_inv:
  assumes inv: "fr_inv fr" and c: "0 < c"
  shows "case fr_find fr c of
      Some s \<Rightarrow> {s..<s + c} \<subseteq> units fr \<and> (\<exists>fr'. fr_take fr s c = Some fr' \<and> fr_inv fr' \<and> units fr' = units fr - {s..<s + c})
    | None \<Rightarrow> \<forall>s. \<not> {s..<s + c} \<subseteq> units fr"
proof (cases "fr_find fr c")
  case None
  have ok: "ranges_ok (fr_by_address fr)" using inv by (simp add: fr_inv_def)
  have "False" if run: "{s..<s + c} \<subseteq> units fr" for s
  proof -
    obtain r where r: "r \<in> set (fr_by_address fr)" "{s..<s + c} \<subseteq> {fst r..<fst r + snd r}"
      using run_in_range [OF ok c run [unfolded units_def]] by blast
    have "card {s..<s + c} \<le> card {fst r..<fst r + snd r}" using r(2) by (intro card_mono) auto
    then show False using fr_find_inv(2) [OF inv None] r(1) by auto
  qed
  then show ?thesis using None by auto
next
  case (Some s)
  then obtain l where l: "(s, l) \<in> set (fr_by_address fr)" "c \<le> l" using fr_find_inv(1) [OF inv] by blast
  then have "{s..<s + l} \<subseteq> units fr" by (fastforce simp: units_def covers_def)
  moreover have "{s..<s + c} \<subseteq> {s..<s + l}" using l(2) by auto
  moreover obtain fr' where "fr_take fr s c = Some fr'" "fr_inv fr'" "units fr' = units fr - {s..<s + c}"
    by (rule fr_take_inv [OF inv l(1) c l(2)])
  ultimately show ?thesis using Some by (simp only: option.case) blast
qed

section \<open>Properties\<close>

text \<open>The states that the operations reach, with the set of units that are free.\<close>

inductive free_run :: "free_ranges \<Rightarrow> nat set \<Rightarrow> bool" where
  free_start: "free_run fr_default {}"
| free_insert: "free_run fr U \<Longrightarrow> 0 < c \<Longrightarrow> s + c < usize_limit \<Longrightarrow> U \<inter> {s..<s + c} = {} \<Longrightarrow> fr_insert fr s c = Some fr' \<Longrightarrow>
    free_run fr' (U \<union> {s..<s + c})"
| free_take: "free_run fr U \<Longrightarrow> 0 < c \<Longrightarrow> fr_find fr c = Some s \<Longrightarrow> fr_take fr s c = Some fr' \<Longrightarrow> free_run fr' (U - {s..<s + c})"
| free_exclude: "free_run fr U \<Longrightarrow> 0 < c \<Longrightarrow> s + c < usize_limit \<Longrightarrow> fr_exclude fr s c = Some fr' \<Longrightarrow> free_run fr' (U - {s..<s + c})"

lemma free_run_inv: "free_run fr U \<Longrightarrow> fr_inv fr \<and> units fr = U"
proof (induction rule: free_run.induct)
  case (free_insert fr U c s fr')
  then show ?case using fr_insert_disjoint [of fr c s] by (metis option.inject)
next
  case (free_take fr U c s fr')
  then show ?case using fr_best_fit_inv [of fr c] by auto
next
  case (free_exclude fr U c s fr')
  then show ?case using fr_exclude_inv [of fr c s] by (metis option.inject)
qed simp

text \<open>
  C39: The free ranges are an exact best fit allocator. In every state the operations reach, looking for \<open>c\<close> units
  finds the start of \<open>c\<close> consecutive free units whenever such a run exists anywhere, because ranges that touch
  are always merged, and the range it picks is one of the smallest that fit; taking them, inserting a range of
  units that are not free, and excluding any range all return (no \<open>unwrap\<close> fails and the loop of \<open>exclude\<close> ends)
  and change the set of free units by exactly that range.
\<close>

theorem free_ranges_best_fit:
  assumes "free_run fr U" and "0 < c"
  shows "(case fr_find fr c of
       Some s \<Rightarrow> {s..<s + c} \<subseteq> U \<and> (\<exists>fr'. fr_take fr s c = Some fr' \<and> units fr' = U - {s..<s + c}) \<and>
         (\<exists>l. (s, l) \<in> set (fr_by_address fr) \<and> (\<forall>r \<in> set (fr_by_address fr). c \<le> snd r \<longrightarrow> l \<le> snd r))
     | None \<Rightarrow> \<forall>s. \<not> {s..<s + c} \<subseteq> U) \<and>
    (\<forall>s. s + c < 2 ^ 64 \<longrightarrow> U \<inter> {s..<s + c} = {} \<longrightarrow> (\<exists>fr'. fr_insert fr s c = Some fr' \<and> units fr' = U \<union> {s..<s + c})) \<and>
    (\<forall>s. s + c < 2 ^ 64 \<longrightarrow> (\<exists>fr'. fr_exclude fr s c = Some fr' \<and> units fr' = U - {s..<s + c}))"
proof -
  have inv: "fr_inv fr" and U: "units fr = U" using free_run_inv [OF assms(1)] by auto
  have "\<exists>fr'. fr_insert fr s c = Some fr' \<and> units fr' = U \<union> {s..<s + c}" if "s + c < 2 ^ 64" "U \<inter> {s..<s + c} = {}" for s
    by (rule fr_insert_disjoint [OF inv assms(2), of s]) (use that U in \<open>auto simp: usize_limit_def\<close>)
  moreover have "\<exists>fr'. fr_exclude fr s c = Some fr' \<and> units fr' = U - {s..<s + c}" if "s + c < 2 ^ 64" for s
    by (rule fr_exclude_inv [OF inv assms(2), of s]) (use that U in \<open>auto simp: usize_limit_def\<close>)
  moreover have "case fr_find fr c of
       Some s \<Rightarrow> {s..<s + c} \<subseteq> U \<and> (\<exists>fr'. fr_take fr s c = Some fr' \<and> units fr' = U - {s..<s + c}) \<and>
         (\<exists>l. (s, l) \<in> set (fr_by_address fr) \<and> (\<forall>r \<in> set (fr_by_address fr). c \<le> snd r \<longrightarrow> l \<le> snd r))
     | None \<Rightarrow> \<forall>s. \<not> {s..<s + c} \<subseteq> U"
  proof (cases "fr_find fr c")
    case (Some s)
    then obtain l where "(s, l) \<in> set (fr_by_address fr) \<and> (\<forall>r \<in> set (fr_by_address fr). c \<le> snd r \<longrightarrow> l \<le> snd r)"
      using fr_find_inv(1) [OF inv] by blast
    then show ?thesis using fr_best_fit_inv [OF inv assms(2)] Some U by (simp only: option.case) blast
  qed (use fr_best_fit_inv [OF inv assms(2)] U in simp)
  ultimately show ?thesis by blast
qed

theorem free_ranges_best_fit_witness:
  "\<exists>fr fr1 fr2 fr3. fr_insert fr_default 10 4 = Some fr1 \<and> fr_insert fr1 20 2 = Some fr2 \<and> fr_insert fr2 14 6 = Some fr3 \<and>
    fr_find fr2 3 = Some 10 \<and> fr_find fr3 12 = Some 10 \<and> fr_take fr3 10 12 = Some fr \<and> units fr = {}"
proof -
  have 1: "fr_insert fr_default 10 4 = Some \<lparr>fr_by_address = [(10, 4)], fr_by_size = [(4, 10)]\<rparr>" (is "_ = Some ?fr1")
    by (simp add: fr_insert_def merge_below_def merge_above_def btree_below_def btree_from_def btree_insert_def btree_remove_def bset_insert_def fr_remove_def wrapping_add_def usize_limit_def fr_default_def)
  have 2: "fr_insert ?fr1 20 2 = Some \<lparr>fr_by_address = [(10, 4), (20, 2)], fr_by_size = [(2, 20), (4, 10)]\<rparr>" (is "_ = Some ?fr2")
    by (simp add: fr_insert_def merge_below_def merge_above_def btree_below_def btree_from_def btree_insert_def btree_remove_def bset_insert_def fr_remove_def wrapping_add_def usize_limit_def fr_default_def)
  have 3: "fr_insert ?fr2 14 6 = Some \<lparr>fr_by_address = [(10, 12)], fr_by_size = [(12, 10)]\<rparr>" (is "_ = Some ?fr3")
    by (simp add: fr_insert_def merge_below_def merge_above_def btree_below_def btree_from_def btree_insert_def btree_remove_def bset_insert_def fr_remove_def wrapping_add_def usize_limit_def fr_default_def)
  have r1: "free_run ?fr1 ({} \<union> {10..<10 + 4})" by (rule free_insert [OF free_start _ _ _ 1]) (simp_all add: usize_limit_def)
  have r2: "free_run ?fr2 ({} \<union> {10..<10 + 4} \<union> {20..<20 + 2})" by (rule free_insert [OF r1 _ _ _ 2]) (auto simp: usize_limit_def)
  have r3: "free_run ?fr3 ({} \<union> {10..<10 + 4} \<union> {20..<20 + 2} \<union> {14..<14 + 6})" by (rule free_insert [OF r2 _ _ _ 3]) (auto simp: usize_limit_def)
  have U: "{} \<union> {10..<10 + 4} \<union> {20..<20 + 2} \<union> {14..<14 + 6} = {10..<22::nat}" by auto
  have f: "fr_find ?fr2 3 = Some 10" "fr_find ?fr3 12 = Some 10" by (simp_all add: fr_find_def)
  have "\<exists>fr'. fr_take ?fr3 10 12 = Some fr' \<and> units fr' = {10..<22} - {10..<10 + 12}"
    using free_ranges_best_fit [OF r3 [unfolded U], of 12] f(2) by simp
  then show ?thesis using 1 2 3 f by auto
qed

text \<open>
  C40: Exactly when \<open>exclude\<close> ends. In every state the operations reach, excluding \<open>c\<close> units from \<open>s\<close> returns unless
  \<open>c\<close> is zero and \<open>s\<close> lies strictly inside a run of free units; there the loop splits the range into two halves
  that merge again and never ends. The callers pass a page count they have checked to be positive.
\<close>

theorem exclude_terminates_iff:
  assumes "free_run fr U" and "s + c < 2 ^ 64"
  shows "fr_exclude fr s c = None \<longleftrightarrow> c = 0 \<and> 0 < s \<and> s - 1 \<in> U \<and> s \<in> U"
proof (cases "c = 0")
  case True
  have inv: "fr_inv fr" "units fr = U" using free_run_inv [OF assms(1)] by auto
  have "fr_exclude fr s c = exclude_loop fr s s" using True assms(2) by (simp add: fr_exclude_def usize_limit_def)
  moreover have "exclude_loop fr s s \<noteq> None" if "\<not> (0 < s \<and> s - 1 \<in> U \<and> s \<in> U)" using exclude_nothing [OF inv(1), of s] that inv(2) by simp
  moreover have "exclude_loop fr s s = None" if "0 < s \<and> s - 1 \<in> U \<and> s \<in> U"
    using exclude_diverges [of fr s s] that inv by (cases "exclude_loop fr s s") auto
  ultimately show ?thesis using True by metis
next
  case False
  have inv: "fr_inv fr" using free_run_inv [OF assms(1)] by simp
  show ?thesis by (rule fr_exclude_inv [OF inv, of c s]) (use False assms(2) in \<open>auto simp: usize_limit_def\<close>)
qed

theorem exclude_terminates_iff_witness:
  "\<exists>fr. fr_insert fr_default 10 4 = Some fr \<and> fr_exclude fr 12 0 = None \<and> fr_exclude fr 10 0 \<noteq> None \<and> fr_exclude fr 12 1 \<noteq> None"
proof -
  have 1: "fr_insert fr_default 10 4 = Some \<lparr>fr_by_address = [(10, 4)], fr_by_size = [(4, 10)]\<rparr>" (is "_ = Some ?fr")
    by (simp add: fr_insert_def merge_below_def merge_above_def btree_below_def btree_from_def btree_insert_def btree_remove_def bset_insert_def fr_default_def)
  have r: "free_run ?fr ({} \<union> {10..<10 + 4})" by (rule free_insert [OF free_start _ _ _ 1]) (simp_all add: usize_limit_def)
  show ?thesis using 1 exclude_terminates_iff [OF r, of 12 0] exclude_terminates_iff [OF r, of 10 0] exclude_terminates_iff [OF r, of 12 1] by simp
qed

end
