(* ===== verification/Process_Manager.thy ===== *)
theory Process_Manager
  imports Physical_Allocations Vm_Space Process_Image Root_Slots Free_Ranges
begin

text \<open>
  The process manager (\<open>process.rs\<close> and the methods of \<open>process/shared_memory.rs\<close>): the table of processes, the
  root slots, affinities, interrupts and port ranges they hold, their address spaces, lazy mappings and
  physical allocations, and the reservation of heap and shared memory. Process identifiers, slots, addresses
  and counts are \<open>usize\<close> values as natural numbers; descriptors and exit codes are words. \<open>None\<close> is a panic. A
  mutable reference that a method returns is the place it refers to.
\<close>

section \<open>Sorted vectors\<close>

text \<open>
  \<open>binary_search_by_key\<close> on a sorted vector: \<open>Inr\<close> the index of the key, \<open>Inl\<close> the index where it would be
  inserted; \<open>insert\<close>, \<open>remove\<close> and \<open>swap_remove\<close> of a vector at an index in range.
\<close>

definition binary_search_by_key :: "('a \<Rightarrow> nat) \<Rightarrow> 'a list \<Rightarrow> nat \<Rightarrow> nat + nat" where
  "binary_search_by_key key xs k =
     (case first_index (\<lambda>x. key x = k) xs of
        Some i \<Rightarrow> Inr i
      | None \<Rightarrow> Inl (length (takeWhile (\<lambda>x. key x < k) xs)))"

definition vec_insert :: "nat \<Rightarrow> 'a \<Rightarrow> 'a list \<Rightarrow> 'a list" where
  "vec_insert i x xs = take i xs @ x # drop i xs"

definition vec_remove :: "nat \<Rightarrow> 'a list \<Rightarrow> 'a list" where
  "vec_remove i xs = take i xs @ drop (i + 1) xs"

definition vec_swap_remove :: "nat \<Rightarrow> 'a list \<Rightarrow> 'a list" where
  "vec_swap_remove i xs = butlast (xs[i := last xs])"

section \<open>Data\<close>

definition PROCESS_ROOT_SLOT_BASE :: nat where "PROCESS_ROOT_SLOT_BASE = 200"
definition MAX_IO_RANGES_PER_PROCESS :: nat where "MAX_IO_RANGES_PER_PROCESS = 16"
definition MAX_IRQS_PER_PROCESS :: nat where "MAX_IRQS_PER_PROCESS = 8"
definition A9N_CPU_COUNT_MAX :: nat where "A9N_CPU_COUNT_MAX = 64"
definition INVALID_IRQ :: machine_word where "INVALID_IRQ = - 1"
definition USER_PAGE_SIZE :: nat where "USER_PAGE_SIZE = 4096"

record io_port_range =
  io_min :: machine_word
  io_max :: machine_word

definition empty_io_range :: io_port_range where
  "empty_io_range = \<lparr>io_min = 0, io_max = 0\<rparr>"

record process_entry =
  pe_root_types :: root_slot_types
  pe_used :: bool
  pe_pid :: nat
  pe_reaper_pid :: nat
  pe_memory_owner :: nat
  pe_deferred_vm_reap :: bool
  pe_root_slot :: nat
  pe_root_node :: machine_word
  pe_pcb :: machine_word
  pe_address_space :: machine_word
  pe_os_port :: machine_word
  pe_os_port_identifier :: machine_word
  pe_affinity :: nat
  pe_platform_information_access :: bool
  pe_service_admin :: bool
  pe_resource_quarantined :: bool
  pe_irq_count :: nat
  pe_irq_numbers :: "machine_word list"
  pe_io_range_count :: nat
  pe_io_ranges :: "io_port_range list"
  pe_next_frame_slot :: nat
  pe_user_heap_next_va :: nat
  pe_user_heap_limit_va :: nat
  pe_exited :: bool
  pe_exit_is_ok :: machine_word
  pe_exit_code :: machine_word

record process_statistics =
  st_running :: nat
  st_exited :: nat

record process_vm_space =
  pv_pid :: nat
  pv_space :: vm_space

record process_frame_chunk =
  fc_pid :: nat
  fc_chunk_index :: nat

datatype lazy_mapping_kind = ImageMapping "byte list" elf_image | ZeroMapping

record lazy_mapping =
  lm_base_va :: nat
  lm_page_count :: nat
  lm_start_slot :: nat
  lm_kind :: lazy_mapping_kind

record lazy_mapping_entry =
  le_pid :: nat
  le_mapping :: lazy_mapping

record shared_memory_reservation =
  rs_base_va :: nat
  rs_start_slot :: nat
  rs_page_count :: nat

record shared_memory_space =
  ss_slots :: free_ranges
  ss_pages :: free_ranges
  ss_active :: "(nat \<times> shared_memory_reservation) list"

definition shared_space_default :: shared_memory_space where
  "shared_space_default = \<lparr>ss_slots = fr_default, ss_pages = fr_default, ss_active = []\<rparr>"

record process_manager =
  pm_alpha_entry :: process_entry
  pm_alpha_vm_space :: bootstrap_vm_space
  pm_next_pid :: nat
  pm_online_core_count :: nat
  pm_next_affinity :: nat
  pm_root_slot_limit :: nat
  pm_reserved_root_slots :: "nat list"
  pm_entries :: "process_entry list"
  pm_used_root_slots :: "nat list"
  pm_vm_spaces :: "process_vm_space list"
  pm_frame_chunks :: "process_frame_chunk list"
  pm_physical_allocations :: physical_allocations
  pm_deferred_allocations :: physical_allocations
  pm_shared_memory :: "nat \<rightharpoonup> shared_memory_space"
  pm_lazy_mappings :: "lazy_mapping_entry list"

text \<open>A reference to an entry: the entry of Alpha or one of the vector.\<close>

datatype entry_ref = AlphaEntry | EntryAt nat

fun entry_at :: "process_manager \<Rightarrow> entry_ref \<Rightarrow> process_entry" where
  "entry_at pm AlphaEntry = pm_alpha_entry pm"
| "entry_at pm (EntryAt i) = pm_entries pm ! i"

fun put_entry :: "process_manager \<Rightarrow> entry_ref \<Rightarrow> process_entry \<Rightarrow> process_manager" where
  "put_entry pm AlphaEntry e = pm\<lparr>pm_alpha_entry := e\<rparr>"
| "put_entry pm (EntryAt i) e = pm\<lparr>pm_entries := (pm_entries pm)[i := e]\<rparr>"

section \<open>The table of processes\<close>

definition new_entry ::
  "root_slot_types \<Rightarrow> nat \<Rightarrow> nat \<Rightarrow> nat \<Rightarrow> machine_word \<Rightarrow> machine_word \<Rightarrow> machine_word \<Rightarrow> machine_word \<Rightarrow> machine_word \<Rightarrow>
   nat \<Rightarrow> nat \<Rightarrow> nat \<Rightarrow> nat \<Rightarrow> process_entry" where
  "new_entry types pid reaper root_slot root_node pcb address_space os_port os_port_identifier affinity
     next_frame_slot heap_next heap_limit =
   \<lparr>pe_root_types = types, pe_used = True, pe_pid = pid, pe_reaper_pid = reaper, pe_memory_owner = pid,
    pe_deferred_vm_reap = False, pe_root_slot = root_slot, pe_root_node = root_node, pe_pcb = pcb,
    pe_address_space = address_space, pe_os_port = os_port, pe_os_port_identifier = os_port_identifier,
    pe_affinity = affinity, pe_platform_information_access = False, pe_service_admin = False,
    pe_resource_quarantined = False, pe_irq_count = 0, pe_irq_numbers = replicate MAX_IRQS_PER_PROCESS INVALID_IRQ,
    pe_io_range_count = 0, pe_io_ranges = replicate MAX_IO_RANGES_PER_PROCESS empty_io_range,
    pe_next_frame_slot = next_frame_slot, pe_user_heap_next_va = heap_next, pe_user_heap_limit_va = heap_limit,
    pe_exited = False, pe_exit_is_ok = 0, pe_exit_code = 0\<rparr>"

definition new_alpha ::
  "machine_word \<Rightarrow> machine_word \<Rightarrow> machine_word \<Rightarrow> machine_word \<Rightarrow> nat \<Rightarrow> nat list \<Rightarrow> nat \<Rightarrow> process_manager cap_result" where
  "new_alpha root_node address_space pcb os_port root_slot_limit reserved_root_slots online_core_count =
     (if \<not> (1 \<le> online_core_count \<and> online_core_count \<le> A9N_CPU_COUNT_MAX) then Inl InvalidArgument
      else Inr \<lparr>pm_alpha_entry = new_entry root_empty 0 0 0 root_node pcb address_space os_port 0 0 0 0 0,
        pm_alpha_vm_space = bootstrap_new, pm_next_pid = 1, pm_online_core_count = online_core_count,
        pm_next_affinity = (if online_core_count > 1 then 1 else 0), pm_root_slot_limit = root_slot_limit,
        pm_reserved_root_slots = reserved_root_slots, pm_entries = [], pm_used_root_slots = [], pm_vm_spaces = [],
        pm_frame_chunks = [], pm_physical_allocations = allocations_new, pm_deferred_allocations = allocations_new,
        pm_shared_memory = Map.empty, pm_lazy_mappings = []\<rparr>)"

definition entry_mut_by_pid :: "process_manager \<Rightarrow> nat \<Rightarrow> entry_ref option" where
  "entry_mut_by_pid pm pid =
     (if pid = 0 then Some AlphaEntry
      else case binary_search_by_key pe_pid (pm_entries pm) pid of
          Inl i \<Rightarrow> None
        | Inr i \<Rightarrow> if pe_used (pm_entries pm ! i) then Some (EntryAt i) else None)"

definition find_entry_by_pid :: "process_manager \<Rightarrow> nat \<Rightarrow> process_entry option" where
  "find_entry_by_pid pm pid =
     (if pid = 0 \<and> pe_used (pm_alpha_entry pm) then Some (pm_alpha_entry pm)
      else case binary_search_by_key pe_pid (pm_entries pm) pid of
          Inl i \<Rightarrow> None
        | Inr i \<Rightarrow> if pe_used (pm_entries pm ! i) then Some (pm_entries pm ! i) else None)"

definition memory_owner_pid :: "process_manager \<Rightarrow> nat \<Rightarrow> nat" where
  "memory_owner_pid pm pid = (case find_entry_by_pid pm pid of None \<Rightarrow> pid | Some e \<Rightarrow> pe_memory_owner e)"

definition memory_entry :: "process_manager \<Rightarrow> nat \<Rightarrow> process_entry option" where
  "memory_entry pm pid = find_entry_by_pid pm (memory_owner_pid pm pid)"

text \<open>\<open>let entry = self.entry_mut_by_pid(pid).ok_or(..)?; entry.field = ..; Ok(())\<close>.\<close>

definition modify_entry ::
  "process_manager \<Rightarrow> nat \<Rightarrow> (process_entry \<Rightarrow> process_entry) \<Rightarrow> unit cap_result \<times> process_manager" where
  "modify_entry pm pid f =
     (case entry_mut_by_pid pm pid of
        None \<Rightarrow> (Inl InvalidArgument, pm)
      | Some r \<Rightarrow> (Inr (), put_entry pm r (f (entry_at pm r))))"

definition set_platform_information_access :: "process_manager \<Rightarrow> nat \<Rightarrow> bool \<Rightarrow> unit cap_result \<times> process_manager" where
  "set_platform_information_access pm pid allowed =
     modify_entry pm pid (\<lambda>e. e\<lparr>pe_platform_information_access := allowed\<rparr>)"

definition set_service_admin :: "process_manager \<Rightarrow> nat \<Rightarrow> bool \<Rightarrow> unit cap_result \<times> process_manager" where
  "set_service_admin pm pid allowed = modify_entry pm pid (\<lambda>e. e\<lparr>pe_service_admin := allowed\<rparr>)"

definition quarantine_resources :: "process_manager \<Rightarrow> nat \<Rightarrow> unit cap_result \<times> process_manager" where
  "quarantine_resources pm pid = modify_entry pm pid (\<lambda>e. e\<lparr>pe_resource_quarantined := True\<rparr>)"

definition mark_exited ::
  "process_manager \<Rightarrow> nat \<Rightarrow> machine_word \<Rightarrow> machine_word \<Rightarrow> unit cap_result \<times> process_manager" where
  "mark_exited pm pid is_ok exit_code =
     modify_entry pm pid (\<lambda>e. e\<lparr>pe_exited := True, pe_exit_is_ok := is_ok, pe_exit_code := exit_code\<rparr>)"

definition share_address_space :: "process_manager \<Rightarrow> nat \<Rightarrow> nat \<Rightarrow> unit cap_result \<times> process_manager" where
  "share_address_space pm pid source =
     (let owner = memory_owner_pid pm source in modify_entry pm pid (\<lambda>e. e\<lparr>pe_memory_owner := owner\<rparr>))"

definition defer_vm_reap :: "process_manager \<Rightarrow> nat \<Rightarrow> process_manager" where
  "defer_vm_reap pm pid =
     (case entry_mut_by_pid pm pid of
        Some r \<Rightarrow> put_entry pm r ((entry_at pm r)\<lparr>pe_deferred_vm_reap := True\<rparr>)
      | None \<Rightarrow> pm)"

definition root_types_mut :: "process_manager \<Rightarrow> nat \<Rightarrow> entry_ref cap_result" where
  "root_types_mut pm pid =
     (case entry_mut_by_pid pm pid of
        Some r \<Rightarrow> if pid \<noteq> 0 \<and> \<not> pe_exited (entry_at pm r) then Inr r else Inl PermissionDenied
      | None \<Rightarrow> Inl PermissionDenied)"

definition has_memory_peers :: "process_manager \<Rightarrow> nat \<Rightarrow> bool" where
  "has_memory_peers pm pid =
     (let owner = memory_owner_pid pm pid
      in list_ex (\<lambda>e. pe_pid e \<noteq> pid \<and> pe_memory_owner e = owner) (pm_entries pm))"

definition all_entries :: "process_manager \<Rightarrow> process_entry list" where
  "all_entries pm = filter pe_used (pm_alpha_entry pm # pm_entries pm)"

definition statistics :: "process_manager \<Rightarrow> process_statistics" where
  "statistics pm =
     fold (\<lambda>e st.
         if \<not> pe_used e then st
         else if pe_exited e then st\<lparr>st_exited := st_exited st + 1\<rparr>
         else st\<lparr>st_running := st_running st + 1\<rparr>)
       (pm_entries pm) \<lparr>st_running = 0, st_exited = 0\<rparr>"

definition install_process ::
  "process_manager \<Rightarrow> nat \<Rightarrow> nat \<Rightarrow> nat \<Rightarrow> machine_word \<Rightarrow> machine_word \<Rightarrow> machine_word \<Rightarrow> machine_word \<Rightarrow> machine_word \<Rightarrow>
   nat \<Rightarrow> nat \<Rightarrow> nat \<Rightarrow> nat \<Rightarrow> unit cap_result \<times> process_manager" where
  "install_process pm pid reaper_pid root_slot root_node pcb address_space os_port os_port_identifier affinity
     next_frame_slot heap_next heap_limit =
   (let entry = new_entry root_native pid reaper_pid root_slot root_node pcb address_space os_port os_port_identifier
          affinity next_frame_slot heap_next heap_limit
    in if pid = 0 then (Inr (), pm\<lparr>pm_alpha_entry := entry\<rparr>)
       else case binary_search_by_key pe_pid (pm_entries pm) pid of
           Inr i \<Rightarrow> (Inr (), pm\<lparr>pm_entries := (pm_entries pm)[i := entry]\<rparr>)
         | Inl i \<Rightarrow> (Inr (), pm\<lparr>pm_entries := vec_insert i entry (pm_entries pm)\<rparr>))"

section \<open>Root slots, affinities\<close>

definition is_root_slot_reserved :: "process_manager \<Rightarrow> nat \<Rightarrow> bool" where
  "is_root_slot_reserved pm slot = list_ex (\<lambda>reserved. reserved = slot) (pm_reserved_root_slots pm)"

function alloc_slot_from :: "process_manager \<Rightarrow> nat \<Rightarrow> (nat \<times> nat) cap_result \<times> process_manager" where
  "alloc_slot_from pm slot =
     (if slot < pm_root_slot_limit pm then
        if \<not> is_root_slot_reserved pm slot \<and> slot \<notin> set (pm_used_root_slots pm) then
          let pm = pm\<lparr>pm_used_root_slots := pm_used_root_slots pm @ [slot]\<rparr>;
              pid = pm_next_pid pm
          in case checked_add (pm_next_pid pm) 1 of
              None \<Rightarrow> (Inl InvalidArgument, pm)
            | Some following \<Rightarrow> (Inr (pid, slot), pm\<lparr>pm_next_pid := following\<rparr>)
        else alloc_slot_from pm (slot + 1)
      else (Inl InvalidArgument, pm))"
  by auto
termination by (relation "measure (\<lambda>(pm, slot). pm_root_slot_limit pm - slot)") auto

definition alloc_process_slot :: "process_manager \<Rightarrow> (nat \<times> nat) cap_result \<times> process_manager" where
  "alloc_process_slot pm = alloc_slot_from pm PROCESS_ROOT_SLOT_BASE"

definition release_process_slot_reservation :: "process_manager \<Rightarrow> nat \<Rightarrow> process_manager" where
  "release_process_slot_reservation pm root_slot =
     (case first_index (\<lambda>slot. slot = root_slot) (pm_used_root_slots pm) of
        Some i \<Rightarrow> pm\<lparr>pm_used_root_slots := vec_swap_remove i (pm_used_root_slots pm)\<rparr>
      | None \<Rightarrow> pm)"

definition allocate_affinity :: "bool \<Rightarrow> process_manager \<Rightarrow> nat \<times> process_manager" where
  "allocate_affinity same_core_diagnostic pm =
     (if same_core_diagnostic \<or> pm_online_core_count pm \<le> 1 then (0, pm)
      else
        let affinity = (if pm_next_affinity pm = 0 \<or> pm_next_affinity pm \<ge> pm_online_core_count pm then 1 else pm_next_affinity pm);
            following = affinity + 1
        in (affinity, pm\<lparr>pm_next_affinity := (if following \<ge> pm_online_core_count pm then 1 else following)\<rparr>))"

definition active_core_mask :: "process_manager \<Rightarrow> machine_word" where
  "active_core_mask pm =
     fold (\<lambda>e mask. if pe_used e \<and> \<not> pe_exited e \<and> pe_affinity e < 64 then mask OR push_bit (pe_affinity e) 1 else mask)
       (pm_entries pm)
       (if pe_used (pm_alpha_entry pm) \<and> \<not> pe_exited (pm_alpha_entry pm)
        then push_bit (pe_affinity (pm_alpha_entry pm) mod 64) 1 else 0)"

section \<open>Interrupts and port ranges\<close>

function irq_held_from :: "process_entry \<Rightarrow> machine_word \<Rightarrow> nat \<Rightarrow> bool option" where
  "irq_held_from e irq_number i =
     (if i < pe_irq_count e then
        if i < length (pe_irq_numbers e) then
          if pe_irq_numbers e ! i = irq_number then Some True else irq_held_from e irq_number (i + 1)
        else None
      else Some False)"
  by auto
termination by (relation "measure (\<lambda>(e, irq_number, i). pe_irq_count e - i)") auto

definition has_irq_number :: "process_entry \<Rightarrow> machine_word \<Rightarrow> bool option" where
  "has_irq_number e irq_number = irq_held_from e irq_number 0"

definition has_irq :: "process_entry \<Rightarrow> bool" where
  "has_irq e \<longleftrightarrow> pe_irq_count e > 0"

text \<open>The loop over the other processes; \<open>&&\<close> only looks at the interrupts of a used entry.\<close>

fun irq_held_by_other :: "process_entry list \<Rightarrow> nat \<Rightarrow> machine_word \<Rightarrow> bool option" where
  "irq_held_by_other [] pid irq_number = Some False"
| "irq_held_by_other (e # es) pid irq_number =
     (if pe_used e \<and> pe_pid e \<noteq> pid then do {
        held \<leftarrow> has_irq_number e irq_number;
        if held then Some True else irq_held_by_other es pid irq_number}
      else irq_held_by_other es pid irq_number)"

definition assign_irq_to_pid :: "process_manager \<Rightarrow> nat \<Rightarrow> machine_word \<Rightarrow> (unit cap_result \<times> process_manager) option" where
  "assign_irq_to_pid pm pid irq_number = do {
     alpha \<leftarrow> irq_held_by_other [pm_alpha_entry pm] pid irq_number;
     if alpha then Some (Inl PermissionDenied, pm)
     else do {
       other \<leftarrow> irq_held_by_other (pm_entries pm) pid irq_number;
       if other then Some (Inl PermissionDenied, pm)
       else case entry_mut_by_pid pm pid of
           None \<Rightarrow> Some (Inl InvalidArgument, pm)
         | Some r \<Rightarrow> do {
             held \<leftarrow> has_irq_number (entry_at pm r) irq_number;
             if held then Some (Inr (), pm)
             else if pe_irq_count (entry_at pm r) \<ge> MAX_IRQS_PER_PROCESS then Some (Inl PermissionDenied, pm)
             else do {
               numbers \<leftarrow> array_set (pe_irq_numbers (entry_at pm r)) (pe_irq_count (entry_at pm r)) irq_number;
               Some (Inr (), put_entry pm r ((entry_at pm r)
                 \<lparr>pe_irq_numbers := numbers, pe_irq_count := pe_irq_count (entry_at pm r) + 1\<rparr>))}}}}"

function unassign_irq_from :: "process_entry \<Rightarrow> machine_word \<Rightarrow> nat \<Rightarrow> process_entry option option" where
  "unassign_irq_from e irq_number j =
     (if j < pe_irq_count e then
        if j < length (pe_irq_numbers e) then
          if pe_irq_numbers e ! j = irq_number then
            let final = pe_irq_count e - 1
            in if final < length (pe_irq_numbers e)
               then Some (Some (e\<lparr>pe_irq_numbers := (pe_irq_numbers e)[j := pe_irq_numbers e ! final, final := INVALID_IRQ],
                      pe_irq_count := pe_irq_count e - 1\<rparr>))
               else None
          else unassign_irq_from e irq_number (j + 1)
        else None
      else Some None)"
  by auto
termination by (relation "measure (\<lambda>(e, irq_number, j). pe_irq_count e - j)") auto

definition unassign_irq_from_pid :: "process_manager \<Rightarrow> nat \<Rightarrow> machine_word \<Rightarrow> (unit cap_result \<times> process_manager) option" where
  "unassign_irq_from_pid pm pid irq_number =
     (case entry_mut_by_pid pm pid of
        None \<Rightarrow> Some (Inl InvalidArgument, pm)
      | Some r \<Rightarrow> do {
          found \<leftarrow> unassign_irq_from (entry_at pm r) irq_number 0;
          case found of
            None \<Rightarrow> Some (Inl InvalidArgument, pm)
          | Some e \<Rightarrow> Some (Inr (), put_entry pm r e)})"

function io_overlap_from :: "process_entry \<Rightarrow> machine_word \<Rightarrow> machine_word \<Rightarrow> nat \<Rightarrow> bool option" where
  "io_overlap_from e lo hi k =
     (if k < pe_io_range_count e then
        if k < length (pe_io_ranges e) then
          if \<not> (hi < io_min (pe_io_ranges e ! k) \<or> io_max (pe_io_ranges e ! k) < lo) then Some True
          else io_overlap_from e lo hi (k + 1)
        else None
      else Some False)"
  by auto
termination by (relation "measure (\<lambda>(e, lo, hi, k). pe_io_range_count e - k)") auto

definition add_io_range_to_pid ::
  "process_manager \<Rightarrow> nat \<Rightarrow> machine_word \<Rightarrow> machine_word \<Rightarrow> (unit cap_result \<times> process_manager) option" where
  "add_io_range_to_pid pm pid lo hi =
     (if lo > hi then Some (Inl InvalidArgument, pm)
      else case entry_mut_by_pid pm pid of
          None \<Rightarrow> Some (Inl InvalidArgument, pm)
        | Some r \<Rightarrow>
            if pe_io_range_count (entry_at pm r) \<ge> MAX_IO_RANGES_PER_PROCESS then Some (Inl InvalidArgument, pm)
            else do {
              overlaps \<leftarrow> io_overlap_from (entry_at pm r) lo hi 0;
              if overlaps then Some (Inl PermissionDenied, pm)
              else do {
                ranges \<leftarrow> array_set (pe_io_ranges (entry_at pm r)) (pe_io_range_count (entry_at pm r)) \<lparr>io_min = lo, io_max = hi\<rparr>;
                Some (Inr (), put_entry pm r ((entry_at pm r)
                  \<lparr>pe_io_ranges := ranges, pe_io_range_count := pe_io_range_count (entry_at pm r) + 1\<rparr>))}})"

section \<open>Address spaces and lazy mappings\<close>

definition vm_space_mut :: "process_manager \<Rightarrow> nat \<Rightarrow> nat option" where
  "vm_space_mut pm pid =
     (case binary_search_by_key pv_pid (pm_vm_spaces pm) (memory_owner_pid pm pid) of Inl i \<Rightarrow> None | Inr i \<Rightarrow> Some i)"

definition ensure_vm_space_for_pid :: "process_manager \<Rightarrow> nat \<Rightarrow> unit cap_result \<times> process_manager" where
  "ensure_vm_space_for_pid pm pid =
     (if pid = 0 then (Inr (), pm)
      else case binary_search_by_key pv_pid (pm_vm_spaces pm) pid of
          Inl i \<Rightarrow> (Inr (), pm\<lparr>pm_vm_spaces := vec_insert i \<lparr>pv_pid = pid, pv_space = vm_new\<rparr> (pm_vm_spaces pm)\<rparr>)
        | Inr i \<Rightarrow> (Inr (), pm))"

definition has_frame_chunk :: "process_manager \<Rightarrow> nat \<Rightarrow> nat \<Rightarrow> bool" where
  "has_frame_chunk pm pid chunk_index =
     (let pid = memory_owner_pid pm pid
      in list_ex (\<lambda>c. fc_pid c = pid \<and> fc_chunk_index c = chunk_index) (pm_frame_chunks pm))"

definition register_frame_chunk :: "process_manager \<Rightarrow> nat \<Rightarrow> nat \<Rightarrow> unit cap_result \<times> process_manager" where
  "register_frame_chunk pm pid chunk_index =
     (let pid = memory_owner_pid pm pid
      in if has_frame_chunk pm pid chunk_index then (Inr (), pm)
         else (Inr (), pm\<lparr>pm_frame_chunks := pm_frame_chunks pm @ [\<lparr>fc_pid = pid, fc_chunk_index = chunk_index\<rparr>]\<rparr>))"

definition register_lazy_mapping ::
  "process_manager \<Rightarrow> nat \<Rightarrow> nat \<Rightarrow> nat \<Rightarrow> nat \<Rightarrow> lazy_mapping_kind \<Rightarrow> unit cap_result \<times> process_manager" where
  "register_lazy_mapping pm pid base_va page_count start_slot kind =
     (let pid = memory_owner_pid pm pid
      in if pid = 0 \<or> page_count = 0 then (Inl InvalidArgument, pm)
         else (Inr (), pm\<lparr>pm_lazy_mappings := pm_lazy_mappings pm @
           [\<lparr>le_pid = pid, le_mapping =
             \<lparr>lm_base_va = base_va, lm_page_count = page_count, lm_start_slot = start_slot, lm_kind = kind\<rparr>\<rparr>]\<rparr>))"

text \<open>The loop of \<open>find_lazy_mapping\<close>: an end that overflows ends the search.\<close>

fun lazy_mapping_in :: "lazy_mapping_entry list \<Rightarrow> nat \<Rightarrow> nat \<Rightarrow> lazy_mapping option" where
  "lazy_mapping_in [] pid va = None"
| "lazy_mapping_in (le # les) pid va =
     (if le_pid le \<noteq> pid then lazy_mapping_in les pid va
      else do {
        bytes \<leftarrow> checked_mul (lm_page_count (le_mapping le)) USER_PAGE_SIZE;
        end_va \<leftarrow> checked_add (lm_base_va (le_mapping le)) bytes;
        if lm_base_va (le_mapping le) \<le> va \<and> va < end_va then Some (le_mapping le)
        else lazy_mapping_in les pid va})"

definition find_lazy_mapping :: "process_manager \<Rightarrow> nat \<Rightarrow> nat \<Rightarrow> lazy_mapping option" where
  "find_lazy_mapping pm pid va = lazy_mapping_in (pm_lazy_mappings pm) (memory_owner_pid pm pid) va"

fun is_image :: "lazy_mapping_kind \<Rightarrow> bool" where
  "is_image (ImageMapping img elf) = True"
| "is_image ZeroMapping = False"

definition drop_image_lazy_mappings_for_pid :: "process_manager \<Rightarrow> nat \<Rightarrow> process_manager" where
  "drop_image_lazy_mappings_for_pid pm pid =
     pm\<lparr>pm_lazy_mappings := filter (\<lambda>le. le_pid le \<noteq> pid \<or> \<not> is_image (lm_kind (le_mapping le))) (pm_lazy_mappings pm)\<rparr>"

section \<open>Physical allocations\<close>

definition register_physical_allocation ::
  "process_manager \<Rightarrow> nat \<Rightarrow> nat \<Rightarrow> nat \<Rightarrow> nat \<Rightarrow> nat \<Rightarrow> (unit cap_result \<times> process_manager) option" where
  "register_physical_allocation pm pid base_va start_slot base_page page_count =
     (let pid = memory_owner_pid pm pid
      in if pid = 0 \<or> page_count = 0 then Some (Inl InvalidArgument, pm)
         else do {
           a \<leftarrow> allocations_insert (pm_physical_allocations pm) (of_nat pid)
             \<lparr>pa_base_va = of_nat base_va, pa_start_slot = of_nat start_slot, pa_base_page = of_nat base_page, pa_page_count = of_nat page_count\<rparr>;
           Some (Inr (), pm\<lparr>pm_physical_allocations := a\<rparr>)})"

text \<open>\<open>for_pid(pid).filter(..).collect()\<close> with a filter that reads the reference counts.\<close>

fun keep_counted :: "(process_allocation \<Rightarrow> nat option) \<Rightarrow> process_allocation list \<Rightarrow> process_allocation list option" where
  "keep_counted count_of [] = Some []"
| "keep_counted count_of (a # as) = do {
     n \<leftarrow> count_of a;
     rest \<leftarrow> keep_counted count_of as;
     Some (if n = 1 then a # rest else rest)}"

definition releasable_physical_allocations_for_pid :: "process_manager \<Rightarrow> nat \<Rightarrow> process_allocation list option" where
  "releasable_physical_allocations_for_pid pm pid = do {
     as \<leftarrow> for_pid (pm_physical_allocations pm) (of_nat pid);
     keep_counted (reference_count (pm_physical_allocations pm)) as}"

definition releasable_deferred_physical_allocations_for_pid :: "process_manager \<Rightarrow> nat \<Rightarrow> process_allocation list option" where
  "releasable_deferred_physical_allocations_for_pid pm pid = do {
     as \<leftarrow> for_pid (pm_deferred_allocations pm) (of_nat pid);
     keep_counted (\<lambda>a. do {
       c \<leftarrow> reference_count (pm_physical_allocations pm) a;
       d \<leftarrow> reference_count (pm_deferred_allocations pm) a;
       Some (c + d)}) as}"

definition drop_physical_allocations_for_pid :: "process_manager \<Rightarrow> nat \<Rightarrow> process_manager option" where
  "drop_physical_allocations_for_pid pm pid = do {
     (r, a) \<leftarrow> remove_pid (pm_physical_allocations pm) (of_nat pid);
     (r, d) \<leftarrow> remove_pid (pm_deferred_allocations pm) (of_nat pid);
     Some (pm\<lparr>pm_shared_memory := (pm_shared_memory pm)(pid := None), pm_physical_allocations := a, pm_deferred_allocations := d\<rparr>)}"

definition defer_physical_allocation_for_pid :: "process_manager \<Rightarrow> nat \<Rightarrow> process_allocation \<Rightarrow> process_manager option" where
  "defer_physical_allocation_for_pid pm pid allocation = do {
     d \<leftarrow> allocations_insert (pm_deferred_allocations pm) (of_nat (memory_owner_pid pm pid)) allocation;
     Some (pm\<lparr>pm_deferred_allocations := d\<rparr>)}"

definition take_deferred_physical_allocation ::
  "process_manager \<Rightarrow> nat \<Rightarrow> nat \<Rightarrow> nat \<Rightarrow> (process_allocation option \<times> process_manager) option" where
  "take_deferred_physical_allocation pm pid base_va page_count = do {
     (r, d) \<leftarrow> allocations_take (pm_deferred_allocations pm) (of_nat (memory_owner_pid pm pid)) (of_nat base_va) (of_nat page_count);
     Some (map_option fst r, pm\<lparr>pm_deferred_allocations := d\<rparr>)}"

definition drop_deferred_physical_allocations_for_pid :: "process_manager \<Rightarrow> nat \<Rightarrow> process_manager option" where
  "drop_deferred_physical_allocations_for_pid pm pid = do {
     (r, d) \<leftarrow> remove_pid (pm_deferred_allocations pm) (of_nat pid);
     Some (pm\<lparr>pm_deferred_allocations := d\<rparr>)}"

definition find_active_physical_allocation_reference ::
  "process_manager \<Rightarrow> nat \<Rightarrow> nat \<Rightarrow> nat \<Rightarrow> process_allocation option option" where
  "find_active_physical_allocation_reference pm pid base_va page_count =
     allocations_find (pm_physical_allocations pm) (of_nat (memory_owner_pid pm pid)) (of_nat base_va) (of_nat page_count)"

definition release_physical_allocation_reference ::
  "process_manager \<Rightarrow> nat \<Rightarrow> nat \<Rightarrow> nat \<Rightarrow> ((process_allocation \<times> bool) cap_result \<times> process_manager) option" where
  "release_physical_allocation_reference pm pid base_va page_count = do {
     (r, a) \<leftarrow> allocations_take (pm_physical_allocations pm) (of_nat (memory_owner_pid pm pid)) (of_nat base_va) (of_nat page_count);
     Some (case r of None \<Rightarrow> Inl InvalidArgument | Some x \<Rightarrow> Inr x, pm\<lparr>pm_physical_allocations := a\<rparr>)}"

section \<open>Exec and reaping\<close>

definition reset_runtime_memory_for_exec ::
  "process_manager \<Rightarrow> nat \<Rightarrow> nat \<Rightarrow> nat \<Rightarrow> nat \<Rightarrow> ((process_allocation \<times> bool) list cap_result \<times> process_manager) option" where
  "reset_runtime_memory_for_exec pm pid next_frame_slot heap_next heap_limit =
     (case entry_mut_by_pid pm pid of
        None \<Rightarrow> Some (Inl InvalidArgument, pm)
      | Some r \<Rightarrow>
          let pm = put_entry pm r ((entry_at pm r)\<lparr>pe_next_frame_slot := next_frame_slot, pe_user_heap_next_va := heap_next,
                pe_user_heap_limit_va := heap_limit, pe_exited := False, pe_exit_is_ok := 0, pe_exit_code := 0\<rparr>);
              pm = pm\<lparr>pm_lazy_mappings := filter (\<lambda>le. le_pid le \<noteq> pid) (pm_lazy_mappings pm),
                pm_shared_memory := (pm_shared_memory pm)(pid := None)\<rparr>;
              pm = (case vm_space_mut pm pid of
                  Some i \<Rightarrow> pm\<lparr>pm_vm_spaces := (pm_vm_spaces pm)[i := (pm_vm_spaces pm ! i)\<lparr>pv_space := vm_new\<rparr>]\<rparr>
                | None \<Rightarrow> pm)
          in do {
            (allocations, a) \<leftarrow> remove_pid (pm_physical_allocations pm) (of_nat pid);
            Some (Inr allocations, pm\<lparr>pm_physical_allocations := a\<rparr>)})"

text \<open>What \<open>discard_process_artifacts\<close> and \<open>reap_process\<close> drop of a process besides its entry and root slot.\<close>

definition drop_process_memory :: "process_manager \<Rightarrow> nat \<Rightarrow> process_manager option" where
  "drop_process_memory pm pid =
     (let pm = (case binary_search_by_key pv_pid (pm_vm_spaces pm) pid of
            Inr i \<Rightarrow> pm\<lparr>pm_vm_spaces := vec_remove i (pm_vm_spaces pm)\<rparr>
          | Inl i \<Rightarrow> pm)
      in drop_physical_allocations_for_pid
          (pm\<lparr>pm_frame_chunks := filter (\<lambda>c. fc_pid c \<noteq> pid) (pm_frame_chunks pm),
             pm_lazy_mappings := filter (\<lambda>le. le_pid le \<noteq> pid) (pm_lazy_mappings pm)\<rparr>) pid)"

definition discard_process_artifacts :: "process_manager \<Rightarrow> nat \<Rightarrow> nat \<Rightarrow> process_manager option" where
  "discard_process_artifacts pm pid root_slot = drop_process_memory (release_process_slot_reservation pm root_slot) pid"

definition reap_process :: "process_manager \<Rightarrow> nat \<Rightarrow> bool \<Rightarrow> (unit cap_result \<times> process_manager) option" where
  "reap_process pm pid release_root_slot =
     (if pid = 0 then Some (Inl PermissionDenied, pm)
      else case binary_search_by_key pe_pid (pm_entries pm) pid of
          Inl i \<Rightarrow> Some (Inl InvalidArgument, pm)
        | Inr i \<Rightarrow>
            let e = pm_entries pm ! i
            in if \<not> pe_used e then Some (Inl InvalidArgument, pm)
               else if \<not> pe_exited e then Some (Inl IllegalOperation, pm)
               else if pe_resource_quarantined e then Some (Inl Fatal, pm)
               else
                 let pm = pm\<lparr>pm_entries := vec_remove i (pm_entries pm)\<rparr>;
                     pm = (if release_root_slot then release_process_slot_reservation pm (pe_root_slot e) else pm)
                 in do {
                   pm \<leftarrow> drop_process_memory pm pid;
                   Some (Inr (), pm)})"

section \<open>Heap and shared memory\<close>

definition reserve_process_heap ::
  "process_manager \<Rightarrow> nat \<Rightarrow> nat \<Rightarrow> nat \<Rightarrow> nat \<Rightarrow> (machine_word \<times> machine_word \<times> nat \<times> nat) cap_result \<times> process_manager" where
  "reserve_process_heap pm pid page_count page_size max_frame_slots =
     (let pid = memory_owner_pid pm pid
      in if page_count = 0 \<or> page_size = 0 then (Inl InvalidArgument, pm)
         else case checked_mul page_count page_size of
             None \<Rightarrow> (Inl InvalidArgument, pm)
           | Some bytes \<Rightarrow> (case entry_mut_by_pid pm pid of
               None \<Rightarrow> (Inl InvalidArgument, pm)
             | Some r \<Rightarrow>
                 let e = entry_at pm r
                 in if wrapping_add (pe_next_frame_slot e) page_count > max_frame_slots then (Inl InvalidArgument, pm)
                    else if pe_user_heap_next_va e = 0 \<or> pe_user_heap_limit_va e \<le> pe_user_heap_next_va e then (Inl InvalidArgument, pm)
                    else case checked_add (pe_user_heap_next_va e) bytes of
                        None \<Rightarrow> (Inl InvalidArgument, pm)
                      | Some heap_end \<Rightarrow>
                          if heap_end > pe_user_heap_limit_va e then (Inl InvalidArgument, pm)
                          else (Inr (pe_root_node e, pe_address_space e, pe_user_heap_next_va e, pe_next_frame_slot e),
                            put_entry pm r (e\<lparr>pe_next_frame_slot := wrapping_add (pe_next_frame_slot e) page_count,
                              pe_user_heap_next_va := heap_end\<rparr>))))"

definition reserve_process_virtual_gap :: "process_manager \<Rightarrow> nat \<Rightarrow> nat \<Rightarrow> nat \<Rightarrow> nat cap_result \<times> process_manager" where
  "reserve_process_virtual_gap pm pid page_count page_size =
     (let pid = memory_owner_pid pm pid
      in if page_count = 0 \<or> page_size = 0 then (Inl InvalidArgument, pm)
         else case checked_mul page_count page_size of
             None \<Rightarrow> (Inl InvalidArgument, pm)
           | Some bytes \<Rightarrow> (case entry_mut_by_pid pm pid of
               None \<Rightarrow> (Inl InvalidArgument, pm)
             | Some r \<Rightarrow>
                 let e = entry_at pm r
                 in if pe_user_heap_next_va e = 0 \<or> pe_user_heap_limit_va e \<le> pe_user_heap_next_va e then (Inl InvalidArgument, pm)
                    else case checked_add (pe_user_heap_next_va e) bytes of
                        None \<Rightarrow> (Inl InvalidArgument, pm)
                      | Some gap_end \<Rightarrow>
                          if gap_end > pe_user_heap_limit_va e then (Inl InvalidArgument, pm)
                          else (Inr (pe_user_heap_next_va e), put_entry pm r (e\<lparr>pe_user_heap_next_va := gap_end\<rparr>))))"

definition exclude_shared_virtual_range :: "process_manager \<Rightarrow> nat \<Rightarrow> nat \<Rightarrow> nat \<Rightarrow> process_manager option" where
  "exclude_shared_virtual_range pm pid base_va page_count =
     (let pid = memory_owner_pid pm pid
      in case pm_shared_memory pm pid of
          None \<Rightarrow> Some pm
        | Some space \<Rightarrow> do {
            pages \<leftarrow> fr_exclude (ss_pages space) (base_va div USER_PAGE_SIZE) page_count;
            Some (pm\<lparr>pm_shared_memory := (pm_shared_memory pm)(pid \<mapsto> space\<lparr>ss_pages := pages\<rparr>)\<rparr>)})"

definition reserve_process_heap_at ::
  "process_manager \<Rightarrow> nat \<Rightarrow> nat \<Rightarrow> nat \<Rightarrow> nat \<Rightarrow> nat \<Rightarrow> ((machine_word \<times> machine_word \<times> nat) cap_result \<times> process_manager) option" where
  "reserve_process_heap_at pm pid base_va page_count page_size max_frame_slots =
     (let pid = memory_owner_pid pm pid
      in if base_va = 0 \<or> page_count = 0 \<or> page_size = 0 \<or> (base_va AND (page_size - 1)) \<noteq> 0 then Some (Inl InvalidArgument, pm)
         else case checked_mul page_count page_size of
             None \<Rightarrow> Some (Inl InvalidArgument, pm)
           | Some bytes \<Rightarrow> (case checked_add base_va bytes of
               None \<Rightarrow> Some (Inl InvalidArgument, pm)
             | Some end_va \<Rightarrow> (case entry_mut_by_pid pm pid of
                 None \<Rightarrow> Some (Inl InvalidArgument, pm)
               | Some r \<Rightarrow>
                   let e = entry_at pm r
                   in if wrapping_add (pe_next_frame_slot e) page_count > max_frame_slots then Some (Inl InvalidArgument, pm)
                      else do {
                        pm \<leftarrow> exclude_shared_virtual_range
                          (put_entry pm r (e\<lparr>pe_next_frame_slot := wrapping_add (pe_next_frame_slot e) page_count\<rparr>)) pid base_va page_count;
                        Some (Inr (pe_root_node e, pe_address_space e, pe_next_frame_slot e), pm)})))"

text \<open>The last reservation that starts before an end reaches into the range from \<open>base_va\<close>.\<close>

definition active_overlap :: "(nat \<times> shared_memory_reservation) list \<Rightarrow> nat \<Rightarrow> nat \<Rightarrow> bool" where
  "active_overlap active base_va end_va =
     (case btree_below end_va active of
        None \<Rightarrow> False
      | Some (k, r) \<Rightarrow> wrapping_add (rs_base_va r) (wrapping_mul (rs_page_count r) USER_PAGE_SIZE) > base_va)"

text \<open>Consuming the two resources of a reservation once both are validated.\<close>

definition take_pages :: "free_ranges \<Rightarrow> nat option \<Rightarrow> nat \<Rightarrow> nat \<Rightarrow> nat \<Rightarrow> free_ranges option" where
  "take_pages pages free_page requested_va base_va page_count =
     (case free_page of
        Some page \<Rightarrow> fr_take pages page page_count
      | None \<Rightarrow> if requested_va \<noteq> 0 then fr_exclude pages (base_va div USER_PAGE_SIZE) page_count else Some pages)"

definition reserve_shared_memory_at ::
  "process_manager \<Rightarrow> nat \<Rightarrow> nat \<Rightarrow> nat \<Rightarrow> nat \<Rightarrow> (shared_memory_reservation cap_result \<times> process_manager) option" where
  "reserve_shared_memory_at pm pid page_count max_frame_slots requested_va =
     (let pid = memory_owner_pid pm pid
      in case find_entry_by_pid pm pid of
          None \<Rightarrow> Some (Inl InvalidArgument, pm)
        | Some entry \<Rightarrow>
            if pid = 0 \<or> page_count = 0 \<or> (requested_va AND (USER_PAGE_SIZE - 1)) \<noteq> 0 then Some (Inl InvalidArgument, pm)
            else
              let space = (case pm_shared_memory pm pid of Some space \<Rightarrow> space | None \<Rightarrow> shared_space_default);
                  pm = pm\<lparr>pm_shared_memory := (pm_shared_memory pm)(pid \<mapsto> space)\<rparr>;
                  free_slot = fr_find (ss_slots space) page_count;
                  free_page = (if requested_va = 0 then fr_find (ss_pages space) page_count else None);
                  start_slot = (case free_slot of Some slot \<Rightarrow> slot | None \<Rightarrow> pe_next_frame_slot entry);
                  base_va = (if requested_va \<noteq> 0 then requested_va
                    else case free_page of Some page \<Rightarrow> wrapping_mul page USER_PAGE_SIZE | None \<Rightarrow> pe_user_heap_next_va entry)
              in case checked_add start_slot page_count of
                  None \<Rightarrow> Some (Inl InvalidArgument, pm)
                | Some slot_end \<Rightarrow>
                    if \<not> slot_end \<le> max_frame_slots then Some (Inl InvalidArgument, pm)
                    else case Option.bind (checked_mul page_count USER_PAGE_SIZE) (checked_add base_va) of
                        None \<Rightarrow> Some (Inl InvalidArgument, pm)
                      | Some end_va \<Rightarrow>
                          if \<not> (base_va \<noteq> 0 \<and> (requested_va \<noteq> 0 \<or> end_va \<le> pe_user_heap_limit_va entry)) then Some (Inl InvalidArgument, pm)
                          else if active_overlap (ss_active space) base_va end_va then Some (Inl IllegalOperation, pm)
                          else do {
                            slots \<leftarrow> (case free_slot of Some slot \<Rightarrow> fr_take (ss_slots space) slot page_count | None \<Rightarrow> Some (ss_slots space));
                            pages \<leftarrow> take_pages (ss_pages space) free_page requested_va base_va page_count;
                            r \<leftarrow> entry_mut_by_pid pm pid;
                            let reservation = \<lparr>rs_base_va = base_va, rs_start_slot = start_slot, rs_page_count = page_count\<rparr>;
                                pm = pm\<lparr>pm_shared_memory := (pm_shared_memory pm)(pid \<mapsto>
                                  \<lparr>ss_slots = slots, ss_pages = pages, ss_active = btree_insert base_va reservation (ss_active space)\<rparr>)\<rparr>;
                                e = entry_at pm r;
                                e = (if free_slot = None then e\<lparr>pe_next_frame_slot := slot_end\<rparr> else e);
                                e = (if free_page = None \<and> requested_va = 0 then e\<lparr>pe_user_heap_next_va := end_va\<rparr> else e)
                            in Some (Inr reservation, put_entry pm r e)})"

definition reserve_shared_memory ::
  "process_manager \<Rightarrow> nat \<Rightarrow> nat \<Rightarrow> nat \<Rightarrow> (shared_memory_reservation cap_result \<times> process_manager) option" where
  "reserve_shared_memory pm pid page_count max_frame_slots = reserve_shared_memory_at pm pid page_count max_frame_slots 0"

definition shared_memory_reservation_of :: "process_manager \<Rightarrow> nat \<Rightarrow> nat \<Rightarrow> nat \<Rightarrow> shared_memory_reservation option" where
  "shared_memory_reservation_of pm pid base_va page_count =
     (case pm_shared_memory pm (memory_owner_pid pm pid) of
        None \<Rightarrow> None
      | Some space \<Rightarrow> (case map_of (ss_active space) base_va of
          None \<Rightarrow> None
        | Some r \<Rightarrow> if rs_page_count r = page_count then Some r else None))"

definition recycle_shared_memory :: "process_manager \<Rightarrow> nat \<Rightarrow> shared_memory_reservation \<Rightarrow> process_manager option" where
  "recycle_shared_memory pm pid reservation =
     (let pid = memory_owner_pid pm pid
      in do {
        space \<leftarrow> pm_shared_memory pm pid;
        if map_of (ss_active space) (rs_base_va reservation) = Some reservation then do {
          slots \<leftarrow> fr_insert (ss_slots space) (rs_start_slot reservation) (rs_page_count reservation);
          pages \<leftarrow> fr_insert (ss_pages space) (rs_base_va reservation div USER_PAGE_SIZE) (rs_page_count reservation);
          Some (pm\<lparr>pm_shared_memory := (pm_shared_memory pm)(pid \<mapsto>
            \<lparr>ss_slots = slots, ss_pages = pages, ss_active = btree_remove (rs_base_va reservation) (ss_active space)\<rparr>)\<rparr>)}
        else None})"

end
