(* ===== verification/Process_Table.thy ===== *)
theory Process_Table
  imports Process_Manager "HOL-Library.Multiset"
begin

text \<open>
  The process table as a finite map. The vector of entries is kept in ascending order of process identifiers
  with Alpha's entry at 0 beside it, so every lookup, update, insertion and removal through binary search is a
  lookup or an update of the map \<open>table\<close>. The second part gives the invariant of the entries: arrays of fixed
  size, distinct interrupts, disjoint port ranges, and no interrupt held by two processes.
\<close>

section \<open>The table as a map\<close>

definition table :: "process_manager \<Rightarrow> nat \<rightharpoonup> process_entry" where
  "table pm pid = List.find (\<lambda>e. pe_pid e = pid) (pm_alpha_entry pm # pm_entries pm)"

definition table_wf :: "process_manager \<Rightarrow> bool" where
  "table_wf pm \<longleftrightarrow> pe_pid (pm_alpha_entry pm) = 0 \<and> sorted_wrt (<) (map pe_pid (pm_alpha_entry pm # pm_entries pm)) \<and>
     (\<forall>e \<in> set (pm_alpha_entry pm # pm_entries pm). pe_used e)"

lemma put_entry_frame [simp, frame_simps]:
  "pm_next_pid (put_entry pm r e) = pm_next_pid pm" "pm_online_core_count (put_entry pm r e) = pm_online_core_count pm"
  "pm_next_affinity (put_entry pm r e) = pm_next_affinity pm" "pm_root_slot_limit (put_entry pm r e) = pm_root_slot_limit pm"
  "pm_reserved_root_slots (put_entry pm r e) = pm_reserved_root_slots pm" "pm_used_root_slots (put_entry pm r e) = pm_used_root_slots pm"
  "pm_vm_spaces (put_entry pm r e) = pm_vm_spaces pm" "pm_frame_chunks (put_entry pm r e) = pm_frame_chunks pm"
  "pm_physical_allocations (put_entry pm r e) = pm_physical_allocations pm"
  "pm_deferred_allocations (put_entry pm r e) = pm_deferred_allocations pm"
  "pm_shared_memory (put_entry pm r e) = pm_shared_memory pm" "pm_lazy_mappings (put_entry pm r e) = pm_lazy_mappings pm"
  by (cases r; simp)+

lemma table_cong: "pm_alpha_entry pm' = pm_alpha_entry pm \<Longrightarrow> pm_entries pm' = pm_entries pm \<Longrightarrow> table pm' = table pm \<and> table_wf pm' = table_wf pm"
  by (simp add: table_def table_wf_def fun_eq_iff)

text \<open>Searching a strictly ascending vector.\<close>

lemma search_sorted:
  assumes "sorted_wrt (<) (map key xs)"
  shows "binary_search_by_key key xs k = Inr i \<longleftrightarrow> i < length xs \<and> key (xs ! i) = k"
    and "binary_search_by_key key xs k = Inl j \<longleftrightarrow> (\<forall>x \<in> set xs. key x \<noteq> k) \<and> j = length (takeWhile (\<lambda>x. key x < k) xs)"
proof -
  have inj: "i = j" if "i < length xs" "j < length xs" "key (xs ! i) = key (xs ! j)" for i j
    using assms that by (metis length_map linorder_neqE_nat nth_map order_less_irrefl sorted_wrt_nth_less)
  show "binary_search_by_key key xs k = Inr i \<longleftrightarrow> i < length xs \<and> key (xs ! i) = k"
  proof (cases "first_index (\<lambda>x. key x = k) xs")
    case None
    moreover from None have "\<forall>x \<in> set xs. key x \<noteq> k" by (simp add: first_index_None)
    ultimately show ?thesis using nth_mem by (fastforce simp: binary_search_by_key_def)
  next
    case (Some m)
    then show ?thesis using first_index_Some [OF Some] inj by (auto simp: binary_search_by_key_def)
  qed
  show "binary_search_by_key key xs k = Inl j \<longleftrightarrow> (\<forall>x \<in> set xs. key x \<noteq> k) \<and> j = length (takeWhile (\<lambda>x. key x < k) xs)"
    by (auto simp: binary_search_by_key_def first_index_None split: option.splits dest!: first_index_Some)
qed

lemma find_sorted:
  assumes "sorted_wrt (<) (map key xs)"
  shows "List.find (\<lambda>x. key x = (k :: nat)) xs = Some x \<longleftrightarrow> x \<in> set xs \<and> key x = k"
  using assms by (induction xs) auto

lemma table_wfD:
  assumes "table_wf pm"
  shows "sorted_wrt (<) (map pe_pid (pm_entries pm))" "pe_pid (pm_alpha_entry pm) = 0" "\<forall>e \<in> set (pm_entries pm). 0 < pe_pid e \<and> pe_used e"
    "pe_used (pm_alpha_entry pm)"
  using assms by (auto simp: table_wf_def)

lemma table_iff: "table_wf pm \<Longrightarrow> table pm pid = Some e \<longleftrightarrow> e \<in> set (pm_alpha_entry pm # pm_entries pm) \<and> pe_pid e = pid"
  unfolding table_def table_wf_def by (rule find_sorted) blast

lemma table_Some:
  assumes "table_wf pm" and "table pm pid = Some e"
  shows "pe_pid e = pid" "pe_used e" "e \<in> set (pm_alpha_entry pm # pm_entries pm)"
  using assms by (auto simp: table_iff table_wf_def)

lemma table_eqI:
  assumes "\<And>p x. table pm p = Some x \<longleftrightarrow> m p = Some x"
  shows "table pm = m"
proof
  show "table pm p = m p" for p by (metis assms not_None_eq)
qed

lemma find_entry_table:
  assumes wf: "table_wf pm"
  shows "find_entry_by_pid pm pid = table pm pid"
proof -
  note D = table_wfD [OF wf]
  show ?thesis
  proof (cases "pid = 0")
    case True
    then show ?thesis using D by (simp add: find_entry_by_pid_def table_def)
  next
    case False
    show ?thesis
    proof (cases "binary_search_by_key pe_pid (pm_entries pm) pid")
      case (Inl j)
      then have "\<forall>x \<in> set (pm_entries pm). pe_pid x \<noteq> pid" using search_sorted(2) [OF D(1)] by blast
      then have "table pm pid = None" using False D(2) by (auto simp: table_def find_None_iff)
      then show ?thesis using False Inl by (simp add: find_entry_by_pid_def)
    next
      case (Inr i)
      then have i: "i < length (pm_entries pm)" "pe_pid (pm_entries pm ! i) = pid" using search_sorted(1) [OF D(1)] by auto
      then have "table pm pid = Some (pm_entries pm ! i)" using table_iff [OF wf] nth_mem by auto
      then show ?thesis using table_Some(2) [OF wf] False Inr by (simp add: find_entry_by_pid_def)
    qed
  qed
qed

lemma entry_mut_find: "pe_used (pm_alpha_entry pm) \<Longrightarrow> find_entry_by_pid pm pid = map_option (entry_at pm) (entry_mut_by_pid pm pid)"
  by (auto simp: entry_mut_by_pid_def find_entry_by_pid_def split: sum.split)

lemma entry_mut_table: "table_wf pm \<Longrightarrow> map_option (entry_at pm) (entry_mut_by_pid pm pid) = table pm pid"
  using entry_mut_find [of pm pid] find_entry_table [of pm pid] table_wfD(4) [of pm] by simp

lemma entry_mut_None: "table_wf pm \<Longrightarrow> entry_mut_by_pid pm pid = None \<longleftrightarrow> table pm pid = None"
  using entry_mut_table [of pm pid] by (metis option.map_disc_iff)

lemma entry_mut_Some:
  assumes wf: "table_wf pm" and r: "entry_mut_by_pid pm pid = Some r"
  shows "table pm pid = Some (entry_at pm r)"
    and "entry_at (put_entry pm r e) r = e"
    and "pe_pid e = pid \<Longrightarrow> pe_used e \<Longrightarrow> table_wf (put_entry pm r e)"
    and "pe_pid e = pid \<Longrightarrow> pe_used e \<Longrightarrow> table (put_entry pm r e) = (table pm)(pid \<mapsto> e)"
proof -
  note D = table_wfD [OF wf]
  show T: "table pm pid = Some (entry_at pm r)" using entry_mut_table [OF wf, of pid] r by simp
  have i: "i < length (pm_entries pm) \<and> pe_pid (pm_entries pm ! i) = pid \<and> pid \<noteq> 0" if "r = EntryAt i" for i
    using r that search_sorted(1) [OF D(1), of pid i] by (auto simp: entry_mut_by_pid_def split: sum.splits if_splits)
  have a: "pid = 0" if "r = AlphaEntry" using r that by (auto simp: entry_mut_by_pid_def split: sum.splits if_splits)
  show "entry_at (put_entry pm r e) r = e" using i by (cases r) auto
  have same: "map pe_pid (pm_alpha_entry (put_entry pm r e) # pm_entries (put_entry pm r e)) = map pe_pid (pm_alpha_entry pm # pm_entries pm)"
    if "pe_pid e = pid"
  proof (cases r)
    case (EntryAt j)
    then show ?thesis using i [OF EntryAt] that list_update_id [of "map pe_pid (pm_entries pm)" j] by (simp add: map_update)
  qed (use that a D(2) in simp)
  show wf': "table_wf (put_entry pm r e)" if "pe_pid e = pid" "pe_used e"
    using wf that same [OF that(1)] a D(2) by (cases r) (auto simp: table_wf_def dest: subsetD [OF set_update_subset_insert])
  show "table (put_entry pm r e) = (table pm)(pid \<mapsto> e)" if e: "pe_pid e = pid" "pe_used e"
  proof (rule table_eqI)
    fix p x
    have "distinct (pm_entries pm)" using D(1) by (metis distinct_map strict_sorted_iff)
    then have "set (pm_alpha_entry (put_entry pm r e) # pm_entries (put_entry pm r e)) =
        insert e (set (pm_alpha_entry pm # pm_entries pm) - {entry_at pm r})"
      using i a D(2,3) by (cases r) (auto simp: set_update_distinct)
    moreover have "x = entry_at pm r" if "x \<in> set (pm_alpha_entry pm # pm_entries pm)" "pe_pid x = pid"
      using table_iff [OF wf, of pid x] that T by simp
    ultimately show "table (put_entry pm r e) p = Some x \<longleftrightarrow> ((table pm)(pid \<mapsto> e)) p = Some x"
      using e table_Some(1) [OF wf T] T by (auto simp: table_iff [OF wf' [OF e]] table_iff [OF wf] simp del: list.set)
  qed
qed

lemma split_at_index: "i < length xs \<Longrightarrow> xs = take i xs @ xs ! i # drop (i + 1) xs"
  by (simp add: id_take_nth_drop)

lemma vec_insert_sorted:
  fixes key :: "'a \<Rightarrow> nat"
  assumes s: "sorted_wrt (<) (map key xs)" and j: "binary_search_by_key key xs (key x) = Inl j"
  shows "sorted_wrt (<) (map key (vec_insert j x xs))" and "set (vec_insert j x xs) = insert x (set xs)"
proof -
  have j: "j = length (takeWhile (\<lambda>y. key y < key x) xs)" and new: "\<forall>y \<in> set xs. key y \<noteq> key x" using j by (simp_all add: search_sorted(2) [OF s])
  then have v: "vec_insert j x xs = takeWhile (\<lambda>y. key y < key x) xs @ x # dropWhile (\<lambda>y. key y < key x) xs"
    by (simp add: vec_insert_def takeWhile_eq_take [symmetric] dropWhile_eq_drop [symmetric])
  have ge: "key x \<le> key y" if "y \<in> set (dropWhile (\<lambda>y. key y < key x) xs)" for y
    using s that
  proof (induction xs)
    case (Cons a xs)
    then show ?case by (cases "key a < key x") auto
  qed simp
  define t d where "t = takeWhile (\<lambda>y. key y < key x) xs" and "d = dropWhile (\<lambda>y. key y < key x) xs"
  have xs: "xs = t @ d" by (simp add: t_def d_def)
  have t: "\<forall>y \<in> set t. key y < key x" by (auto simp: t_def dest: set_takeWhileD)
  have d: "\<forall>y \<in> set d. key x < key y"
  proof
    fix y assume y: "y \<in> set d"
    then have "y \<in> set xs" using xs by (metis UnCI set_append)
    then show "key x < key y" using ge [of y] new y by (fastforce simp: d_def)
  qed
  have v: "vec_insert j x xs = t @ x # d" using v by (simp add: t_def d_def)
  have s: "sorted_wrt (<) (map key (t @ d))" using s xs by metis
  show "sorted_wrt (<) (map key (vec_insert j x xs))" unfolding v using s t d by (auto simp: sorted_wrt_append)
  show "set (vec_insert j x xs) = insert x (set xs)" unfolding v by (subst xs) auto
qed

lemma vec_remove_sorted:
  fixes key :: "'a \<Rightarrow> nat"
  assumes s: "sorted_wrt (<) (map key xs)" and i: "i < length xs"
  shows "sorted_wrt (<) (map key (vec_remove i xs))" and "set (vec_remove i xs) = set xs - {xs ! i}"
proof -
  have "sorted_wrt (<) (map key (take i xs @ xs ! i # drop (i + 1) xs))" using s split_at_index [OF i] by simp
  then have 1: "sorted_wrt (<) (map key (take i xs @ drop (i + 1) xs))" "xs ! i \<notin> set (take i xs @ drop (i + 1) xs)"
    by (auto simp: sorted_wrt_append)
  then show "sorted_wrt (<) (map key (vec_remove i xs))" by (simp add: vec_remove_def)
  have "set xs = set (take i xs @ xs ! i # drop (i + 1) xs)" using split_at_index [OF i] by metis
  then show "set (vec_remove i xs) = set xs - {xs ! i}" using 1(2) by (auto simp: vec_remove_def)
qed

lemma install_process_table:
  assumes wf: "table_wf pm" and "pid \<noteq> 0" and "table pm pid = None"
    and e: "e = new_entry root_native pid reaper root_slot root_node pcb address_space os_port os_port_identifier affinity
    next_frame_slot heap_next heap_limit"
  obtains es where "install_process pm pid reaper root_slot root_node pcb address_space os_port os_port_identifier affinity
    next_frame_slot heap_next heap_limit = (Inr (), pm\<lparr>pm_entries := es\<rparr>)"
    "table_wf (pm\<lparr>pm_entries := es\<rparr>)" "table (pm\<lparr>pm_entries := es\<rparr>) = (table pm)(pid \<mapsto> e)"
proof -
  note D = table_wfD [OF wf]
  have e': "pe_pid e = pid" "pe_used e" by (simp_all add: e new_entry_def)
  have "\<forall>x \<in> set (pm_entries pm). pe_pid x \<noteq> pid" using assms(3) by (auto simp: table_def find_None_iff split: if_splits)
  then obtain j where j: "binary_search_by_key pe_pid (pm_entries pm) pid = Inl j" using search_sorted(2) [OF D(1)] by blast
  let ?es = "vec_insert j e (pm_entries pm)"
  note v = vec_insert_sorted [OF D(1), of e j, unfolded e'(1), OF j]
  have wf': "table_wf (pm\<lparr>pm_entries := ?es\<rparr>)" using wf v e' assms(2) D by (auto simp: table_wf_def)
  have "table (pm\<lparr>pm_entries := ?es\<rparr>) = (table pm)(pid \<mapsto> e)"
  proof (rule table_eqI)
    fix p x
    have "pe_pid x \<noteq> pid" if "x \<in> set (pm_alpha_entry pm # pm_entries pm)"
      using table_iff [OF wf, of pid x] that assms(3) by auto
    then show "table (pm\<lparr>pm_entries := ?es\<rparr>) p = Some x \<longleftrightarrow> ((table pm)(pid \<mapsto> e)) p = Some x"
      using e' by (auto simp: table_iff [OF wf'] table_iff [OF wf] v(2))
  qed
  then show thesis using that [of ?es] wf' j assms(2) by (simp add: install_process_def e Let_def)
qed

lemma remove_entry_table:
  assumes wf: "table_wf pm" and i: "binary_search_by_key pe_pid (pm_entries pm) pid = Inr i"
  shows "table_wf (pm\<lparr>pm_entries := vec_remove i (pm_entries pm)\<rparr>)"
    and "table (pm\<lparr>pm_entries := vec_remove i (pm_entries pm)\<rparr>) = (table pm)(pid := None)"
    and "table pm pid = Some (pm_entries pm ! i)" and "pid \<noteq> 0"
proof -
  note D = table_wfD [OF wf]
  have i: "i < length (pm_entries pm)" "pe_pid (pm_entries pm ! i) = pid" using i by (simp_all add: search_sorted(1) [OF D(1)])
  note v = vec_remove_sorted [OF D(1) i(1)]
  show "pid \<noteq> 0" using D(3) i nth_mem by fastforce
  show T: "table pm pid = Some (pm_entries pm ! i)" using i by (simp add: table_iff [OF wf])
  show wf': "table_wf (pm\<lparr>pm_entries := vec_remove i (pm_entries pm)\<rparr>)" using wf v by (auto simp: table_wf_def)
  show "table (pm\<lparr>pm_entries := vec_remove i (pm_entries pm)\<rparr>) = (table pm)(pid := None)"
  proof (rule table_eqI)
    fix p x
    have "x = pm_entries pm ! i" if "x \<in> set (pm_alpha_entry pm # pm_entries pm)" "pe_pid x = pid"
      using table_iff [OF wf, of pid x] that T by simp
    then show "table (pm\<lparr>pm_entries := vec_remove i (pm_entries pm)\<rparr>) p = Some x \<longleftrightarrow> ((table pm)(pid := None)) p = Some x"
      using i(2) \<open>pid \<noteq> 0\<close> D(2) by (auto simp: table_iff [OF wf'] table_iff [OF wf] v(2))
  qed
qed

section \<open>Interrupts and port ranges\<close>

definition held :: "process_entry \<Rightarrow> machine_word set" where
  "held e = set (take (pe_irq_count e) (pe_irq_numbers e))"

definition ports :: "process_entry \<Rightarrow> io_port_range list" where
  "ports e = take (pe_io_range_count e) (pe_io_ranges e)"

definition ports_apart :: "io_port_range \<Rightarrow> io_port_range \<Rightarrow> bool" where
  "ports_apart r s \<longleftrightarrow> io_max r < io_min s \<or> io_max s < io_min r"

definition entry_ok :: "process_entry \<Rightarrow> bool" where
  "entry_ok e \<longleftrightarrow> length (pe_irq_numbers e) = 8 \<and> pe_irq_count e \<le> 8 \<and> distinct (take (pe_irq_count e) (pe_irq_numbers e)) \<and>
     length (pe_io_ranges e) = 16 \<and> pe_io_range_count e \<le> 16 \<and> (\<forall>r \<in> set (ports e). io_min r \<le> io_max r) \<and> sorted_wrt ports_apart (ports e)"

definition entries_inv :: "process_manager \<Rightarrow> bool" where
  "entries_inv pm \<longleftrightarrow> table_wf pm \<and> (\<forall>pid e. table pm pid = Some e \<longrightarrow> entry_ok e) \<and>
     (\<forall>p q e f. table pm p = Some e \<longrightarrow> table pm q = Some f \<longrightarrow> p \<noteq> q \<longrightarrow> held e \<inter> held f = {})"

definition same_devices :: "process_entry \<Rightarrow> process_entry \<Rightarrow> bool" where
  "same_devices e f \<longleftrightarrow> pe_pid f = pe_pid e \<and> pe_used f = pe_used e \<and> pe_irq_count f = pe_irq_count e \<and>
     pe_irq_numbers f = pe_irq_numbers e \<and> pe_io_range_count f = pe_io_range_count e \<and> pe_io_ranges f = pe_io_ranges e"

lemma entries_inv_put:
  assumes inv: "entries_inv pm" and r: "entry_mut_by_pid pm pid = Some r" and e: "pe_pid e = pid" "pe_used e" "entry_ok e"
    and "\<And>q f. q \<noteq> pid \<Longrightarrow> table pm q = Some f \<Longrightarrow> held e \<inter> held f = {}"
  shows "entries_inv (put_entry pm r e)"
proof -
  have wf: "table_wf pm" using inv by (simp add: entries_inv_def)
  note m = entry_mut_Some [OF wf r]
  show ?thesis unfolding entries_inv_def m(4) [OF e(1,2)]
  proof (intro conjI allI impI)
    show "table_wf (put_entry pm r e)" using m(3) e by blast
    show "entry_ok f" if "((table pm)(pid \<mapsto> e)) p = Some f" for p f using that e(3) inv by (auto simp: entries_inv_def split: if_splits)
    show "held f \<inter> held g = {}" if "((table pm)(pid \<mapsto> e)) p = Some f" "((table pm)(pid \<mapsto> e)) q = Some g" "p \<noteq> q" for p q f g
      using that assms(6) inv unfolding entries_inv_def by (cases "p = pid"; cases "q = pid") (simp_all, blast+)
  qed
qed

lemma same_devicesD: "same_devices e f \<Longrightarrow> held f = held e \<and> entry_ok f = entry_ok e \<and> pe_pid f = pe_pid e \<and> pe_used f = pe_used e"
  by (simp add: same_devices_def held_def entry_ok_def ports_def)

lemma entries_inv_same:
  assumes inv: "entries_inv pm" and r: "entry_mut_by_pid pm pid = Some r" and "same_devices (entry_at pm r) e"
  shows "entries_inv (put_entry pm r e)" and "table (put_entry pm r e) = (table pm)(pid \<mapsto> e)" and "pe_pid e = pid"
proof -
  have wf: "table_wf pm" using inv by (simp add: entries_inv_def)
  have T: "table pm pid = Some (entry_at pm r)" by (rule entry_mut_Some(1) [OF wf r])
  note s = same_devicesD [OF assms(3)] and t = table_Some(1,2) [OF wf T]
  show "pe_pid e = pid" using s t by simp
  show "table (put_entry pm r e) = (table pm)(pid \<mapsto> e)" using entry_mut_Some(4) [OF wf r, of e] s t by simp
  show "entries_inv (put_entry pm r e)"
  proof (rule entries_inv_put [OF inv r])
    show "held e \<inter> held f = {}" if "q \<noteq> pid" "table pm q = Some f" for q f
      using inv T that s unfolding entries_inv_def by metis
  qed (use s t T inv in \<open>auto simp: entries_inv_def\<close>)
qed

declare irq_held_from.simps [simp del] unassign_irq_from.simps [simp del] io_overlap_from.simps [simp del] alloc_slot_from.simps [simp del]

lemma has_irq_eq:
  assumes "entry_ok e"
  shows "has_irq_number e irq = Some (irq \<in> held e)"
proof -
  have le: "pe_irq_count e \<le> length (pe_irq_numbers e)" using assms by (simp add: entry_ok_def)
  have "irq_held_from e irq i = Some (irq \<in> set (drop i (take (pe_irq_count e) (pe_irq_numbers e))))" if "i \<le> pe_irq_count e" for i
    using that
  proof (induction "pe_irq_count e - i" arbitrary: i)
    case 0
    then show ?case by (subst irq_held_from.simps) simp
  next
    case (Suc n)
    then have i: "i < pe_irq_count e" "n = pe_irq_count e - (i + 1)" by auto
    have "drop i (take (pe_irq_count e) (pe_irq_numbers e)) = pe_irq_numbers e ! i # drop (i + 1) (take (pe_irq_count e) (pe_irq_numbers e))"
      using i(1) le by (subst Cons_nth_drop_Suc [symmetric]) auto
    then show ?case using Suc.hyps(1) [OF i(2)] i(1) le by (subst irq_held_from.simps) auto
  qed
  from this [of 0] show ?thesis by (simp add: has_irq_number_def held_def)
qed

lemma irq_held_by_other_eq:
  "\<forall>e \<in> set es. entry_ok e \<and> pe_used e \<Longrightarrow> irq_held_by_other es pid irq = Some (\<exists>e \<in> set es. pe_pid e \<noteq> pid \<and> irq \<in> held e)"
  by (induction es) (auto simp: has_irq_eq)

text \<open>What an interrupt or port call does to the table: nothing, or it changes the devices of one entry.\<close>

definition device_change :: "process_manager \<Rightarrow> nat \<Rightarrow> process_manager \<Rightarrow> bool" where
  "device_change pm pid pm' \<longleftrightarrow> pm' = pm \<or> (\<exists>r irqs n ranges m.
     entry_mut_by_pid pm pid = Some r \<and>
     pm' = put_entry pm r ((entry_at pm r)\<lparr>pe_irq_numbers := irqs, pe_irq_count := n, pe_io_ranges := ranges, pe_io_range_count := m\<rparr>))"

lemma device_change_refl: "device_change pm pid pm"
  by (simp add: device_change_def)

lemma assign_irq_effect:
  assumes inv: "entries_inv pm"
  obtains res pm' where "assign_irq_to_pid pm pid irq = Some (res, pm')" "entries_inv pm'" "device_change pm pid pm'"
    "res = Inr () \<Longrightarrow> \<exists>e. table pm' pid = Some e \<and> irq \<in> held e"
proof -
  have wf: "table_wf pm" and ok: "\<And>pid e. table pm pid = Some e \<Longrightarrow> entry_ok e" using inv by (auto simp: entries_inv_def)
  have all: "\<forall>e \<in> set (pm_alpha_entry pm # pm_entries pm). entry_ok e \<and> pe_used e"
    using ok wf table_iff [OF wf] unfolding table_wf_def by metis
  let ?other = "\<exists>e \<in> set (pm_alpha_entry pm # pm_entries pm). pe_pid e \<noteq> pid \<and> irq \<in> held e"
  have unfold: "assign_irq_to_pid pm pid irq =
     (if ?other then Some (Inl PermissionDenied, pm)
      else case entry_mut_by_pid pm pid of
          None \<Rightarrow> Some (Inl InvalidArgument, pm)
        | Some r \<Rightarrow> do {
            held \<leftarrow> has_irq_number (entry_at pm r) irq;
            if held then Some (Inr (), pm)
            else if pe_irq_count (entry_at pm r) \<ge> 8 then Some (Inl PermissionDenied, pm)
            else do {
              numbers \<leftarrow> array_set (pe_irq_numbers (entry_at pm r)) (pe_irq_count (entry_at pm r)) irq;
              Some (Inr (), put_entry pm r ((entry_at pm r)
                \<lparr>pe_irq_numbers := numbers, pe_irq_count := pe_irq_count (entry_at pm r) + 1\<rparr>))}})"
  proof -
    have "irq_held_by_other [pm_alpha_entry pm] pid irq = Some (pe_pid (pm_alpha_entry pm) \<noteq> pid \<and> irq \<in> held (pm_alpha_entry pm))"
      "irq_held_by_other (pm_entries pm) pid irq = Some (\<exists>e \<in> set (pm_entries pm). pe_pid e \<noteq> pid \<and> irq \<in> held e)"
      using all by (subst irq_held_by_other_eq; auto)+
    then show ?thesis unfolding assign_irq_to_pid_def MAX_IRQS_PER_PROCESS_def
      by (auto simp del: irq_held_by_other.simps)
  qed
  show thesis
  proof (cases "?other \<or> entry_mut_by_pid pm pid = None")
    case True
    have "assign_irq_to_pid pm pid irq = Some (Inl (if ?other then PermissionDenied else InvalidArgument), pm)"
    proof (cases ?other)
      case False
      then show ?thesis using True by (simp only: unfold if_False simp_thms option.case)
    qed (simp only: unfold if_True)
    then obtain e where "assign_irq_to_pid pm pid irq = Some (Inl e, pm)" by blast
    then show thesis using that [of "Inl e" pm] inv by (simp add: device_change_def)
  next
    case False
    then obtain r where r: "entry_mut_by_pid pm pid = Some r" by auto
    let ?e = "entry_at pm r"
    note T = entry_mut_Some(1) [OF wf r]
    note eok = ok [OF T]
    show thesis
    proof (cases "irq \<in> held ?e \<or> pe_irq_count ?e \<ge> 8")
      case True
      then have "assign_irq_to_pid pm pid irq = Some (if irq \<in> held ?e then Inr () else Inl PermissionDenied, pm)"
        using False r eok by (simp only: unfold if_False de_Morgan_disj simp_thms option.case) (auto simp: has_irq_eq)
      then show thesis using that [OF _ inv] T by (cases "irq \<in> held ?e") (simp_all add: device_change_def)
    next
      case new: False
      let ?n = "pe_irq_count ?e"
      let ?f = "?e\<lparr>pe_irq_numbers := (pe_irq_numbers ?e)[?n := irq], pe_irq_count := ?n + 1\<rparr>"
      have n: "?n < 8" "length (pe_irq_numbers ?e) = 8" using new eok by (auto simp: entry_ok_def)
      have step: "assign_irq_to_pid pm pid irq = Some (Inr (), put_entry pm r ?f)"
        using False r eok new n by (simp only: unfold if_False de_Morgan_disj simp_thms option.case) (auto simp: has_irq_eq array_set_def)
      have tk: "take (?n + 1) ((pe_irq_numbers ?e)[?n := irq]) = take ?n (pe_irq_numbers ?e) @ [irq]"
        using n by (simp add: take_Suc_conv_app_nth)
      have hf: "held ?f = insert irq (held ?e)" using tk by (simp add: held_def)
      have fok: "entry_ok ?f" using eok n tk new by (simp add: entry_ok_def ports_def held_def)
      have inv': "entries_inv (put_entry pm r ?f)"
      proof (rule entries_inv_put [OF inv r])
        show "held ?f \<inter> held g = {}" if "q \<noteq> pid" "table pm q = Some g" for q g
        proof -
          have "g \<in> set (pm_alpha_entry pm # pm_entries pm)" "pe_pid g \<noteq> pid" using table_Some [OF wf that(2)] that(1) by auto
          then have "irq \<notin> held g" using False by blast
          moreover have "held ?e \<inter> held g = {}" using inv T that unfolding entries_inv_def by blast
          ultimately show ?thesis unfolding hf by auto
        qed
      qed (use fok table_Some [OF wf T] in simp_all)
      have "device_change pm pid (put_entry pm r ?f)" unfolding device_change_def
        by (intro disjI2 exI [of _ r] exI [of _ "(pe_irq_numbers ?e)[?n := irq]"] exI [of _ "?n + 1"] exI [of _ "pe_io_ranges ?e"]
          exI [of _ "pe_io_range_count ?e"]) (simp add: r)
      moreover have "table (put_entry pm r ?f) pid = Some ?f" using entry_mut_Some(4) [OF wf r, of ?f] table_Some [OF wf T] by simp
      ultimately show thesis using that [OF step inv'] hf by simp
    qed
  qed
qed

lemma mset_swap_out: "i < length xs \<Longrightarrow> mset (butlast (xs[i := last xs])) = mset xs - {#xs ! i#}"
proof -
  assume i: "i < length xs"
  then obtain ys y where xs: "xs = ys @ [y]" by (metis append_butlast_last_id length_greater_0_conv not_less_zero list.size(3))
  show ?thesis
  proof (cases "i = length ys")
    case True
    then show ?thesis by (simp add: xs)
  next
    case False
    then have "i < length ys" using i xs by simp
    then have "mset (ys[i := y]) = add_mset y (mset ys - {#ys ! i#})" "ys ! i \<in># mset ys" by (simp_all add: mset_update)
    then show ?thesis using \<open>i < length ys\<close> by (simp add: xs list_update_append nth_append)
  qed
qed

lemma swap_out_take:
  assumes "j < c" and "c \<le> length xs" and "distinct (take c xs)"
  shows "set (take (c - 1) (xs[j := xs ! (c - 1), c - 1 := z])) = set (take c xs) - {xs ! j}"
    and "distinct (take (c - 1) (xs[j := xs ! (c - 1), c - 1 := z]))"
proof -
  let ?t = "take c xs" and ?new = "take (c - 1) (xs[j := xs ! (c - 1), c - 1 := z])"
  have ne: "?t \<noteq> []" using assms by auto
  have l: "last ?t = xs ! (c - 1)" using last_conv_nth [OF ne] assms by simp
  have "?new = butlast (?t[j := last ?t])"
    unfolding l using assms by (intro nth_equalityI) (auto simp: nth_butlast nth_list_update)
  then have "mset ?new = mset (remove1 (xs ! j) ?t)" using mset_swap_out [of j ?t] assms by simp
  then have "set ?new = set (remove1 (xs ! j) ?t)" "distinct ?new = distinct (remove1 (xs ! j) ?t)"
    by (rule mset_eq_setD, rule mset_eq_imp_distinct_iff)
  then show "set ?new = set ?t - {xs ! j}" "distinct ?new" using assms(3) by (simp_all only: set_remove1_eq distinct_remove1)
qed

lemma unassign_from_eq:
  assumes ok: "entry_ok e" and "j \<le> pe_irq_count e" and "irq \<notin> set (take j (pe_irq_numbers e))"
  shows "\<exists>r. unassign_irq_from e irq j = Some r \<and>
    (case r of None \<Rightarrow> irq \<notin> held e
     | Some f \<Rightarrow> \<exists>irqs. f = e\<lparr>pe_irq_numbers := irqs, pe_irq_count := pe_irq_count e - 1\<rparr> \<and> entry_ok f \<and> held f = held e - {irq} \<and> irq \<in> held e)"
  using assms(2,3)
proof (induction "pe_irq_count e - j" arbitrary: j)
  case 0
  then show ?case by (subst unassign_irq_from.simps) (simp add: held_def)
next
  case (Suc n)
  let ?c = "pe_irq_count e" and ?is = "pe_irq_numbers e"
  have j: "j < ?c" "n = ?c - (j + 1)" using Suc.hyps(2) by auto
  have len: "length ?is = 8" "?c \<le> 8" and dist: "distinct (take ?c ?is)" using ok by (auto simp: entry_ok_def)
  show ?case
  proof (cases "?is ! j = irq")
    case False
    then have "irq \<notin> set (take (j + 1) ?is)" using Suc.prems(2) j(1) len by (simp add: take_Suc_conv_app_nth)
    then show ?thesis using Suc.hyps(1) [OF j(2)] j(1) len False by (subst unassign_irq_from.simps) simp
  next
    case True
    let ?last = "?c - 1"
    let ?new = "?is[j := ?is ! ?last, ?last := INVALID_IRQ]"
    let ?f = "e\<lparr>pe_irq_numbers := ?new, pe_irq_count := ?c - 1\<rparr>"
    have "set (take (?c - 1) ?new) = set (take ?c ?is) - {irq}" "distinct (take (?c - 1) ?new)"
      using swap_out_take [OF j(1), of ?is INVALID_IRQ] len dist True by simp_all
    then have "entry_ok ?f" "held ?f = held e - {irq}" using ok by (auto simp: entry_ok_def held_def ports_def)
    moreover have "irq \<in> held e" using j(1) len True by (auto simp: held_def in_set_conv_nth)
    moreover have "unassign_irq_from e irq j = Some (Some ?f)" using j(1) len True by (subst unassign_irq_from.simps) (simp add: Let_def)
    ultimately show ?thesis by auto
  qed
qed

lemma io_overlap_eq:
  assumes "entry_ok e"
  shows "io_overlap_from e lo hi 0 = Some (\<exists>r \<in> set (ports e). \<not> ports_apart \<lparr>io_min = lo, io_max = hi\<rparr> r)"
proof -
  have le: "pe_io_range_count e \<le> length (pe_io_ranges e)" using assms by (simp add: entry_ok_def)
  have "io_overlap_from e lo hi i = Some (\<exists>r \<in> set (drop i (ports e)). \<not> ports_apart \<lparr>io_min = lo, io_max = hi\<rparr> r)" if "i \<le> pe_io_range_count e" for i
    using that
  proof (induction "pe_io_range_count e - i" arbitrary: i)
    case 0
    then show ?case by (subst io_overlap_from.simps) (simp add: ports_def)
  next
    case (Suc n)
    then have i: "i < pe_io_range_count e" "n = pe_io_range_count e - (i + 1)" by auto
    have "drop i (ports e) = pe_io_ranges e ! i # drop (i + 1) (ports e)"
      using i(1) le by (subst Cons_nth_drop_Suc [symmetric]) (auto simp: ports_def)
    then show ?case using Suc.hyps(1) [OF i(2)] i(1) le by (subst io_overlap_from.simps) (auto simp: ports_apart_def)
  qed
  from this [of 0] show ?thesis by simp
qed

lemma entries_inv_device:
  assumes inv: "entries_inv pm" and r: "entry_mut_by_pid pm pid = Some r"
    and f: "f = (entry_at pm r)\<lparr>pe_irq_numbers := irqs, pe_irq_count := n, pe_io_ranges := ranges, pe_io_range_count := m\<rparr>"
    and ok: "entry_ok f" and sub: "held f \<subseteq> held (entry_at pm r)"
  shows "entries_inv (put_entry pm r f)" and "device_change pm pid (put_entry pm r f)"
proof -
  have wf: "table_wf pm" using inv by (simp add: entries_inv_def)
  note T = entry_mut_Some(1) [OF wf r]
  show "entries_inv (put_entry pm r f)"
  proof (rule entries_inv_put [OF inv r])
    show "held f \<inter> held g = {}" if "q \<noteq> pid" "table pm q = Some g" for q g
      using inv T that sub unfolding entries_inv_def by blast
  qed (use ok table_Some [OF wf T] f in simp_all)
  show "device_change pm pid (put_entry pm r f)" unfolding device_change_def f using r by blast
qed

lemma unassign_irq_effect:
  assumes inv: "entries_inv pm"
  obtains res pm' where "unassign_irq_from_pid pm pid irq = Some (res, pm')" "entries_inv pm'" "device_change pm pid pm'"
proof -
  have wf: "table_wf pm" and ok: "\<And>pid e. table pm pid = Some e \<Longrightarrow> entry_ok e" using inv by (auto simp: entries_inv_def)
  show thesis
  proof (cases "entry_mut_by_pid pm pid")
    case None
    then show thesis using that [OF _ inv device_change_refl] by (simp add: unassign_irq_from_pid_def)
  next
    case (Some r)
    let ?e = "entry_at pm r"
    have eok: "entry_ok ?e" by (rule ok [OF entry_mut_Some(1) [OF wf Some]])
    obtain u where u: "unassign_irq_from ?e irq 0 = Some u"
      "case u of None \<Rightarrow> irq \<notin> held ?e | Some f \<Rightarrow> \<exists>irqs. f = ?e\<lparr>pe_irq_numbers := irqs, pe_irq_count := pe_irq_count ?e - 1\<rparr> \<and> entry_ok f \<and>
        held f = held ?e - {irq} \<and> irq \<in> held ?e"
      using unassign_from_eq [OF eok, of 0 irq] by auto
    show thesis
    proof (cases u)
      case None
      then show thesis using that [OF _ inv device_change_refl] u(1) Some by (simp add: unassign_irq_from_pid_def)
    next
      case f: (Some f)
      then obtain irqs where "f = ?e\<lparr>pe_irq_numbers := irqs, pe_irq_count := pe_irq_count ?e - 1, pe_io_ranges := pe_io_ranges ?e,
          pe_io_range_count := pe_io_range_count ?e\<rparr>" "entry_ok f" "held f \<subseteq> held ?e" using u(2) by auto
      from entries_inv_device [OF inv Some this] show thesis using that u(1) f Some by (simp add: unassign_irq_from_pid_def)
    qed
  qed
qed

lemma add_io_effect:
  assumes inv: "entries_inv pm"
  obtains res pm' where "add_io_range_to_pid pm pid lo hi = Some (res, pm')" "entries_inv pm'" "device_change pm pid pm'"
proof -
  have wf: "table_wf pm" and ok: "\<And>pid e. table pm pid = Some e \<Longrightarrow> entry_ok e" using inv by (auto simp: entries_inv_def)
  show thesis
  proof (cases "entry_mut_by_pid pm pid")
    case None
    then show thesis using that [OF _ inv device_change_refl] by (simp add: add_io_range_to_pid_def)
  next
    case (Some r)
    let ?e = "entry_at pm r" and ?n = "pe_io_range_count (entry_at pm r)" and ?new = "\<lparr>io_min = lo, io_max = hi\<rparr>"
    have eok: "entry_ok ?e" by (rule ok [OF entry_mut_Some(1) [OF wf Some]])
    then have len: "length (pe_io_ranges ?e) = 16" by (simp add: entry_ok_def)
    show thesis
    proof (cases "hi < lo \<or> 16 \<le> ?n \<or> (\<exists>r \<in> set (ports ?e). \<not> ports_apart ?new r)")
      case True
      have "\<exists>e. add_io_range_to_pid pm pid lo hi = Some (Inl e, pm)"
        using True Some by (simp add: add_io_range_to_pid_def MAX_IO_RANGES_PER_PROCESS_def io_overlap_eq [OF eok]) blast
      then obtain e where "add_io_range_to_pid pm pid lo hi = Some (Inl e, pm)" ..
      then show thesis using that [OF _ inv device_change_refl] by blast
    next
      case False
      let ?f = "?e\<lparr>pe_irq_numbers := pe_irq_numbers ?e, pe_irq_count := pe_irq_count ?e,
        pe_io_ranges := (pe_io_ranges ?e)[?n := ?new], pe_io_range_count := ?n + 1\<rparr>"
      have p: "ports ?f = ports ?e @ [?new]" using False len by (simp add: ports_def take_Suc_conv_app_nth)
      then have "entry_ok ?f" using eok False len by (auto simp: entry_ok_def sorted_wrt_append ports_apart_def p)
      moreover have "held ?f \<subseteq> held ?e" by (simp add: held_def)
      moreover have "add_io_range_to_pid pm pid lo hi = Some (Inr (), put_entry pm r ?f)"
        using Some False len by (simp add: add_io_range_to_pid_def MAX_IO_RANGES_PER_PROCESS_def array_set_def io_overlap_eq [OF eok])
      ultimately show thesis using that entries_inv_device [OF inv Some refl] by blast
    qed
  qed
qed

end
