(* ===== verification/Shared_Memory.thy ===== *)
theory Shared_Memory
  imports Process_Table
begin

text \<open>
  What the shared memory space of one process promises. \<open>space_safe\<close> holds for every use: the active
  reservations do not overlap in virtual memory, and their capability slots, the free slots and the slots not
  handed out yet are disjoint. \<open>space_tidy\<close> holds as long as no fixed address is requested: free pages are well
  formed and disjoint from the active ones, all below the heap watermark.
\<close>

section \<open>The invariants of a space\<close>

definition slots_of :: "shared_memory_reservation \<Rightarrow> nat set" where
  "slots_of r = {rs_start_slot r..<rs_start_slot r + rs_page_count r}"

definition pages_of_res :: "shared_memory_reservation \<Rightarrow> nat set" where
  "pages_of_res r = {rs_base_va r div 4096..<rs_base_va r div 4096 + rs_page_count r}"

definition res_end :: "shared_memory_reservation \<Rightarrow> nat" where
  "res_end r = rs_base_va r + rs_page_count r * 4096"

definition res_ok :: "nat \<Rightarrow> nat \<times> shared_memory_reservation \<Rightarrow> bool" where
  "res_ok bound x \<longleftrightarrow> fst x = rs_base_va (snd x) \<and> 0 < fst x \<and> 0 < rs_page_count (snd x) \<and> res_end (snd x) < 2 ^ 64 \<and>
     rs_start_slot (snd x) + rs_page_count (snd x) \<le> bound"

definition res_apart :: "nat \<times> shared_memory_reservation \<Rightarrow> nat \<times> shared_memory_reservation \<Rightarrow> bool" where
  "res_apart x y \<longleftrightarrow> res_end (snd x) \<le> fst y \<and> slots_of (snd x) \<inter> slots_of (snd y) = {}"

definition space_safe :: "nat \<Rightarrow> shared_memory_space \<Rightarrow> bool" where
  "space_safe bound sp \<longleftrightarrow> fr_inv (ss_slots sp) \<and> units (ss_slots sp) \<subseteq> {..<bound} \<and> sorted_wrt res_apart (ss_active sp) \<and>
     (\<forall>x \<in> set (ss_active sp). res_ok bound x \<and> slots_of (snd x) \<inter> units (ss_slots sp) = {})"

definition space_tidy :: "nat \<Rightarrow> shared_memory_space \<Rightarrow> bool" where
  "space_tidy heap sp \<longleftrightarrow> fr_inv (ss_pages sp) \<and> units (ss_pages sp) \<subseteq> {1..<heap div 4096} \<and>
     (\<forall>x \<in> set (ss_active sp). 4096 dvd fst x \<and> res_end (snd x) \<le> heap \<and> pages_of_res (snd x) \<inter> units (ss_pages sp) = {})"

lemma space_default [simp]: "space_safe bound shared_space_default" "space_tidy heap shared_space_default"
  by (simp_all add: space_safe_def space_tidy_def shared_space_default_def)

lemma space_safe_mono: "space_safe b sp \<Longrightarrow> b \<le> b' \<Longrightarrow> space_safe b' sp"
  by (fastforce simp: space_safe_def res_ok_def)

lemma space_tidy_mono: "space_tidy h sp \<Longrightarrow> h \<le> h' \<Longrightarrow> space_tidy h' sp"
  using div_le_mono [of h h' 4096] by (fastforce simp: space_tidy_def)

lemma active_keys: "\<forall>x \<in> set xs. res_ok bound x \<Longrightarrow> sorted_wrt res_apart xs \<Longrightarrow> sorted_wrt (\<lambda>a b. fst a < fst b) xs"
proof (induction xs)
  case (Cons x xs)
  have "fst x < fst y" if "y \<in> set xs" for y
  proof -
    have "res_apart x y" "res_ok bound x" using Cons.prems that by auto
    then show ?thesis by (auto simp: res_apart_def res_ok_def res_end_def)
  qed
  then show ?case using Cons by auto
qed simp

lemma space_safeD:
  assumes "space_safe bound sp"
  shows "fr_inv (ss_slots sp)" "units (ss_slots sp) \<subseteq> {..<bound}" "sorted_wrt res_apart (ss_active sp)"
    "\<forall>x \<in> set (ss_active sp). res_ok bound x" "\<forall>x \<in> set (ss_active sp). slots_of (snd x) \<inter> units (ss_slots sp) = {}"
    "sorted_wrt (\<lambda>a b. fst a < fst b) (ss_active sp)"
  using assms active_keys [of "ss_active sp" bound] by (auto simp: space_safe_def)

section \<open>Entering a reservation\<close>

text \<open>The overlap test looks at one reservation only; because the reservations are in order that one decides.\<close>

lemma no_overlap_split:
  assumes safe: "space_safe bound sp" and "\<not> active_overlap (ss_active sp) base e" and "base < e"
  obtains xs ys where "ss_active sp = xs @ ys" "\<forall>x \<in> set xs. res_end (snd x) \<le> base" "\<forall>y \<in> set ys. e \<le> fst y"
    "\<And>r. btree_insert base r (ss_active sp) = xs @ (base, r) # ys"
proof -
  note D = space_safeD [OF safe]
  obtain xs ys where s: "ss_active sp = xs @ ys" "\<forall>x \<in> set xs. fst x < e" "\<forall>y \<in> set ys. e \<le> fst y"
    using key_split [OF D(6), of e] by metis
  have below: "\<forall>x \<in> set xs. res_end (snd x) \<le> base"
  proof (cases xs rule: rev_cases)
    case (snoc zs z)
    have "btree_below e (ss_active sp) = Some z" using btree_split(1) [OF s(2,3)] s(1) snoc by simp
    then have "\<not> wrapping_add (rs_base_va (snd z)) (wrapping_mul (rs_page_count (snd z)) USER_PAGE_SIZE) > base"
      using assms(2) by (cases z) (simp add: active_overlap_def)
    moreover have z: "res_ok bound z" using D(4) s(1) snoc by simp
    then have "rs_page_count (snd z) * 4096 < usize_limit" "rs_base_va (snd z) + rs_page_count (snd z) * 4096 < usize_limit"
      by (auto simp: res_ok_def res_end_def usize_limit_def)
    ultimately have last: "res_end (snd z) \<le> base" by (simp add: USER_PAGE_SIZE_def res_end_def)
    have "res_end (snd x) \<le> fst z" if "x \<in> set zs" for x using D(3) s(1) snoc that by (auto simp: sorted_wrt_append res_apart_def)
    moreover have "fst z \<le> res_end (snd z)" using z by (auto simp: res_ok_def res_end_def)
    ultimately show ?thesis using last snoc by fastforce
  qed simp
  have "\<forall>x \<in> set xs. fst x < base"
  proof
    fix x assume "x \<in> set xs"
    then have "res_end (snd x) \<le> base" "res_ok bound x" using below D(4) s(1) by auto
    then show "fst x < base" by (auto simp: res_ok_def res_end_def)
  qed
  moreover have "\<forall>y \<in> set ys. base < fst y" using s(3) assms(3) by fastforce
  ultimately have "btree_insert base r (ss_active sp) = xs @ (base, r) # ys" for r
    unfolding s(1) by (intro btree_split(3)) (auto intro: less_imp_le)
  then show thesis using that s(1,3) below by blast
qed

lemma add_active_safe:
  assumes safe: "space_safe bound sp" and split: "ss_active sp = xs @ ys" "\<forall>x \<in> set xs. res_end (snd x) \<le> rs_base_va r" "\<forall>y \<in> set ys. res_end r \<le> fst y"
    and ok: "res_ok bound' (rs_base_va r, r)" and le: "bound \<le> bound'"
    and slots: "fr_inv fr" "units fr = units (ss_slots sp) - slots_of r"
    and fresh: "\<And>x. x \<in> set (ss_active sp) \<Longrightarrow> slots_of (snd x) \<inter> slots_of r = {}"
  shows "space_safe bound' \<lparr>ss_slots = fr, ss_pages = pages, ss_active = xs @ (rs_base_va r, r) # ys\<rparr>"
proof -
  note D = space_safeD [OF space_safe_mono [OF safe le]]
  have "res_apart x (rs_base_va r, r)" if "x \<in> set xs" for x using that split fresh [of x] by (simp add: res_apart_def)
  moreover have "res_apart (rs_base_va r, r) y" if "y \<in> set ys" for y using that split fresh [of y] by (auto simp: res_apart_def)
  ultimately have "sorted_wrt res_apart (xs @ (rs_base_va r, r) # ys)" using D(3) split(1) by (auto simp: sorted_wrt_append)
  then show ?thesis using D slots ok split(1) by (auto simp: space_safe_def)
qed

section \<open>The operations on a space\<close>

definition space_of :: "process_manager \<Rightarrow> nat \<Rightarrow> shared_memory_space" where
  "space_of pm pid = (case pm_shared_memory pm pid of Some space \<Rightarrow> space | None \<Rightarrow> shared_space_default)"

lemma entry_if_update:
  fixes e :: process_entry
  shows "(if b then e\<lparr>pe_next_frame_slot := x\<rparr> else e) = e\<lparr>pe_next_frame_slot := (if b then x else pe_next_frame_slot e)\<rparr>"
    and "(if b then e\<lparr>pe_user_heap_next_va := x\<rparr> else e) = e\<lparr>pe_user_heap_next_va := (if b then x else pe_user_heap_next_va e)\<rparr>"
  by simp_all

text \<open>A reservation either fails with the manager as it was, up to an empty space, or takes slots and pages.\<close>

lemma reserve_shape:
  assumes wf: "table_wf pm" and owner: "owner = memory_owner_pid pm pid" and sp: "sp = space_of pm owner"
    and pm1: "pm1 = pm\<lparr>pm_shared_memory := (pm_shared_memory pm)(owner \<mapsto> sp)\<rparr>"
  obtains (same) "reserve_shared_memory_at pm pid c limit va = Some (Inl InvalidArgument, pm)"
  | (failed) e x where "table pm owner = Some e" "owner \<noteq> 0" "0 < c" "va AND 4095 = 0" "reserve_shared_memory_at pm pid c limit va = Some (Inl x, pm1)"
      "x = InvalidArgument \<or> x = IllegalOperation \<and> (\<exists>base. base \<noteq> 0 \<and> active_overlap (ss_active sp) base (base + c * 4096) \<and>
        base + c * 4096 < 2 ^ 64 \<and> base = (if va \<noteq> 0 then va else case fr_find (ss_pages sp) c of Some p \<Rightarrow> wrapping_mul p 4096 | None \<Rightarrow> pe_user_heap_next_va e))"
  | (taken) e r fp s base where "table pm owner = Some e" "entry_mut_by_pid pm owner = Some r" "entry_at pm r = e"
      "owner \<noteq> 0" "0 < c" "va AND 4095 = 0" "fp = (if va = 0 then fr_find (ss_pages sp) c else None)"
      "s = (case fr_find (ss_slots sp) c of Some s \<Rightarrow> s | None \<Rightarrow> pe_next_frame_slot e)"
      "base = (if va \<noteq> 0 then va else case fp of Some p \<Rightarrow> wrapping_mul p 4096 | None \<Rightarrow> pe_user_heap_next_va e)"
      "s + c \<le> limit" "s + c < 2 ^ 64" "base + c * 4096 < 2 ^ 64" "base \<noteq> 0" "va \<noteq> 0 \<or> base + c * 4096 \<le> pe_user_heap_limit_va e"
      "\<not> active_overlap (ss_active sp) base (base + c * 4096)"
      "reserve_shared_memory_at pm pid c limit va = do {
         slots \<leftarrow> (case fr_find (ss_slots sp) c of Some slot \<Rightarrow> fr_take (ss_slots sp) slot c | None \<Rightarrow> Some (ss_slots sp));
         pages \<leftarrow> take_pages (ss_pages sp) fp va base c;
         Some (Inr \<lparr>rs_base_va = base, rs_start_slot = s, rs_page_count = c\<rparr>,
           put_entry (pm\<lparr>pm_shared_memory := (pm_shared_memory pm)(owner \<mapsto>
             \<lparr>ss_slots = slots, ss_pages = pages,
              ss_active = btree_insert base \<lparr>rs_base_va = base, rs_start_slot = s, rs_page_count = c\<rparr> (ss_active sp)\<rparr>)\<rparr>) r
             (e\<lparr>pe_next_frame_slot := (if fr_find (ss_slots sp) c = None then s + c else pe_next_frame_slot e),
                pe_user_heap_next_va := (if fp = None \<and> va = 0 then base + c * 4096 else pe_user_heap_next_va e)\<rparr>))}"
proof (cases "table pm owner")
  case None
  then have "find_entry_by_pid pm owner = None" by (simp add: find_entry_table wf)
  then show thesis by (intro same) (simp add: reserve_shared_memory_at_def owner)
next
  case (Some e)
  then have find: "find_entry_by_pid pm owner = Some e" by (simp add: find_entry_table wf)
  show thesis
  proof (cases "owner = 0 \<or> c = 0 \<or> va AND 4095 \<noteq> 0")
    case True
    then show thesis using find by (intro same) (simp add: reserve_shared_memory_at_def USER_PAGE_SIZE_def Let_def owner [symmetric])
  next
    case False
    then have args: "owner \<noteq> 0" "0 < c" "va AND 4095 = 0" by auto
    define fp where "fp = (if va = 0 then fr_find (ss_pages sp) c else None)"
    define s where "s = (case fr_find (ss_slots sp) c of Some s \<Rightarrow> s | None \<Rightarrow> pe_next_frame_slot e)"
    define base where "base = (if va \<noteq> 0 then va else case fp of Some p \<Rightarrow> wrapping_mul p 4096 | None \<Rightarrow> pe_user_heap_next_va e)"
    have base': "base = (if va \<noteq> 0 then va else case fr_find (ss_pages sp) c of Some p \<Rightarrow> wrapping_mul p 4096 | None \<Rightarrow> pe_user_heap_next_va e)"
      by (simp add: base_def fp_def)
    obtain r where r: "entry_mut_by_pid pm owner = Some r" using Some entry_mut_None [OF wf, of owner] by auto
    have r1: "entry_mut_by_pid (pm\<lparr>pm_shared_memory := m\<rparr>) owner = Some r" for m using r by (simp add: entry_mut_by_pid_def cong: sum.case_cong split: if_splits)
    have er: "entry_at (pm\<lparr>pm_shared_memory := m\<rparr>) r = e" for m
      using entry_mut_Some(1) [OF wf r] Some by (cases r) auto
    let ?res = "\<lparr>rs_base_va = base, rs_start_slot = s, rs_page_count = c\<rparr>"
    have def: "reserve_shared_memory_at pm pid c limit va =
      (case checked_add s c of
         None \<Rightarrow> Some (Inl InvalidArgument, pm1)
       | Some slot_end \<Rightarrow>
          if \<not> slot_end \<le> limit then Some (Inl InvalidArgument, pm1)
          else case Option.bind (checked_mul c 4096) (checked_add base) of
              None \<Rightarrow> Some (Inl InvalidArgument, pm1)
            | Some va_end \<Rightarrow>
                if \<not> (base \<noteq> 0 \<and> (va \<noteq> 0 \<or> va_end \<le> pe_user_heap_limit_va e)) then Some (Inl InvalidArgument, pm1)
                else if active_overlap (ss_active sp) base va_end then Some (Inl IllegalOperation, pm1)
                else do {
                  slots \<leftarrow> (case fr_find (ss_slots sp) c of Some slot \<Rightarrow> fr_take (ss_slots sp) slot c | None \<Rightarrow> Some (ss_slots sp));
                  pages \<leftarrow> take_pages (ss_pages sp) fp va base c;
                  Some (Inr ?res, put_entry (pm\<lparr>pm_shared_memory := (pm_shared_memory pm)(owner \<mapsto>
                    \<lparr>ss_slots = slots, ss_pages = pages, ss_active = btree_insert base ?res (ss_active sp)\<rparr>)\<rparr>) r
                    (e\<lparr>pe_next_frame_slot := (if fr_find (ss_slots sp) c = None then slot_end else pe_next_frame_slot e),
                      pe_user_heap_next_va := (if fp = None \<and> va = 0 then va_end else pe_user_heap_next_va e)\<rparr>))})"
      using args find
      by (simp add: reserve_shared_memory_at_def Let_def owner [symmetric] USER_PAGE_SIZE_def fp_def s_def base_def sp space_of_def pm1 r1 er entry_if_update
        cong: option.case_cong if_cong Option.bind_cong)
    show thesis
    proof (cases "s + c < 2 ^ 64 \<and> s + c \<le> limit \<and> base + c * 4096 < 2 ^ 64 \<and> base \<noteq> 0 \<and> (va \<noteq> 0 \<or> base + c * 4096 \<le> pe_user_heap_limit_va e)")
      case False
      then have "reserve_shared_memory_at pm pid c limit va = Some (Inl InvalidArgument, pm1)"
        unfolding def by (auto simp: checked_add_def checked_mul_def usize_limit_def)
      then show thesis using failed [OF Some args] by blast
    next
      case True
      then have b: "c * 4096 < 2 ^ 64" by linarith
      show thesis
      proof (cases "active_overlap (ss_active sp) base (base + c * 4096)")
        case over: True
        have "reserve_shared_memory_at pm pid c limit va = Some (Inl IllegalOperation, pm1)"
          using True b over unfolding def by (simp add: checked_add_def checked_mul_def usize_limit_def)
        then show thesis using failed [OF Some args] over True base' by blast
      next
        case free: False
        show thesis
          by (rule taken [OF Some r _ args fp_def s_def base_def _ _ _ _ _ free])
            (use True b free er [of "pm_shared_memory pm"] in \<open>simp_all add: def checked_add_def checked_mul_def usize_limit_def\<close>)
      qed
    qed
  qed
qed

lemma take_slots:
  assumes safe: "space_safe bound sp" and c: "0 < c" and s: "s = (case fr_find (ss_slots sp) c of Some s \<Rightarrow> s | None \<Rightarrow> bound)"
  obtains slots where
    "(case fr_find (ss_slots sp) c of Some slot \<Rightarrow> fr_take (ss_slots sp) slot c | None \<Rightarrow> Some (ss_slots sp)) = Some slots"
    "fr_inv slots" "units slots = units (ss_slots sp) - {s..<s + c}" "\<And>x. x \<in> set (ss_active sp) \<Longrightarrow> slots_of (snd x) \<inter> {s..<s + c} = {}"
    "fr_find (ss_slots sp) c \<noteq> None \<Longrightarrow> s + c \<le> bound"
proof (cases "fr_find (ss_slots sp) c")
  case None
  note D = space_safeD [OF safe]
  have "units (ss_slots sp) - {s..<s + c} = units (ss_slots sp)" using D(2) s None by auto
  moreover have "slots_of (snd x) \<inter> {s..<s + c} = {}" if "x \<in> set (ss_active sp)" for x
    using D(4) that s None by (auto simp: slots_of_def res_ok_def)
  ultimately show thesis using that [of "ss_slots sp"] None D(1) by simp
next
  case (Some k)
  note D = space_safeD [OF safe]
  obtain slots where f: "{s..<s + c} \<subseteq> units (ss_slots sp)" "fr_take (ss_slots sp) s c = Some slots" "fr_inv slots" "units slots = units (ss_slots sp) - {s..<s + c}"
    using fr_best_fit_inv [OF D(1) c] Some s by auto
  have "slots_of (snd x) \<inter> {s..<s + c} = {}" if "x \<in> set (ss_active sp)" for x using D(5) that f(1) by blast
  moreover have "s + c - 1 \<in> {s..<s + c}" using c by auto
  then have "s + c - 1 \<in> {..<bound}" using f(1) D(2) by blast
  ultimately show thesis using that [of slots] f Some s c by auto
qed

lemma reserved_space_safe:
  assumes safe: "space_safe bound sp" and c: "0 < c" and s: "s = (case fr_find (ss_slots sp) c of Some s \<Rightarrow> s | None \<Rightarrow> bound)"
    and base: "base \<noteq> 0" "base + c * 4096 < 2 ^ 64" and free: "\<not> active_overlap (ss_active sp) base (base + c * 4096)"
    and r: "r = \<lparr>rs_base_va = base, rs_start_slot = s, rs_page_count = c\<rparr>"
    and bound': "bound' = (if fr_find (ss_slots sp) c = None then s + c else bound)"
    and slots: "(case fr_find (ss_slots sp) c of Some slot \<Rightarrow> fr_take (ss_slots sp) slot c | None \<Rightarrow> Some (ss_slots sp)) = Some slots"
  shows "space_safe bound' \<lparr>ss_slots = slots, ss_pages = pages, ss_active = btree_insert base r (ss_active sp)\<rparr>"
    and "set (btree_insert base r (ss_active sp)) = insert (base, r) (set (ss_active sp))"
proof -
  obtain xs ys where sp: "ss_active sp = xs @ ys" "\<forall>x \<in> set xs. res_end (snd x) \<le> base" "\<forall>y \<in> set ys. base + c * 4096 \<le> fst y"
    "\<And>r. btree_insert base r (ss_active sp) = xs @ (base, r) # ys"
    using no_overlap_split [OF safe free] c by auto
  obtain slots' where t: "Some slots' = Some slots" "fr_inv slots'" "units slots' = units (ss_slots sp) - {s..<s + c}"
    "\<And>x. x \<in> set (ss_active sp) \<Longrightarrow> slots_of (snd x) \<inter> {s..<s + c} = {}" "fr_find (ss_slots sp) c \<noteq> None \<Longrightarrow> s + c \<le> bound"
    using take_slots [OF safe c s] unfolding slots by metis
  have le: "bound \<le> bound'" "s + c \<le> bound'" using bound' s t(5) by auto
  have e: "base + c * 4096 = res_end r" "slots_of r = {s..<s + c}" "rs_base_va r = base" by (simp_all add: r res_end_def slots_of_def)
  have ok: "res_ok bound' (rs_base_va r, r)" using base c le by (simp add: r res_ok_def res_end_def)
  have "space_safe bound' \<lparr>ss_slots = slots', ss_pages = pages, ss_active = xs @ (rs_base_va r, r) # ys\<rparr>"
    by (rule add_active_safe [OF safe sp(1) _ _ ok le(1) t(2)]) (use sp t e in auto)
  then show "space_safe bound' \<lparr>ss_slots = slots, ss_pages = pages, ss_active = btree_insert base r (ss_active sp)\<rparr>"
    using t(1) sp(4) e(3) by simp
  show "set (btree_insert base r (ss_active sp)) = insert (base, r) (set (ss_active sp))" using sp(4) unfolding sp(1) by auto
qed

lemma apart_disjoint:
  assumes "sorted_wrt res_apart xs" and "x \<in> set xs" and "y \<in> set xs" and "x \<noteq> y"
  shows "res_apart x y \<or> res_apart y x"
  using assms by (induction xs) auto

lemma recycled_space_safe:
  assumes safe: "space_safe bound sp" and mem: "map_of (ss_active sp) (rs_base_va r) = Some r" and bound: "bound < 2 ^ 64"
  obtains slots where "fr_insert (ss_slots sp) (rs_start_slot r) (rs_page_count r) = Some slots"
    "space_safe bound \<lparr>ss_slots = slots, ss_pages = pages, ss_active = btree_remove (rs_base_va r) (ss_active sp)\<rparr>"
    "set (btree_remove (rs_base_va r) (ss_active sp)) = set (ss_active sp) - {(rs_base_va r, r)}"
proof -
  note D = space_safeD [OF safe]
  let ?x = "(rs_base_va r, r)"
  have x: "?x \<in> set (ss_active sp)" using mem by (rule map_of_SomeD)
  then have ok: "res_ok bound ?x" using D(4) by blast
  have dj: "units (ss_slots sp) \<inter> {rs_start_slot r..<rs_start_slot r + rs_page_count r} = {}" using D(5) x by (fastforce simp: slots_of_def)
  have lim: "0 < rs_page_count r" "rs_start_slot r + rs_page_count r < usize_limit" using ok bound by (auto simp: res_ok_def usize_limit_def)
  obtain slots where slots: "fr_insert (ss_slots sp) (rs_start_slot r) (rs_page_count r) = Some slots" "fr_inv slots"
    "units slots = units (ss_slots sp) \<union> slots_of r"
    using fr_insert_disjoint [OF D(1) lim dj] by (auto simp: slots_of_def)
  have key: "fst y \<noteq> fst ?x" if "y \<in> set (ss_active sp)" "y \<noteq> ?x" for y
  proof -
    have "res_apart ?x y \<or> res_apart y ?x" "res_ok bound y" using apart_disjoint [OF D(3) x that(1)] D(4) that by auto
    then show ?thesis using ok by (auto simp: res_apart_def res_ok_def res_end_def)
  qed
  then have rest: "set (btree_remove (rs_base_va r) (ss_active sp)) = set (ss_active sp) - {?x}"
    using x by (fastforce simp: btree_remove_def)
  have "slots_of (snd y) \<inter> units slots = {}" if "y \<in> set (ss_active sp) - {?x}" for y
  proof -
    have "slots_of (snd y) \<inter> slots_of r = {}" using apart_disjoint [OF D(3) x, of y] that by (auto simp: res_apart_def)
    then show ?thesis using D(5) that slots(3) by blast
  qed
  moreover have "sorted_wrt res_apart (btree_remove (rs_base_va r) (ss_active sp))" using D(3) by (simp add: btree_remove_def sorted_wrt_filter)
  moreover have "units slots \<subseteq> {..<bound}" using slots(3) D(2) ok by (auto simp: slots_of_def res_ok_def)
  ultimately show thesis using that [OF slots(1) _ rest] slots(2) D(4) rest by (simp add: space_safe_def)
qed

section \<open>Spaces without fixed addresses\<close>

lemma tidyD:
  assumes "space_tidy heap sp"
  shows "fr_inv (ss_pages sp)" "units (ss_pages sp) \<subseteq> {1..<heap div 4096}"
    "\<And>x. x \<in> set (ss_active sp) \<Longrightarrow> 4096 dvd fst x \<and> res_end (snd x) \<le> heap \<and> pages_of_res (snd x) \<inter> units (ss_pages sp) = {}"
  using assms by (auto simp: space_tidy_def)

lemma page_end:
  assumes "res_ok bound x" and "4096 dvd fst x"
  shows "res_end (snd x) = (fst x div 4096 + rs_page_count (snd x)) * 4096" and "rs_base_va (snd x) = fst x div 4096 * 4096"
  using assms by (auto simp: res_ok_def res_end_def algebra_simps elim!: dvdE)

text \<open>Neither a run of free pages nor the rest of the heap meets an active reservation.\<close>

lemma tidy_no_overlap:
  assumes safe: "space_safe bound sp" and tidy: "space_tidy heap sp" and "0 < c" and dvd: "4096 dvd heap"
    and at: "{p..<p + c} \<subseteq> units (ss_pages sp) \<or> p = heap div 4096"
  shows "\<not> active_overlap (ss_active sp) (p * 4096) (p * 4096 + c * 4096)"
proof (cases "btree_below (p * 4096 + c * 4096) (ss_active sp)")
  case None
  then show ?thesis by (simp add: active_overlap_def)
next
  case (Some x)
  obtain xs ys where s: "ss_active sp = xs @ ys" "\<forall>x \<in> set xs. fst x < p * 4096 + c * 4096" "\<forall>y \<in> set ys. p * 4096 + c * 4096 \<le> fst y"
    using key_split [OF space_safeD(6) [OF safe]] by metis
  then have x: "x \<in> set (ss_active sp)" "fst x < p * 4096 + c * 4096" using Some btree_split(1) [OF s(2,3)] by (auto split: if_splits)
  have ok: "res_ok bound x" using space_safeD(4) [OF safe] x(1) by blast
  have t: "4096 dvd fst x" "res_end (snd x) \<le> heap" "pages_of_res (snd x) \<inter> units (ss_pages sp) = {}" using tidyD(3) [OF tidy x(1)] by auto
  note pe = page_end [OF ok]
  have pos: "0 < rs_page_count (snd x)" using ok by (simp add: res_ok_def)
  have "res_end (snd x) \<le> p * 4096"
  proof (cases "p = heap div 4096")
    case True
    then show ?thesis using t(2) dvd by simp
  next
    case False
    let ?k = "fst x div 4096" and ?n = "rs_page_count (snd x)"
    have "pages_of_res (snd x) = {?k..<?k + ?n}" using ok by (simp add: pages_of_res_def res_ok_def)
    moreover have "{p..<p + c} \<subseteq> units (ss_pages sp)" using at False by blast
    ultimately have dj: "{?k..<?k + ?n} \<inter> {p..<p + c} = {}" using t(3) by blast
    have "fst x < (p + c) * 4096" using x(2) by (simp only: add_mult_distrib)
    then have lt: "?k < p + c" by (rule less_mult_imp_div_less)
    have "?k + ?n \<le> p"
    proof (rule ccontr)
      assume "\<not> ?k + ?n \<le> p"
      then have "max ?k p \<in> {?k..<?k + ?n} \<inter> {p..<p + c}" using lt pos \<open>0 < c\<close> by simp
      then show False unfolding dj by (rule emptyE)
    qed
    then show ?thesis unfolding pe(1) [OF t(1)] by simp
  qed
  moreover have "wrapping_add (rs_base_va (snd x)) (wrapping_mul (rs_page_count (snd x)) 4096) = res_end (snd x)"
  proof -
    have "rs_page_count (snd x) * 4096 < usize_limit" "rs_base_va (snd x) + rs_page_count (snd x) * 4096 < usize_limit"
      using ok by (auto simp: res_ok_def res_end_def usize_limit_def)
    then show ?thesis by (simp add: res_end_def)
  qed
  ultimately show ?thesis using Some by (cases x) (simp add: active_overlap_def USER_PAGE_SIZE_def)
qed

lemma take_pages_tidy:
  assumes tidy: "space_tidy heap sp" and c: "0 < c" and heap: "4096 dvd heap" "heap < 2 ^ 64"
    and fp: "fp = fr_find (ss_pages sp) c" and base: "base = (case fp of Some p \<Rightarrow> wrapping_mul p 4096 | None \<Rightarrow> heap)"
  obtains p pages where "base = p * 4096" "{p..<p + c} \<subseteq> units (ss_pages sp) \<or> p = heap div 4096" "take_pages (ss_pages sp) fp 0 base c = Some pages"
    "fr_inv pages" "units pages = units (ss_pages sp) - {p..<p + c}" "heap \<le> (if fp = None then base + c * 4096 else heap)"
    "base + c * 4096 \<le> (if fp = None then base + c * 4096 else heap)"
proof (cases fp)
  case None
  have "units (ss_pages sp) - {heap div 4096..<heap div 4096 + c} = units (ss_pages sp)" using tidyD(2) [OF tidy] by auto
  then show thesis using that [of "heap div 4096" "ss_pages sp"] None base heap(1) tidyD(1) [OF tidy] by (simp add: take_pages_def)
next
  case (Some p)
  obtain pages where f: "{p..<p + c} \<subseteq> units (ss_pages sp)" "fr_take (ss_pages sp) p c = Some pages" "fr_inv pages" "units pages = units (ss_pages sp) - {p..<p + c}"
    using fr_best_fit_inv [OF tidyD(1) [OF tidy] c] Some fp by auto
  have "p + c - 1 \<in> {p..<p + c}" using c by auto
  then have "p + c - 1 \<in> {1..<heap div 4096}" using f(1) tidyD(2) [OF tidy] by blast
  then have le: "p + c \<le> heap div 4096" by auto
  then have "(p + c) * 4096 \<le> heap" using heap(1) by (metis dvd_div_mult_self mult_le_mono1)
  moreover from this have "wrapping_mul p 4096 = p * 4096" using heap(2) by (intro wrapping_mul_small) (simp add: usize_limit_def)
  ultimately show thesis using that [of p pages] Some base f by (simp add: take_pages_def add_mult_distrib)
qed

lemma reserved_space_tidy:
  assumes tidy: "space_tidy heap sp" and c: "0 < c" and dvd: "4096 dvd heap" and p: "0 < p"
    and pages: "fr_inv pages" "units pages = units (ss_pages sp) - {p..<p + c}" and base: "base = p * 4096"
    and r: "r = \<lparr>rs_base_va = base, rs_start_slot = s, rs_page_count = c\<rparr>"
    and set: "set act = insert (base, r) (set (ss_active sp))"
    and le: "heap \<le> heap'" "base + c * 4096 \<le> heap'"
  shows "space_tidy heap' \<lparr>ss_slots = slots, ss_pages = pages, ss_active = act\<rparr>"
proof -
  note D = tidyD [OF space_tidy_mono [OF tidy le(1)]]
  have "pages_of_res r = {p..<p + c}" "res_end r = base + c * 4096" by (simp_all add: r base pages_of_res_def res_end_def)
  then have "4096 dvd fst x \<and> res_end (snd x) \<le> heap' \<and> pages_of_res (snd x) \<inter> units pages = {}" (is "?P x") if "x \<in> set act" for x
  proof (cases "x = (base, r)")
    case False
    then show ?thesis using that D(3) [of x] unfolding set pages(2) by blast
  qed (use le(2) pages(2) base in auto)
  then show ?thesis using D(2) pages by (auto simp: space_tidy_def)
qed

lemma recycled_space_tidy:
  assumes safe: "space_safe bound sp" and tidy: "space_tidy heap sp" and mem: "map_of (ss_active sp) (rs_base_va r) = Some r"
    and set: "set act = set (ss_active sp) - {(rs_base_va r, r)}"
  obtains pages where "fr_insert (ss_pages sp) (rs_base_va r div 4096) (rs_page_count r) = Some pages"
    "space_tidy heap \<lparr>ss_slots = slots, ss_pages = pages, ss_active = act\<rparr>"
proof -
  note D = space_safeD [OF safe] and T = tidyD [OF tidy]
  let ?x = "(rs_base_va r, r)" and ?p = "rs_base_va r div 4096"
  have x: "?x \<in> set (ss_active sp)" using mem by (rule map_of_SomeD)
  have ok: "res_ok bound ?x" using D(4) x by blast
  note t = T(3) [OF x, simplified] and pe = page_end [OF ok, simplified]
  have pg: "pages_of_res r = {?p..<?p + rs_page_count r}" by (simp add: pages_of_res_def)
  have e: "res_end r = (?p + rs_page_count r) * 4096" using pe t by simp
  then have top: "?p + rs_page_count r \<le> heap div 4096" using t by (metis div_le_mono div_mult_self_is_m zero_less_numeral)
  have lim: "0 < rs_page_count r" "?p + rs_page_count r < usize_limit" using ok e by (auto simp: res_ok_def usize_limit_def)
  have pos: "0 < ?p" using ok t by (auto simp: res_ok_def elim!: dvdE)
  have dj: "units (ss_pages sp) \<inter> {?p..<?p + rs_page_count r} = {}" using t pg by blast
  obtain pages where pages: "fr_insert (ss_pages sp) ?p (rs_page_count r) = Some pages" "fr_inv pages"
    "units pages = units (ss_pages sp) \<union> pages_of_res r"
    using fr_insert_disjoint [OF T(1) lim dj] pg by auto
  have "pages_of_res (snd y) \<inter> pages_of_res r = {}" if y: "y \<in> set (ss_active sp)" "y \<noteq> ?x" for y
  proof -
    have ap: "res_apart ?x y \<or> res_apart y ?x" and oky: "res_ok bound y" using apart_disjoint [OF D(3) x y(1)] y(2) D(4) y(1) by auto
    note ty = T(3) [OF y(1)] and py = page_end [OF oky]
    have py': "pages_of_res (snd y) = {fst y div 4096..<fst y div 4096 + rs_page_count (snd y)}" using oky by (simp add: pages_of_res_def res_ok_def)
    have "fst y div 4096 + rs_page_count (snd y) \<le> ?p \<or> ?p + rs_page_count r \<le> fst y div 4096"
      using ap e py ty by (auto simp: res_apart_def dest: div_le_mono [where k = 4096])
    then show ?thesis unfolding py' pg by auto
  qed
  then have "4096 dvd fst y \<and> res_end (snd y) \<le> heap \<and> pages_of_res (snd y) \<inter> units pages = {}" if "y \<in> set act" for y
    using that T(3) unfolding set pages(3) by blast
  moreover have "units pages \<subseteq> {1..<heap div 4096}" unfolding pages(3) pg using T(2) pos top by auto
  ultimately show thesis using that [OF pages(1)] pages(2) by (simp add: space_tidy_def)
qed

lemma excluded_space_tidy:
  assumes tidy: "space_tidy heap sp" and "0 < c" and "s + c < 2 ^ 64"
  obtains pages where "fr_exclude (ss_pages sp) s c = Some pages" "space_tidy heap (sp\<lparr>ss_pages := pages\<rparr>)"
proof -
  note T = tidyD [OF tidy]
  obtain pages where p: "fr_exclude (ss_pages sp) s c = Some pages" "fr_inv pages" "units pages = units (ss_pages sp) - {s..<s + c}"
    using fr_exclude_inv [OF T(1) assms(2)] assms(3) by (auto simp: usize_limit_def)
  have "4096 dvd fst y \<and> res_end (snd y) \<le> heap \<and> pages_of_res (snd y) \<inter> units pages = {}" if "y \<in> set (ss_active sp)" for y
    using T(3) [OF that] unfolding p(3) by blast
  moreover have "units pages \<subseteq> {1..<heap div 4096}" unfolding p(3) using T(2) by blast
  ultimately show thesis using that [OF p(1)] p(2) by (simp add: space_tidy_def)
qed

lemma excluded_space_safe: "space_safe bound sp \<Longrightarrow> space_safe bound (sp\<lparr>ss_pages := pages\<rparr>)"
  by (simp add: space_safe_def)

section \<open>The spaces of all processes\<close>

definition PROCESS_FRAME_TOTAL_PAGES :: nat where "PROCESS_FRAME_TOTAL_PAGES = 2 ^ 10 * 2 ^ 9"

definition entry_room :: "bool \<Rightarrow> process_entry \<Rightarrow> bool" where
  "entry_room tidy e \<longleftrightarrow> pe_next_frame_slot e < 2 ^ 53 \<and>
     (tidy \<longrightarrow> 4096 dvd pe_user_heap_next_va e \<and> pe_user_heap_next_va e < 2 ^ 64)"

definition space_ok :: "bool \<Rightarrow> process_entry \<Rightarrow> shared_memory_space \<Rightarrow> bool" where
  "space_ok tidy e sp \<longleftrightarrow> space_safe (pe_next_frame_slot e) sp \<and> (tidy \<longrightarrow> space_tidy (pe_user_heap_next_va e) sp)"

definition shared_inv :: "bool \<Rightarrow> process_manager \<Rightarrow> bool" where
  "shared_inv tidy pm \<longleftrightarrow> (\<forall>pid e. table pm pid = Some e \<longrightarrow> entry_room tidy e) \<and>
     (\<forall>pid sp. pm_shared_memory pm pid = Some sp \<longrightarrow> (\<exists>e. table pm pid = Some e \<and> space_ok tidy e sp))"

lemma shared_invD:
  assumes "shared_inv tidy pm" and "table pm pid = Some e"
  shows "entry_room tidy e" and "space_ok tidy e (space_of pm pid)"
proof -
  show "entry_room tidy e" using assms by (simp add: shared_inv_def)
  show "space_ok tidy e (space_of pm pid)"
  proof (cases "pm_shared_memory pm pid")
    case None
    then show ?thesis by (simp add: space_of_def space_ok_def)
  next
    case (Some sp)
    then obtain f where "table pm pid = Some f" "space_ok tidy f sp" using assms(1) unfolding shared_inv_def by blast
    then show ?thesis using assms(2) Some by (simp add: space_of_def)
  qed
qed

lemma shared_inv_upd:
  assumes inv: "shared_inv tidy pm" and T: "table pm' = (table pm)(pid := x)"
    and M: "pm_shared_memory pm' = (pm_shared_memory pm)(pid := m)"
    and e: "\<And>e. x = Some e \<Longrightarrow> entry_room tidy e" and sp: "\<And>sp. m = Some sp \<Longrightarrow> \<exists>e. x = Some e \<and> space_ok tidy e sp"
  shows "shared_inv tidy pm'"
  unfolding shared_inv_def T M using inv e sp by (auto simp: shared_inv_def)

lemma entry_mut_shared: "entry_mut_by_pid (pm\<lparr>pm_shared_memory := m\<rparr>) owner = entry_mut_by_pid pm owner"
  by (simp add: entry_mut_by_pid_def cong: sum.case_cong)

lemma put_entry_shared: "put_entry (pm\<lparr>pm_shared_memory := m\<rparr>) r e = (put_entry pm r e)\<lparr>pm_shared_memory := m\<rparr>"
  by (cases r) simp_all

lemma table_shared [simp]:
  "table (pm\<lparr>pm_shared_memory := m\<rparr>) = table pm" "table_wf (pm\<lparr>pm_shared_memory := m\<rparr>) = table_wf pm"
  "entries_inv (pm\<lparr>pm_shared_memory := m\<rparr>) = entries_inv pm"
  using table_cong [of "pm\<lparr>pm_shared_memory := m\<rparr>" pm] by (simp_all add: entries_inv_def)

lemma touch_space_inv:
  assumes "shared_inv tidy pm" and "table pm owner = Some e"
  shows "shared_inv tidy (pm\<lparr>pm_shared_memory := (pm_shared_memory pm)(owner \<mapsto> space_of pm owner)\<rparr>)"
  by (rule shared_inv_upd [OF assms(1), of _ owner "Some e" "Some (space_of pm owner)"])
    (use assms shared_invD [OF assms] in auto)

lemma put_shared_inv:
  assumes ent: "entries_inv pm" and inv: "shared_inv tidy pm" and r: "entry_mut_by_pid pm owner = Some r" and "same_devices (entry_at pm r) e"
    and e: "entry_room tidy e" and sp: "space_ok tidy e sp"
  shows "entries_inv (put_entry (pm\<lparr>pm_shared_memory := (pm_shared_memory pm)(owner \<mapsto> sp)\<rparr>) r e) \<and>
    shared_inv tidy (put_entry (pm\<lparr>pm_shared_memory := (pm_shared_memory pm)(owner \<mapsto> sp)\<rparr>) r e)"
proof -
  note E = entries_inv_same [OF ent r assms(4)]
  have "shared_inv tidy ((put_entry pm r e)\<lparr>pm_shared_memory := (pm_shared_memory pm)(owner \<mapsto> sp)\<rparr>)"
    by (rule shared_inv_upd [OF inv, of _ owner "Some e" "Some sp"]) (use e sp E(2) in auto)
  then show ?thesis using E(1) by (simp add: put_entry_shared)
qed

text \<open>No fixed address: the pages are found, nothing overlaps, and the space stays tidy.\<close>

lemma reserve_tidy:
  assumes "entry_room True e" and ok: "space_ok True e sp" and c: "0 < c" and fp: "fp = fr_find (ss_pages sp) c"
    and base: "base = (case fp of Some p \<Rightarrow> wrapping_mul p 4096 | None \<Rightarrow> pe_user_heap_next_va e)"
  shows "\<not> active_overlap (ss_active sp) base (base + c * 4096)"
    and "base \<noteq> 0 \<Longrightarrow> set act = insert (base, \<lparr>rs_base_va = base, rs_start_slot = s, rs_page_count = c\<rparr>) (set (ss_active sp)) \<Longrightarrow>
      \<exists>pages. take_pages (ss_pages sp) fp 0 base c = Some pages \<and>
        space_tidy (if fp = None then base + c * 4096 else pe_user_heap_next_va e) \<lparr>ss_slots = slots, ss_pages = pages, ss_active = act\<rparr>"
    and "4096 dvd base"
proof -
  let ?h = "pe_user_heap_next_va e"
  have tidy: "space_tidy ?h sp" and safe: "space_safe (pe_next_frame_slot e) sp" and h: "4096 dvd ?h" "?h < 2 ^ 64"
    using assms(1) ok by (simp_all add: space_ok_def entry_room_def)
  obtain p pages where p: "base = p * 4096" "{p..<p + c} \<subseteq> units (ss_pages sp) \<or> p = ?h div 4096" "take_pages (ss_pages sp) fp 0 base c = Some pages"
    "fr_inv pages" "units pages = units (ss_pages sp) - {p..<p + c}" "?h \<le> (if fp = None then base + c * 4096 else ?h)"
    "base + c * 4096 \<le> (if fp = None then base + c * 4096 else ?h)"
    by (rule take_pages_tidy [OF tidy c h fp base])
  show "\<not> active_overlap (ss_active sp) base (base + c * 4096)" unfolding p(1) by (rule tidy_no_overlap [OF safe tidy c h(1) p(2)])
  show "4096 dvd base" using p(1) by simp
  show "\<exists>pages. take_pages (ss_pages sp) fp 0 base c = Some pages \<and>
        space_tidy (if fp = None then base + c * 4096 else ?h) \<lparr>ss_slots = slots, ss_pages = pages, ss_active = act\<rparr>"
    if "base \<noteq> 0" "set act = insert (base, \<lparr>rs_base_va = base, rs_start_slot = s, rs_page_count = c\<rparr>) (set (ss_active sp))"
  proof -
    have "0 < p" using that(1) p(1) by simp
    then have "space_tidy (if fp = None then base + c * 4096 else ?h) \<lparr>ss_slots = slots, ss_pages = pages, ss_active = act\<rparr>"
      by (rule reserved_space_tidy [OF tidy c h(1) _ p(4,5,1) refl that(2) p(6,7)])
    then show ?thesis using p(3) by blast
  qed
qed

lemma reserve_effect:
  assumes ent: "entries_inv pm" and inv: "shared_inv tidy pm" and lim: "limit \<le> PROCESS_FRAME_TOTAL_PAGES" and va: "tidy \<Longrightarrow> va = 0"
  shows "(tidy \<longrightarrow> (\<exists>res pm'. reserve_shared_memory_at pm pid c limit va = Some (res, pm') \<and> res \<noteq> Inl IllegalOperation)) \<and>
    (\<forall>res pm'. reserve_shared_memory_at pm pid c limit va = Some (res, pm') \<longrightarrow> entries_inv pm' \<and> shared_inv tidy pm')"
proof -
  let ?o = "memory_owner_pid pm pid"
  let ?sp = "space_of pm ?o"
  have wf: "table_wf pm" using ent by (simp add: entries_inv_def)
  show ?thesis
  proof (rule reserve_shape [OF wf refl refl refl, of pid c limit va], goal_cases)
    case 1
    then show ?case using ent inv by auto
  next
    case (2 e x)
    have "x \<noteq> IllegalOperation" if t: tidy
      using 2(6) va [OF t] reserve_tidy(1) [OF _ _ 2(3) refl refl, of e ?sp] shared_invD [OF inv 2(1)] t by fastforce
    then show ?case using 2(5) touch_space_inv [OF inv 2(1)] ent by auto
  next
    case (3 e r fp s base)
    note ok = shared_invD [OF inv 3(1)]
    define new where "new = \<lparr>rs_base_va = base, rs_start_slot = s, rs_page_count = c\<rparr>"
    define e' where "e' = e\<lparr>pe_next_frame_slot := (if fr_find (ss_slots ?sp) c = None then s + c else pe_next_frame_slot e),
      pe_user_heap_next_va := (if fp = None \<and> va = 0 then base + c * 4096 else pe_user_heap_next_va e)\<rparr>"
    have safe: "space_safe (pe_next_frame_slot e) ?sp" using ok by (simp add: space_ok_def)
    obtain slots where slots: "(case fr_find (ss_slots ?sp) c of Some slot \<Rightarrow> fr_take (ss_slots ?sp) slot c | None \<Rightarrow> Some (ss_slots ?sp)) = Some slots"
      by (rule take_slots [OF safe 3(5,8)])
    note safe' = reserved_space_safe [OF safe 3(5,8,13,12,15) new_def refl slots]
    let ?new = "\<lambda>pages. \<lparr>ss_slots = slots, ss_pages = pages, ss_active = btree_insert base new (ss_active ?sp)\<rparr>"
    have tidy0: "entry_room True e" "space_ok True e ?sp" "va = 0" "fp = fr_find (ss_pages ?sp) c"
      "base = (case fp of Some p \<Rightarrow> wrapping_mul p 4096 | None \<Rightarrow> pe_user_heap_next_va e)" if t: tidy using va [OF t] t ok 3(7,9) by simp_all
    have pages: "\<exists>pages. take_pages (ss_pages ?sp) fp va base c = Some pages \<and> space_tidy (pe_user_heap_next_va e') (?new pages)" if t: tidy
      using reserve_tidy(2) [OF tidy0(1,2) [OF t] 3(5) tidy0(4,5) [OF t] 3(13), of "btree_insert base new (ss_active ?sp)" s slots] tidy0(3) [OF t] safe'(2)
      by (simp add: e'_def new_def)
    have room: "entry_room tidy e'"
      using ok 3(10,12) lim reserve_tidy(3) [OF tidy0(1,2) 3(5) tidy0(4,5)] by (auto simp: entry_room_def e'_def PROCESS_FRAME_TOTAL_PAGES_def)
    have dev: "same_devices (entry_at pm r) e'" by (simp add: 3(3) e'_def same_devices_def)
    have ok': "space_ok tidy e' (?new pages)" if "take_pages (ss_pages ?sp) fp va base c = Some pages" for pages
      using safe'(1) pages that by (auto simp: space_ok_def e'_def)
    show ?case
      unfolding 3(16) slots Option.bind.simps new_def [symmetric] e'_def [symmetric]
      using pages put_shared_inv [OF ent inv 3(2) dev room ok'] by (cases "take_pages (ss_pages ?sp) fp va base c") auto
  qed
qed

lemma recycle_effect:
  assumes ent: "entries_inv pm" and inv: "shared_inv tidy pm"
  shows "(tidy \<and> shared_memory_reservation_of pm pid (rs_base_va r) (rs_page_count r) = Some r \<longrightarrow> recycle_shared_memory pm pid r \<noteq> None) \<and>
    (\<forall>pm'. recycle_shared_memory pm pid r = Some pm' \<longrightarrow> entries_inv pm' \<and> shared_inv tidy pm')"
proof (cases "pm_shared_memory pm (memory_owner_pid pm pid)")
  case None
  then show ?thesis by (simp add: recycle_shared_memory_def shared_memory_reservation_of_def)
next
  case (Some sp)
  let ?o = "memory_owner_pid pm pid"
  obtain e where e: "table pm ?o = Some e" "space_ok tidy e sp" using inv Some unfolding shared_inv_def by blast
  note room = shared_invD(1) [OF inv e(1)]
  have bound: "pe_next_frame_slot e < 2 ^ 64" using room by (simp add: entry_room_def PROCESS_FRAME_TOTAL_PAGES_def)
  have safe: "space_safe (pe_next_frame_slot e) sp" using e(2) by (simp add: space_ok_def)
  show ?thesis
  proof (cases "map_of (ss_active sp) (rs_base_va r) = Some r")
    case False
    then show ?thesis using Some by (auto simp: recycle_shared_memory_def shared_memory_reservation_of_def split: option.splits if_splits)
  next
    case True
    let ?new = "\<lambda>slots pages. \<lparr>ss_slots = slots, ss_pages = pages, ss_active = btree_remove (rs_base_va r) (ss_active sp)\<rparr>"
    obtain slots where slots: "fr_insert (ss_slots sp) (rs_start_slot r) (rs_page_count r) = Some slots"
      "\<And>pages. space_safe (pe_next_frame_slot e) (?new slots pages)"
      "set (btree_remove (rs_base_va r) (ss_active sp)) = set (ss_active sp) - {(rs_base_va r, r)}"
      using recycled_space_safe [OF safe True bound] by (metis option.inject)
    have pages: "\<exists>pages. fr_insert (ss_pages sp) (rs_base_va r div 4096) (rs_page_count r) = Some pages \<and> space_tidy (pe_user_heap_next_va e) (?new slots pages)" if tidy
      using recycled_space_tidy [OF safe _ True slots(3)] e(2) that by (metis space_ok_def)
    have "shared_inv tidy (pm\<lparr>pm_shared_memory := (pm_shared_memory pm)(?o \<mapsto> sp')\<rparr>)" if "space_ok tidy e sp'" for sp'
      by (rule shared_inv_upd [OF inv, of _ ?o "Some e" "Some sp'"]) (use e that room in auto)
    then show ?thesis using Some True slots pages ent by (auto simp: recycle_shared_memory_def USER_PAGE_SIZE_def space_ok_def split: bind_splits)
  qed
qed

lemma exclude_effect:
  assumes ent: "entries_inv pm" and inv: "shared_inv tidy pm" and c: "0 < c" "base div 4096 + c < 2 ^ 64"
  shows "(tidy \<longrightarrow> exclude_shared_virtual_range pm pid base c \<noteq> None) \<and>
    (\<forall>pm'. exclude_shared_virtual_range pm pid base c = Some pm' \<longrightarrow> entries_inv pm' \<and> shared_inv tidy pm' \<and> pm_next_pid pm' = pm_next_pid pm \<and> table pm' = table pm)"
proof (cases "pm_shared_memory pm (memory_owner_pid pm pid)")
  case None
  then show ?thesis using ent inv by (simp add: exclude_shared_virtual_range_def)
next
  case (Some sp)
  let ?o = "memory_owner_pid pm pid"
  obtain e where e: "table pm ?o = Some e" "space_ok tidy e sp" using inv Some unfolding shared_inv_def by blast
  have pages: "\<exists>pages. fr_exclude (ss_pages sp) (base div 4096) c = Some pages \<and> space_tidy (pe_user_heap_next_va e) (sp\<lparr>ss_pages := pages\<rparr>)" if tidy
    using excluded_space_tidy [OF _ c] e(2) that by (metis space_ok_def)
  have "shared_inv tidy (pm\<lparr>pm_shared_memory := (pm_shared_memory pm)(?o \<mapsto> sp')\<rparr>)" if "space_ok tidy e sp'" for sp'
    by (rule shared_inv_upd [OF inv, of _ ?o "Some e" "Some sp'"]) (use e that shared_invD(1) [OF inv e(1)] in auto)
  then show ?thesis using Some pages ent e(2)
    by (auto simp: exclude_shared_virtual_range_def USER_PAGE_SIZE_def space_ok_def excluded_space_safe split: bind_splits)
qed

text \<open>An entry whose slots and heap only grow keeps its space.\<close>

lemma grow_entry_inv:
  assumes wf: "table_wf pm" and inv: "shared_inv tidy pm" and r: "entry_mut_by_pid pm pid = Some r"
    and e: "pe_pid e = pe_pid (entry_at pm r)" "pe_used e" "entry_room tidy e"
    "pe_next_frame_slot (entry_at pm r) \<le> pe_next_frame_slot e" "pe_user_heap_next_va (entry_at pm r) \<le> pe_user_heap_next_va e"
  shows "shared_inv tidy (put_entry pm r e)" and "table (put_entry pm r e) = (table pm)(pid \<mapsto> e)"
proof -
  have T: "table pm pid = Some (entry_at pm r)" by (rule entry_mut_Some(1) [OF wf r])
  then have "pe_pid e = pid" using table_Some(1) [OF wf T] e(1) by simp
  then show T': "table (put_entry pm r e) = (table pm)(pid \<mapsto> e)" using entry_mut_Some(4) [OF wf r] e(2) by blast
  have grow: "space_ok tidy e sp" if "pm_shared_memory pm pid = Some sp" for sp
    using shared_invD(2) [OF inv T] that e(4,5) space_safe_mono space_tidy_mono by (auto simp: space_of_def space_ok_def)
  show "shared_inv tidy (put_entry pm r e)"
    by (rule shared_inv_upd [OF inv T', of "pm_shared_memory pm pid"]) (use e(3) grow in auto)
qed

end
