(* ===== verification/Manager_Run.thy ===== *)
theory Manager_Run
  imports Shared_Memory
begin

text \<open>
  Every call that the handlers of the root server make on the process manager, as one step relation, and the
  invariant all of them keep. The flag \<open>tidy\<close> says that no caller asks for shared memory at a fixed address.
\<close>

section \<open>The invariant\<close>

definition root_slots_inv :: "process_manager \<Rightarrow> bool" where
  "root_slots_inv pm \<longleftrightarrow> distinct (pm_used_root_slots pm) \<and>
     (\<forall>s \<in> set (pm_used_root_slots pm). PROCESS_ROOT_SLOT_BASE \<le> s \<and> s < pm_root_slot_limit pm \<and> s \<notin> set (pm_reserved_root_slots pm))"

definition manager_inv :: "bool \<Rightarrow> process_manager \<Rightarrow> bool" where
  "manager_inv tidy pm \<longleftrightarrow> entries_inv pm \<and> shared_inv tidy pm \<and> root_slots_inv pm \<and> 0 < pm_next_pid pm \<and>
     (\<forall>pid e. table pm pid = Some e \<longrightarrow> pid < pm_next_pid pm)"

definition same_tables :: "process_manager \<Rightarrow> process_manager \<Rightarrow> bool" where
  "same_tables pm pm' \<longleftrightarrow> pm_alpha_entry pm' = pm_alpha_entry pm \<and> pm_entries pm' = pm_entries pm \<and> pm_shared_memory pm' = pm_shared_memory pm"

definition same_slots :: "process_manager \<Rightarrow> process_manager \<Rightarrow> bool" where
  "same_slots pm pm' \<longleftrightarrow> pm_next_pid pm' = pm_next_pid pm \<and> pm_root_slot_limit pm' = pm_root_slot_limit pm \<and>
     pm_reserved_root_slots pm' = pm_reserved_root_slots pm \<and> pm_used_root_slots pm' = pm_used_root_slots pm"

lemma manager_invD:
  assumes "manager_inv tidy pm"
  shows "entries_inv pm" "table_wf pm" "shared_inv tidy pm" "root_slots_inv pm" "0 < pm_next_pid pm" "\<And>pid e. table pm pid = Some e \<Longrightarrow> pid < pm_next_pid pm"
  using assms by (auto simp: manager_inv_def entries_inv_def)

lemma same_tables_inv:
  assumes "same_tables pm pm'"
  shows "table pm' = table pm" "entries_inv pm' = entries_inv pm" "shared_inv tidy pm' = shared_inv tidy pm"
  using table_cong [of pm' pm] assms by (auto simp: same_tables_def entries_inv_def shared_inv_def)

lemma same_slots_inv: "same_slots pm pm' \<Longrightarrow> root_slots_inv pm' = root_slots_inv pm \<and> pm_next_pid pm' = pm_next_pid pm"
  by (simp add: same_slots_def root_slots_inv_def)

lemma manager_inv_neutral: "manager_inv tidy pm \<Longrightarrow> same_tables pm pm' \<Longrightarrow> same_slots pm pm' \<Longrightarrow> manager_inv tidy pm'"
  by (simp add: manager_inv_def same_tables_inv same_slots_inv)

lemma manager_inv_slots:
  assumes "manager_inv tidy pm" and "same_tables pm pm'" and "root_slots_inv pm'" and "pm_next_pid pm \<le> pm_next_pid pm'"
  shows "manager_inv tidy pm'"
  using assms by (auto simp: manager_inv_def same_tables_inv dest: order_less_le_trans)

lemma same_slots_put [simp]: "same_slots pm (put_entry pm r e)"
  by (simp add: same_slots_def)

lemma manager_inv_entries:
  assumes "manager_inv tidy pm" and "same_slots pm pm'" and "entries_inv pm'" and "shared_inv tidy pm'" and "dom (table pm') \<subseteq> dom (table pm)"
  shows "manager_inv tidy pm'"
  using assms by (auto simp: manager_inv_def same_slots_inv dom_def)

section \<open>Entries\<close>

lemma modify_entry_inv:
  assumes inv: "manager_inv tidy pm" and f: "\<And>e. same_devices e (f e) \<and> pe_next_frame_slot (f e) = pe_next_frame_slot e \<and> pe_user_heap_next_va (f e) = pe_user_heap_next_va e"
    and r: "entry_mut_by_pid pm pid = Some r"
  shows "manager_inv tidy (put_entry pm r (f (entry_at pm r)))"
proof -
  let ?e = "entry_at pm r"
  note D = manager_invD [OF inv]
  note T = entry_mut_Some(1) [OF D(2) r]
  note s = conjunct1 [OF f [of ?e]]
  have "entry_room tidy (f ?e)" using shared_invD(1) [OF D(3) T] f [of ?e] by (simp add: entry_room_def)
  then have g: "shared_inv tidy (put_entry pm r (f ?e))" "table (put_entry pm r (f ?e)) = (table pm)(pid \<mapsto> f ?e)"
    using grow_entry_inv [OF D(2,3) r, of "f ?e"] f [of ?e] same_devicesD [OF s] table_Some(2) [OF D(2) T] by auto
  show ?thesis
    by (rule manager_inv_entries [OF inv same_slots_put entries_inv_same(1) [OF D(1) r s] g(1)]) (use g(2) T in auto)
qed

lemma modify_entry_keeps:
  assumes "manager_inv tidy pm" and "\<And>e. same_devices e (f e) \<and> pe_next_frame_slot (f e) = pe_next_frame_slot e \<and> pe_user_heap_next_va (f e) = pe_user_heap_next_va e"
    and "modify_entry pm pid f = (res, pm')"
  shows "manager_inv tidy pm'"
  using assms(3) modify_entry_inv [OF assms(1,2)] assms(1) by (auto simp: modify_entry_def split: option.splits)

lemma device_change_inv:
  assumes inv: "manager_inv tidy pm" and ent: "entries_inv pm'" and d: "device_change pm pid pm'"
  shows "manager_inv tidy pm'"
proof (cases "pm' = pm")
  case False
  note D = manager_invD [OF inv]
  obtain r irqs n ranges m where r: "entry_mut_by_pid pm pid = Some r"
    "pm' = put_entry pm r ((entry_at pm r)\<lparr>pe_irq_numbers := irqs, pe_irq_count := n, pe_io_ranges := ranges, pe_io_range_count := m\<rparr>)"
    using d False unfolding device_change_def by blast
  note T = entry_mut_Some(1) [OF D(2) r(1)]
  have g: "shared_inv tidy pm'" "dom (table pm') \<subseteq> dom (table pm)"
    using grow_entry_inv [OF D(2,3) r(1), of "(entry_at pm r)\<lparr>pe_irq_numbers := irqs, pe_irq_count := n, pe_io_ranges := ranges, pe_io_range_count := m\<rparr>"]
      shared_invD(1) [OF D(3) T] table_Some(2) [OF D(2) T] T by (auto simp: r(2) entry_room_def)
  show ?thesis by (rule manager_inv_entries [OF inv _ ent g]) (simp add: r(2))
qed (use inv in simp)

lemma grow_keeps:
  assumes inv: "manager_inv tidy pm" and r: "entry_mut_by_pid pm pid = Some r" and e: "same_devices (entry_at pm r) e" "entry_room tidy e"
    "pe_next_frame_slot (entry_at pm r) \<le> pe_next_frame_slot e" "pe_user_heap_next_va (entry_at pm r) \<le> pe_user_heap_next_va e"
  shows "manager_inv tidy (put_entry pm r e)"
proof -
  note D = manager_invD [OF inv]
  note T = entry_mut_Some(1) [OF D(2) r] and s = same_devicesD [OF e(1)]
  note g = grow_entry_inv [OF D(2,3) r _ _ e(2-4)]
  show ?thesis
    by (rule manager_inv_entries [OF inv same_slots_put entries_inv_same(1) [OF D(1) r e(1)]])
      (use g s T table_Some(2) [OF D(2) T] in auto)
qed

section \<open>Root slots\<close>

definition taken_slots :: "process_manager \<Rightarrow> nat set" where
  "taken_slots pm = set (pm_reserved_root_slots pm) \<union> set (pm_used_root_slots pm)"

lemma alloc_slot_step:
  "alloc_slot_from pm slot =
    (if slot < pm_root_slot_limit pm then
       if slot \<notin> taken_slots pm then
         if pm_next_pid pm + 1 < 2 ^ 64
         then (Inr (pm_next_pid pm, slot), pm\<lparr>pm_used_root_slots := pm_used_root_slots pm @ [slot], pm_next_pid := pm_next_pid pm + 1\<rparr>)
         else (Inl InvalidArgument, pm\<lparr>pm_used_root_slots := pm_used_root_slots pm @ [slot]\<rparr>)
       else alloc_slot_from pm (slot + 1)
     else (Inl InvalidArgument, pm))"
  by (subst alloc_slot_from.simps)
    (auto simp: Let_def checked_add_def usize_limit_def is_root_slot_reserved_def list_ex_iff taken_slots_def)

text \<open>The search takes the first slot at or above its start that is neither reserved nor used.\<close>

lemma alloc_slot_from_eq:
  assumes "alloc_slot_from pm slot = (res, pm')"
  shows "(res, pm') = (Inl InvalidArgument, pm) \<and> {slot..<pm_root_slot_limit pm} \<subseteq> taken_slots pm \<or>
    (\<exists>s. slot \<le> s \<and> s < pm_root_slot_limit pm \<and> s \<notin> taken_slots pm \<and> {slot..<s} \<subseteq> taken_slots pm \<and>
      (res, pm') = (if pm_next_pid pm + 1 < 2 ^ 64
         then (Inr (pm_next_pid pm, s), pm\<lparr>pm_used_root_slots := pm_used_root_slots pm @ [s], pm_next_pid := pm_next_pid pm + 1\<rparr>)
         else (Inl InvalidArgument, pm\<lparr>pm_used_root_slots := pm_used_root_slots pm @ [s]\<rparr>)))"
  using assms
proof (induction "pm_root_slot_limit pm - slot" arbitrary: slot)
  case 0
  then show ?case using alloc_slot_step [of pm slot] by auto
next
  case (Suc n)
  then have lt: "slot < pm_root_slot_limit pm" by simp
  show ?case
  proof (cases "slot \<in> taken_slots pm")
    case False
    then show ?thesis using Suc.prems lt alloc_slot_step [of pm slot] by (intro disjI2 exI [of _ slot]) simp
  next
    case True
    then have "alloc_slot_from pm (slot + 1) = (res, pm')" using Suc.prems lt alloc_slot_step [of pm slot] by simp
    then have IH: "(res, pm') = (Inl InvalidArgument, pm) \<and> {slot + 1..<pm_root_slot_limit pm} \<subseteq> taken_slots pm \<or>
      (\<exists>s. slot + 1 \<le> s \<and> s < pm_root_slot_limit pm \<and> s \<notin> taken_slots pm \<and> {slot + 1..<s} \<subseteq> taken_slots pm \<and>
        (res, pm') = (if pm_next_pid pm + 1 < 2 ^ 64
           then (Inr (pm_next_pid pm, s), pm\<lparr>pm_used_root_slots := pm_used_root_slots pm @ [s], pm_next_pid := pm_next_pid pm + 1\<rparr>)
           else (Inl InvalidArgument, pm\<lparr>pm_used_root_slots := pm_used_root_slots pm @ [s]\<rparr>)))"
      using Suc.hyps by (intro Suc.hyps(1)) simp_all
    have "{slot..<s} \<subseteq> taken_slots pm" if "slot < s" "{slot + 1..<s} \<subseteq> taken_slots pm" for s
    proof -
      have "{slot..<s} = insert slot {slot + 1..<s}" using that(1) by auto
      then show ?thesis using that True by simp
    qed
    then show ?thesis using IH lt by (metis Suc_eq_plus1 Suc_le_lessD less_imp_le_nat)
  qed
qed

lemma alloc_slot_inv:
  assumes inv: "manager_inv tidy pm" and "alloc_process_slot pm = (res, pm')"
  shows "manager_inv tidy pm'"
proof -
  note a = alloc_slot_from_eq [OF assms(2) [unfolded alloc_process_slot_def]]
  have push: "root_slots_inv (pm\<lparr>pm_used_root_slots := pm_used_root_slots pm @ [s], pm_next_pid := p\<rparr>)"
    if "PROCESS_ROOT_SLOT_BASE \<le> s" "s < pm_root_slot_limit pm" "s \<notin> taken_slots pm" for s p
    using manager_invD(4) [OF inv] that by (auto simp: root_slots_inv_def taken_slots_def)
  have keep: "manager_inv tidy (pm\<lparr>pm_used_root_slots := pm_used_root_slots pm @ [s], pm_next_pid := p\<rparr>)"
    if "PROCESS_ROOT_SLOT_BASE \<le> s" "s < pm_root_slot_limit pm" "s \<notin> taken_slots pm" "pm_next_pid pm \<le> p" for s p
    by (rule manager_inv_slots [OF inv _ push [OF that(1-3)]]) (simp_all add: same_tables_def that(4))
  show ?thesis using a inv keep keep [of _ "pm_next_pid pm"] by (auto split: if_splits)
qed

lemma release_slot_inv:
  assumes inv: "manager_inv tidy pm"
  shows "manager_inv tidy (release_process_slot_reservation pm slot)" and "same_tables pm (release_process_slot_reservation pm slot)"
proof -
  show t: "same_tables pm (release_process_slot_reservation pm slot)"
    by (simp add: release_process_slot_reservation_def same_tables_def split: option.split)
  show "manager_inv tidy (release_process_slot_reservation pm slot)"
  proof (cases "first_index (\<lambda>s. s = slot) (pm_used_root_slots pm)")
    case (Some i)
    let ?used = "pm_used_root_slots pm"
    have i: "i < length ?used" using first_index_Some [OF Some] by simp
    have m: "mset (vec_swap_remove i ?used) = mset (remove1 (?used ! i) ?used)" using mset_swap_out [OF i] by (simp add: vec_swap_remove_def)
    have "set (vec_swap_remove i ?used) \<subseteq> set ?used" "distinct (vec_swap_remove i ?used) = distinct (remove1 (?used ! i) ?used)"
      using mset_eq_setD [OF m] mset_eq_imp_distinct_iff [OF m] set_remove1_subset [of "?used ! i" ?used] by simp_all
    then have "root_slots_inv (release_process_slot_reservation pm slot)"
      using manager_invD(4) [OF inv] Some by (auto simp: release_process_slot_reservation_def root_slots_inv_def)
    then show ?thesis by (rule manager_inv_slots [OF inv t]) (simp add: release_process_slot_reservation_def Some)
  qed (use inv in \<open>simp add: release_process_slot_reservation_def\<close>)
qed

section \<open>Processes come and go\<close>

definition fresh_room :: "bool \<Rightarrow> nat \<Rightarrow> nat \<Rightarrow> bool" where
  "fresh_room tidy next_frame_slot heap_next \<longleftrightarrow> next_frame_slot < 2 ^ 53 \<and> (tidy \<longrightarrow> 4096 dvd heap_next \<and> heap_next < 2 ^ 64)"

text \<open>The callers keep to it: a process gets the layout of an image, the heap of an existing process, or nothing.\<close>

lemma fresh_room_callers:
  "process_layout elf = Some (Inr (total_frames, heap_base)) \<Longrightarrow> fresh_room tidy total_frames heap_base"
  "fresh_room tidy 0 0"
  using process_layout_bound [of elf total_frames heap_base] by (simp_all add: fresh_room_def)

lemma fresh_room_thread:
  assumes "manager_inv tidy pm" and "memory_entry pm source = Some memory"
  shows "fresh_room tidy 0 (pe_user_heap_next_va memory)"
proof -
  note D = manager_invD [OF assms(1)]
  have "table pm (memory_owner_pid pm source) = Some memory" using assms(2) by (simp add: memory_entry_def find_entry_table [OF D(2)])
  from shared_invD(1) [OF D(3) this] show ?thesis by (simp add: fresh_room_def entry_room_def)
qed

lemma new_entry_ok:
  "entry_ok (new_entry types pid reaper root_slot root_node pcb address_space os_port os_port_identifier affinity next_frame_slot heap_next heap_limit)"
  "held (new_entry types pid reaper root_slot root_node pcb address_space os_port os_port_identifier affinity next_frame_slot heap_next heap_limit) = {}"
  by (simp_all add: new_entry_def entry_ok_def held_def ports_def MAX_IRQS_PER_PROCESS_def MAX_IO_RANGES_PER_PROCESS_def)

lemma install_inv:
  assumes inv: "manager_inv tidy pm" and pid: "pid \<noteq> 0" "pid < pm_next_pid pm" "find_entry_by_pid pm pid = None" and room: "fresh_room tidy next_frame_slot heap_next"
    and eq: "install_process pm pid reaper root_slot root_node pcb address_space os_port os_port_identifier affinity next_frame_slot heap_next heap_limit = (res, pm')"
  shows "manager_inv tidy pm'"
proof -
  note D = manager_invD [OF inv]
  have none: "table pm pid = None" using pid(3) by (simp add: find_entry_table D(2))
  obtain e where e: "e = new_entry root_native pid reaper root_slot root_node pcb address_space os_port os_port_identifier affinity next_frame_slot heap_next heap_limit" by blast
  obtain es where es: "pm' = pm\<lparr>pm_entries := es\<rparr>" "table_wf pm'" "table pm' = (table pm)(pid \<mapsto> e)"
    using install_process_table [OF D(2) pid(1) none e] eq by (metis Pair_inject)
  have ne: "entry_ok e" "held e = {}" unfolding e by (rule new_entry_ok)+
  have "pm_shared_memory pm pid = None" using D(3) none unfolding shared_inv_def by (metis not_None_eq)
  then have "shared_inv tidy pm'"
    by (intro shared_inv_upd [OF D(3) es(3), of None]) (use room es(1) in \<open>auto simp: e new_entry_def entry_room_def fresh_room_def\<close>)
  moreover have "entries_inv pm'" using D(1) es(2) ne unfolding entries_inv_def es(3) by auto
  moreover have "root_slots_inv pm'" using D(4) es(1) by (simp add: root_slots_inv_def)
  ultimately show ?thesis using D(5,6) pid(2) es(1,3) by (auto simp: manager_inv_def)
qed

lemma drop_memory_eq:
  assumes "drop_process_memory pm pid = Some pm'"
  shows "pm_alpha_entry pm' = pm_alpha_entry pm" "pm_entries pm' = pm_entries pm" "same_slots pm pm'" "pm_shared_memory pm' = (pm_shared_memory pm)(pid := None)"
  using assms by (auto simp: drop_process_memory_def drop_physical_allocations_for_pid_def same_slots_def Let_def split: sum.splits bind_splits)

lemma drop_shared_inv:
  assumes "shared_inv tidy pm" and "table pm' = table pm \<or> table pm' = (table pm)(pid := None)" and "pm_shared_memory pm' = (pm_shared_memory pm)(pid := None)"
  shows "shared_inv tidy pm'"
  using shared_inv_upd [OF assms(1), of pm' pid "table pm' pid" None] assms by (auto simp: shared_inv_def)

lemma discard_inv:
  assumes inv: "manager_inv tidy pm" and "discard_process_artifacts pm pid slot = Some pm'"
  shows "manager_inv tidy pm'"
proof -
  let ?pm = "release_process_slot_reservation pm slot"
  have inv': "manager_inv tidy ?pm" by (rule release_slot_inv [OF inv])
  note D = manager_invD [OF inv'] and d = drop_memory_eq [OF assms(2) [unfolded discard_process_artifacts_def]]
  have T: "table pm' = table ?pm" "table_wf pm' = table_wf ?pm" using table_cong [OF d(1,2)] by simp_all
  show ?thesis
    by (rule manager_inv_entries [OF inv' d(3)]) (use D T d(4) drop_shared_inv [OF D(3), of pm' pid] in \<open>auto simp: entries_inv_def\<close>)
qed

lemma reap_inv:
  assumes inv: "manager_inv tidy pm" and eq: "reap_process pm pid release = Some (res, pm')"
  shows "manager_inv tidy pm'"
proof (cases "pm' = pm")
  case False
  note D = manager_invD [OF inv]
  obtain i where i: "binary_search_by_key pe_pid (pm_entries pm) pid = Inr i"
    and drop: "drop_process_memory (if release then release_process_slot_reservation (pm\<lparr>pm_entries := vec_remove i (pm_entries pm)\<rparr>) (pe_root_slot (pm_entries pm ! i))
      else pm\<lparr>pm_entries := vec_remove i (pm_entries pm)\<rparr>) pid = Some pm'"
    using eq False by (auto simp: reap_process_def Let_def split: if_splits sum.splits bind_splits)
  let ?pm = "pm\<lparr>pm_entries := vec_remove i (pm_entries pm)\<rparr>"
  note t = remove_entry_table [OF D(2) i]
  have "entries_inv ?pm" using D(1) t(1) unfolding entries_inv_def t(2) by (auto split: if_splits)
  obtain m where m: "m = ?pm\<lparr>pm_shared_memory := (pm_shared_memory pm)(pid := None)\<rparr>" by blast
  have s: "shared_inv tidy m" by (rule drop_shared_inv [OF D(3), of _ pid]) (simp_all add: m t(2))
  have inv_m: "manager_inv tidy m"
    by (rule manager_inv_entries [OF inv _ _ s]) (use \<open>entries_inv ?pm\<close> t(2) in \<open>auto simp: m same_slots_def\<close>)
  let ?rel = "if release then release_process_slot_reservation m (pe_root_slot (pm_entries pm ! i)) else m"
  have inv_r: "manager_inv tidy ?rel" using inv_m release_slot_inv(1) [OF inv_m] by simp
  have same: "same_tables ?rel pm'" "same_slots ?rel pm'"
    using drop_memory_eq [OF drop]
    by (auto simp: m same_tables_def same_slots_def release_process_slot_reservation_def split: option.splits if_splits)
  show ?thesis by (rule manager_inv_neutral [OF inv_r same])
qed (use inv in simp)

lemma reset_inv:
  assumes inv: "manager_inv tidy pm" and room: "fresh_room tidy next_frame_slot heap_next"
    and eq: "reset_runtime_memory_for_exec pm pid next_frame_slot heap_next heap_limit = Some (res, pm')"
  shows "manager_inv tidy pm'"
proof (cases "entry_mut_by_pid pm pid")
  case (Some r)
  note D = manager_invD [OF inv]
  obtain e where e: "e = (entry_at pm r)\<lparr>pe_next_frame_slot := next_frame_slot, pe_user_heap_next_va := heap_next,
                pe_user_heap_limit_va := heap_limit, pe_exited := False, pe_exit_is_ok := 0, pe_exit_code := 0\<rparr>" by blast
  have dev: "same_devices (entry_at pm r) e" by (simp add: e same_devices_def)
  note E = entries_inv_same [OF D(1) Some dev]
  have T: "table pm pid = Some (entry_at pm r)" by (rule entry_mut_Some(1) [OF D(2) Some])
  let ?m = "(put_entry pm r e)\<lparr>pm_shared_memory := (pm_shared_memory pm)(pid := None)\<rparr>"
  have "shared_inv tidy ?m"
    by (rule shared_inv_upd [OF D(3), of _ pid "Some e" None]) (use E(2) room in \<open>auto simp: e entry_room_def fresh_room_def\<close>)
  then have inv_m: "manager_inv tidy ?m"
    by (intro manager_inv_entries [OF inv]) (use E T in \<open>auto simp: same_slots_def\<close>)
  have "same_tables ?m pm'" "same_slots ?m pm'"
    using eq Some unfolding e by (auto simp: reset_runtime_memory_for_exec_def same_tables_def same_slots_def Let_def split: option.splits bind_splits)
  then show ?thesis by (rule manager_inv_neutral [OF inv_m])
qed (use assms in \<open>simp add: reset_runtime_memory_for_exec_def\<close>)

lemma drop_allocations_inv:
  assumes inv: "manager_inv tidy pm" and "drop_physical_allocations_for_pid pm pid = Some pm'"
  shows "manager_inv tidy pm'"
proof -
  note D = manager_invD [OF inv]
  have d: "pm_alpha_entry pm' = pm_alpha_entry pm" "pm_entries pm' = pm_entries pm" "same_slots pm pm'" "pm_shared_memory pm' = (pm_shared_memory pm)(pid := None)"
    using assms(2) by (auto simp: drop_physical_allocations_for_pid_def same_slots_def split: bind_splits)
  have T: "table pm' = table pm" "table_wf pm' = table_wf pm" using table_cong [OF d(1,2)] by simp_all
  show ?thesis
    by (rule manager_inv_entries [OF inv d(3)]) (use D T d(4) drop_shared_inv [OF D(3), of pm' pid] in \<open>auto simp: entries_inv_def\<close>)
qed

section \<open>The heap\<close>

lemma slots_grow:
  assumes "entry_room tidy e" and "wrapping_add (pe_next_frame_slot e) c \<le> PROCESS_FRAME_TOTAL_PAGES" and "c * 4096 < 2 ^ 64"
  shows "pe_next_frame_slot e \<le> wrapping_add (pe_next_frame_slot e) c"
proof -
  have "pe_next_frame_slot e + c < usize_limit" using assms by (auto simp: entry_room_def PROCESS_FRAME_TOTAL_PAGES_def usize_limit_def)
  then show ?thesis by simp
qed

lemma heap_inv:
  assumes inv: "manager_inv tidy pm" and eq: "reserve_process_heap pm pid c USER_PAGE_SIZE PROCESS_FRAME_TOTAL_PAGES = (res, pm')"
  shows "manager_inv tidy pm'"
proof (cases "pm' = pm")
  case False
  note D = manager_invD [OF inv]
  let ?o = "memory_owner_pid pm pid"
  obtain r where r: "entry_mut_by_pid pm ?o = Some r" and s: "wrapping_add (pe_next_frame_slot (entry_at pm r)) c \<le> PROCESS_FRAME_TOTAL_PAGES"
    and b: "c * 4096 < 2 ^ 64" "pe_user_heap_next_va (entry_at pm r) + c * 4096 < 2 ^ 64"
    and pm': "pm' = put_entry pm r ((entry_at pm r)\<lparr>pe_next_frame_slot := wrapping_add (pe_next_frame_slot (entry_at pm r)) c,
      pe_user_heap_next_va := pe_user_heap_next_va (entry_at pm r) + c * 4096\<rparr>)"
    using eq False by (auto simp: reserve_process_heap_def Let_def USER_PAGE_SIZE_def checked_add_def checked_mul_def usize_limit_def split: if_splits option.splits)
  have room: "entry_room tidy (entry_at pm r)" by (rule shared_invD(1) [OF D(3) entry_mut_Some(1) [OF D(2) r]])
  show ?thesis unfolding pm'
    by (rule grow_keeps [OF inv r]) (use room s b slots_grow [OF room s b(1)] in \<open>auto simp: same_devices_def entry_room_def PROCESS_FRAME_TOTAL_PAGES_def\<close>)
qed (use inv in simp)

lemma gap_inv:
  assumes inv: "manager_inv tidy pm" and eq: "reserve_process_virtual_gap pm pid c USER_PAGE_SIZE = (res, pm')"
  shows "manager_inv tidy pm'"
proof (cases "pm' = pm")
  case False
  note D = manager_invD [OF inv]
  let ?o = "memory_owner_pid pm pid"
  obtain r where r: "entry_mut_by_pid pm ?o = Some r" and b: "pe_user_heap_next_va (entry_at pm r) + c * 4096 < 2 ^ 64"
    and pm': "pm' = put_entry pm r ((entry_at pm r)\<lparr>pe_user_heap_next_va := pe_user_heap_next_va (entry_at pm r) + c * 4096\<rparr>)"
    using eq False by (auto simp: reserve_process_virtual_gap_def Let_def USER_PAGE_SIZE_def checked_add_def checked_mul_def usize_limit_def split: if_splits option.splits)
  have room: "entry_room tidy (entry_at pm r)" by (rule shared_invD(1) [OF D(3) entry_mut_Some(1) [OF D(2) r]])
  show ?thesis unfolding pm' by (rule grow_keeps [OF inv r]) (use room b in \<open>auto simp: same_devices_def entry_room_def\<close>)
qed (use inv in simp)

lemma exclude_inv:
  assumes inv: "manager_inv tidy pm" and c: "0 < c" "base + c * 4096 < 2 ^ 64"
  shows "tidy \<Longrightarrow> exclude_shared_virtual_range pm pid base c \<noteq> None"
    and "exclude_shared_virtual_range pm pid base c = Some pm' \<Longrightarrow> manager_inv tidy pm'"
proof -
  note D = manager_invD [OF inv]
  have "base div 4096 + c < 2 ^ 64" using c(2) by linarith
  note e = exclude_effect [OF D(1,3) c(1) this, of pid]
  show "tidy \<Longrightarrow> exclude_shared_virtual_range pm pid base c \<noteq> None" using e by blast
  assume eq: "exclude_shared_virtual_range pm pid base c = Some pm'"
  have "same_slots pm pm'" using eq by (auto simp: exclude_shared_virtual_range_def same_slots_def Let_def split: option.splits bind_splits)
  then show "manager_inv tidy pm'" using e eq by (intro manager_inv_entries [OF inv]) auto
qed

lemma heap_at_inv:
  assumes inv: "manager_inv tidy pm"
  shows "tidy \<Longrightarrow> reserve_process_heap_at pm pid base c USER_PAGE_SIZE PROCESS_FRAME_TOTAL_PAGES \<noteq> None"
    and "reserve_process_heap_at pm pid base c USER_PAGE_SIZE PROCESS_FRAME_TOTAL_PAGES = Some (res, pm') \<Longrightarrow> manager_inv tidy pm'"
proof -
  note D = manager_invD [OF inv]
  let ?o = "memory_owner_pid pm pid" and ?res = "reserve_process_heap_at pm pid base c USER_PAGE_SIZE PROCESS_FRAME_TOTAL_PAGES"
  have "(\<exists>x. ?res = Some (Inl x, pm)) \<or> (\<exists>r v. manager_inv tidy (put_entry pm r v) \<and> 0 < c \<and> base + c * 4096 < 2 ^ 64 \<and>
    (\<exists>y. ?res = map_option (\<lambda>pm. (Inr y, pm)) (exclude_shared_virtual_range (put_entry pm r v) ?o base c)))"
  proof (cases "\<exists>x. ?res = Some (Inl x, pm)")
    case False
    then obtain r where r: "entry_mut_by_pid pm ?o = Some r" and s: "wrapping_add (pe_next_frame_slot (entry_at pm r)) c \<le> PROCESS_FRAME_TOTAL_PAGES"
      and b: "0 < c" "c * 4096 < 2 ^ 64" "base + c * 4096 < 2 ^ 64"
      and res: "\<exists>y. ?res = map_option (\<lambda>pm. (Inr y, pm)) (exclude_shared_virtual_range
        (put_entry pm r ((entry_at pm r)\<lparr>pe_next_frame_slot := wrapping_add (pe_next_frame_slot (entry_at pm r)) c\<rparr>)) ?o base c)"
      by (auto simp: reserve_process_heap_at_def Let_def USER_PAGE_SIZE_def checked_add_def checked_mul_def usize_limit_def map_option_case bind_eq_Some_conv
        Option.bind_def split: if_splits option.splits)
    have room: "entry_room tidy (entry_at pm r)" by (rule shared_invD(1) [OF D(3) entry_mut_Some(1) [OF D(2) r]])
    have "manager_inv tidy (put_entry pm r ((entry_at pm r)\<lparr>pe_next_frame_slot := wrapping_add (pe_next_frame_slot (entry_at pm r)) c\<rparr>))"
      by (rule grow_keeps [OF inv r]) (use room s slots_grow [OF room s b(2)] in \<open>auto simp: same_devices_def entry_room_def PROCESS_FRAME_TOTAL_PAGES_def\<close>)
    then show ?thesis using b res by blast
  qed simp
  then show "tidy \<Longrightarrow> ?res \<noteq> None" "?res = Some (res, pm') \<Longrightarrow> manager_inv tidy pm'"
    using exclude_inv inv by fastforce+
qed

section \<open>Shared memory\<close>

lemma reserve_frame:
  assumes wf: "table_wf pm" and eq: "reserve_shared_memory_at pm pid c limit va = Some (res, pm')"
  shows "same_slots pm pm' \<and> dom (table pm') \<subseteq> dom (table pm)"
proof (rule reserve_shape [OF wf refl refl refl, of pid c limit va], goal_cases)
  case (3 e r fp s base)
  have e: "pe_pid e = memory_owner_pid pm pid" "pe_used e" using table_Some [OF wf 3(1)] by simp_all
  obtain m n h where pm': "pm' = (put_entry pm r (e\<lparr>pe_next_frame_slot := n, pe_user_heap_next_va := h\<rparr>))\<lparr>pm_shared_memory := m\<rparr>"
    using eq unfolding 3(16) put_entry_shared by (auto split: bind_splits)
  then have "table pm' = (table pm)(memory_owner_pid pm pid \<mapsto> e\<lparr>pe_next_frame_slot := n, pe_user_heap_next_va := h\<rparr>)"
    using e entry_mut_Some(4) [OF wf 3(2)] by simp
  then show ?case using 3(1) by (auto simp: pm' same_slots_def)
qed (use eq in \<open>auto simp: same_slots_def\<close>)

lemma reserve_inv:
  assumes inv: "manager_inv tidy pm" and va: "tidy \<Longrightarrow> va = 0"
  shows "tidy \<Longrightarrow> \<exists>res pm'. reserve_shared_memory_at pm pid c PROCESS_FRAME_TOTAL_PAGES va = Some (res, pm') \<and> res \<noteq> Inl IllegalOperation"
    and "reserve_shared_memory_at pm pid c PROCESS_FRAME_TOTAL_PAGES va = Some (res, pm') \<Longrightarrow> manager_inv tidy pm'"
proof -
  note D = manager_invD [OF inv]
  note e = reserve_effect [OF D(1,3) order_refl va, of pid c]
  show "tidy \<Longrightarrow> \<exists>res pm'. reserve_shared_memory_at pm pid c PROCESS_FRAME_TOTAL_PAGES va = Some (res, pm') \<and> res \<noteq> Inl IllegalOperation" using e by blast
  assume eq: "reserve_shared_memory_at pm pid c PROCESS_FRAME_TOTAL_PAGES va = Some (res, pm')"
  show "manager_inv tidy pm'" using reserve_frame [OF D(2) eq] e eq by (intro manager_inv_entries [OF inv]) blast+
qed

lemma recycle_shared_inv:
  assumes inv: "manager_inv tidy pm"
  shows "tidy \<Longrightarrow> shared_memory_reservation_of pm pid (rs_base_va r) (rs_page_count r) = Some r \<Longrightarrow> recycle_shared_memory pm pid r \<noteq> None"
    and "recycle_shared_memory pm pid r = Some pm' \<Longrightarrow> manager_inv tidy pm'"
proof -
  note D = manager_invD [OF inv]
  note e = recycle_effect [OF D(1,3), of pid r]
  show "tidy \<Longrightarrow> shared_memory_reservation_of pm pid (rs_base_va r) (rs_page_count r) = Some r \<Longrightarrow> recycle_shared_memory pm pid r \<noteq> None" using e by blast
  assume eq: "recycle_shared_memory pm pid r = Some pm'"
  have "same_slots pm pm' \<and> table pm' = table pm"
    using eq by (auto simp: recycle_shared_memory_def same_slots_def Let_def split: bind_splits if_splits)
  then show "manager_inv tidy pm'" using e eq by (intro manager_inv_entries [OF inv]) auto
qed

section \<open>The calls of the handlers\<close>

text \<open>
  The arguments are arbitrary where the handlers pass on what a client sent. A process is installed under an id that
  \<open>alloc_process_slot\<close> returned and that is not in use; the frames and the heap of a new or a replaced image are
  those of \<open>process_layout\<close> for any ELF file (\<open>spawn_process_from_elf\<close>, \<open>replace_process_image_from_memory\<close>), a thread or a clone starts
  without frames at the heap of its source (\<open>threads.rs\<close>), and \<open>drop_process_runtime_mappings\<close> resets both to zero.
\<close>

inductive manager_step :: "bool \<Rightarrow> process_manager \<Rightarrow> process_manager \<Rightarrow> bool" for tidy where
  step_platform: "set_platform_information_access pm pid allowed = (res, pm') \<Longrightarrow> manager_step tidy pm pm'"
| step_admin: "set_service_admin pm pid allowed = (res, pm') \<Longrightarrow> manager_step tidy pm pm'"
| step_quarantine: "quarantine_resources pm pid = (res, pm') \<Longrightarrow> manager_step tidy pm pm'"
| step_exit: "mark_exited pm pid is_ok exit_code = (res, pm') \<Longrightarrow> manager_step tidy pm pm'"
| step_share: "share_address_space pm pid source = (res, pm') \<Longrightarrow> manager_step tidy pm pm'"
| step_defer_vm: "manager_step tidy pm (defer_vm_reap pm pid)"
| step_root_types: "root_types_mut pm pid = Inr r \<Longrightarrow> manager_step tidy pm (put_entry pm r ((entry_at pm r)\<lparr>pe_root_types := types\<rparr>))"
| step_alloc: "alloc_process_slot pm = (res, pm') \<Longrightarrow> manager_step tidy pm pm'"
| step_release: "manager_step tidy pm (release_process_slot_reservation pm slot)"
| step_affinity: "allocate_affinity diagnostic pm = (affinity, pm') \<Longrightarrow> manager_step tidy pm pm'"
| step_install_image: "pid \<noteq> 0 \<Longrightarrow> pid < pm_next_pid pm \<Longrightarrow> find_entry_by_pid pm pid = None \<Longrightarrow>
    process_layout elf = Some (Inr (total_frames, heap_base)) \<Longrightarrow>
    install_process pm pid reaper root_slot root_node pcb address_space os_port os_port_identifier affinity total_frames heap_base USER_HEAP_LIMIT = (res, pm') \<Longrightarrow>
    manager_step tidy pm pm'"
| step_install_thread: "pid \<noteq> 0 \<Longrightarrow> pid < pm_next_pid pm \<Longrightarrow> find_entry_by_pid pm pid = None \<Longrightarrow>
    memory_entry pm source = Some memory \<Longrightarrow>
    install_process pm pid reaper root_slot root_node pcb address_space 0 os_port_identifier affinity 0 (pe_user_heap_next_va memory) (pe_user_heap_limit_va memory) = (res, pm') \<Longrightarrow>
    manager_step tidy pm pm'"
| step_discard: "discard_process_artifacts pm pid slot = Some pm' \<Longrightarrow> manager_step tidy pm pm'"
| step_reap: "reap_process pm pid release = Some (res, pm') \<Longrightarrow> manager_step tidy pm pm'"
| step_reset_exec: "process_layout elf = Some (Inr (total_frames, heap_base)) \<Longrightarrow>
    reset_runtime_memory_for_exec pm pid total_frames heap_base USER_HEAP_LIMIT = Some (allocations, pm') \<Longrightarrow> manager_step tidy pm pm'"
| step_reset_drop: "reset_runtime_memory_for_exec pm pid 0 0 USER_HEAP_LIMIT = Some (allocations, pm') \<Longrightarrow> manager_step tidy pm pm'"
| step_assign_irq: "assign_irq_to_pid pm pid irq = Some (res, pm') \<Longrightarrow> manager_step tidy pm pm'"
| step_unassign_irq: "unassign_irq_from_pid pm pid irq = Some (res, pm') \<Longrightarrow> manager_step tidy pm pm'"
| step_add_io: "add_io_range_to_pid pm pid lo hi = Some (res, pm') \<Longrightarrow> manager_step tidy pm pm'"
| step_ensure_vm: "ensure_vm_space_for_pid pm pid = (res, pm') \<Longrightarrow> manager_step tidy pm pm'"
| step_vm_space: "vm_space_mut pm pid = Some i \<Longrightarrow> manager_step tidy pm (pm\<lparr>pm_vm_spaces := (pm_vm_spaces pm)[i := space]\<rparr>)"
| step_alpha_vm: "manager_step tidy pm (pm\<lparr>pm_alpha_vm_space := alpha_space\<rparr>)"
| step_frame_chunk: "register_frame_chunk pm pid chunk_index = (res, pm') \<Longrightarrow> manager_step tidy pm pm'"
| step_lazy: "register_lazy_mapping pm pid base_va page_count start_slot kind = (res, pm') \<Longrightarrow> manager_step tidy pm pm'"
| step_drop_lazy: "manager_step tidy pm (drop_image_lazy_mappings_for_pid pm pid)"
| step_physical: "register_physical_allocation pm pid base_va start_slot base_page page_count = Some (res, pm') \<Longrightarrow> manager_step tidy pm pm'"
| step_drop_physical: "drop_physical_allocations_for_pid pm pid = Some pm' \<Longrightarrow> manager_step tidy pm pm'"
| step_defer: "defer_physical_allocation_for_pid pm pid allocation = Some pm' \<Longrightarrow> manager_step tidy pm pm'"
| step_take_deferred: "take_deferred_physical_allocation pm pid base_va page_count = Some (taken, pm') \<Longrightarrow> manager_step tidy pm pm'"
| step_drop_deferred: "drop_deferred_physical_allocations_for_pid pm pid = Some pm' \<Longrightarrow> manager_step tidy pm pm'"
| step_release_physical: "release_physical_allocation_reference pm pid base_va page_count = Some (released, pm') \<Longrightarrow> manager_step tidy pm pm'"
| step_heap: "reserve_process_heap pm pid page_count USER_PAGE_SIZE PROCESS_FRAME_TOTAL_PAGES = (reserved, pm') \<Longrightarrow> manager_step tidy pm pm'"
| step_gap: "reserve_process_virtual_gap pm pid page_count USER_PAGE_SIZE = (gap, pm') \<Longrightarrow> manager_step tidy pm pm'"
| step_heap_at: "reserve_process_heap_at pm pid base_va page_count USER_PAGE_SIZE PROCESS_FRAME_TOTAL_PAGES = Some (placed, pm') \<Longrightarrow> manager_step tidy pm pm'"
| step_reserve: "(tidy \<longrightarrow> va = 0) \<Longrightarrow> reserve_shared_memory_at pm pid page_count PROCESS_FRAME_TOTAL_PAGES va = Some (shared, pm') \<Longrightarrow> manager_step tidy pm pm'"
| step_recycle: "recycle_shared_memory pm pid reservation = Some pm' \<Longrightarrow> manager_step tidy pm pm'"

inductive manager_run :: "bool \<Rightarrow> process_manager \<Rightarrow> bool" for tidy where
  run_boot: "new_alpha root_node address_space pcb os_port root_slot_limit reserved online = Inr pm \<Longrightarrow> manager_run tidy pm"
| run_step: "manager_run tidy pm \<Longrightarrow> manager_step tidy pm pm' \<Longrightarrow> manager_run tidy pm'"

lemma neutral_calls:
  "allocate_affinity diagnostic pm = (affinity, pm') \<Longrightarrow> same_tables pm pm' \<and> same_slots pm pm'"
  "ensure_vm_space_for_pid pm pid = (res, pm') \<Longrightarrow> same_tables pm pm' \<and> same_slots pm pm'"
  "register_frame_chunk pm pid chunk_index = (res, pm') \<Longrightarrow> same_tables pm pm' \<and> same_slots pm pm'"
  "register_lazy_mapping pm pid base_va page_count start_slot kind = (res, pm') \<Longrightarrow> same_tables pm pm' \<and> same_slots pm pm'"
  "register_physical_allocation pm pid base_va start_slot base_page page_count = Some (res, pm') \<Longrightarrow> same_tables pm pm' \<and> same_slots pm pm'"
  "defer_physical_allocation_for_pid pm pid allocation = Some pm' \<Longrightarrow> same_tables pm pm' \<and> same_slots pm pm'"
  "take_deferred_physical_allocation pm pid base_va page_count = Some (taken, pm') \<Longrightarrow> same_tables pm pm' \<and> same_slots pm pm'"
  "drop_deferred_physical_allocations_for_pid pm pid = Some pm' \<Longrightarrow> same_tables pm pm' \<and> same_slots pm pm'"
  "release_physical_allocation_reference pm pid base_va page_count = Some (released, pm') \<Longrightarrow> same_tables pm pm' \<and> same_slots pm pm'"
  by (auto simp: allocate_affinity_def ensure_vm_space_for_pid_def register_frame_chunk_def register_lazy_mapping_def register_physical_allocation_def
    defer_physical_allocation_for_pid_def take_deferred_physical_allocation_def drop_deferred_physical_allocations_for_pid_def
    release_physical_allocation_reference_def same_tables_def same_slots_def Let_def split: if_splits sum.splits bind_splits)

lemma flag_calls:
  assumes inv: "manager_inv tidy pm"
  shows "set_platform_information_access pm pid allowed = (res, pm') \<Longrightarrow> manager_inv tidy pm'"
    "set_service_admin pm pid allowed = (res, pm') \<Longrightarrow> manager_inv tidy pm'"
    "quarantine_resources pm pid = (res, pm') \<Longrightarrow> manager_inv tidy pm'"
    "mark_exited pm pid is_ok exit_code = (res, pm') \<Longrightarrow> manager_inv tidy pm'"
    "share_address_space pm pid source = (res, pm') \<Longrightarrow> manager_inv tidy pm'"
  unfolding set_platform_information_access_def set_service_admin_def quarantine_resources_def mark_exited_def share_address_space_def Let_def
  by (erule modify_entry_keeps [OF inv, rotated]; simp add: same_devices_def)+

lemma updates_inv:
  assumes inv: "manager_inv tidy pm"
  shows "root_types_mut pm pid = Inr r \<Longrightarrow> manager_inv tidy (put_entry pm r ((entry_at pm r)\<lparr>pe_root_types := types\<rparr>))"
    "manager_inv tidy (defer_vm_reap pm pid)" "manager_inv tidy (pm\<lparr>pm_vm_spaces := spaces\<rparr>)" "manager_inv tidy (pm\<lparr>pm_alpha_vm_space := alpha_space\<rparr>)"
    "manager_inv tidy (drop_image_lazy_mappings_for_pid pm pid)"
proof -
  show "manager_inv tidy (put_entry pm r ((entry_at pm r)\<lparr>pe_root_types := types\<rparr>))" if "root_types_mut pm pid = Inr r"
    using that modify_entry_inv [OF inv, of "\<lambda>e. e\<lparr>pe_root_types := types\<rparr>"]
    by (auto simp: root_types_mut_def same_devices_def split: option.splits if_splits)
  show "manager_inv tidy (defer_vm_reap pm pid)"
    using modify_entry_inv [OF inv, of "\<lambda>e. e\<lparr>pe_deferred_vm_reap := True\<rparr>" pid] inv
    by (simp add: defer_vm_reap_def same_devices_def split: option.split)
qed (rule manager_inv_neutral [OF inv]; simp add: same_tables_def same_slots_def drop_image_lazy_mappings_for_pid_def)+

lemma device_calls:
  assumes inv: "manager_inv tidy pm"
  shows "assign_irq_to_pid pm pid irq = Some (res, pm') \<Longrightarrow> manager_inv tidy pm'" "unassign_irq_from_pid pm pid irq = Some (res, pm') \<Longrightarrow> manager_inv tidy pm'"
    "add_io_range_to_pid pm pid lo hi = Some (res, pm') \<Longrightarrow> manager_inv tidy pm'"
proof -
  note D = manager_invD(1) [OF inv] and d = device_change_inv [OF inv]
  show "assign_irq_to_pid pm pid irq = Some (res, pm') \<Longrightarrow> manager_inv tidy pm'" by (rule assign_irq_effect [OF D, of pid irq]) (use d in auto)
  show "unassign_irq_from_pid pm pid irq = Some (res, pm') \<Longrightarrow> manager_inv tidy pm'" by (rule unassign_irq_effect [OF D, of pid irq]) (use d in auto)
  show "add_io_range_to_pid pm pid lo hi = Some (res, pm') \<Longrightarrow> manager_inv tidy pm'" by (rule add_io_effect [OF D, of pid lo hi]) (use d in auto)
qed

lemma neutral_calls_inv:
  assumes "manager_inv tidy pm" and "same_tables pm pm' \<and> same_slots pm pm'"
  shows "manager_inv tidy pm'"
  using assms manager_inv_neutral by blast

lemmas call_invs =
  flag_calls device_calls alloc_slot_inv discard_inv reap_inv drop_allocations_inv heap_inv gap_inv heap_at_inv(2) recycle_shared_inv(2)
  neutral_calls(1-9) [THEN neutral_calls_inv [rotated], rotated]

lemma step_inv:
  assumes "manager_step tidy pm pm'" and inv: "manager_inv tidy pm"
  shows "manager_inv tidy pm'"
  using assms(1)
proof cases
  case step_install_image
  then show ?thesis using install_inv [OF inv _ _ _ fresh_room_callers(1)] by blast
next
  case step_install_thread
  then show ?thesis using install_inv [OF inv _ _ _ fresh_room_thread [OF inv]] by blast
next
  case step_reset_exec
  then show ?thesis using reset_inv [OF inv fresh_room_callers(1)] by blast
next
  case step_reset_drop
  then show ?thesis using reset_inv [OF inv fresh_room_callers(2)] by blast
next
  case (step_reserve va)
  then show ?thesis using reserve_inv(2) [OF inv] by blast
qed (erule call_invs [OF inv] | simp add: updates_inv [OF inv] release_slot_inv(1) [OF inv])+

end
