(* ===== verification/Manager_Properties.thy ===== *)
theory Manager_Properties
  imports Manager_Run
begin

text \<open>
  The properties of the process manager in every state its callers reach: well-formedness of the table,
  exclusive interrupts, fresh process ids and root slots, and the reservations of shared memory, with the run
  in which a fixed address makes the server panic.
\<close>

lemma boot_inv:
  assumes "new_alpha root_node address_space pcb os_port root_slot_limit reserved online = Inr pm"
  shows "manager_inv tidy pm"
proof -
  let ?e = "new_entry root_empty 0 0 0 root_node pcb address_space os_port 0 0 0 0 0"
  have pm: "pm_alpha_entry pm = ?e" "pm_entries pm = []" "pm_shared_memory pm = Map.empty" "pm_used_root_slots pm = []" "pm_next_pid pm = 1"
    using assms by (auto simp: new_alpha_def split: if_splits)
  have e: "pe_pid ?e = 0" "pe_used ?e" "entry_room tidy ?e" by (simp_all add: new_entry_def entry_room_def)
  have T: "table pm = [0 \<mapsto> ?e]" using pm e by (auto simp: table_def)
  have "table_wf pm" using pm e by (simp add: table_wf_def)
  then have "entries_inv pm" by (auto simp: entries_inv_def T new_entry_ok split: if_splits)
  moreover have "shared_inv tidy pm" using pm(3) e(3) by (simp add: shared_inv_def T)
  ultimately show ?thesis using pm by (simp add: manager_inv_def root_slots_inv_def T)
qed

lemma run_inv: "manager_run tidy pm \<Longrightarrow> manager_inv tidy pm"
  by (induction rule: manager_run.induct) (rule boot_inv, assumption, rule step_inv)

lemma run_entry:
  assumes "manager_run tidy pm" and "find_entry_by_pid pm pid = Some e"
  shows "table pm pid = Some e" "entry_ok e" "entry_room tidy e" "pe_pid e = pid" "pe_used e" "pid < pm_next_pid pm"
proof -
  note D = manager_invD [OF run_inv [OF assms(1)]]
  show T: "table pm pid = Some e" using assms(2) by (simp add: find_entry_table D(2))
  show "entry_ok e" using D(1) T by (simp add: entries_inv_def)
  show "entry_room tidy e" by (rule shared_invD(1) [OF D(3) T])
  show "pe_pid e = pid" "pe_used e" using table_Some [OF D(2) T] by simp_all
  show "pid < pm_next_pid pm" by (rule D(6) [OF T])
qed

section \<open>The table\<close>

text \<open>
  C19: The process manager is well formed in every state its callers reach. The vector of entries is strictly
  ascending in the process id, so that the binary searches find the entry of a process and nothing else; every
  entry found is in use and older than the next id; its interrupt and port tables keep their fixed sizes with the
  counts inside them, each port range is not empty, and its next frame slot is below \<open>2 ^ 53\<close> whatever image the
  process was given, so that adding a page count whose bytes fit a \<open>usize\<close> does not wrap; and the root slots handed
  out are distinct, within the limit and never reserved ones.
\<close>

theorem process_manager_well_formed:
  assumes "manager_run tidy pm"
  shows "(\<forall>pid e. find_entry_by_pid pm pid = Some e \<longleftrightarrow> e \<in> set (pm_alpha_entry pm # pm_entries pm) \<and> pe_pid e = pid) \<and>
    sorted_wrt (<) (map pe_pid (pm_alpha_entry pm # pm_entries pm)) \<and>
    (\<forall>pid e. find_entry_by_pid pm pid = Some e \<longrightarrow> pe_used e \<and> pid < pm_next_pid pm \<and>
       length (pe_irq_numbers e) = 8 \<and> pe_irq_count e \<le> 8 \<and> length (pe_io_ranges e) = 16 \<and> pe_io_range_count e \<le> 16 \<and>
       (\<forall>r \<in> set (take (pe_io_range_count e) (pe_io_ranges e)). io_min r \<le> io_max r) \<and> pe_next_frame_slot e < 2 ^ 53) \<and>
    distinct (pm_used_root_slots pm) \<and>
    (\<forall>s \<in> set (pm_used_root_slots pm). 200 \<le> s \<and> s < pm_root_slot_limit pm \<and> s \<notin> set (pm_reserved_root_slots pm))"
proof -
  note D = manager_invD [OF run_inv [OF assms]]
  have "find_entry_by_pid pm pid = Some e \<longleftrightarrow> e \<in> set (pm_alpha_entry pm # pm_entries pm) \<and> pe_pid e = pid" for pid e
    by (simp only: find_entry_table [OF D(2)] table_iff [OF D(2)])
  moreover have "sorted_wrt (<) (map pe_pid (pm_alpha_entry pm # pm_entries pm))" using D(2) by (simp only: table_wf_def)
  moreover have "pe_used e \<and> pid < pm_next_pid pm \<and>
       length (pe_irq_numbers e) = 8 \<and> pe_irq_count e \<le> 8 \<and> length (pe_io_ranges e) = 16 \<and> pe_io_range_count e \<le> 16 \<and>
       (\<forall>r \<in> set (take (pe_io_range_count e) (pe_io_ranges e)). io_min r \<le> io_max r) \<and> pe_next_frame_slot e < 2 ^ 53"
    if "find_entry_by_pid pm pid = Some e" for pid e
    using run_entry [OF assms that] by (simp add: entry_ok_def ports_def entry_room_def)
  moreover have "distinct (pm_used_root_slots pm)"
    "\<forall>s \<in> set (pm_used_root_slots pm). 200 \<le> s \<and> s < pm_root_slot_limit pm \<and> s \<notin> set (pm_reserved_root_slots pm)"
    using D(4) by (simp_all add: root_slots_inv_def PROCESS_ROOT_SLOT_BASE_def)
  ultimately show ?thesis by blast
qed

text \<open>
  C18: An interrupt belongs to one process at a time. In every state reached, two processes that both hold an
  interrupt number are the same process; the port ranges of a process do not overlap; and assigning an interrupt
  always returns, and when it reports success the process holds the interrupt.
\<close>

theorem interrupts_exclusive:
  assumes "manager_run tidy pm"
  shows "(\<forall>p q e f irq. find_entry_by_pid pm p = Some e \<longrightarrow> find_entry_by_pid pm q = Some f \<longrightarrow>
       has_irq_number e irq = Some True \<longrightarrow> has_irq_number f irq = Some True \<longrightarrow> p = q) \<and>
    (\<forall>p e i j. find_entry_by_pid pm p = Some e \<longrightarrow> i < j \<longrightarrow> j < pe_io_range_count e \<longrightarrow>
       io_max (pe_io_ranges e ! i) < io_min (pe_io_ranges e ! j) \<or> io_max (pe_io_ranges e ! j) < io_min (pe_io_ranges e ! i)) \<and>
    (\<forall>pid irq. \<exists>res pm'. assign_irq_to_pid pm pid irq = Some (res, pm') \<and>
       (res = Inr () \<longrightarrow> (\<exists>e. find_entry_by_pid pm' pid = Some e \<and> has_irq_number e irq = Some True)))"
proof -
  note D = manager_invD [OF run_inv [OF assms]]
  have "p = q" if "find_entry_by_pid pm p = Some e" "find_entry_by_pid pm q = Some f" "has_irq_number e irq = Some True" "has_irq_number f irq = Some True" for p q e f irq
  proof (rule ccontr)
    note e = run_entry [OF assms that(1)] and f = run_entry [OF assms that(2)]
    assume "p \<noteq> q"
    then have "held e \<inter> held f = {}" using D(1) e(1) f(1) by (simp add: entries_inv_def)
    then show False using that(3,4) has_irq_eq [OF e(2)] has_irq_eq [OF f(2)] by auto
  qed
  moreover have "io_max (pe_io_ranges e ! i) < io_min (pe_io_ranges e ! j) \<or> io_max (pe_io_ranges e ! j) < io_min (pe_io_ranges e ! i)"
    if "find_entry_by_pid pm p = Some e" "i < j" "j < pe_io_range_count e" for p e i j
  proof -
    have "sorted_wrt ports_apart (take (pe_io_range_count e) (pe_io_ranges e))" "pe_io_range_count e \<le> length (pe_io_ranges e)"
      using run_entry(2) [OF assms that(1)] by (simp_all add: entry_ok_def ports_def)
    then show ?thesis using sorted_wrt_nth_less [of ports_apart _ i j] that(2,3) by (fastforce simp: ports_apart_def)
  qed
  moreover have "\<exists>res pm'. assign_irq_to_pid pm pid irq = Some (res, pm') \<and>
       (res = Inr () \<longrightarrow> (\<exists>e. find_entry_by_pid pm' pid = Some e \<and> has_irq_number e irq = Some True))" for pid irq
  proof -
    obtain res pm' where a: "assign_irq_to_pid pm pid irq = Some (res, pm')" "entries_inv pm'"
      "res = Inr () \<longrightarrow> (\<exists>e. table pm' pid = Some e \<and> irq \<in> held e)"
      using assign_irq_effect [OF D(1), of pid irq] by metis
    have "has_irq_number e irq = Some True" if "table pm' pid = Some e" "irq \<in> held e" for e
      using has_irq_eq [of e] that a(2) by (auto simp: entries_inv_def)
    then show ?thesis using a find_entry_table [of pm' pid] by (auto simp: entries_inv_def)
  qed
  ultimately show ?thesis by blast
qed

text \<open>
  C20: Allocating a process slot, in every state reached. A success returns a process id that no entry has, namely
  the next one, and the lowest root slot from 200 on that is neither reserved nor in use, which is in use from then
  on; the search fails only when every such slot below the limit is taken or the process ids are exhausted.
\<close>

theorem alloc_slot_lowest_fresh:
  assumes "manager_run tidy pm" and "alloc_process_slot pm = (res, pm')"
  shows "case res of
      Inr (pid, slot) \<Rightarrow> find_entry_by_pid pm pid = None \<and> pid = pm_next_pid pm \<and> pm_next_pid pm' = pid + 1 \<and>
        200 \<le> slot \<and> slot < pm_root_slot_limit pm \<and> slot \<notin> set (pm_reserved_root_slots pm) \<union> set (pm_used_root_slots pm) \<and>
        (\<forall>t \<in> {200..<slot}. t \<in> set (pm_reserved_root_slots pm) \<union> set (pm_used_root_slots pm)) \<and>
        pm_used_root_slots pm' = pm_used_root_slots pm @ [slot]
    | Inl x \<Rightarrow> x = InvalidArgument \<and>
        (pm_next_pid pm + 1 \<ge> 2 ^ 64 \<or>
         (\<forall>t \<in> {200..<pm_root_slot_limit pm}. t \<in> set (pm_reserved_root_slots pm) \<union> set (pm_used_root_slots pm)))"
proof -
  note D = manager_invD [OF run_inv [OF assms(1)]]
  have fresh: "find_entry_by_pid pm (pm_next_pid pm) = None"
    using D(6) by (metis find_entry_table [OF D(2)] less_irrefl not_None_eq)
  consider "(res, pm') = (Inl InvalidArgument, pm)" "{200..<pm_root_slot_limit pm} \<subseteq> taken_slots pm"
    | s where "200 \<le> s" "s < pm_root_slot_limit pm" "s \<notin> taken_slots pm" "{200..<s} \<subseteq> taken_slots pm"
      "(res, pm') = (if pm_next_pid pm + 1 < 2 ^ 64
         then (Inr (pm_next_pid pm, s), pm\<lparr>pm_used_root_slots := pm_used_root_slots pm @ [s], pm_next_pid := pm_next_pid pm + 1\<rparr>)
         else (Inl InvalidArgument, pm\<lparr>pm_used_root_slots := pm_used_root_slots pm @ [s]\<rparr>))"
    using alloc_slot_from_eq [OF assms(2) [unfolded alloc_process_slot_def PROCESS_ROOT_SLOT_BASE_def]] by blast
  then show ?thesis
  proof cases
    case 1
    then show ?thesis by (auto simp: taken_slots_def)
  next
    case (2 s)
    then show ?thesis
    proof (cases "pm_next_pid pm + 1 < 2 ^ 64")
      case True
      then show ?thesis using 2 fresh by (simp add: taken_slots_def subset_iff)
    qed simp
  qed
qed

section \<open>Shared memory\<close>

text \<open>
  C15: Shared memory reservations never collide, fixed addresses included. In every state reached, two active
  reservations of an address space have disjoint virtual ranges and disjoint capability slots; the slots of an
  active reservation are below the next frame slot of the owner, and none of them is in the free ranges.
\<close>

theorem reservations_disjoint:
  assumes "manager_run tidy pm" and "pm_shared_memory pm pid = Some sp" and "i < length (ss_active sp)" and "r = snd (ss_active sp ! i)"
  shows "(\<forall>j < length (ss_active sp). j \<noteq> i \<longrightarrow> (let q = snd (ss_active sp ! j) in
       {rs_base_va r..<rs_base_va r + rs_page_count r * 4096} \<inter> {rs_base_va q..<rs_base_va q + rs_page_count q * 4096} = {} \<and>
       {rs_start_slot r..<rs_start_slot r + rs_page_count r} \<inter> {rs_start_slot q..<rs_start_slot q + rs_page_count q} = {})) \<and>
    (\<exists>e. find_entry_by_pid pm pid = Some e \<and> rs_start_slot r + rs_page_count r \<le> pe_next_frame_slot e) \<and>
    rs_base_va r + rs_page_count r * 4096 < 2 ^ 64 \<and> 0 < rs_page_count r \<and> 0 < rs_base_va r \<and>
    {rs_start_slot r..<rs_start_slot r + rs_page_count r} \<inter> units (ss_slots sp) = {}"
proof -
  note D = manager_invD [OF run_inv [OF assms(1)]]
  obtain e where e: "table pm pid = Some e" "space_ok tidy e sp" using D(3) assms(2) unfolding shared_inv_def by blast
  note S = space_safeD [OF conjunct1 [OF e(2) [unfolded space_ok_def]]]
  have ok: "res_ok (pe_next_frame_slot e) (ss_active sp ! k)" if "k < length (ss_active sp)" for k using S(4) that by auto
  have "let q = snd (ss_active sp ! j) in
       {rs_base_va r..<rs_base_va r + rs_page_count r * 4096} \<inter> {rs_base_va q..<rs_base_va q + rs_page_count q * 4096} = {} \<and>
       {rs_start_slot r..<rs_start_slot r + rs_page_count r} \<inter> {rs_start_slot q..<rs_start_slot q + rs_page_count q} = {}"
    if j: "j < length (ss_active sp)" "j \<noteq> i" for j
  proof -
    have "res_apart (ss_active sp ! i) (ss_active sp ! j) \<or> res_apart (ss_active sp ! j) (ss_active sp ! i)"
      using sorted_wrt_nth_less [OF S(3)] assms(3) j by (meson linorder_neqE_nat)
    then show ?thesis using ok [OF assms(3)] ok [OF j(1)] by (auto simp: assms(4) Let_def res_apart_def res_ok_def res_end_def slots_of_def)
  qed
  moreover have "find_entry_by_pid pm pid = Some e" using e(1) by (simp add: find_entry_table D(2))
  moreover have "{rs_start_slot r..<rs_start_slot r + rs_page_count r} \<inter> units (ss_slots sp) = {}"
    using S(5) assms(3,4) nth_mem unfolding slots_of_def by blast
  ultimately show ?thesis using ok [OF assms(3)] by (auto simp: assms(4) res_ok_def res_end_def)
qed

text \<open>
  C16: Without fixed addresses the bookkeeping of shared memory never fails. In every state reached by callers that
  leave the address to the manager, reserving returns and never reports a collision, giving back an active
  reservation returns, and placing heap pages at an address returns: no \<open>unwrap\<close> or \<open>assert\<close> of the free
  ranges fails and no loop runs for ever.
\<close>

theorem shared_memory_never_panics:
  assumes "manager_run True pm"
  shows "(\<exists>res pm'. reserve_shared_memory pm pid page_count PROCESS_FRAME_TOTAL_PAGES = Some (res, pm') \<and> res \<noteq> Inl IllegalOperation) \<and>
    (\<forall>r. shared_memory_reservation_of pm pid (rs_base_va r) (rs_page_count r) = Some r \<longrightarrow> (\<exists>pm'. recycle_shared_memory pm pid r = Some pm')) \<and>
    (\<exists>res pm'. reserve_process_heap_at pm pid base_va page_count USER_PAGE_SIZE PROCESS_FRAME_TOTAL_PAGES = Some (res, pm'))"
proof -
  note inv = run_inv [OF assms]
  show ?thesis
    using reserve_inv(1) [OF inv, of 0 pid page_count] recycle_shared_inv(1) [OF inv, of pid] heap_at_inv(1) [OF inv, of pid base_va page_count]
    by (auto simp: reserve_shared_memory_def)
qed

section \<open>A concrete run\<close>

text \<open>An image of one page at \<open>4 MiB\<close>, and the manager with one process, whose next frame slot and heap watermark and spaces are given.\<close>

definition demo_image :: elf_image where
  "demo_image = elf_image_empty\<lparr>ei_segments := [\<lparr>ls_offset = 0, ls_virtual_address = 4194304, ls_file_size = 0, ls_memory_size = 100\<rparr>], ei_segment_count := 1\<rparr>"

lemma demo_image_layout: "process_layout demo_image = Some (Inr (65, 268435456))"
proof -
  have "align_down 4194304 IMAGE_PAGE_SIZE = 4194304" "align_up 4194404 IMAGE_PAGE_SIZE = 4198400" "align_up 268435456 IMAGE_PAGE_SIZE = 268435456"
    using and_high_bits [of 4194304 12] and_high_bits [of 4198499 12] and_high_bits [of 268439551 12]
    by (simp_all add: align_down_def align_up_def IMAGE_PAGE_SIZE_def usize_limit_def)
  then show ?thesis
    by (simp add: process_layout_def demo_image_def image_span.simps wrapping_add_def usize_limit_def USER_ANONYMOUS_MAP_BASE_def USER_STACK_PAGES_def IMAGE_PAGE_SIZE_def)
qed

definition demo_entry :: "nat \<Rightarrow> nat \<Rightarrow> process_entry" where
  "demo_entry next heap = new_entry root_native 1 0 200 0 0 0 0 0 0 next heap 1879048192"

definition demo :: "nat \<Rightarrow> nat \<Rightarrow> (nat \<rightharpoonup> shared_memory_space) \<Rightarrow> process_manager" where
  "demo next heap spaces =
    \<lparr>pm_alpha_entry = new_entry root_empty 0 0 0 0 0 0 0 0 0 0 0 0, pm_alpha_vm_space = bootstrap_new, pm_next_pid = 2, pm_online_core_count = 1,
     pm_next_affinity = 0, pm_root_slot_limit = 210, pm_reserved_root_slots = [], pm_entries = [demo_entry next heap], pm_used_root_slots = [200],
     pm_vm_spaces = [], pm_frame_chunks = [], pm_physical_allocations = allocations_new, pm_deferred_allocations = allocations_new,
     pm_shared_memory = spaces, pm_lazy_mappings = []\<rparr>"

definition demo_space :: "(nat \<times> nat) list \<Rightarrow> (nat \<times> nat) list \<Rightarrow> (nat \<times> nat) list \<Rightarrow> (nat \<times> nat) list \<Rightarrow> (nat \<times> nat \<times> nat) list \<Rightarrow> shared_memory_space" where
  "demo_space slots slots_by_size pages pages_by_size active =
    \<lparr>ss_slots = \<lparr>fr_by_address = slots, fr_by_size = slots_by_size\<rparr>, ss_pages = \<lparr>fr_by_address = pages, fr_by_size = pages_by_size\<rparr>,
     ss_active = map (\<lambda>(va, slot, c). (va, \<lparr>rs_base_va = va, rs_start_slot = slot, rs_page_count = c\<rparr>)) active\<rparr>"

lemma demo_entry_simps [simp]:
  "pe_pid (demo_entry n h) = 1" "pe_used (demo_entry n h)" "pe_memory_owner (demo_entry n h) = 1" "pe_next_frame_slot (demo_entry n h) = n"
  "pe_user_heap_next_va (demo_entry n h) = h" "pe_user_heap_limit_va (demo_entry n h) = 1879048192"
  "(demo_entry n h)\<lparr>pe_next_frame_slot := n'\<rparr> = demo_entry n' h" "(demo_entry n h)\<lparr>pe_user_heap_next_va := h'\<rparr> = demo_entry n h'"
  by (simp_all add: demo_entry_def new_entry_def)

lemma demo_simps [simp]:
  "find_entry_by_pid (demo n h m) 1 = Some (demo_entry n h)" "entry_mut_by_pid (demo n h m) 1 = Some (EntryAt 0)"
  "memory_owner_pid (demo n h m) 1 = 1" "pm_shared_memory (demo n h m) = m" "(demo n h m)\<lparr>pm_shared_memory := m'\<rparr> = demo n h m'"
  "pm_entries (demo n h m) = [demo_entry n h]" "(demo n h m)\<lparr>pm_entries := [demo_entry n' h']\<rparr> = demo n' h' m"
  by (simp_all add: demo_def find_entry_by_pid_def entry_mut_by_pid_def memory_owner_pid_def binary_search_by_key_def new_entry_def)

lemma demo_start: "manager_run tidy (demo 65 268435456 Map.empty)"
proof -
  obtain pm0 where 0: "new_alpha 0 0 0 0 210 [] 1 = Inr pm0" "pm0 = (demo 0 0 Map.empty)\<lparr>pm_entries := [], pm_next_pid := 1, pm_used_root_slots := []\<rparr>"
    by (simp add: new_alpha_def A9N_CPU_COUNT_MAX_def demo_def)
  have "alloc_process_slot pm0 = (Inr (1, 200), (demo 0 0 Map.empty)\<lparr>pm_entries := []\<rparr>)"
    unfolding alloc_process_slot_def PROCESS_ROOT_SLOT_BASE_def 0(2) by (subst alloc_slot_step) (simp add: taken_slots_def demo_def)
  then have 1: "manager_run tidy ((demo 0 0 Map.empty)\<lparr>pm_entries := []\<rparr>)" (is "manager_run tidy ?pm1") by (intro run_step [OF run_boot [OF 0(1)] step_alloc])
  have "install_process ?pm1 1 0 200 0 0 0 0 0 0 65 268435456 USER_HEAP_LIMIT = (Inr (), demo 65 268435456 Map.empty)"
    by (simp add: install_process_def binary_search_by_key_def vec_insert_def demo_def demo_entry_def Let_def USER_HEAP_LIMIT_def)
  then show ?thesis
    by (intro run_step [OF 1 step_install_image [OF _ _ _ demo_image_layout]])
      (simp_all add: demo_def find_entry_by_pid_def binary_search_by_key_def)
qed

lemmas demo_eval =
  reserve_shared_memory_at_def recycle_shared_memory_def shared_memory_reservation_of_def demo_space_def shared_space_default_def fr_default_def Let_def USER_PAGE_SIZE_def
  PROCESS_FRAME_TOTAL_PAGES_def checked_add_def checked_mul_def usize_limit_def active_overlap_def take_pages_def fr_find_def fr_take_def fr_insert_def
  fr_remove_def merge_below_def merge_above_def btree_below_def btree_from_def btree_insert_def btree_remove_def bset_insert_def
  wrapping_add_def wrapping_mul_def

lemma exclude_empty: "fr_exclude \<lparr>fr_by_address = [], fr_by_size = []\<rparr> s c = Some \<lparr>fr_by_address = [], fr_by_size = []\<rparr>"
  by (simp add: fr_exclude_def exclude_loop.simps btree_below_def)

lemma demo_reserve:
  "reserve_shared_memory_at (demo 65 268435456 Map.empty) 1 1 PROCESS_FRAME_TOTAL_PAGES 0 =
     Some (Inr \<lparr>rs_base_va = 268435456, rs_start_slot = 65, rs_page_count = 1\<rparr>, demo 66 268439552 [1 \<mapsto> demo_space [] [] [] [] [(268435456, 65, 1)]])"
  "reserve_shared_memory_at (demo 66 268439552 [1 \<mapsto> demo_space [] [] [] [] [(268435456, 65, 1)]]) 1 1 PROCESS_FRAME_TOTAL_PAGES 0 =
     Some (Inr \<lparr>rs_base_va = 268439552, rs_start_slot = 66, rs_page_count = 1\<rparr>, demo 67 268443648 [1 \<mapsto> demo_space [] [] [] [] [(268435456, 65, 1), (268439552, 66, 1)]])"
  by (simp_all add: demo_eval del: One_nat_def)

lemma demo_fixed:
  "reserve_shared_memory_at (demo 66 268439552 [1 \<mapsto> demo_space [] [] [] [] [(268435456, 65, 1)]]) 1 1 PROCESS_FRAME_TOTAL_PAGES 268439552 =
     Some (Inr \<lparr>rs_base_va = 268439552, rs_start_slot = 66, rs_page_count = 1\<rparr>, demo 67 268439552 [1 \<mapsto> demo_space [] [] [] [] [(268435456, 65, 1), (268439552, 66, 1)]])"
  "recycle_shared_memory (demo 67 268439552 [1 \<mapsto> demo_space [] [] [] [] [(268435456, 65, 1), (268439552, 66, 1)]]) 1 \<lparr>rs_base_va = 268439552, rs_start_slot = 66, rs_page_count = 1\<rparr> =
     Some (demo 67 268439552 [1 \<mapsto> demo_space [(66, 1)] [(1, 66)] [(65537, 1)] [(1, 65537)] [(268435456, 65, 1)]])"
  "reserve_shared_memory_at (demo 67 268439552 [1 \<mapsto> demo_space [(66, 1)] [(1, 66)] [(65537, 1)] [(1, 65537)] [(268435456, 65, 1)]]) 1 2 PROCESS_FRAME_TOTAL_PAGES 0 =
     Some (Inr \<lparr>rs_base_va = 268439552, rs_start_slot = 67, rs_page_count = 2\<rparr>, demo 69 268447744 [1 \<mapsto> demo_space [(66, 1)] [(1, 66)] [(65537, 1)] [(1, 65537)] [(268435456, 65, 1), (268439552, 67, 2)]])"
  "recycle_shared_memory (demo 69 268447744 [1 \<mapsto> demo_space [(66, 1)] [(1, 66)] [(65537, 1)] [(1, 65537)] [(268435456, 65, 1), (268439552, 67, 2)]]) 1 \<lparr>rs_base_va = 268439552, rs_start_slot = 67, rs_page_count = 2\<rparr> =
     Some (demo 69 268447744 [1 \<mapsto> demo_space [(66, 3)] [(3, 66)] [(65537, 2)] [(1, 65537), (2, 65537)] [(268435456, 65, 1)]])"
  "recycle_shared_memory (demo 69 268447744 [1 \<mapsto> demo_space [(66, 3)] [(3, 66)] [(65537, 2)] [(1, 65537), (2, 65537)] [(268435456, 65, 1)]]) 1 \<lparr>rs_base_va = 268435456, rs_start_slot = 65, rs_page_count = 1\<rparr> =
     Some (demo 69 268447744 [1 \<mapsto> demo_space [(65, 4)] [(4, 65)] [(65536, 3)] [(1, 65537), (3, 65536)] []])"
  "reserve_shared_memory_at (demo 69 268447744 [1 \<mapsto> demo_space [(65, 4)] [(4, 65)] [(65536, 3)] [(1, 65537), (3, 65536)] []]) 1 1 PROCESS_FRAME_TOTAL_PAGES 0 = None"
  by (simp_all add: demo_eval exclude_empty del: One_nat_def)

text \<open>
  C17: A fixed address can make the server panic. There is a run of the manager in which a process reserves a page,
  is given the page above it at a fixed address and gives that back, reserves two pages (taken from the heap, over
  the page that is still listed as free), and gives everything back; the next reservation of one page finds the
  stale entry of the free list, and the \<open>unwrap\<close> on taking it fails.
\<close>

theorem fixed_address_panics:
  "\<exists>pm. manager_run False pm \<and> reserve_shared_memory pm 1 1 PROCESS_FRAME_TOTAL_PAGES = None"
proof -
  have "manager_run False (demo 66 268439552 [1 \<mapsto> demo_space [] [] [] [] [(268435456, 65, 1)]])"
    by (rule run_step [OF demo_start step_reserve [OF _ demo_reserve(1)]]) simp
  then have "manager_run False (demo 67 268439552 [1 \<mapsto> demo_space [] [] [] [] [(268435456, 65, 1), (268439552, 66, 1)]])"
    by (rule run_step [OF _ step_reserve [OF _ demo_fixed(1)]]) simp
  then have "manager_run False (demo 67 268439552 [1 \<mapsto> demo_space [(66, 1)] [(1, 66)] [(65537, 1)] [(1, 65537)] [(268435456, 65, 1)]])"
    by (rule run_step [OF _ step_recycle [OF demo_fixed(2)]])
  then have "manager_run False (demo 69 268447744 [1 \<mapsto> demo_space [(66, 1)] [(1, 66)] [(65537, 1)] [(1, 65537)] [(268435456, 65, 1), (268439552, 67, 2)]])"
    by (rule run_step [OF _ step_reserve [OF _ demo_fixed(3)]]) simp
  then have "manager_run False (demo 69 268447744 [1 \<mapsto> demo_space [(66, 3)] [(3, 66)] [(65537, 2)] [(1, 65537), (2, 65537)] [(268435456, 65, 1)]])"
    by (rule run_step [OF _ step_recycle [OF demo_fixed(4)]])
  then have "manager_run False (demo 69 268447744 [1 \<mapsto> demo_space [(65, 4)] [(4, 65)] [(65536, 3)] [(1, 65537), (3, 65536)] []])"
    by (rule run_step [OF _ step_recycle [OF demo_fixed(5)]])
  then show ?thesis unfolding reserve_shared_memory_def using demo_fixed(6) by blast
qed

section \<open>Witnesses\<close>

lemma demo_run: "manager_run tidy (demo 67 268443648 [1 \<mapsto> demo_space [] [] [] [] [(268435456, 65, 1), (268439552, 66, 1)]])"
  using run_step [OF run_step [OF demo_start step_reserve [OF _ demo_reserve(1)]] step_reserve [OF _ demo_reserve(2)]] by simp

theorem process_manager_well_formed_witness:
  "pe_used (demo_entry 65 268435456) \<and> length (pe_irq_numbers (demo_entry 65 268435456)) = 8 \<and> sorted_wrt (<) (map pe_pid (pm_alpha_entry (demo 65 268435456 Map.empty) # pm_entries (demo 65 268435456 Map.empty)))"
  using process_manager_well_formed [OF demo_start [of True]] demo_simps(1) [of 65 268435456 Map.empty] by blast

theorem interrupts_exclusive_witness:
  "\<exists>res pm'. assign_irq_to_pid (demo 65 268435456 Map.empty) 1 5 = Some (res, pm') \<and> (res \<noteq> Inr () \<or> (\<exists>e. find_entry_by_pid pm' 1 = Some e \<and> has_irq_number e 5 = Some True))"
  using interrupts_exclusive [OF demo_start [of True]] by blast

theorem alloc_slot_lowest_fresh_witness:
  "\<exists>pm'. alloc_process_slot (demo 65 268435456 Map.empty) = (Inr (2, 201), pm') \<and> find_entry_by_pid (demo 65 268435456 Map.empty) 2 = None \<and> pm_used_root_slots pm' = [200, 201]"
proof -
  have "alloc_process_slot (demo 65 268435456 Map.empty) = (Inr (2, 201), (demo 65 268435456 Map.empty)\<lparr>pm_used_root_slots := [200, 201], pm_next_pid := 3\<rparr>)" (is "_ = (_, ?pm)")
    unfolding alloc_process_slot_def PROCESS_ROOT_SLOT_BASE_def
    by (subst alloc_slot_step, simp add: taken_slots_def demo_def, subst alloc_slot_step, simp add: taken_slots_def demo_def)
  from this alloc_slot_lowest_fresh [OF demo_start [of True] this] show ?thesis by (simp add: demo_def)
qed

theorem reservations_disjoint_witness:
  "{268435456..<268435456 + 1 * 4096} \<inter> {268439552..<268439552 + 1 * 4096} = ({} :: nat set) \<and>
   (\<exists>e. find_entry_by_pid (demo 67 268443648 [1 \<mapsto> demo_space [] [] [] [] [(268435456, 65, 1), (268439552, 66, 1)]]) 1 = Some e \<and> 65 + 1 \<le> pe_next_frame_slot e)"
proof -
  let ?sp = "demo_space [] [] [] [] [(268435456, 65, 1), (268439552, 66, 1)]"
  have "ss_active ?sp ! 0 = (268435456, \<lparr>rs_base_va = 268435456, rs_start_slot = 65, rs_page_count = 1\<rparr>)"
    "ss_active ?sp ! 1 = (268439552, \<lparr>rs_base_va = 268439552, rs_start_slot = 66, rs_page_count = 1\<rparr>)" "length (ss_active ?sp) = 2"
    by (simp_all add: demo_space_def)
  with reservations_disjoint [OF demo_run [of True], of 1 ?sp 0 "\<lparr>rs_base_va = 268435456, rs_start_slot = 65, rs_page_count = 1\<rparr>"]
  show ?thesis by (simp add: Let_def del: One_nat_def)
qed

theorem shared_memory_never_panics_witness:
  "\<exists>res pm'. reserve_shared_memory (demo 67 268443648 [1 \<mapsto> demo_space [] [] [] [] [(268435456, 65, 1), (268439552, 66, 1)]]) 1 3 PROCESS_FRAME_TOTAL_PAGES = Some (res, pm') \<and>
     res \<noteq> Inl IllegalOperation"
  using shared_memory_never_panics [OF demo_run] by blast

end
