(* ===== verification/Spec2Isabelle.thy ===== *)
theory Spec2Isabelle imports
  Nanami_Prelude
  Avl_Tree
  Service_Protocol
  Bindings_Properties
  Physical_Spec
  Service_Registry
  Service_Events
  Session_Buffers
  Vm_Space
  Physical_Allocations
  Cpio
  Manager_Properties
begin

text \<open>
  \<^bold>\<open>A verification library for the root server of the Nanami operating system.\<close>

  Nanami runs in user space on the A9N microkernel. Its root server, Alpha (\<open>src/nanami/src\<close>), owns all memory
  and all capabilities and serves every other process: it hands out physical pages, keeps the table of processes and
  what backs their address spaces, loads programs, and connects clients to services whose provider can be exchanged
  while sessions stay open. Requests arrive over IPC; a handler of \<open>nanami_core/alpha/\<close> checks them, calls the
  managers modelled here and performs kernel calls. The library models the managers and data structures behind the
  handlers, each in a theory of its own, and proves what the handlers rely on.

  \<^bold>\<open>Conventions.\<close> \<open>Nanami_Prelude\<close> has the shared vocabulary. A \<open>usize\<close> is a 64 bit word where the code keeps it as
  an identifier or address it only compares or masks, and a natural number with \<open>checked_add\<close>, \<open>wrapping_add\<close> and the
  like written out where it computes with it; the wrap-around is that of a release build. A \<open>Result\<close> is a sum with
  the error on the left; a panic, an index out of bounds and a loop that does not end are \<open>None\<close>, so that a theorem
  that an operation returns \<open>Some\<close> excludes all three. Kernel calls and closures passed in by a caller are functions
  on an arbitrary world \<open>'w\<close>. Vectors are lists, \<open>BTreeMap\<close> is an ascending association list, \<open>HashMap\<close> and
  lookup tables keyed by identifiers are partial maps. A definition carries the name of the function it translates,
  with a prefix where the plain name is taken.

  \<^bold>\<open>Ordered maps.\<close> \<open>Avl_Tree\<close> is \<open>nanami_utils/avl.rs\<close> and \<open>Static_Avl\<close> is \<open>nanami_utils/static_avl.rs\<close>, the same
  tree in a fixed array of nodes with a free list of indices. Both keep the balance invariant, never panic, and answer
  every sequence of operations as a finite map does; the array tree as a map of bounded size. They interpret the
  locale \<open>word_map\<close>. The operations of \<open>Avl_Tree\<close> are also given with \<open>i16\<close> heights and shown never to overflow, since a
  balanced tree of such a height has more nodes than there are keys.

  \<^bold>\<open>Services.\<close> \<open>Service_Protocol\<close> is the part of \<open>uapi/src/service.rs\<close> with a word encoding. \<open>Bindings\<close> is
  \<open>communication/bindings.rs\<close>, the ledger of providers, services and sessions with the handover in four phases
  (prepare, quiesce, acknowledge, commit). \<open>Bindings_Invariant\<close> has the invariant and the steps of the ledger,
  \<open>Bindings_Properties\<close> the promises: a handover completes, only a commit changes the provider, a provider is bound
  once, no operation panics, a recoverable error changes nothing, sessions are never reused or overcharged, and the
  state word decodes. \<open>Service_Registry\<close> is \<open>communication/services.rs\<close> with the chunked description protocol and
  its decoder in \<open>nanami-runtime\<close>. \<open>Service_Events\<close> is \<open>communication/events.rs\<close>; its runs follow an event protocol
  given as a step relation. \<open>Session_Buffers\<close> is \<open>communication/buffers.rs\<close>; over every run each mapping
  that may exist is one the table accounts for, and an installation moves all buffers of a service or, unless it
  fails with \<open>Fatal\<close>, takes back every mapping it made.

  \<^bold>\<open>Physical memory.\<close> \<open>Buddy_Pool\<close> and \<open>Physical_Allocator\<close> are \<open>physical_allocator.rs\<close>. \<open>Buddy_Pages\<close> shows what a
  pool does as operations on a set of free pages (the locale \<open>page_pool\<close>, interpreted on the pool), and
  \<open>Physical_Spec\<close> refines the allocator to that specification: every page has at most one owner in every reachable
  state, and each operation succeeds exactly when the specification allows it, with the one exception that
  \<open>free_oversize_accepted\<close> records: the page count of a size above \<open>2 ^ 64 - 4096\<close> wraps, and \<open>free\<close> accepts it. Addresses are assumed below \<open>2 ^ 63\<close>,
  which the 52 physical address bits of the supported machines satisfy.

  \<^bold>\<open>Processes.\<close> \<open>Process_Manager\<close> is \<open>process.rs\<close> with the methods of \<open>process/shared_memory.rs\<close>, over the tables
  in theories of their own: \<open>Root_Slots\<close> (\<open>process/root_slots.rs\<close>, two bits per slot), \<open>Free_Ranges\<close> (the free ranges
  of \<open>process/shared_memory.rs\<close>, shown to be an exact best fit allocator, with the exact condition under which its
  loop ends), \<open>Hash_Index\<close> and \<open>Physical_Allocations\<close> (\<open>process/physical_allocations.rs\<close>: open addressing with
  backward shift deletion, refined to a finite map by the locale \<open>key_index\<close>, and linked lists per process, refined
  to a log), and \<open>Vm_Space\<close> (\<open>vm_space.rs\<close>, two trackers behind the locale \<open>vm_tracker\<close>). \<open>Process_Table\<close> views the
  vector of entries as a map and gives the invariant of interrupts and ports; \<open>Shared_Memory\<close> gives two invariants of
  the reservations of a process, one for every use and one for uses without fixed addresses; \<open>Manager_Run\<close> lists
  the calls on the manager as a step relation, with the arguments the handlers compute (\<open>Process_Image\<close>: the frames and
  the heap of an ELF image, from \<open>alpha/process_requests.rs\<close>), and shows that all of them keep the invariant; \<open>Manager_Properties\<close>
  states the consequences, and the concrete run in which a fixed address leads to a panic.

  \<^bold>\<open>Programs.\<close> \<open>Elf_Loader\<close> is \<open>elf_loader.rs\<close> byte for byte, for both targets; the parser equals a reference on
  lists of header fields, and what it accepts lies in the image. \<open>Cpio\<close> is \<open>cpio.rs\<close>,
  which reads the initial archive, and \<open>xtask/src/cpio.rs\<close>, which writes it: the reader visits exactly the files that
  were written, the lookup returns the one file that the requested path selects, and on any slice, which has fewer
  than \<open>2 ^ 63\<close> bytes, it returns.

  \<^bold>\<open>Bounds and fuel.\<close> No definition takes fuel. Loops over tables are structural or have a termination proof; loops that
  could run for ever (probing, list walks, rebalancing in the array tree, \<open>exclude\<close>, the walk of an archive) are partial
  functions into \<open>option\<close>, and the theorems show that they return. The hash index is assumed to hold fewer than \<open>2 ^ 60\<close> entries and
  the nodes of the allocation lists are bounded likewise; \<open>usize\<close> arithmetic does not reach these sizes.

  \<^bold>\<open>Not modelled.\<close> The request handlers of \<open>nanami_core/alpha/\<close> interleave the managers with kernel calls; they appear
  as the steps of \<open>manager_step\<close> and as the effects of the ledger, the events and the buffers, not line by line, but
  for the layout of an image. The
  memory manager (\<open>memory.rs\<close>) and the boot of Alpha are sequences of capability conversions whose meaning is that of
  the kernel and of the \<open>nun\<close> runtime, which are not part of the repository. The servers, drivers, desktop, network
  stack, file system and ABI personalities under \<open>src/nanami/servers\<close> are processes of their own that the root server
  does not depend on. Concurrency is not modelled because Alpha handles one request at a time.
\<close>

end
